(* ===== verification/Prelude.thy ===== *)
theory Prelude
  imports Complex_Main "HOL-Library.Sublist"
begin

text \<open>
  Shared vocabulary of the development: JavaScript strings and the string operations of the
  standard library that the modelled code uses.

  A JavaScript string is a sequence of UTF-16 code units. The model uses HOL's \<open>string\<close>, a list of
  8-bit characters, one per code unit, so it speaks about the strings whose code units are below
  256 (Latin-1). On these, \<open>to_lower\<close> is \<open>String.prototype.toLowerCase\<close>, \<open>is_space\<close> is the
  regular-expression class \<open>\s\<close> and \<open>utf8_length\<close> is the UTF-8 byte length. \<open>prefix p s\<close>,
  \<open>suffix p s\<close> and \<open>sublist p s\<close> of \<open>HOL-Library.Sublist\<close> are \<open>s.startsWith(p)\<close>,
  \<open>s.endsWith(p)\<close> and \<open>s.includes(p)\<close>.
\<close>

named_theorems js_string \<open>facts about the string operations\<close>

subsection \<open>Character classes\<close>

abbreviation (input) newline_char :: char where "newline_char \<equiv> CHR 0x0A"
abbreviation (input) dquote :: char where "dquote \<equiv> CHR 0x22"
abbreviation (input) squote :: char where "squote \<equiv> CHR 0x27"
abbreviation (input) backslash :: char where "backslash \<equiv> CHR 0x5C"

definition is_space :: "char \<Rightarrow> bool" where
  "is_space c \<longleftrightarrow>
     c \<in> {CHR 0x09, CHR 0x0A, CHR 0x0B, CHR 0x0C, CHR 0x0D, CHR 0x20, CHR 0xA0}"

definition digits10 :: string where "digits10 = ''0123456789''"
definition lower26 :: string where "lower26 = ''abcdefghijklmnopqrstuvwxyz''"
definition upper26 :: string where "upper26 = ''ABCDEFGHIJKLMNOPQRSTUVWXYZ''"

definition is_digit :: "char \<Rightarrow> bool" where "is_digit c \<longleftrightarrow> c \<in> set digits10"
definition is_lower :: "char \<Rightarrow> bool" where "is_lower c \<longleftrightarrow> c \<in> set lower26"
definition is_alpha :: "char \<Rightarrow> bool" where "is_alpha c \<longleftrightarrow> c \<in> set lower26 \<or> c \<in> set upper26"

text \<open>The class \<open>\w\<close>: ASCII letters, digits and the underscore.\<close>

definition is_word :: "char \<Rightarrow> bool" where
  "is_word c \<longleftrightarrow> is_alpha c \<or> is_digit c \<or> c = CHR ''_''"

definition is_hex :: "char \<Rightarrow> bool" where "is_hex c \<longleftrightarrow> is_digit c \<or> c \<in> set ''abcdef''"

subsection \<open>Lower case\<close>

definition lower_char :: "char \<Rightarrow> char" where
  "lower_char c =
     (let n = of_char c :: nat in
      if (65 \<le> n \<and> n \<le> 90) \<or> (192 \<le> n \<and> n \<le> 222 \<and> n \<noteq> 215) then char_of (n + 32) else c)"

definition to_lower :: "string \<Rightarrow> string" where "to_lower s = map lower_char s"

text \<open>On the bits of a character: the lower-case letter differs in one bit. Also the code equation.\<close>

lemma lower_char_Char [simp, code]:
  "lower_char (Char b0 b1 b2 b3 b4 b5 b6 b7) =
     (if b6 \<and> \<not> b5 \<and>
         (if b7 then \<not> (b4 \<and> b2 \<and> b1 \<and> b0)
          else (b0 \<or> b1 \<or> b2 \<or> b3 \<or> b4) \<and> \<not> (b4 \<and> b3 \<and> (b2 \<or> b1 \<and> b0)))
      then Char b0 b1 b2 b3 b4 True b6 b7 else Char b0 b1 b2 b3 b4 b5 b6 b7)"
proof -
  have "(of_char (lower_char (Char b0 b1 b2 b3 b4 b5 b6 b7)) :: nat) =
     of_char (if b6 \<and> \<not> b5 \<and>
         (if b7 then \<not> (b4 \<and> b2 \<and> b1 \<and> b0)
          else (b0 \<or> b1 \<or> b2 \<or> b3 \<or> b4) \<and> \<not> (b4 \<and> b3 \<and> (b2 \<or> b1 \<and> b0)))
      then Char b0 b1 b2 b3 b4 True b6 b7 else Char b0 b1 b2 b3 b4 b5 b6 b7)"
    unfolding lower_char_def Let_def
    by (cases b0; cases b1; cases b2; cases b3; cases b4; cases b5; cases b6; cases b7) simp_all
  then show ?thesis by (simp only: of_char_eq_iff)
qed

lemma length_to_lower [simp]: "length (to_lower s) = length s"
  by (simp add: to_lower_def)

lemma to_lower_Nil [simp]: "to_lower [] = []"
  by (simp add: to_lower_def)

lemma to_lower_eq_Nil [simp]: "to_lower s = [] \<longleftrightarrow> s = []"
  by (simp add: to_lower_def)

lemma lower_char_idem [simp]: "lower_char (lower_char c) = lower_char c"
proof -
  have n: "of_char c < (256 :: nat)" by simp
  show ?thesis
    using n by (auto simp: lower_char_def Let_def)
qed

lemma to_lower_idem [simp]: "to_lower (to_lower s) = to_lower s"
  by (simp add: to_lower_def)

subsection \<open>Searching, slicing and splitting\<close>

text \<open>\<open>s.indexOf(p)\<close>; \<open>None\<close> is JavaScript's \<open>-1\<close>.\<close>

fun index_of :: "string \<Rightarrow> string \<Rightarrow> nat option" where
  "index_of p [] = (if p = [] then Some 0 else None)"
| "index_of p (c # cs) =
     (if prefix p (c # cs) then Some 0 else map_option Suc (index_of p cs))"

text \<open>\<open>s.lastIndexOf(c)\<close> for a one-character pattern.\<close>

fun last_index_of :: "char \<Rightarrow> string \<Rightarrow> nat option" where
  "last_index_of c [] = None"
| "last_index_of c (x # xs) =
     (case last_index_of c xs of
        Some i \<Rightarrow> Some (Suc i)
      | None \<Rightarrow> if x = c then Some 0 else None)"

definition trim :: "string \<Rightarrow> string" where
  "trim s = rev (dropWhile is_space (rev (dropWhile is_space s)))"

text \<open>\<open>s.split(sep)\<close> for a non-empty separator; \<open>acc\<close> is the piece read so far.\<close>

function split_acc :: "string \<Rightarrow> string \<Rightarrow> string \<Rightarrow> string list" where
  "split_acc sep acc s =
     (case s of
        [] \<Rightarrow> [acc]
      | c # cs \<Rightarrow>
          if sep \<noteq> [] \<and> prefix sep s then acc # split_acc sep [] (drop (length sep) s)
          else split_acc sep (acc @ [c]) cs)"
  by pat_completeness auto
termination
  by (relation "measure (\<lambda>(sep, acc, s). length s)") (auto simp: prefix_def)

declare split_acc.simps [simp del]

definition split_str :: "string \<Rightarrow> string \<Rightarrow> string list" where
  "split_str sep s = split_acc sep [] s"

fun join_str :: "string \<Rightarrow> string list \<Rightarrow> string" where
  "join_str sep [] = []"
| "join_str sep [x] = x"
| "join_str sep (x # y # ys) = x @ sep @ join_str sep (y # ys)"

lemma join_str_Cons: "ys \<noteq> [] \<Longrightarrow> join_str sep (x # ys) = x @ sep @ join_str sep ys"
  by (cases ys) simp_all

lemma split_acc_Nil [simp]: "split_acc sep acc [] = [acc]"
  by (simp add: split_acc.simps)

lemma split_acc_hit:
  "sep \<noteq> [] \<Longrightarrow> split_acc sep acc (sep @ r) = acc # split_acc sep [] r"
  by (cases sep) (simp, subst split_acc.simps, simp)

lemma split_acc_miss:
  "\<not> (sep \<noteq> [] \<and> prefix sep (c # cs)) \<Longrightarrow>
   split_acc sep acc (c # cs) = split_acc sep (acc @ [c]) cs"
  by (subst split_acc.simps) auto

lemma split_acc_single [simp]:
  "split_acc [d] acc (c # cs) =
     (if c = d then acc # split_acc [d] [] cs else split_acc [d] (acc @ [c]) cs)"
  by (simp add: split_acc.simps [of "[d]" acc "c # cs"])

lemma split_acc_nonempty [simp]: "split_acc sep acc s \<noteq> []"
  by (induction sep acc s rule: split_acc.induct)
     (subst split_acc.simps, simp split: list.splits)

lemma split_str_nonempty [simp]: "split_str sep s \<noteq> []"
  by (simp add: split_str_def)

lemma join_split_acc: "join_str sep (split_acc sep acc s) = acc @ s"
proof (induction sep acc s rule: split_acc.induct)
  case (1 sep acc s)
  show ?case
  proof (cases s)
    case (Cons c cs)
    show ?thesis
    proof (cases "sep \<noteq> [] \<and> prefix sep s")
      case True
      then obtain r where r: "s = sep @ r" by (auto simp: prefix_def)
      with True "1.IH" (1) [OF Cons True] show ?thesis
        by (simp add: split_acc_hit join_str_Cons)
    next
      case False
      with "1.IH" (2) [OF Cons False] Cons show ?thesis
        by (simp add: split_acc_miss)
    qed
  qed simp
qed

text \<open>Splitting loses nothing: joining the pieces again gives the string back.\<close>

lemma join_split_str [js_string]: "join_str sep (split_str sep s) = s"
  by (simp add: split_str_def join_split_acc)

lemma split_acc_piece_sep:
  "p \<in> set (split_acc [c] acc s) \<Longrightarrow> c \<notin> set acc \<Longrightarrow> c \<notin> set p"
  by (induction s arbitrary: acc) (fastforce split: if_splits)+

lemma split_str_piece_sep [js_string]: "p \<in> set (split_str [c] s) \<Longrightarrow> c \<notin> set p"
  using split_acc_piece_sep [of p c "[]" s] by (simp add: split_str_def)

text \<open>Conversely, a list of pieces without the separator is what splitting its join returns.\<close>

lemma split_acc_no_sep: "c \<notin> set p \<Longrightarrow> split_acc [c] acc p = [acc @ p]"
  by (induction p arbitrary: acc) auto

lemma split_acc_append:
  "c \<notin> set p \<Longrightarrow> split_acc [c] acc (p @ c # s) = (acc @ p) # split_acc [c] [] s"
  by (induction p arbitrary: acc) auto

lemma split_join_str [js_string]:
  assumes "ps \<noteq> []" and "\<forall>p \<in> set ps. c \<notin> set p"
  shows "split_str [c] (join_str [c] ps) = ps"
  using assms
  by (induction "[c]" ps rule: join_str.induct)
     (simp_all add: split_str_def split_acc_no_sep split_acc_append)

lemma split_acc_no_sublist: "\<not> sublist sep s \<Longrightarrow> split_acc sep acc s = [acc @ s]"
  by (induction s arbitrary: acc) (simp_all add: split_acc_miss sublist_Cons_right)

lemma split_str_no_sublist: "\<not> sublist sep s \<Longrightarrow> split_str sep s = [s]"
  by (simp add: split_str_def split_acc_no_sublist)

lemma split_acc_double_sep: "sublist [c, c] s \<Longrightarrow> [] \<in> set (split_acc [c] acc s)"
proof (induction s arbitrary: acc)
  case (Cons d ds)
  from Cons.prems have "prefix [c, c] (d # ds) \<or> sublist [c, c] ds"
    unfolding sublist_Cons_right by blast
  then show ?case
  proof
    assume "prefix [c, c] (d # ds)"
    then obtain es where "d = c" "ds = c # es" by (auto simp: prefix_def)
    then show ?thesis by simp
  next
    assume "sublist [c, c] ds"
    from Cons.IH [OF this] show ?thesis by simp
  qed
qed simp

lemma split_str_double_sep: "sublist [c, c] s \<Longrightarrow> [] \<in> set (split_str [c] s)"
  by (simp add: split_str_def split_acc_double_sep)

lemma split_acc_pieces_clean:
  assumes "sep \<noteq> []" and "\<And>j. j < length acc \<Longrightarrow> \<not> prefix sep (drop j acc @ s)"
  shows "p \<in> set (split_acc sep acc s) \<Longrightarrow> \<not> sublist sep p"
  using assms
proof (induction sep acc s rule: split_acc.induct)
  case (1 sep acc s)
  note sep = 1(4) and acc_clean = 1(5) and p = 1(3)
  have clean: "\<not> sublist sep acc" if "\<And>j. j < length acc \<Longrightarrow> \<not> prefix sep (drop j acc @ t)" for t
  proof
    assume "sublist sep acc"
    then obtain u v where acc: "acc = u @ sep @ v" by (auto simp: sublist_def)
    then have "length u < length acc" "prefix sep (drop (length u) acc @ t)"
      using sep by auto
    with that show False by blast
  qed
  show ?case
  proof (cases s)
    case Nil
    then show ?thesis using p acc_clean clean [of "[]"] by auto
  next
    case (Cons c cs)
    show ?thesis
    proof (cases "sep \<noteq> [] \<and> prefix sep s")
      case True
      then have "split_acc sep acc s = acc # split_acc sep [] (drop (length sep) s)"
        using Cons by (subst split_acc.simps) simp
      then show ?thesis using 1(1) [OF Cons True] sep p acc_clean clean [of s] by auto
    next
      case False
      have "split_acc sep acc s = split_acc sep (acc @ [c]) cs"
        using Cons False by (subst split_acc.simps) auto
      moreover have "\<not> prefix sep (drop j (acc @ [c]) @ cs)" if "j < length (acc @ [c])" for j
        using acc_clean [of j] False that Cons sep by (cases "j < length acc") auto
      ultimately show ?thesis using 1(2) [OF Cons False] p sep by auto
    qed
  qed
qed

text \<open>A piece of a split contains no separator, and is a piece of the text.\<close>

lemma split_str_pieces_clean:
  "sep \<noteq> [] \<Longrightarrow> p \<in> set (split_str sep s) \<Longrightarrow> \<not> sublist sep p"
  unfolding split_str_def by (rule split_acc_pieces_clean) auto

lemma join_str_piece: "p \<in> set ps \<Longrightarrow> sublist p (join_str sep ps)"
proof (induction ps)
  case (Cons q qs)
  show ?case
  proof (cases "qs = []")
    case False
    then show ?thesis using Cons
      by (auto simp: join_str_Cons sublist_append intro: sublist_append_rightI)
  qed (use Cons in simp)
qed simp

lemma split_str_piece_sublist: "p \<in> set (split_str sep s) \<Longrightarrow> sublist p s"
  by (metis join_str_piece join_split_str)

text \<open>\<open>s.replaceAll(p, r)\<close> for texts \<open>p\<close> and \<open>r\<close>, where \<open>r\<close> has no \<open>$\<close> patterns.\<close>

definition replace_all :: "string \<Rightarrow> string \<Rightarrow> string \<Rightarrow> string" where
  "replace_all p r s = join_str r (split_str p s)"

lemma sublist_skip_char:
  "c \<notin> set m \<Longrightarrow> sublist m (a @ c # b) \<longleftrightarrow> sublist m a \<or> sublist m b"
proof (induction a)
  case Nil
  then show ?case by (cases m) (auto simp: sublist_Cons_right)
next
  case (Cons x a)
  have "prefix m (x # a @ c # b) \<longleftrightarrow> prefix m (x # a)"
    using Cons.prems prefix_same_cases by (fastforce simp: prefix_def append_eq_append_conv2 Cons_eq_append_conv)
  then show ?case using Cons by (simp add: sublist_Cons_right)
qed

lemma index_of_Some_take:
  "index_of p s = Some i \<Longrightarrow> i \<le> length s \<and> prefix p (drop i s)"
  by (induction p s arbitrary: i rule: index_of.induct) (auto split: if_splits)

lemma index_of_None_sublist: "index_of p s = None \<longleftrightarrow> \<not> sublist p s"
  by (induction p s rule: index_of.induct) (auto simp: sublist_Cons_right)

subsection \<open>Trimming\<close>

lemma is_space_lower [simp]: "is_space (lower_char c) = is_space c"
  by (cases c) (auto simp: is_space_def)

lemma dropWhile_to_lower: "dropWhile is_space (to_lower s) = to_lower (dropWhile is_space s)"
  by (induction s) (auto simp: to_lower_def)

lemma to_lower_rev: "to_lower (rev s) = rev (to_lower s)"
  by (simp add: to_lower_def rev_map)

lemma trim_to_lower: "trim (to_lower s) = to_lower (trim s)"
  by (simp add: trim_def dropWhile_to_lower to_lower_rev [symmetric])

lemma hd_dropWhile_not: "dropWhile P s \<noteq> [] \<Longrightarrow> \<not> P (hd (dropWhile P s))"
  by (rule hd_dropWhile)

lemma dropWhile_id: "s = [] \<or> \<not> P (hd s) \<Longrightarrow> dropWhile P s = s"
  by (cases s) auto

lemma trim_ends: "trim s = [] \<or> \<not> is_space (hd (trim s)) \<and> \<not> is_space (last (trim s))"
proof -
  let ?u = "dropWhile is_space s"
  have t: "trim s = rev (dropWhile is_space (rev ?u))" by (simp add: trim_def)
  obtain w where w: "rev ?u = w @ dropWhile is_space (rev ?u)"
    by (metis takeWhile_dropWhile_id)
  have u: "?u = trim s @ rev w" using arg_cong [OF w, of rev] by (simp add: t)
  show ?thesis
  proof (cases "trim s = []")
    case False
    then have "hd (trim s) = hd ?u" by (subst u) simp
    moreover have "?u \<noteq> []" using False u by auto
    ultimately have "\<not> is_space (hd (trim s))" using hd_dropWhile_not [of is_space s] by simp
    moreover have "\<not> is_space (last (trim s))"
      using False hd_dropWhile_not [of is_space "rev ?u"] by (simp add: t last_rev)
    ultimately show ?thesis by simp
  qed simp
qed

lemma trim_id: "s = [] \<or> \<not> is_space (hd s) \<and> \<not> is_space (last s) \<Longrightarrow> trim s = s"
  by (cases "s = []") (auto simp: trim_def dropWhile_id hd_rev)

lemma trim_idem [simp]: "trim (trim s) = trim s"
  using trim_ends trim_id by blast

lemma trim_no_space: "list_all (\<lambda>c. \<not> is_space c) s \<Longrightarrow> trim s = s"
  by (rule trim_id) (auto simp: list_all_iff)

subsection \<open>UTF-8\<close>

definition utf8_width :: "char \<Rightarrow> nat" where
  "utf8_width c = (if (of_char c :: nat) < 128 then 1 else 2)"

definition utf8_length :: "string \<Rightarrow> nat" where
  "utf8_length s = sum_list (map utf8_width s)"

lemma utf8_length_simps [simp]:
  "utf8_length [] = 0"
  "utf8_length (c # s) = utf8_width c + utf8_length s"
  "utf8_length (s @ t) = utf8_length s + utf8_length t"
  by (simp_all add: utf8_length_def)

lemma utf8_width_pos [simp]: "0 < utf8_width c"
  by (simp add: utf8_width_def)

subsection \<open>Lists\<close>

lemma find_Some_in_set: "find P xs = Some x \<Longrightarrow> x \<in> set xs \<and> P x"
  by (auto simp: find_Some_iff)

lemma find_append: "find P (xs @ ys) = (case find P xs of None \<Rightarrow> find P ys | Some x \<Rightarrow> Some x)"
  by (induction xs) auto

text \<open>A loop that stops at the first error: \<open>Array.map\<close> with a callback that may throw.\<close>

fun map_err :: "('a \<Rightarrow> 'e + 'b) \<Rightarrow> 'a list \<Rightarrow> 'e + 'b list" where
  "map_err f [] = Inr []"
| "map_err f (x # xs) =
     (case f x of
        Inl e \<Rightarrow> Inl e
      | Inr y \<Rightarrow> (case map_err f xs of Inl e \<Rightarrow> Inl e | Inr ys \<Rightarrow> Inr (y # ys)))"

lemma map_err_Inr_iff:
  "map_err f xs = Inr ys \<longleftrightarrow> list_all2 (\<lambda>x y. f x = Inr y) xs ys"
proof (induction xs arbitrary: ys)
  case (Cons x xs)
  show ?case
    by (cases "f x"; cases "map_err f xs") (auto simp: list_all2_Cons1 Cons.IH [symmetric])
qed auto

text \<open>A computation that may throw, and what runs after it.\<close>

fun err_bind :: "'e + 'a \<Rightarrow> ('a \<Rightarrow> 'e + 'b) \<Rightarrow> 'e + 'b" where
  "err_bind (Inl e) f = Inl e"
| "err_bind (Inr x) f = f x"

lemma err_bind_Inr: "err_bind m f = Inr y \<longleftrightarrow> (\<exists>x. m = Inr x \<and> f x = Inr y)"
  by (cases m) auto

lemma err_bind_assoc: "err_bind (err_bind m f) g = err_bind m (\<lambda>x. err_bind (f x) g)"
  by (cases m) auto

text \<open>The value of a computation, if it did not throw.\<close>

fun ok_value :: "'e + 'a \<Rightarrow> 'a option" where
  "ok_value (Inl e) = None"
| "ok_value (Inr x) = Some x"

lemma ok_value_bind: "ok_value (err_bind m f) = Option.bind (ok_value m) (\<lambda>x. ok_value (f x))"
  by (cases m) auto

lemma ok_value_Some [simp]: "ok_value m = Some x \<longleftrightarrow> m = Inr x"
  by (cases m) auto

subsection \<open>Numerals\<close>

text \<open>\<open>Number.isInteger\<close> of a finite number.\<close>

definition is_integer :: "rat \<Rightarrow> bool" where
  "is_integer p \<longleftrightarrow> snd (quotient_of p) = 1"

text \<open>\<open>Number(s)\<close> of a digit string, \<open>parseInt(s, 16)\<close> of a lower-case hex string, \<open>String(n)\<close>.\<close>

definition digit_val :: "char \<Rightarrow> nat" where
  "digit_val c = (if is_digit c then of_char c - 48 else of_char c - 87)"

definition parse_base :: "nat \<Rightarrow> string \<Rightarrow> nat" where
  "parse_base b s = foldl (\<lambda>n c. n * b + digit_val c) 0 s"

definition digit_char :: "nat \<Rightarrow> char" where
  "digit_char n = ''0123456789abcdef'' ! n"

fun dec_string :: "nat \<Rightarrow> string" where
  "dec_string n = (if n < 10 then [digit_char n] else dec_string (n div 10) @ [digit_char (n mod 10)])"

declare dec_string.simps [simp del]

lemma less_16_cases: "n < 16 \<Longrightarrow> n \<in> {0, 1, 2, 3, 4, 5, 6, 7, 8, 9, 10, 11, 12, 13, 14, 15 :: nat}"
  unfolding insert_iff empty_iff by presburger

lemma digit_char_val [simp]: "n < 16 \<Longrightarrow> digit_val (digit_char n) = n"
  by (drule less_16_cases) (auto simp: digit_val_def digit_char_def is_digit_def digits10_def)

lemma digit_char_hex [simp]: "n < 16 \<Longrightarrow> is_hex (digit_char n)"
  by (drule less_16_cases) (auto simp: is_hex_def digit_char_def is_digit_def digits10_def)

lemma digit_char_digit [simp]: "n < 10 \<Longrightarrow> is_digit (digit_char n)"
  by (frule less_16_cases [OF less_trans]) (auto simp: digit_char_def is_digit_def digits10_def)

lemma parse_base_snoc: "parse_base b (s @ [c]) = parse_base b s * b + digit_val c"
  by (simp add: parse_base_def)

lemma parse_dec_string [simp]: "parse_base 10 (dec_string n) = n"
proof (induction n rule: dec_string.induct)
  case (1 n)
  show ?case
  proof (cases "n < 10")
    case True
    then show ?thesis by (simp add: dec_string.simps [of n] parse_base_def)
  next
    case False
    with 1 show ?thesis by (simp add: dec_string.simps [of n] parse_base_snoc)
  qed
qed

lemma dec_string_digits [simp]: "list_all is_digit (dec_string n)"
proof (induction n rule: dec_string.induct)
  case (1 n)
  then show ?case by (subst dec_string.simps) simp
qed

lemma dec_string_nonempty [simp]: "dec_string n \<noteq> []"
  by (subst dec_string.simps) simp

lemma dec_string_length3: "n < 1000 \<Longrightarrow> length (dec_string n) \<le> 3"
proof -
  assume n: "n < 1000"
  have a: "length (dec_string m) = 1" if "m < 10" for m
    using that by (subst dec_string.simps) simp
  have b: "length (dec_string m) \<le> 2" if "m < 100" for m
    using that a [of "m div 10"] by (subst dec_string.simps) auto
  show ?thesis using n b [of "n div 10"] by (subst dec_string.simps) auto
qed

lemma dec_string_inj: "dec_string m = dec_string n \<longleftrightarrow> m = n"
  by (metis parse_dec_string)

subsection \<open>Bits\<close>

unbundle bit_operations_syntax

lemma or_push_bit: "n < 2 ^ k \<Longrightarrow> push_bit k v OR n = v * 2 ^ k + (n :: nat)"
proof -
  assume n: "n < 2 ^ k"
  have "push_bit k v AND n = 0"
  proof (rule bit_eqI)
    fix i
    have "take_bit k n = n" using n by (simp add: take_bit_nat_eq_self_iff)
    then have "bit n i \<Longrightarrow> i < k" by (metis bit_take_bit_iff)
    then show "bit (push_bit k v AND n) i \<longleftrightarrow> bit 0 i" by (auto simp: bit_simps)
  qed
  then show ?thesis by (simp add: disjunctive_add_eq_or [symmetric] push_bit_eq_mult)
qed

end
