(* ===== verification/Command_Text.thy ===== *)
theory Command_Text
  imports Prelude "HOL-Library.AList"
begin

text \<open>
  The text-matching surface of the security guard (\<open>packages/sec-guard/src/command-text.ts\<close>):
  a shell tokenizer, wrapper-prefix skipping, extraction of \<open>sh -c\<close> bodies to a bounded depth, and
  the two views every rule reads: the connection targets of a request
  (\<open>extractConnectionTargets\<close>) and its text-scan view (\<open>scanTextSurface\<close>).

  A request's argument tree is the datatype \<open>arg\<close>, objects being association lists in the order
  \<open>Object.entries\<close> enumerates them. JavaScript \<open>Map\<close>s keep insertion order, so they are
  association lists updated by \<open>AList.update\<close>.
\<close>

subsection \<open>Requests, tokens, targets\<close>

datatype arg =
    AUndefined
  | ANull
  | ABool bool
  | ANum rat
  | AStr string
  | AArr "arg list"
  | AObj "(string \<times> arg) list"

record request =
  toolName :: string
  resource :: string
  arguments :: arg

record token =
  tok_text :: string
  commandPosition :: bool

text \<open>Evidence tiers, ordered: \<open>weak < strong\<close>.\<close>

datatype evidence = Weak | Strong

instantiation evidence :: linorder
begin

definition less_eq_evidence :: "evidence \<Rightarrow> evidence \<Rightarrow> bool" where
  "less_eq_evidence a b \<longleftrightarrow> a = Weak \<or> b = Strong"

definition less_evidence :: "evidence \<Rightarrow> evidence \<Rightarrow> bool" where
  "less_evidence a b \<longleftrightarrow> a = Weak \<and> b = Strong"

instance
proof
  fix a b c :: evidence
  show "a < b \<longleftrightarrow> a \<le> b \<and> \<not> b \<le> a"
    by (cases a; cases b) (simp_all add: less_eq_evidence_def less_evidence_def)
  show "a \<le> a" by (cases a) (simp_all add: less_eq_evidence_def)
  show "a \<le> b \<Longrightarrow> b \<le> c \<Longrightarrow> a \<le> c"
    by (cases a; cases b; cases c) (simp_all add: less_eq_evidence_def)
  show "a \<le> b \<Longrightarrow> b \<le> a \<Longrightarrow> a = b"
    by (cases a; cases b) (simp_all add: less_eq_evidence_def)
  show "a \<le> b \<or> b \<le> a"
    by (cases a; cases b) (simp_all add: less_eq_evidence_def)
qed

end

record connection_target =
  host :: string
  target_evidence :: evidence

record target_stream =
  ts_tokens :: "token list"
  declaredTarget :: bool

record command_surface =
  surface_values :: "string list"
  surface_streams :: "token list list"
  targetStreams :: "target_stream list"

datatype parameter_role = CommandText | DeclaredTarget | Detail

subsection \<open>Closed vocabularies\<close>

definition TARGET_VALUE_PARAMETERS :: "string list" where
  "TARGET_VALUE_PARAMETERS =
     [''url'', ''uri'', ''urls'', ''uris'', ''host'', ''hosts'', ''hostname'', ''hostnames'',
      ''target'', ''targets'', ''domain'', ''domains'', ''endpoint'', ''endpoints'', ''address'',
      ''addresses'', ''addr'', ''ip'', ''dest'', ''destination'']"

definition COMMAND_TEXT_PARAMETERS :: "string list" where
  "COMMAND_TEXT_PARAMETERS =
     [''command'', ''commands'', ''cmd'', ''command_line'', ''commandline'', ''shell'',
      ''shell_command'', ''script'', ''scripts'']"

definition DETAIL_PARAMETERS :: "string list" where
  "DETAIL_PARAMETERS =
     [''content'', ''contents'', ''text'', ''body'', ''file_path'', ''filepath'', ''path'',
      ''paths'', ''pattern'', ''query'', ''note'', ''notes'', ''message'', ''description'']"

definition parameterRole :: "string \<Rightarrow> parameter_role" where
  "parameterRole key =
     (let lowered = to_lower key in
      if lowered \<in> set TARGET_VALUE_PARAMETERS then DeclaredTarget
      else if lowered \<in> set COMMAND_TEXT_PARAMETERS then CommandText
      else if lowered \<in> set DETAIL_PARAMETERS then Detail
      else CommandText)"

definition TG_SEC_SUBCOMMAND_DEPTH_LIMIT :: nat where
  "TG_SEC_SUBCOMMAND_DEPTH_LIMIT = 2"

definition SUBCOMMAND_SHELLS :: "string list" where
  "SUBCOMMAND_SHELLS = [''sh'', ''bash'', ''zsh'', ''dash'', ''ksh'']"

definition DATA_VALUE_FLAGS :: "string list" where
  "DATA_VALUE_FLAGS =
     [''-d'', ''--data'', ''--data-raw'', ''--data-binary'', ''--data-ascii'',
      ''--data-urlencode'', ''--form-string'', ''-F'', ''--form'', ''-H'', ''--header'', ''-b'',
      ''--cookie'', ''--cookie-jar'', ''-A'', ''--user-agent'', ''-e'', ''--referer'', ''--json'',
      ''--url-query'', ''--mail-from'', ''--mail-rcpt'', ''--aws-sigv4'', ''--oauth2-bearer'',
      ''-x'', ''--proxy'', ''--socks5'', ''--socks5-hostname'', ''-o'', ''-D'', ''-L'', ''-R'']"

definition DATA_BOOLEAN_FLAGS :: "string list" where
  "DATA_BOOLEAN_FLAGS = [''-L'', ''-R'']"

definition TARGET_VALUE_FLAGS :: "string list" where
  "TARGET_VALUE_FLAGS = [''-u'', ''--url'', ''--host'']"

definition FILE_SUFFIXES :: "string list" where
  "FILE_SUFFIXES =
     [''ts'', ''tsx'', ''js'', ''jsx'', ''mjs'', ''cjs'', ''json'', ''md'', ''txt'', ''log'',
      ''lock'', ''csv'', ''tsv'', ''xml'', ''yaml'', ''yml'', ''toml'', ''ini'', ''conf'', ''cfg'',
      ''env'', ''html'', ''htm'', ''css'', ''sql'', ''sh'', ''bash'', ''zsh'', ''fish'', ''ps1'',
      ''bat'', ''py'', ''rb'', ''pl'', ''php'', ''java'', ''kt'', ''swift'', ''go'', ''rs'',
      ''cpp'', ''cc'', ''cxx'', ''hpp'', ''cs'', ''mm'', ''exe'', ''dll'', ''so'', ''dylib'',
      ''lib'', ''class'', ''jar'', ''war'', ''apk'', ''wasm'', ''deb'', ''rpm'', ''pkg'', ''zip'',
      ''tar'', ''gz'', ''tgz'', ''bz2'', ''xz'', ''zst'', ''rar'', ''iso'', ''img'', ''png'',
      ''jpg'', ''jpeg'', ''gif'', ''bmp'', ''svg'', ''webp'', ''ico'', ''mp3'', ''mp4'', ''avi'',
      ''mov'', ''wav'', ''pdf'', ''doc'', ''docx'', ''xls'', ''xlsx'', ''ppt'', ''pptx'', ''key'',
      ''pem'', ''crt'', ''cer'', ''bak'', ''tmp'', ''swp'', ''orig'']"

definition WRAPPER_COMMANDS :: "string list" where
  "WRAPPER_COMMANDS =
     [''env'', ''sudo'', ''nohup'', ''stdbuf'', ''nice'', ''setsid'', ''time'', ''proxychains'',
      ''proxychains4'', ''sshpass'']"

definition TIMEOUT_COMMAND :: string where "TIMEOUT_COMMAND = ''timeout''"

definition SEPARATORS :: string where
  "SEPARATORS = [CHR '';'', CHR ''|'', CHR ''&'', newline_char]"

subsection \<open>Host shapes\<close>

text \<open>\<open>URL_HEAD\<close>, \<open>BARE_IPV4\<close> (and the identical \<open>IPV4_TAIL\<close>), \<open>IPV6_GROUP\<close>, \<open>BARE_DOMAIN\<close>.\<close>

definition is_scheme_char :: "char \<Rightarrow> bool" where
  "is_scheme_char c \<longleftrightarrow> is_alpha c \<or> is_digit c \<or> c \<in> {CHR ''+'', CHR ''.'', CHR ''-''}"

definition URL_HEAD :: "string \<Rightarrow> bool" where
  "URL_HEAD s \<longleftrightarrow> s \<noteq> [] \<and> is_alpha (hd s) \<and> prefix ''://'' (dropWhile is_scheme_char s)"

definition BARE_IPV4 :: "string \<Rightarrow> bool" where
  "BARE_IPV4 s \<longleftrightarrow>
     (let parts = split_str ''.'' s in
      length parts = 4 \<and>
      (\<forall>p \<in> set parts. 1 \<le> length p \<and> length p \<le> 3 \<and> list_all is_digit p))"

definition IPV6_GROUP :: "string \<Rightarrow> bool" where
  "IPV6_GROUP s \<longleftrightarrow> 1 \<le> length s \<and> length s \<le> 4 \<and> list_all is_hex s"

definition is_domain_label :: "string \<Rightarrow> bool" where
  "is_domain_label l \<longleftrightarrow>
     l \<noteq> [] \<and> list_all (\<lambda>c. is_lower c \<or> is_digit c \<or> c = CHR ''-'') l \<and>
     hd l \<noteq> CHR ''-'' \<and> last l \<noteq> CHR ''-''"

definition BARE_DOMAIN :: "string \<Rightarrow> bool" where
  "BARE_DOMAIN s \<longleftrightarrow>
     (let labels = split_str ''.'' s in
      2 \<le> length labels \<and> list_all is_domain_label (butlast labels) \<and>
      2 \<le> length (last labels) \<and> list_all is_lower (last labels))"

text \<open>The text after the first \<open>://\<close>; without one, \<open>indexOf\<close> is \<open>-1\<close> and the slice starts at 2.\<close>

definition authorityOf :: "string \<Rightarrow> string" where
  "authorityOf url =
     (let rest = (case index_of ''://'' url of Some i \<Rightarrow> drop (i + 3) url | None \<Rightarrow> drop 2 url);
          authority = takeWhile (\<lambda>c. c \<notin> {CHR ''/'', CHR ''?'', CHR ''#''}) rest;
          hostPart = (case last_index_of CHR ''@'' authority of
                        None \<Rightarrow> authority | Some k \<Rightarrow> drop (k + 1) authority)
      in if prefix ''['' hostPart then
           (case index_of '']'' hostPart of
              None \<Rightarrow> drop 1 hostPart
            | Some close \<Rightarrow> drop 1 (take close hostPart))
         else
           (case last_index_of CHR '':'' hostPart of
              None \<Rightarrow> hostPart
            | Some colon \<Rightarrow> take colon hostPart))"

text \<open>The tail after a bracketed address: \<open>/^:[0-9]+(?:[/?#].*)?$/\<close>.\<close>

definition port_tail :: "string \<Rightarrow> bool" where
  "port_tail tail \<longleftrightarrow>
     prefix '':'' tail \<and>
     (let ds = takeWhile is_digit (drop 1 tail); r = dropWhile is_digit (drop 1 tail) in
      ds \<noteq> [] \<and>
      (r = [] \<or>
       hd r \<in> {CHR ''/'', CHR ''?'', CHR ''#''} \<and>
       list_all (\<lambda>c. c \<notin> {CHR 0x0A, CHR 0x0D}) (tl r)))"

definition plainIpv6Host :: "string \<Rightarrow> string option" where
  "plainIpv6Host tok =
     (if CHR '':'' \<notin> set tok then None
      else
        let runs = split_str ''::'' tok in
        if 2 < length runs then None
        else
          let groups = concat (map (split_str '':'') (filter (\<lambda>r. r \<noteq> []) runs)) in
          if groups = [] then None
          else
            let hasIpv4Tail = BARE_IPV4 (last groups);
                hexGroups = (if hasIpv4Tail then butlast groups else groups) in
            if \<not> list_all IPV6_GROUP hexGroups then None
            else
              let counted = length hexGroups + (if hasIpv4Tail then 2 else 0) in
              if (if length runs = 2 then 8 \<le> counted else counted \<noteq> 8) then None
              else Some tok)"

function bareIpv6Host :: "string \<Rightarrow> string option" where
  "bareIpv6Host tok =
     (if prefix ''['' tok then
        (case index_of '']'' tok of
           None \<Rightarrow> None
         | Some close \<Rightarrow>
             let tail = drop (close + 1) tok in
             if tail \<noteq> [] \<and> \<not> port_tail tail then None
             else bareIpv6Host (drop 1 (take close tok)))
      else plainIpv6Host tok)"
  by pat_completeness auto
termination
proof (relation "measure length")
  fix tok :: string and close
  assume "prefix ''['' tok"
  then have "tok \<noteq> []" by auto
  then show "(drop 1 (take close tok), tok) \<in> measure length" by (cases tok) auto
qed simp

declare bareIpv6Host.simps [simp del]

subsection \<open>Connection targets of one command\<close>

type_synonym targets = "(string \<times> evidence) list"

definition recordTarget :: "targets \<Rightarrow> string \<Rightarrow> evidence \<Rightarrow> targets" where
  "recordTarget out h e = (if map_of out h = Some Strong then out else AList.update h e out)"

definition addTarget :: "string \<Rightarrow> bool \<Rightarrow> targets \<Rightarrow> targets" where
  "addTarget word strong out =
     (let tok = to_lower word in
      if tok = [] then out
      else if URL_HEAD tok then
        (let h = authorityOf tok in if h \<noteq> [] then recordTarget out h Strong else out)
      else
        let tier = (if strong then Strong else Weak) in
        if BARE_IPV4 tok \<or> tok = ''localhost'' then recordTarget out tok tier
        else
          (case bareIpv6Host tok of
             Some ipv6 \<Rightarrow> recordTarget out ipv6 tier
           | None \<Rightarrow>
               if BARE_DOMAIN tok then
                 (let sfx = (case last_index_of CHR ''.'' tok of
                               Some i \<Rightarrow> drop (i + 1) tok | None \<Rightarrow> tok) in
                  if sfx \<notin> set FILE_SUFFIXES then recordTarget out tok tier else out)
               else out))"

text \<open>The position of the \<open>=\<close> of an attached long flag, \<open>--flag=...\<close>.\<close>

definition attached_eq :: "string \<Rightarrow> nat option" where
  "attached_eq lowered =
     (if prefix ''--'' lowered then
        (case index_of ''='' lowered of
           Some eq \<Rightarrow> if 2 < eq then Some eq else None
         | None \<Rightarrow> None)
      else None)"

text \<open>
  The token loop of \<open>scanCommand\<close>: recursion on the tokens still to be read; an index step of two
  is the recursive call that also drops the next token.
\<close>

fun scanCommand :: "token list \<Rightarrow> bool \<Rightarrow> targets \<Rightarrow> targets" where
  "scanCommand [] declared out = out"
| "scanCommand (t # ts) declared out =
     (let lowered = to_lower (tok_text t) in
      if lowered \<in> set TARGET_VALUE_FLAGS then
        (case ts of
           [] \<Rightarrow> out
         | u # us \<Rightarrow> scanCommand us declared (addTarget (tok_text u) True out))
      else
        case attached_eq lowered of
          Some eq \<Rightarrow>
            (let flag = take eq lowered in
             if flag \<in> set DATA_VALUE_FLAGS then scanCommand ts declared out
             else if flag \<in> set TARGET_VALUE_FLAGS then
               scanCommand ts declared (addTarget (drop (eq + 1) (tok_text t)) True out)
             else scanCommand ts declared out)
        | None \<Rightarrow>
            if lowered \<in> set DATA_VALUE_FLAGS then
              (if lowered \<notin> set DATA_BOOLEAN_FLAGS then
                 (case ts of [] \<Rightarrow> out | u # us \<Rightarrow> scanCommand us declared out)
               else scanCommand ts declared out)
            else scanCommand ts declared (addTarget (tok_text t) declared out))"

declare scanCommand.simps [simp del]

lemma scanCommand_Nil [simp]: "scanCommand [] declared out = out"
  by (simp add: scanCommand.simps)

text \<open>Split a stream into commands: every command-position token starts a new group.\<close>

fun split_commands_from :: "token list list \<Rightarrow> token list \<Rightarrow> token list list" where
  "split_commands_from groups [] = groups"
| "split_commands_from groups (t # ts) =
     (let groups' = (if commandPosition t \<or> groups = [] then groups @ [[]] else groups) in
      split_commands_from (butlast groups' @ [last groups' @ [t]]) ts)"

definition splitCommands :: "token list \<Rightarrow> token list list" where
  "splitCommands stream = split_commands_from [] stream"

definition connectionTargetsFromSurface :: "command_surface \<Rightarrow> connection_target list" where
  "connectionTargetsFromSurface surface =
     map (\<lambda>(h, e). \<lparr>host = h, target_evidence = e\<rparr>)
       (fold (\<lambda>stream out.
                fold (\<lambda>command out. scanCommand command (declaredTarget stream) out)
                  (splitCommands (ts_tokens stream)) out)
          (targetStreams surface) [])"

subsection \<open>The tokenizer\<close>

text \<open>
  The inner loops of \<open>tokenize\<close>: \<open>read_quoted\<close> reads up to and over the closing quote, \<open>read_word\<close>
  reads one word. Both return the text read and the rest of the text.
\<close>

fun read_quoted :: "char \<Rightarrow> string \<Rightarrow> string \<Rightarrow> string \<times> string" where
  "read_quoted q val [] = (val, [])"
| "read_quoted q val (c # cs) =
     (if c = q then (val, cs)
      else
        case cs of
          d # ds \<Rightarrow>
            if q = dquote \<and> c = backslash then read_quoted q (val @ [d]) ds
            else read_quoted q (val @ [c]) cs
        | [] \<Rightarrow> read_quoted q (val @ [c]) cs)"

lemma read_quoted_length: "length (snd (read_quoted q v s)) \<le> length s"
proof (induction q v s rule: read_quoted.induct)
  case (2 q v c cs)
  then show ?case by (cases cs) (auto simp: le_SucI intro: le_trans)
qed simp

function read_word :: "string \<Rightarrow> string \<Rightarrow> string \<times> string" where
  "read_word val [] = (val, [])"
| "read_word val (c # cs) =
     (if c = squote \<or> c = dquote then
        read_word (fst (read_quoted c val cs)) (snd (read_quoted c val cs))
      else if c = backslash \<and> cs \<noteq> [] then read_word (val @ [hd cs]) (tl cs)
      else if c = CHR ''$'' \<and> prefix ''('' cs then (val, c # cs)
      else if is_space c \<or> c \<in> set SEPARATORS then (val, c # cs)
      else if c = CHR '')'' then (val, c # cs)
      else read_word (val @ [c]) cs)"
  by pat_completeness auto
termination
  by (relation "measure (\<lambda>(v, s). length s)") (auto simp: case_prod_beta read_quoted_length less_Suc_eq_le)

lemma read_word_length: "length (snd (read_word v s)) \<le> length s"
proof (induction v s rule: read_word.induct)
  case (2 v c cs)
  show ?case
  proof (cases "c = squote \<or> c = dquote")
    case True
    with "2.IH"(1) [OF True] read_quoted_length [of c v cs] show ?thesis by simp
  next
    case False
    show ?thesis
    proof (cases "c = backslash \<and> cs \<noteq> []")
      case True
      with False "2.IH"(2) have "length (snd (read_word (v @ [hd cs]) (tl cs))) \<le> length (tl cs)"
        by blast
      with True False show ?thesis by simp
    qed (use False 2 in auto)
  qed
qed simp

text \<open>The characters at which a word cannot start: here the main loop does not read a word.\<close>

definition word_start :: "char \<Rightarrow> string \<Rightarrow> bool" where
  "word_start c cs \<longleftrightarrow>
     c \<notin> set SEPARATORS \<and> \<not> is_space c \<and> \<not> (c = CHR ''$'' \<and> prefix ''('' cs) \<and>
     c \<noteq> CHR ''('' \<and> c \<noteq> CHR '')''"

lemma read_word_consumes:
  assumes "word_start c cs"
  shows "length (snd (read_word v (c # cs))) \<le> length cs"
proof -
  have "length (snd (read_word (fst (read_quoted c v cs)) (snd (read_quoted c v cs)))) \<le> length cs"
    using read_word_length read_quoted_length le_trans by blast
  moreover have "length (snd (read_word (v @ [hd cs]) (tl cs))) \<le> length cs"
    using read_word_length [of "v @ [hd cs]" "tl cs"] by simp
  ultimately show ?thesis
    using assms read_word_length [of "v @ [c]" cs] by (auto simp: word_start_def)
qed

function tokenize_from :: "bool \<Rightarrow> string \<Rightarrow> token list" where
  "tokenize_from atCommandPosition [] = []"
| "tokenize_from atCommandPosition (c # cs) =
     (if c \<in> set SEPARATORS then
        tokenize_from True
          (if (c = CHR ''|'' \<or> c = CHR ''&'') \<and> prefix [c] cs then tl cs else cs)
      else if is_space c then tokenize_from atCommandPosition cs
      else if c = CHR ''$'' \<and> prefix ''('' cs then tokenize_from True (tl cs)
      else if c = CHR ''('' then tokenize_from True cs
      else if c = CHR '')'' then tokenize_from atCommandPosition cs
      else
        \<lparr>tok_text = fst (read_word [] (c # cs)), commandPosition = atCommandPosition\<rparr>
        # tokenize_from False (snd (read_word [] (c # cs))))"
  by pat_completeness auto
termination
proof (relation "measure (\<lambda>(b, s). length s)")
  fix b c cs
  assume "c \<notin> set SEPARATORS" "\<not> is_space c" "\<not> (c = CHR ''$'' \<and> prefix ''('' cs)"
    "c \<noteq> CHR ''(''" "c \<noteq> CHR '')''"
  then have "word_start c cs" by (simp add: word_start_def)
  from read_word_consumes [OF this]
  show "((False, snd (read_word [] (c # cs))), b, c # cs) \<in> measure (\<lambda>(b, s). length s)"
    by (simp add: less_Suc_eq_le)
qed auto

definition tokenize :: "string \<Rightarrow> token list" where
  "tokenize word = tokenize_from True word"

subsection \<open>Wrapper prefixes and subcommand shells\<close>

text \<open>\<open>ASSIGNMENT\<close>: \<open>/^[A-Za-z_][A-Za-z0-9_]*=/\<close>.\<close>

definition ASSIGNMENT :: "string \<Rightarrow> bool" where
  "ASSIGNMENT s \<longleftrightarrow>
     s \<noteq> [] \<and> (is_alpha (hd s) \<or> hd s = CHR ''_'') \<and> prefix ''='' (dropWhile is_word s)"

text \<open>
  The inner loop of \<open>withWrappersSkipped\<close>: the index of the first token at or after \<open>j\<close> that is
  not a wrapper, an assignment or \<open>timeout\<close> with its duration; possibly past the end.
\<close>

function skip_wrappers :: "token list \<Rightarrow> nat \<Rightarrow> nat" where
  "skip_wrappers out j =
     (if length out \<le> j then j
      else if tok_text (out ! j) = TIMEOUT_COMMAND then skip_wrappers out (j + 2)
      else if tok_text (out ! j) \<in> set WRAPPER_COMMANDS \<or> ASSIGNMENT (tok_text (out ! j)) then
        skip_wrappers out (j + 1)
      else j)"
  by pat_completeness auto
termination
  by (relation "measure (\<lambda>(out, j). length out - j)") auto

declare skip_wrappers.simps [simp del]

definition mark_wrapped :: "token list \<Rightarrow> nat \<Rightarrow> token list" where
  "mark_wrapped out i =
     (if \<not> commandPosition (out ! i) then out
      else
        let j = skip_wrappers out i in
        if i < j \<and> j < length out then out[j := (out ! j)\<lparr>commandPosition := True\<rparr>] else out)"

definition withWrappersSkipped :: "token list \<Rightarrow> token list" where
  "withWrappersSkipped tokens = foldl mark_wrapped tokens [0..<length tokens]"

text \<open>The short-flag cluster \<open>/^-[a-z]*c[a-z]*$/\<close>, with the letter as a parameter.\<close>

definition flag_cluster :: "char \<Rightarrow> string \<Rightarrow> bool" where
  "flag_cluster c s \<longleftrightarrow> prefix ''-'' s \<and> list_all is_lower (tl s) \<and> c \<in> set (tl s)"

text \<open>\<open>subcommandShellBody\<close>, over the tokens after the shell token.\<close>

fun shell_body_from :: "bool \<Rightarrow> token list \<Rightarrow> string option" where
  "shell_body_from sawCommandFlag [] = None"
| "shell_body_from sawCommandFlag (t # ts) =
     (if \<not> prefix ''-'' (tok_text t) then
        (if sawCommandFlag then Some (tok_text t) else None)
      else if prefix ''--'' (tok_text t) then
        (case ts of
           u # us \<Rightarrow>
             if CHR ''='' \<notin> set (tok_text t) \<and> \<not> prefix ''-'' (tok_text u) then
               shell_body_from sawCommandFlag us
             else shell_body_from sawCommandFlag ts
         | [] \<Rightarrow> shell_body_from sawCommandFlag ts)
      else shell_body_from (sawCommandFlag \<or> flag_cluster CHR ''c'' (tok_text t)) ts)"

definition subcommandShellBody :: "token list \<Rightarrow> nat \<Rightarrow> string option" where
  "subcommandShellBody tokens shellIndex = shell_body_from False (drop (shellIndex + 1) tokens)"

text \<open>The bodies \<open>pushStreams\<close> recurses into, in token order.\<close>

definition shell_bodies :: "token list \<Rightarrow> string list" where
  "shell_bodies tokens =
     List.map_filter
       (\<lambda>i. if commandPosition (tokens ! i) \<and> tok_text (tokens ! i) \<in> set SUBCOMMAND_SHELLS
            then subcommandShellBody tokens i else None)
       [0..<length tokens - 1]"

function pushStreams :: "string \<Rightarrow> nat \<Rightarrow> token list list" where
  "pushStreams word depth =
     (let tokens = withWrappersSkipped (tokenize word) in
      tokens #
      (if TG_SEC_SUBCOMMAND_DEPTH_LIMIT \<le> depth then []
       else concat (map (\<lambda>body. pushStreams body (depth + 1)) (shell_bodies tokens))))"
  by pat_completeness auto
termination
  by (relation "measure (\<lambda>(word, depth). TG_SEC_SUBCOMMAND_DEPTH_LIMIT - depth)") auto

declare pushStreams.simps [simp del]

subsection \<open>The two views of a request\<close>

text \<open>Every string of an argument tree, tagged with the role of its nearest key.\<close>

fun collectValues :: "arg \<Rightarrow> parameter_role \<Rightarrow> (string \<times> parameter_role) list" where
  "collectValues (AStr s) role = [(s, role)]"
| "collectValues (AArr items) role = concat (map (\<lambda>item. collectValues item role) items)"
| "collectValues (AObj entries) role =
     concat (map (\<lambda>(key, item). collectValues item (parameterRole key)) entries)"
| "collectValues AUndefined role = []"
| "collectValues ANull role = []"
| "collectValues (ABool b) role = []"
| "collectValues (ANum n) role = []"

text \<open>The streams of one value: only the value's own stream carries the parameter's verdict.\<close>

definition value_target_streams :: "string \<times> parameter_role \<Rightarrow> target_stream list" where
  "value_target_streams entry =
     (if snd entry = Detail then []
      else
        map (\<lambda>(index, tokens).
               \<lparr>ts_tokens = tokens,
                declaredTarget = (index = 0 \<and> snd entry = DeclaredTarget)\<rparr>)
          (List.enumerate 0 (pushStreams (fst entry) 0)))"

definition extractCommandSurface :: "request \<Rightarrow> command_surface" where
  "extractCommandSurface req =
     (let collected = collectValues (arguments req) CommandText in
      \<lparr>surface_values = map fst collected,
       surface_streams = concat (map (\<lambda>e. pushStreams (fst e) 0) collected),
       targetStreams = concat (map value_target_streams collected)\<rparr>)"

definition extractConnectionTargets :: "request \<Rightarrow> connection_target list" where
  "extractConnectionTargets req = connectionTargetsFromSurface (extractCommandSurface req)"

record command_group =
  cmd_head :: string
  cmd_tokens :: "string list"

record text_surface =
  strings :: "string list"
  streams :: "token list list"
  commands :: "command_group list"

definition toCommands :: "token list list \<Rightarrow> command_group list" where
  "toCommands ss =
     map (\<lambda>tokens. \<lparr>cmd_head = (if tokens = [] then [] else hd tokens), cmd_tokens = tokens\<rparr>)
       (map (map (\<lambda>t. to_lower (tok_text t))) (concat (map splitCommands ss)))"

definition scanTextSurface :: "request \<Rightarrow> text_surface" where
  "scanTextSurface req =
     (let surface = extractCommandSurface req in
      \<lparr>strings = surface_values surface, streams = surface_streams surface,
       commands = toCommands (surface_streams surface)\<rparr>)"

definition hasForcedRecursiveFlags :: "string list \<Rightarrow> bool" where
  "hasForcedRecursiveFlags tokens =
     (let flags = filter (prefix ''-'') tokens;
          recursive = list_ex (\<lambda>f. flag_cluster CHR ''r'' f \<or> f = ''--recursive'') flags;
          force = list_ex (\<lambda>f. flag_cluster CHR ''f'' f \<or> f = ''--force'') flags
      in recursive \<and> force)"

definition nonFlagTargets :: "command_group \<Rightarrow> string list" where
  "nonFlagTargets command = filter (\<lambda>t. \<not> prefix ''-'' t) (drop 1 (cmd_tokens command))"

subsection \<open>Tokenizing plain words and quoted text\<close>

text \<open>A plain character is neither a quote, an escape, an expansion, a separator nor a bracket.\<close>

definition plain_char :: "char \<Rightarrow> bool" where
  "plain_char c \<longleftrightarrow>
     c \<notin> set SEPARATORS \<and> \<not> is_space c \<and>
     c \<notin> {squote, dquote, backslash, CHR ''$'', CHR ''('', CHR '')''}"

definition plain_word :: "string \<Rightarrow> bool" where
  "plain_word w \<longleftrightarrow> w \<noteq> [] \<and> list_all plain_char w"

text \<open>Where an unquoted word ends.\<close>

definition word_end :: "string \<Rightarrow> bool" where
  "word_end s \<longleftrightarrow> s = [] \<or> hd s \<in> set SEPARATORS \<or> is_space (hd s) \<or> hd s = CHR '')''"

declare read_word.simps [simp del] tokenize_from.simps [simp del]

lemma tokenize_from_Nil [simp]: "tokenize_from b [] = []"
  by (simp add: tokenize_from.simps)

lemma space_not_separator: "c = CHR '' '' \<Longrightarrow> c \<notin> set SEPARATORS \<and> is_space c"
  by (simp add: SEPARATORS_def is_space_def)

lemma tokenize_from_space [simp]: "tokenize_from b (CHR '' '' # s) = tokenize_from b s"
  by (simp add: tokenize_from.simps space_not_separator)

lemma tokenize_from_semicolon [simp]: "tokenize_from b (CHR '';'' # s) = tokenize_from True s"
  by (simp add: tokenize_from.simps SEPARATORS_def)

lemma read_word_plain:
  "list_all plain_char w \<Longrightarrow> word_end rest \<Longrightarrow> read_word v (w @ rest) = (v @ w, rest)"
proof (induction w arbitrary: v)
  case Nil
  have "read_word v rest = (v, rest)"
  proof (cases rest)
    case (Cons c cs)
    with Nil have "c \<in> set SEPARATORS \<or> is_space c \<or> c = CHR '')''" by (simp add: word_end_def)
    moreover from this have "c \<noteq> squote \<and> c \<noteq> dquote \<and> c \<noteq> backslash \<and> c \<noteq> CHR ''$''"
      by (auto simp: SEPARATORS_def is_space_def)
    ultimately show ?thesis using Cons by (auto simp: read_word.simps)
  qed (simp add: read_word.simps)
  then show ?case by simp
next
  case (Cons c w)
  then have "plain_char c" by simp
  then have "read_word v (c # w @ rest) = read_word (v @ [c]) (w @ rest)"
    by (simp add: read_word.simps plain_char_def)
  with Cons show ?case by simp
qed

text \<open>A plain word is one token, with the command position it started at.\<close>

lemma tokenize_from_word:
  assumes "plain_word w" and "word_end rest"
  shows "tokenize_from b (w @ rest) =
           \<lparr>tok_text = w, commandPosition = b\<rparr> # tokenize_from False rest"
proof -
  obtain c cs where w: "w = c # cs" using assms by (cases w) (auto simp: plain_word_def)
  have c: "plain_char c" using assms by (simp add: w plain_word_def)
  have "read_word [] (c # cs @ rest) = (c # cs, rest)"
    using read_word_plain [of w rest "[]"] assms by (simp add: w plain_word_def)
  then show ?thesis using c by (simp add: w tokenize_from.simps plain_char_def)
qed

fun word_tokens :: "bool \<Rightarrow> string list \<Rightarrow> token list" where
  "word_tokens b [] = []"
| "word_tokens b (w # ws) = \<lparr>tok_text = w, commandPosition = b\<rparr> # word_tokens False ws"

lemma tokenize_from_words:
  assumes "list_all plain_word ws" and "ws \<noteq> []" and "word_end rest"
  shows "tokenize_from b (join_str '' '' ws @ rest) = word_tokens b ws @ tokenize_from False rest"
  using assms(1,2)
proof (induction ws arbitrary: b)
  case (Cons w ws)
  show ?case
  proof (cases ws)
    case Nil
    with Cons.prems assms(3) show ?thesis by (simp add: tokenize_from_word)
  next
    case (Cons u us)
    have "word_end (CHR '' '' # join_str '' '' ws @ rest)"
      by (simp add: word_end_def is_space_def)
    with Cons Cons.IH Cons.prems show ?thesis
      by (simp add: join_str_Cons tokenize_from_word)
  qed
qed simp

lemma tokenize_words:
  "list_all plain_word ws \<Longrightarrow> ws \<noteq> [] \<Longrightarrow> tokenize (join_str '' '' ws) = word_tokens True ws"
  using tokenize_from_words [of ws "[]" True] by (simp add: tokenize_def word_end_def)

text \<open>Single-quoted text is taken verbatim up to the closing quote.\<close>

lemma read_quoted_single:
  "squote \<notin> set s \<Longrightarrow> read_quoted squote v (s @ squote # rest) = (v @ s, rest)"
proof (induction s arbitrary: v)
  case (Cons c s)
  then show ?case by (cases "s @ squote # rest") auto
qed simp

lemma tokenize_single_quoted:
  assumes "squote \<notin> set s"
  shows "tokenize (squote # s @ [squote]) = [\<lparr>tok_text = s, commandPosition = True\<rparr>]"
  using read_quoted_single [OF assms, of "[]" "[]"]
  by (simp add: tokenize_def tokenize_from.simps read_word.simps SEPARATORS_def is_space_def)

subsection \<open>Evidence only grows, hosts stay distinct\<close>

lemma map_of_AList_update: "map_of (AList.update k v al) = (map_of al)(k \<mapsto> v)"
  by (simp add: update_conv')

lemma not_Strong [simp]: "e \<noteq> Strong \<longleftrightarrow> e = Weak"
  by (cases e) simp_all

lemma max_evidence [simp]: "max Weak e = e" "max e Weak = e" "max Strong e = Strong" "max e Strong = Strong"
  by (cases e; simp add: max_def less_eq_evidence_def)+

text \<open>A host seen twice keeps the stronger of the two verdicts.\<close>

lemma recordTarget_lookup:
  "map_of (recordTarget out h e) k =
     (if k = h then Some (case map_of out h of None \<Rightarrow> e | Some e' \<Rightarrow> max e' e)
      else map_of out k)"
  by (auto simp: recordTarget_def map_of_AList_update split: option.splits)

lemma recordTarget_distinct:
  "distinct (map fst out) \<Longrightarrow> distinct (map fst (recordTarget out h e))"
  by (simp add: recordTarget_def distinct_update)

text \<open>Every step of the scan is a sequence of \<open>recordTarget\<close> calls: an induction principle.\<close>

lemma addTarget_induct:
  assumes "P out" and "\<And>out h e. P out \<Longrightarrow> P (recordTarget out h e)"
  shows "P (addTarget word strong out)"
  using assms by (auto simp: addTarget_def Let_def split: option.split)

lemma scanCommand_induct:
  assumes "P out" and step: "\<And>out h e. P out \<Longrightarrow> P (recordTarget out h e)"
  shows "P (scanCommand ts declared out)"
  using assms(1)
proof (induction ts arbitrary: out rule: length_induct)
  case (1 ts)
  have P_add: "P o' \<Longrightarrow> P (addTarget w strong o')" for o' w strong
    by (rule addTarget_induct [where P = P, OF _ step])
  show ?case
  proof (cases ts)
    case (Cons t us)
    have IH: "P (scanCommand ys declared o')" if "P o'" and "length ys \<le> length us" for ys o'
    proof -
      have "length ys < length ts" using that Cons by simp
      with "1.IH" that show ?thesis by blast
    qed
    show ?thesis
      unfolding Cons scanCommand.simps Let_def
      using "1.prems" by (simp add: IH P_add split: list.split option.split)
  qed (use 1 in simp)
qed

lemma fold_invariant_list:
  "P s \<Longrightarrow> (\<And>x s. P s \<Longrightarrow> P (f x s)) \<Longrightarrow> P (fold f xs s)"
  by (induction xs arbitrary: s) auto

lemma connectionTargets_induct:
  assumes "P []" and step: "\<And>out h e. P out \<Longrightarrow> P (recordTarget out h e)"
  obtains out where "P out"
    "connectionTargetsFromSurface surface = map (\<lambda>(h, e). \<lparr>host = h, target_evidence = e\<rparr>) out"
proof -
  let ?out = "fold (\<lambda>stream out.
      fold (\<lambda>command out. scanCommand command (declaredTarget stream) out)
        (splitCommands (ts_tokens stream)) out) (targetStreams surface) []"
  have inner: "P o' \<Longrightarrow> P (fold (\<lambda>command out. scanCommand command d out) cs o')" for o' d cs
    by (erule fold_invariant_list) (erule scanCommand_induct, rule step)
  have "P ?out"
    by (rule fold_invariant_list [where P = P]) (rule assms(1), erule inner)
  then show ?thesis by (rule that) (simp add: connectionTargetsFromSurface_def)
qed

lemma fold_scan_induct:
  assumes "P out" and step: "\<And>out h e. P out \<Longrightarrow> P (recordTarget out h e)"
  shows "P (fold (\<lambda>command out. scanCommand command d out) cs out)"
  by (rule fold_invariant_list [where P = P], rule assms(1), erule scanCommand_induct, rule step)

text \<open>\<open>has_evidence h e out\<close>: the host is recorded at least at tier \<open>e\<close>.\<close>

definition has_evidence :: "string \<Rightarrow> evidence \<Rightarrow> targets \<Rightarrow> bool" where
  "has_evidence h e out \<longleftrightarrow> (\<exists>e' \<ge> e. map_of out h = Some e')"

lemma has_evidence_recordTarget:
  "has_evidence h e out \<Longrightarrow> has_evidence h e (recordTarget out h' e')"
  by (auto simp: has_evidence_def recordTarget_lookup intro: max.coboundedI1)

lemma has_evidence_recorded: "has_evidence h e (recordTarget out h e)"
  by (auto simp: has_evidence_def recordTarget_lookup split: option.split)

lemma has_evidence_Strong [simp]: "has_evidence h Strong out \<longleftrightarrow> map_of out h = Some Strong"
  by (auto simp: has_evidence_def less_eq_evidence_def)

lemma has_evidence_scanCommand:
  "has_evidence h e out \<Longrightarrow> has_evidence h e (scanCommand ts d out)"
  by (erule scanCommand_induct) (rule has_evidence_recordTarget)

text \<open>The accumulated map of a list of target streams, and how it grows.\<close>

definition scan_streams :: "target_stream list \<Rightarrow> targets \<Rightarrow> targets" where
  "scan_streams ss out =
     fold (\<lambda>stream out.
             fold (\<lambda>command out. scanCommand command (declaredTarget stream) out)
               (splitCommands (ts_tokens stream)) out) ss out"

lemma scan_streams_simps [simp]:
  "scan_streams [] out = out"
  "scan_streams (x # ss) out =
     scan_streams ss
       (fold (\<lambda>command out. scanCommand command (declaredTarget x) out)
         (splitCommands (ts_tokens x)) out)"
  "scan_streams (ss @ ss') out = scan_streams ss' (scan_streams ss out)"
  by (simp_all add: scan_streams_def)

lemma has_evidence_scan_streams:
  "has_evidence h e out \<Longrightarrow> has_evidence h e (scan_streams ss out)"
proof (induction ss arbitrary: out)
  case (Cons x ss)
  show ?case
    unfolding scan_streams_simps
    by (rule Cons.IH)
       (rule fold_scan_induct [where P = "has_evidence h e", OF Cons.prems],
        rule has_evidence_recordTarget)
qed simp

lemma distinct_scan_streams:
  "distinct (map fst out) \<Longrightarrow> distinct (map fst (scan_streams ss out))"
proof (induction ss arbitrary: out)
  case (Cons x ss)
  show ?case
    unfolding scan_streams_simps
    by (rule Cons.IH)
       (rule fold_scan_induct [where P = "\<lambda>out. distinct (map fst out)", OF Cons.prems],
        rule recordTarget_distinct)
qed simp

lemma targets_of_surface:
  "connectionTargetsFromSurface surface =
     map (\<lambda>(h, e). \<lparr>host = h, target_evidence = e\<rparr>) (scan_streams (targetStreams surface) [])"
  by (simp add: connectionTargetsFromSurface_def scan_streams_def)

text \<open>Only the streams of values that are not detail payloads reach the scan.\<close>

lemma targetStreams_filter:
  "targetStreams (extractCommandSurface req) =
     concat (map value_target_streams
       (filter (\<lambda>e. snd e \<noteq> Detail) (collectValues (arguments req) CommandText)))"
proof -
  have "concat (map value_target_streams es) =
        concat (map value_target_streams (filter (\<lambda>e. snd e \<noteq> Detail) es))" for es
    by (induction es) (auto simp: value_target_streams_def)
  then show ?thesis by (simp add: extractCommandSurface_def Let_def)
qed

subsection \<open>Commands of a stream\<close>

lemma split_commands_concat:
  "concat (split_commands_from groups ts) = concat groups @ ts"
proof (induction groups ts rule: split_commands_from.induct)
  case (2 groups t ts)
  have "concat (butlast gs @ [last gs @ [t]]) = concat gs @ [t]" if "gs \<noteq> []" for gs :: "token list list"
    using that by (induction gs rule: rev_induct) auto
  with 2 show ?case by (simp add: Let_def)
qed simp

text \<open>Splitting a stream into commands keeps every token, in order.\<close>

lemma concat_splitCommands: "concat (splitCommands stream) = stream"
  by (simp add: splitCommands_def split_commands_concat)

subsection \<open>Declared targets\<close>

text \<open>Words that \<open>addTarget\<close> records when they are declared targets, and the host recorded.\<close>

definition declared_host :: "string \<Rightarrow> string option" where
  "declared_host w =
     (let tok = to_lower w in
      if URL_HEAD tok then (if authorityOf tok = [] then None else Some (authorityOf tok))
      else if BARE_IPV4 tok \<or> tok = ''localhost'' then Some tok
      else None)"

lemma addTarget_declared:
  assumes "declared_host w = Some h"
  shows "addTarget w True out = recordTarget out h Strong"
proof -
  have "to_lower w \<noteq> []" using assms
    by (auto simp: declared_host_def URL_HEAD_def BARE_IPV4_def split_str_def Let_def split: if_splits)
  then show ?thesis using assms
    by (auto simp: declared_host_def addTarget_def Let_def split: if_splits)
qed

lemma split_acc_hd: "\<exists>p ps. split_acc [c] (a # acc) s = (a # p) # ps"
  by (induction s arbitrary: acc) auto

lemma hd_split_str_single:
  "s \<noteq> [] \<Longrightarrow> hd s \<noteq> c \<Longrightarrow> \<exists>p ps. split_str [c] s = (hd s # p) # ps"
  by (cases s) (simp_all add: split_str_def split_acc_hd)

lemma digit_not_dash [simp]: "is_digit c \<Longrightarrow> c \<noteq> CHR ''-''" "is_alpha c \<Longrightarrow> c \<noteq> CHR ''-''"
  by (auto simp: is_digit_def digits10_def is_alpha_def lower26_def upper26_def)

lemma declared_host_not_flag:
  assumes "declared_host w = Some h"
  shows "to_lower w \<noteq> [] \<and> hd (to_lower w) \<noteq> CHR ''-''"
proof -
  let ?t = "to_lower w"
  have ne: "?t \<noteq> []" using assms
    by (auto simp: declared_host_def URL_HEAD_def BARE_IPV4_def split_str_def Let_def split: if_splits)
  have "URL_HEAD ?t \<or> BARE_IPV4 ?t \<or> ?t = ''localhost''"
    using assms by (auto simp: declared_host_def Let_def split: if_splits)
  then have "hd ?t \<noteq> CHR ''-''"
  proof (elim disjE)
    assume b: "BARE_IPV4 ?t"
    show ?thesis
    proof
      assume dash: "hd ?t = CHR ''-''"
      with hd_split_str_single [OF ne, of "CHR ''.''"] obtain p ps where
        "split_str ''.'' ?t = (CHR ''-'' # p) # ps" by auto
      with b show False by (auto simp: BARE_IPV4_def Let_def dest: digit_not_dash(1))
    qed
  qed (auto simp: URL_HEAD_def dest: digit_not_dash(2))
  with ne show ?thesis by simp
qed

lemma flags_dash:
  "f \<in> set TARGET_VALUE_FLAGS \<Longrightarrow> prefix ''-'' f"
  "f \<in> set DATA_VALUE_FLAGS \<Longrightarrow> prefix ''-'' f"
  by (auto simp: TARGET_VALUE_FLAGS_def DATA_VALUE_FLAGS_def)

lemma prefix_dash_hd: "prefix [c] s \<Longrightarrow> hd s = c"
  by (cases s) auto

lemma scanCommand_declared:
  assumes "declared_host w = Some h" and "tok_text t = w"
  shows "scanCommand (t # ts) True out = scanCommand ts True (recordTarget out h Strong)"
proof -
  have n: "\<not> prefix ''-'' (to_lower w)"
    using declared_host_not_flag [OF assms(1)] by (auto dest: prefix_dash_hd)
  then have "to_lower w \<notin> set TARGET_VALUE_FLAGS" "to_lower w \<notin> set DATA_VALUE_FLAGS"
    using flags_dash by blast+
  moreover have "attached_eq (to_lower w) = None"
    using n by (cases "to_lower w") (auto simp: attached_eq_def)
  ultimately show ?thesis
    using assms by (simp add: scanCommand.simps addTarget_declared)
qed

lemma splitCommands_single: "splitCommands [t] = [[t]]"
  by (simp add: splitCommands_def Let_def)

lemma withWrappersSkipped_single: "withWrappersSkipped [t] = [t]"
  by (auto simp: withWrappersSkipped_def mark_wrapped_def Let_def)

lemma value_target_streams_word:
  assumes "plain_word w" and "role \<noteq> Detail"
  shows "\<exists>rest. value_target_streams (w, role) =
           \<lparr>ts_tokens = [\<lparr>tok_text = w, commandPosition = True\<rparr>],
            declaredTarget = (role = DeclaredTarget)\<rparr> # rest"
proof -
  have "tokenize w = [\<lparr>tok_text = w, commandPosition = True\<rparr>]"
    using tokenize_words [of "[w]"] assms(1) by simp
  then show ?thesis
    using assms(2) by (subst value_target_streams_def, subst pushStreams.simps)
      (simp add: withWrappersSkipped_single Let_def)
qed

lemma collectValues_entry:
  "(k, AStr w) \<in> set entries \<Longrightarrow> (w, parameterRole k) \<in> set (collectValues (AObj entries) role)"
  by (force simp: image_iff)

text \<open>
  The value of a declared-target parameter that is a URL, an IPv4 address or \<open>localhost\<close> is a
  strong connection target, whatever else the request carries.
\<close>

lemma declared_target_strong:
  assumes "arguments req = AObj entries" and "(k, AStr w) \<in> set entries"
    and "parameterRole k = DeclaredTarget" and "plain_word w" and "declared_host w = Some h"
  shows "\<lparr>host = h, target_evidence = Strong\<rparr> \<in> set (extractConnectionTargets req)"
proof -
  let ?vs = "filter (\<lambda>e. snd e \<noteq> Detail) (collectValues (arguments req) CommandText)"
  have "(w, DeclaredTarget) \<in> set ?vs"
    using collectValues_entry [OF assms(2), of CommandText] assms(1,3) by simp
  then obtain us vs where vs: "?vs = us @ (w, DeclaredTarget) # vs"
    by (meson split_list)
  obtain rest where r: "value_target_streams (w, DeclaredTarget) =
      \<lparr>ts_tokens = [\<lparr>tok_text = w, commandPosition = True\<rparr>], declaredTarget = True\<rparr> # rest"
    using value_target_streams_word [OF assms(4), of DeclaredTarget] by auto
  have "has_evidence h Strong (scan_streams (targetStreams (extractCommandSurface req)) [])"
    unfolding targetStreams_filter vs
    by (simp add: r splitCommands_single scanCommand_declared [OF assms(5)]
          del: has_evidence_Strong)
       (intro has_evidence_scan_streams has_evidence_recorded)
  then have "(h, Strong) \<in> set (scan_streams (targetStreams (extractCommandSurface req)) [])"
    by (simp add: map_of_SomeD)
  then show ?thesis
    by (force simp: extractConnectionTargets_def targets_of_surface image_iff)
qed

subsection \<open>A command behind other words\<close>

text \<open>
  \<open>headed cmd\<close>: a command-position token that is no wrapper, followed by tokens that are not at a
  command position. Wrapper skipping leaves such a tail of a stream alone, provided no \<open>timeout\<close>
  precedes it (\<open>timeout\<close> steps over the token after it, whatever that token is).
\<close>

definition headed :: "token list \<Rightarrow> bool" where
  "headed cmd \<longleftrightarrow>
     cmd \<noteq> [] \<and> commandPosition (hd cmd) \<and> tok_text (hd cmd) \<noteq> TIMEOUT_COMMAND \<and>
     tok_text (hd cmd) \<notin> set WRAPPER_COMMANDS \<and> \<not> ASSIGNMENT (tok_text (hd cmd)) \<and>
     list_all (\<lambda>t. \<not> commandPosition t) (tl cmd)"

definition no_timeout :: "token list \<Rightarrow> bool" where
  "no_timeout ts \<longleftrightarrow> TIMEOUT_COMMAND \<notin> tok_text ` set ts"

lemma nth_append_hd: "i < length pre \<Longrightarrow> (pre @ cmd) ! i = pre ! i" "cmd \<noteq> [] \<Longrightarrow> (pre @ cmd) ! length pre = hd cmd"
  by (simp_all add: nth_append hd_conv_nth)

lemma skip_wrappers_headed:
  assumes "no_timeout pre" and "headed cmd"
  shows "j \<le> length pre \<Longrightarrow> skip_wrappers (pre @ cmd) j \<le> length pre"
proof (induction "length pre - j" arbitrary: j)
  case 0
  then have "j = length pre" by simp
  then show ?case using assms(2)
    by (subst skip_wrappers.simps) (simp add: headed_def nth_append_hd)
next
  case (Suc n)
  then have j: "j < length pre" by simp
  then have "tok_text (pre ! j) \<noteq> TIMEOUT_COMMAND"
    using assms(1) unfolding no_timeout_def by (metis image_eqI nth_mem)
  moreover have "skip_wrappers (pre @ cmd) (j + 1) \<le> length pre"
    using Suc by (intro Suc.hyps(1)) auto
  ultimately show ?case using j
    by (subst skip_wrappers.simps) (auto simp: nth_append_hd)
qed

lemma mark_wrapped_headed:
  assumes "no_timeout pre" and "headed cmd" and "i < length (pre @ cmd)"
  shows "\<exists>pre'. mark_wrapped (pre @ cmd) i = pre' @ cmd \<and> map tok_text pre' = map tok_text pre"
proof (cases "i < length pre")
  case True
  let ?j = "skip_wrappers (pre @ cmd) i"
  have j: "?j \<le> length pre" using True assms skip_wrappers_headed by simp
  show ?thesis
  proof (cases "?j < length pre")
    case True
    then show ?thesis
      by (auto simp: mark_wrapped_def Let_def list_update_append nth_append map_update
          intro!: exI [of _ "pre[?j := (pre ! ?j)\<lparr>commandPosition := True\<rparr>]"] list_update_same_conv [THEN iffD2])
  next
    case False
    with j have "?j = length pre" by simp
    moreover have "(hd cmd)\<lparr>commandPosition := True\<rparr> = hd cmd" "cmd \<noteq> []"
      using assms(2) by (simp_all add: headed_def)
    ultimately show ?thesis
      by (cases cmd) (auto simp: mark_wrapped_def Let_def list_update_append nth_append_hd)
  qed
next
  case False
  show ?thesis
  proof (cases "i = length pre")
    case True
    have "skip_wrappers (pre @ cmd) (length pre) \<le> length pre"
      using assms skip_wrappers_headed by simp
    with True show ?thesis by (auto simp: mark_wrapped_def Let_def)
  next
    case neq: False
    with False assms(3) have "(pre @ cmd) ! i \<in> set (tl cmd)"
      by (cases cmd) (auto simp: nth_append nth_Cons')
    with assms(2) have "\<not> commandPosition ((pre @ cmd) ! i)"
      by (auto simp: headed_def list_all_iff)
    then show ?thesis by (simp add: mark_wrapped_def)
  qed
qed

lemma no_timeout_texts: "map tok_text ts = map tok_text us \<Longrightarrow> no_timeout ts \<Longrightarrow> no_timeout us"
  unfolding no_timeout_def by (metis image_set)

lemma withWrappersSkipped_headed:
  assumes "no_timeout pre" and "headed cmd"
  shows "\<exists>pre'. withWrappersSkipped (pre @ cmd) = pre' @ cmd \<and> map tok_text pre' = map tok_text pre"
proof -
  have "\<exists>pre'. foldl mark_wrapped (pre @ cmd) is = pre' @ cmd \<and> map tok_text pre' = map tok_text pre"
    if "no_timeout pre" "set is \<subseteq> {..<length (pre @ cmd)}" for "is" pre
    using that
  proof (induction "is" arbitrary: pre)
    case (Cons i "is")
    obtain pre1 where p: "mark_wrapped (pre @ cmd) i = pre1 @ cmd"
      "map tok_text pre1 = map tok_text pre"
      using mark_wrapped_headed [OF Cons.prems(1) assms(2)] Cons.prems(2) by auto
    then have "length pre1 = length pre" by (metis length_map)
    with Cons.IH [of pre1] Cons.prems p no_timeout_texts [of pre pre1] show ?case by auto
  qed simp
  from this [OF assms(1), of "[0..<length (pre @ cmd)]"] show ?thesis
    by (auto simp: withWrappersSkipped_def atLeast0LessThan)
qed

lemma split_commands_append:
  "split_commands_from groups (xs @ ys) = split_commands_from (split_commands_from groups xs) ys"
  by (induction groups xs rule: split_commands_from.induct) (auto simp: Let_def)

lemma split_commands_tail:
  "list_all (\<lambda>t. \<not> commandPosition t) ts \<Longrightarrow>
   split_commands_from (gs @ [g]) ts = gs @ [g @ ts]"
  by (induction ts arbitrary: g) (auto simp: Let_def)

lemma splitCommands_headed: "headed cmd \<Longrightarrow> \<exists>gs. splitCommands (pre @ cmd) = gs @ [cmd]"
  by (cases cmd)
     (auto simp: splitCommands_def headed_def split_commands_append Let_def split_commands_tail
       [where g = "[_]", simplified])

end
