(* ===== verification/Regex.thy ===== *)
theory Regex
  imports Prelude
begin

text \<open>
  The part of JavaScript's regular expressions the guard uses, as a datatype with an executable
  matcher. A position in a text is a pair of the reversed text before it and the text after it;
  \<open>rmatch r\<close> maps a position to every position a match of \<open>r\<close> from there can end at, in the order
  a backtracking matcher tries them. \<open>re_test r s\<close> is \<open>r.test(s)\<close>: a match from some position.
  An iteration of a quantifier that consumes nothing is not repeated, as in the language.
\<close>

datatype regex =
    RClass "char \<Rightarrow> bool"
  | RStr string
  | RSeq regex regex
  | RAlt regex regex
  | RRep nat "nat option" regex
  | RBoundary
  | RBegin
  | REnd
  | RNotAhead "char \<Rightarrow> bool"
  | RNotBehind "char \<Rightarrow> bool"

type_synonym position = "string \<times> string"

definition at_word :: "string \<Rightarrow> bool" where
  "at_word s \<longleftrightarrow> s \<noteq> [] \<and> is_word (hd s)"

fun iterate :: "nat \<Rightarrow> (position \<Rightarrow> position list) \<Rightarrow> position \<Rightarrow> position list" where
  "iterate 0 f p = [p]"
| "iterate (Suc n) f p = concat (map (iterate n f) (f p))"

text \<open>At most \<open>n\<close> further iterations, each of which consumes something.\<close>

fun repeat_upto :: "nat \<Rightarrow> (position \<Rightarrow> position list) \<Rightarrow> position \<Rightarrow> position list" where
  "repeat_upto 0 f p = [p]"
| "repeat_upto (Suc n) f p =
     concat (map (repeat_upto n f) (filter (\<lambda>q. length (snd q) < length (snd p)) (f p))) @ [p]"

primrec rmatch :: "regex \<Rightarrow> position \<Rightarrow> position list" where
  "rmatch (RClass P) =
     (\<lambda>(b, a). case a of [] \<Rightarrow> [] | c # cs \<Rightarrow> if P c then [(c # b, cs)] else [])"
| "rmatch (RStr s) =
     (\<lambda>(b, a). if prefix s a then [(rev s @ b, drop (length s) a)] else [])"
| "rmatch (RSeq r q) = (\<lambda>p. concat (map (rmatch q) (rmatch r p)))"
| "rmatch (RAlt r q) = (\<lambda>p. rmatch r p @ rmatch q p)"
| "rmatch (RRep m M r) =
     (\<lambda>p. concat (map (\<lambda>q. repeat_upto (case M of None \<Rightarrow> length (snd q) | Some n \<Rightarrow> n - m)
                            (rmatch r) q)
                    (iterate m (rmatch r) p)))"
| "rmatch RBoundary = (\<lambda>(b, a). if at_word b \<noteq> at_word a then [(b, a)] else [])"
| "rmatch RBegin = (\<lambda>(b, a). if b = [] then [(b, a)] else [])"
| "rmatch REnd = (\<lambda>(b, a). if a = [] then [(b, a)] else [])"
| "rmatch (RNotAhead P) = (\<lambda>(b, a). if a \<noteq> [] \<and> P (hd a) then [] else [(b, a)])"
| "rmatch (RNotBehind P) = (\<lambda>(b, a). if b \<noteq> [] \<and> P (hd b) then [] else [(b, a)])"

fun positions :: "string \<Rightarrow> string \<Rightarrow> position list" where
  "positions b [] = [(b, [])]"
| "positions b (c # cs) = (b, c # cs) # positions (c # b) cs"

definition re_test :: "regex \<Rightarrow> string \<Rightarrow> bool" where
  "re_test r s \<longleftrightarrow> list_ex (\<lambda>p. rmatch r p \<noteq> []) (positions [] s)"

subsection \<open>Abbreviations for the usual constructs\<close>

definition r_seq :: "regex list \<Rightarrow> regex" where
  "r_seq rs = foldr RSeq rs (RStr [])"

definition r_alt :: "regex list \<Rightarrow> regex" where
  "r_alt rs = foldr RAlt (butlast rs) (last rs)"

abbreviation "r_opt r \<equiv> RRep 0 (Some 1) r"
abbreviation "r_star r \<equiv> RRep 0 None r"
abbreviation "r_plus r \<equiv> RRep 1 None r"
abbreviation "r_space \<equiv> RClass is_space"
abbreviation "r_any \<equiv> RClass (\<lambda>_. True)"

definition r_words :: "string list \<Rightarrow> regex" where
  "r_words ws = r_alt (map RStr ws)"

subsection \<open>A match consumes a piece of the text\<close>

definition steps_to :: "position \<Rightarrow> position \<Rightarrow> bool" where
  "steps_to p q \<longleftrightarrow> (\<exists>w. snd p = w @ snd q \<and> fst q = rev w @ fst p)"

lemma steps_to_refl [simp]: "steps_to p p"
  by (simp add: steps_to_def)

lemma steps_to_trans: "steps_to p q \<Longrightarrow> steps_to q r \<Longrightarrow> steps_to p r"
  by (force simp: steps_to_def)

lemma iterate_steps:
  assumes "\<And>p q. q \<in> set (f p) \<Longrightarrow> steps_to p q"
  shows "q \<in> set (iterate n f p) \<Longrightarrow> steps_to p q"
proof (induction n arbitrary: p)
  case (Suc n)
  then obtain r where "r \<in> set (f p)" "q \<in> set (iterate n f r)" by auto
  with Suc.IH assms show ?case by (blast intro: steps_to_trans)
qed simp

lemma repeat_upto_steps:
  assumes "\<And>p q. q \<in> set (f p) \<Longrightarrow> steps_to p q"
  shows "q \<in> set (repeat_upto n f p) \<Longrightarrow> steps_to p q"
proof (induction n arbitrary: p)
  case (Suc n)
  then consider "q = p" | r where "r \<in> set (f p)" "q \<in> set (repeat_upto n f r)" by auto
  then show ?case
  proof cases
    case (2 r)
    with Suc.IH assms show ?thesis by (blast intro: steps_to_trans)
  qed simp
qed simp

lemma rmatch_steps: "q \<in> set (rmatch r p) \<Longrightarrow> steps_to p q"
proof (induction r arbitrary: p q)
  case (RSeq r1 r2)
  then obtain m where "m \<in> set (rmatch r1 p)" "q \<in> set (rmatch r2 m)" by auto
  with RSeq.IH show ?case by (blast intro: steps_to_trans)
next
  case (RRep m M r)
  then obtain x n where x: "x \<in> set (iterate m (rmatch r) p)" "q \<in> set (repeat_upto n (rmatch r) x)"
    by auto
  have "steps_to p x" using RRep.IH x(1) by (rule iterate_steps)
  moreover have "steps_to x q" using RRep.IH x(2) by (rule repeat_upto_steps)
  ultimately show ?case by (rule steps_to_trans)
qed (auto simp: steps_to_def prefix_def split: prod.splits list.splits if_splits)

lemma positions_steps: "q \<in> set (positions b a) \<longleftrightarrow> steps_to (b, a) q"
proof (induction b a rule: positions.induct)
  case (1 b)
  then show ?case by (cases q) (auto simp: steps_to_def)
next
  case (2 b c cs)
  have "steps_to (b, c # cs) q \<longleftrightarrow> q = (b, c # cs) \<or> steps_to (c # b, cs) q"
  proof
    assume "steps_to (b, c # cs) q"
    then obtain w where w: "c # cs = w @ snd q" "fst q = rev w @ b" by (auto simp: steps_to_def)
    then show "q = (b, c # cs) \<or> steps_to (c # b, cs) q"
      by (cases w) (auto simp: steps_to_def prod_eq_iff)
  next
    assume "q = (b, c # cs) \<or> steps_to (c # b, cs) q"
    then show "steps_to (b, c # cs) q"
      by (auto simp: steps_to_def)
  qed
  with 2 show ?case by auto
qed

text \<open>A text matches iff it splits as \<open>u @ w @ v\<close> with a match of \<open>r\<close> on \<open>w\<close> in that context.\<close>

lemma re_test_iff:
  "re_test r s \<longleftrightarrow> (\<exists>u w v. s = u @ w @ v \<and> (rev w @ rev u, v) \<in> set (rmatch r (rev u, w @ v)))"
proof
  assume "re_test r s"
  then obtain p where p: "steps_to ([], s) p" and "rmatch r p \<noteq> []"
    by (auto simp: re_test_def list_ex_iff positions_steps)
  then obtain q where q: "q \<in> set (rmatch r p)" by (meson last_in_set)
  obtain u where u: "s = u @ snd p" "fst p = rev u" using p by (auto simp: steps_to_def)
  obtain w where w: "snd p = w @ snd q" "fst q = rev w @ fst p"
    using rmatch_steps [OF q] by (auto simp: steps_to_def)
  from q u w show "\<exists>u w v. s = u @ w @ v \<and> (rev w @ rev u, v) \<in> set (rmatch r (rev u, w @ v))"
    by (metis prod.collapse)
next
  assume "\<exists>u w v. s = u @ w @ v \<and> (rev w @ rev u, v) \<in> set (rmatch r (rev u, w @ v))"
  then obtain u w v where s: "s = u @ w @ v"
    and m: "(rev w @ rev u, v) \<in> set (rmatch r (rev u, w @ v))" by blast
  have "steps_to ([], s) (rev u, w @ v)" by (simp add: steps_to_def s)
  with m show "re_test r s" by (force simp: re_test_def list_ex_iff positions_steps)
qed

subsection \<open>Literals every match contains\<close>

text \<open>\<open>must r p\<close>: every text \<open>r\<close> consumes contains \<open>p\<close>; a sufficient syntactic test.\<close>

fun must :: "string \<Rightarrow> regex \<Rightarrow> bool" where
  "must p (RStr s) = sublist p s"
| "must p (RSeq r q) = (must p r \<or> must p q)"
| "must p (RAlt r q) = (must p r \<and> must p q)"
| "must p (RRep m M r) = (0 < m \<and> must p r)"
| "must p _ = False"

lemma sublist_trans: "sublist a b \<Longrightarrow> sublist b c \<Longrightarrow> sublist a c"
  by (auto simp: sublist_def) (metis append_assoc)

lemma sublist_append_either: "sublist a b \<or> sublist a c \<Longrightarrow> sublist a (b @ c)"
  using sublist_trans by blast

lemma must_match:
  "must l r \<Longrightarrow> q \<in> set (rmatch r p) \<Longrightarrow> \<exists>w. snd p = w @ snd q \<and> sublist l w"
proof (induction r arbitrary: p q)
  case (RStr s)
  then show ?case by (auto simp: prefix_def split: prod.splits if_splits)
next
  case (RSeq r1 r2)
  then obtain m where m: "m \<in> set (rmatch r1 p)" "q \<in> set (rmatch r2 m)" by auto
  obtain u v where u: "snd p = u @ snd m" and v: "snd m = v @ snd q"
    using rmatch_steps [OF m(1)] rmatch_steps [OF m(2)] by (auto simp: steps_to_def)
  from RSeq.prems(1) consider "must l r1" | "must l r2" by auto
  then show ?case
  proof cases
    case 1
    with RSeq.IH(1) m(1) u have "sublist l u" by fastforce
    then show ?thesis using u v by (auto intro: sublist_append_either)
  next
    case 2
    with RSeq.IH(2) m(2) v have "sublist l v" by fastforce
    then show ?thesis using u v by (auto intro: sublist_append_either)
  qed
next
  case (RAlt r1 r2)
  from RAlt.prems have "must l r1" "must l r2" "q \<in> set (rmatch r1 p) \<or> q \<in> set (rmatch r2 p)"
    by simp_all
  with RAlt.IH show ?case by blast
next
  case (RRep m M r)
  then obtain n where n: "m = Suc n" by (cases m) auto
  with RRep.prems(2) obtain x y where x: "x \<in> set (rmatch r p)"
    and y: "y \<in> set (iterate n (rmatch r) x)"
    and q: "q \<in> set (repeat_upto (case M of None \<Rightarrow> length (snd y) | Some k \<Rightarrow> k - m) (rmatch r) y)"
    by auto
  have "steps_to x q"
    by (rule steps_to_trans [OF iterate_steps [OF _ y] repeat_upto_steps [OF _ q]];
        erule rmatch_steps)
  then obtain v where v: "snd x = v @ snd q" by (auto simp: steps_to_def)
  from RRep x obtain u where "snd p = u @ snd x" "sublist l u" by fastforce
  with v show ?case by (auto intro: sublist_append_either)
qed auto

lemma must_re_test: "must l r \<Longrightarrow> re_test r s \<Longrightarrow> sublist l s"
  by (auto simp: re_test_iff dest!: must_match intro!: sublist_append_either)

subsection \<open>Facts about single constructs\<close>

lemma rmatch_r_seq [simp]:
  "rmatch (r_seq []) p = [p]"
  "rmatch (r_seq (r # rs)) p = concat (map (rmatch (r_seq rs)) (rmatch r p))"
  by (cases p, simp add: r_seq_def) (simp add: r_seq_def)

lemma must_r_seq [simp]:
  "must l (r_seq []) \<longleftrightarrow> l = []" "must l (r_seq (r # rs)) \<longleftrightarrow> must l r \<or> must l (r_seq rs)"
  by (simp_all add: r_seq_def)

lemma r_alt_simps [simp]:
  "r_alt [r] = r" "r_alt (r # q # rs) = RAlt r (r_alt (q # rs))"
  by (simp_all add: r_alt_def)

lemma re_test_RStr: "re_test (RStr p) s \<longleftrightarrow> sublist p s"
  by (auto simp: re_test_iff sublist_def split: if_splits)

lemma repeat_upto_class:
  "list_all P w \<Longrightarrow> length w \<le> n \<Longrightarrow>
   (rev w @ b, a) \<in> set (repeat_upto n (rmatch (RClass P)) (b, w @ a))"
proof (induction n arbitrary: w b)
  case (Suc n)
  show ?case
  proof (cases w)
    case (Cons c cs)
    with Suc.prems have "(rev cs @ (c # b), a) \<in> set (repeat_upto n (rmatch (RClass P)) (c # b, cs @ a))"
      by (intro Suc.IH) auto
    with Cons Suc.prems show ?thesis by simp
  qed simp
qed simp

lemma iterate_class:
  "list_all P w \<Longrightarrow> (rev w @ b, a) \<in> set (iterate (length w) (rmatch (RClass P)) (b, w @ a))"
  by (induction w arbitrary: b) force+

text \<open>A quantified class matches every run of the class of admissible length.\<close>

lemma rmatch_class_run:
  assumes "list_all P w" and "m \<le> length w" and "case M of None \<Rightarrow> True | Some n \<Rightarrow> length w \<le> n"
  shows "(rev w @ b, a) \<in> set (rmatch (RRep m M (RClass P)) (b, w @ a))"
proof -
  obtain u v where w: "w = u @ v" "length u = m"
    using assms(2) by (metis append_take_drop_id length_take min.absorb2)
  have p: "list_all P u" "list_all P v" using assms(1) by (simp_all add: w)
  have "(rev u @ b, v @ a) \<in> set (iterate m (rmatch (RClass P)) (b, u @ v @ a))"
    using iterate_class [OF p(1)] w(2) by blast
  moreover have "(rev v @ rev u @ b, a) \<in>
      set (repeat_upto (case M of None \<Rightarrow> length (v @ a) | Some n \<Rightarrow> n - m)
            (rmatch (RClass P)) (rev u @ b, v @ a))"
    using assms(3) w by (intro repeat_upto_class [OF p(2)]) (auto split: option.splits)
  ultimately show ?thesis
    by (auto simp: w(1) simp del: rmatch.simps(1) intro!: bexI split: option.splits)
qed

end
