(* ===== verification/Hard_Deny.thy ===== *)
theory Hard_Deny
  imports Command_Text Regex
begin

text \<open>
  The built-in hard deny (\<open>packages/sec-guard/src/hard-deny.ts\<close>). The self-protection rules match
  the extracted connection targets, a strong candidate being denied and a weak one being reported
  for a forced ask; the self-destruction rules match the commands of the text-scan view. The
  machine's own addresses are an argument, as in the code.
\<close>

subsection \<open>Rules and hits\<close>

datatype hard_deny_rule =
    LoopbackHostname
  | LoopbackV4
  | LoopbackV6
  | LocalInterface
  | RmRoot
  | RmHome
  | ForkBomb
  | Mkfs
  | DdDevice
  | Power

record hard_deny_hit =
  deny_rule :: hard_deny_rule
  deny_reason :: string

record weak_hit =
  weak_rule :: hard_deny_rule
  weak_host :: string
  weak_reason :: string

subsection \<open>Self-protection\<close>

definition word_or_dot :: "char \<Rightarrow> bool" where
  "word_or_dot c \<longleftrightarrow> is_word c \<or> c = CHR ''.''"

definition word_or_colon :: "char \<Rightarrow> bool" where
  "word_or_colon c \<longleftrightarrow> is_word c \<or> c = CHR '':''"

abbreviation r_octet :: regex where
  "r_octet \<equiv> RRep 1 (Some 3) (RClass is_digit)"

definition LOOPBACK_RULES :: "(hard_deny_rule \<times> regex) list" where
  "LOOPBACK_RULES =
     [(LoopbackHostname, r_seq [RBoundary, RStr ''localhost'', RBoundary]),
      (LoopbackV4,
        r_seq [RBoundary, RStr ''127.'', r_octet, RStr ''.'', r_octet, RStr ''.'', r_octet,
               RBoundary]),
      (LoopbackV6,
        r_seq [RAlt RBegin (RClass (\<lambda>c. \<not> word_or_colon c)), RStr ''::1'',
               RNotAhead word_or_colon])]"

text \<open>The address is escaped for use as a literal, so it is matched as one.\<close>

definition address_regex :: "string \<Rightarrow> regex" where
  "address_regex address =
     r_seq [RNotBehind word_or_dot, RStr (to_lower address), RNotAhead word_or_dot]"

definition selfProtectionRule :: "string \<Rightarrow> string list \<Rightarrow> hard_deny_rule option" where
  "selfProtectionRule h hostAddresses =
     (let lowered = to_lower h in
      case find (\<lambda>(i, p). re_test p lowered) LOOPBACK_RULES of
        Some (i, p) \<Rightarrow> Some i
      | None \<Rightarrow>
          if list_ex (\<lambda>address. re_test (address_regex address) lowered) hostAddresses
          then Some LocalInterface else None)"

definition selfProtectionDenyReason :: "hard_deny_rule \<Rightarrow> string" where
  "selfProtectionDenyReason rule =
     (if rule = LocalInterface
      then ''hard deny: this machine's own interface addresses are platform self-protection''
      else ''hard deny: loopback targets are platform self-protection'')"

definition weakSelfProtectionReason :: "hard_deny_rule \<Rightarrow> string \<Rightarrow> string" where
  "weakSelfProtectionReason rule h =
     (let target = ''the connection target '' @ [dquote] @ h @ [dquote];
          mayBeThisMachine = ''matched on weak evidence: it may be this machine rather than a host being connected to, so a human decides''
      in if rule = LocalInterface
         then target @ '' is one of this machine's own interface addresses, '' @ mayBeThisMachine
         else target @ '' is a loopback address, '' @ mayBeThisMachine)"

text \<open>The first candidate of a tier that trips a rule, with the rule.\<close>

fun first_protected ::
  "evidence \<Rightarrow> string list \<Rightarrow> connection_target list \<Rightarrow> (string \<times> hard_deny_rule) option" where
  "first_protected e addrs [] = None"
| "first_protected e addrs (t # ts) =
     (if target_evidence t \<noteq> e then first_protected e addrs ts
      else
        case selfProtectionRule (host t) addrs of
          None \<Rightarrow> first_protected e addrs ts
        | Some rule \<Rightarrow> Some (host t, rule))"

definition strongSelfProtection ::
  "connection_target list \<Rightarrow> string list \<Rightarrow> hard_deny_hit option" where
  "strongSelfProtection targets hostAddresses =
     map_option (\<lambda>(h, rule). \<lparr>deny_rule = rule, deny_reason = selfProtectionDenyReason rule\<rparr>)
       (first_protected Strong hostAddresses targets)"

definition evaluateWeakSelfProtection :: "request \<Rightarrow> string list \<Rightarrow> weak_hit option" where
  "evaluateWeakSelfProtection req hostAddresses =
     map_option
       (\<lambda>(h, rule). \<lparr>weak_rule = rule, weak_host = h,
                      weak_reason = weakSelfProtectionReason rule h\<rparr>)
       (first_protected Weak hostAddresses (extractConnectionTargets req))"

subsection \<open>Self-destruction\<close>

definition POWER_COMMANDS :: "string list" where
  "POWER_COMMANDS = [''shutdown'', ''reboot'', ''poweroff'']"

definition MKFS_HEAD :: "string \<Rightarrow> bool" where
  "MKFS_HEAD h \<longleftrightarrow>
     h = ''mkfs'' \<or> prefix ''mkfs.'' h \<and> drop 5 h \<noteq> [] \<and> list_all is_word (drop 5 h)"

definition HOME_TARGETS :: "string list" where
  "HOME_TARGETS = [''~'', ''$home'', ''${home}'']"

text \<open>\<open>target.replace(/\/\*?$/, "")\<close>.\<close>

definition strip_slash_star :: "string \<Rightarrow> string" where
  "strip_slash_star t =
     (if suffix ''/*'' t then take (length t - 2) t
      else if suffix ''/'' t then take (length t - 1) t
      else t)"

definition hitsRmRoot :: "command_group \<Rightarrow> bool" where
  "hitsRmRoot command \<longleftrightarrow>
     (if cmd_head command \<noteq> ''rm'' then False
      else if ''--no-preserve-root'' \<in> set (cmd_tokens command) then True
      else hasForcedRecursiveFlags (cmd_tokens command) \<and>
           list_ex (\<lambda>t. t = ''/'' \<or> t = ''/*'') (nonFlagTargets command))"

definition hitsRmHome :: "command_group \<Rightarrow> bool" where
  "hitsRmHome command \<longleftrightarrow>
     (if cmd_head command \<noteq> ''rm'' then False
      else if \<not> hasForcedRecursiveFlags (cmd_tokens command) then False
      else list_ex (\<lambda>t. strip_slash_star t \<in> set HOME_TARGETS) (nonFlagTargets command))"

definition BENIGN_DD_TARGETS :: "string list" where
  "BENIGN_DD_TARGETS = [''of=/dev/null'', ''of=/dev/zero'']"

definition hitsDdDevice :: "command_group \<Rightarrow> bool" where
  "hitsDdDevice command \<longleftrightarrow>
     cmd_head command = ''dd'' \<and>
     list_ex (\<lambda>t. prefix ''of=/dev/'' t \<and> t \<notin> set BENIGN_DD_TARGETS) (cmd_tokens command)"

definition hitsForkBomb :: "string \<Rightarrow> bool" where
  "hitsForkBomb s \<longleftrightarrow> sublist '':(){:|:&};:'' (filter (\<lambda>c. \<not> is_space c) s)"

definition destruction_hit :: "hard_deny_rule \<Rightarrow> hard_deny_hit" where
  "destruction_hit rule =
     \<lparr>deny_rule = rule, deny_reason = ''hard deny: this command is machine self-destruction''\<rparr>"

text \<open>The last loop of \<open>evaluateHardDeny\<close>: each command against mkfs, dd and the power commands.\<close>

fun first_destructive :: "command_group list \<Rightarrow> hard_deny_hit option" where
  "first_destructive [] = None"
| "first_destructive (c # cs) =
     (if MKFS_HEAD (cmd_head c) then Some (destruction_hit Mkfs)
      else if hitsDdDevice c then Some (destruction_hit DdDevice)
      else if cmd_head c \<in> set POWER_COMMANDS then Some (destruction_hit Power)
      else first_destructive cs)"

definition evaluateHardDeny :: "request \<Rightarrow> string list \<Rightarrow> hard_deny_hit option" where
  "evaluateHardDeny req hostAddresses =
     (case strongSelfProtection (extractConnectionTargets req) hostAddresses of
        Some protection \<Rightarrow> Some protection
      | None \<Rightarrow>
          let view = scanTextSurface req;
              vals = map to_lower (strings view);
              cs = commands view
          in if list_ex hitsRmRoot cs then
               Some \<lparr>deny_rule = RmRoot,
                     deny_reason = ''hard deny: recursive forced removal of the filesystem root''\<rparr>
             else if list_ex hitsRmHome cs then
               Some \<lparr>deny_rule = RmHome,
                     deny_reason = ''hard deny: recursive forced removal of the home directory''\<rparr>
             else if list_ex hitsForkBomb vals then
               Some \<lparr>deny_rule = ForkBomb, deny_reason = ''hard deny: fork bomb''\<rparr>
             else first_destructive cs)"

subsection \<open>Protected targets\<close>

lemma first_protected_None_iff:
  "first_protected e addrs ts = None \<longleftrightarrow>
     (\<forall>t \<in> set ts. target_evidence t = e \<longrightarrow> selfProtectionRule (host t) addrs = None)"
  by (induction ts) (auto split: option.split)

lemma first_protected_SomeD:
  "first_protected e addrs ts = Some (h, rule) \<Longrightarrow>
     \<exists>t \<in> set ts. target_evidence t = e \<and> host t = h \<and> selfProtectionRule h addrs = Some rule"
  by (induction ts) (auto split: if_splits option.splits)

lemma evaluateHardDeny_strong:
  assumes "t \<in> set (extractConnectionTargets req)" and "target_evidence t = Strong"
    and "selfProtectionRule (host t) addrs \<noteq> None"
  shows "\<exists>h t' rule. evaluateHardDeny req addrs = Some h \<and>
           t' \<in> set (extractConnectionTargets req) \<and> target_evidence t' = Strong \<and>
           selfProtectionRule (host t') addrs = Some rule \<and> deny_rule h = rule"
proof -
  have "first_protected Strong addrs (extractConnectionTargets req) \<noteq> None"
    using assms by (auto simp: first_protected_None_iff)
  then obtain h rule where
    f: "first_protected Strong addrs (extractConnectionTargets req) = Some (h, rule)" by auto
  from first_protected_SomeD [OF f] f show ?thesis
    by (auto simp: evaluateHardDeny_def strongSelfProtection_def)
qed

lemma evaluateWeak_hit:
  assumes "t \<in> set (extractConnectionTargets req)" and "target_evidence t = Weak"
    and "selfProtectionRule (host t) addrs \<noteq> None"
  shows "evaluateWeakSelfProtection req addrs \<noteq> None"
  using assms by (auto simp: evaluateWeakSelfProtection_def first_protected_None_iff)

lemma is_digit_is_word [simp]: "is_digit c \<Longrightarrow> is_word c"
  by (simp add: is_word_def)

lemma digit_lower [simp]: "is_digit c \<Longrightarrow> lower_char c = c"
  by (auto simp: is_digit_def digits10_def)

text \<open>A dotted quad starting with 127 trips the loopback rule, whatever its octets.\<close>

lemma rmatch_loopback_v4:
  assumes "list_all is_digit a" "1 \<le> length a" "length a \<le> 3"
    and "list_all is_digit b" "1 \<le> length b" "length b \<le> 3"
    and "list_all is_digit c" "1 \<le> length c" "length c \<le> 3"
  shows "re_test (r_seq [RBoundary, RStr ''127.'', r_octet, RStr ''.'', r_octet, RStr ''.'', r_octet,
               RBoundary]) (''127.'' @ a @ ''.'' @ b @ ''.'' @ c)"
proof -
  note run = rmatch_class_run [where P = is_digit and m = 1 and M = "Some 3"]
  have a: "(rev a @ x, y) \<in> set (rmatch r_octet (x, a @ y))" for x y
    using run [OF assms(1)] assms(2,3) by simp
  have b: "(rev b @ x, y) \<in> set (rmatch r_octet (x, b @ y))" for x y
    using run [OF assms(4)] assms(5,6) by simp
  have c: "(rev c @ x, y) \<in> set (rmatch r_octet (x, c @ y))" for x y
    using run [OF assms(7)] assms(8,9) by simp
  have last: "at_word (rev c @ x)" for x
    using assms(7,8) by (cases c rule: rev_cases) (auto simp: at_word_def)
  have first: "at_word (''127.'' @ s)" "\<not> at_word []" for s
    by (simp_all add: at_word_def is_word_def is_digit_def digits10_def)
  let ?s = "''127.'' @ a @ ''.'' @ b @ ''.'' @ c"
  have "([], ?s) \<in> set (positions [] ?s)" by (simp add: positions_steps)
  moreover have "rmatch (r_seq [RBoundary, RStr ''127.'', r_octet, RStr ''.'', r_octet,
      RStr ''.'', r_octet, RBoundary]) ([], ?s) \<noteq> []"
  proof -
    let ?p4 = "rev ''127.''" let ?pa = "rev a @ ?p4" let ?pb = "rev b @ CHR ''.'' # ?pa"
    have c1: "rmatch (r_seq [r_octet, RBoundary]) (CHR ''.'' # ?pb, c) \<noteq> []"
      using c [of "CHR ''.'' # ?pb" "[]"] last [of "CHR ''.'' # ?pb"] first(2)
      by (fastforce simp del: rmatch.simps(5))
    have b1: "rmatch (r_seq [r_octet, RStr ''.'', r_octet, RBoundary])
        (CHR ''.'' # ?pa, b @ CHR ''.'' # c) \<noteq> []"
      using b [of "CHR ''.'' # ?pa" "CHR ''.'' # c"] c1
      by (fastforce simp del: rmatch.simps(5))
    have a1: "rmatch (r_seq [r_octet, RStr ''.'', r_octet, RStr ''.'', r_octet, RBoundary])
        (?p4, a @ CHR ''.'' # b @ CHR ''.'' # c) \<noteq> []"
      using a [of ?p4 "CHR ''.'' # b @ CHR ''.'' # c"] b1
      by (fastforce simp del: rmatch.simps(5))
    show ?thesis using a1 first by (simp del: rmatch.simps(5))
  qed
  ultimately show ?thesis by (auto simp: re_test_def list_ex_iff)
qed

lemma map_lower_digits [simp]: "list_all is_digit a \<Longrightarrow> map lower_char a = a"
  by (induction a) auto

lemma selfProtectionRule_loopback_v4:
  assumes "list_all is_digit a" "1 \<le> length a" "length a \<le> 3"
    and "list_all is_digit b" "1 \<le> length b" "length b \<le> 3"
    and "list_all is_digit c" "1 \<le> length c" "length c \<le> 3"
  shows "selfProtectionRule (''127.'' @ a @ ''.'' @ b @ ''.'' @ c) addrs \<noteq> None"
proof -
  let ?h = "''127.'' @ a @ ''.'' @ b @ ''.'' @ c"
  have "to_lower ?h = ?h" using assms by (simp add: to_lower_def)
  moreover have "find (\<lambda>(i, p). re_test p ?h) LOOPBACK_RULES \<noteq> None"
    using rmatch_loopback_v4 [OF assms] by (force simp: find_None_iff LOOPBACK_RULES_def)
  ultimately show ?thesis by (auto simp: selfProtectionRule_def Let_def split: option.split)
qed

subsection \<open>Destructive commands are denied behind any words\<close>

definition self_destructive :: "command_group \<Rightarrow> bool" where
  "self_destructive g \<longleftrightarrow>
     hitsRmRoot g \<or> hitsRmHome g \<or> MKFS_HEAD (cmd_head g) \<or> hitsDdDevice g \<or>
     cmd_head g \<in> set POWER_COMMANDS"

lemma first_destructive_hit:
  "g \<in> set cs \<Longrightarrow> MKFS_HEAD (cmd_head g) \<or> hitsDdDevice g \<or> cmd_head g \<in> set POWER_COMMANDS \<Longrightarrow>
   first_destructive cs \<noteq> None"
  by (induction cs) auto

lemma evaluateHardDeny_command:
  assumes "g \<in> set (commands (scanTextSurface req))" and "self_destructive g"
  shows "evaluateHardDeny req addrs \<noteq> None"
proof (cases "hitsRmRoot g \<or> hitsRmHome g")
  case True
  with assms(1) have "list_ex hitsRmRoot (commands (scanTextSurface req)) \<or>
      list_ex hitsRmHome (commands (scanTextSurface req))" by (auto simp: list_ex_iff)
  then show ?thesis by (auto simp: evaluateHardDeny_def Let_def split: option.split)
next
  case False
  with assms have "first_destructive (commands (scanTextSurface req)) \<noteq> None"
    by (intro first_destructive_hit) (auto simp: self_destructive_def)
  then show ?thesis by (auto simp: evaluateHardDeny_def Let_def split: option.split)
qed

definition group_of :: "string list \<Rightarrow> command_group" where
  "group_of ws = \<lparr>cmd_head = to_lower (hd ws), cmd_tokens = map to_lower ws\<rparr>"

lemma map_text_word_tokens [simp]: "map tok_text (word_tokens b ws) = ws"
  by (induction b ws rule: word_tokens.induct) auto

lemma word_tokens_False: "list_all (\<lambda>t. \<not> commandPosition t) (word_tokens False ws)"
  by (induction "False" ws rule: word_tokens.induct) auto

text \<open>The shell command line: some words, a semicolon, and a command.\<close>

definition after_words :: "string list \<Rightarrow> string list \<Rightarrow> string" where
  "after_words us ws = join_str '' '' us @ ''; '' @ join_str '' '' ws"

lemma tokenize_after_words:
  assumes "list_all plain_word us" and "list_all plain_word ws" and "ws \<noteq> []"
  shows "tokenize (after_words us ws) = word_tokens True us @ word_tokens True ws"
proof -
  have w: "tokenize_from b (''; '' @ join_str '' '' ws) = word_tokens True ws" for b
    using tokenize_from_words [OF assms(2,3), of "[]" True] by (simp add: word_end_def)
  show ?thesis
  proof (cases "us = []")
    case False
    have "word_end (''; '' @ join_str '' '' ws)" by (simp add: word_end_def SEPARATORS_def)
    from tokenize_from_words [OF assms(1) False this] show ?thesis
      using w by (simp add: after_words_def tokenize_def)
  qed (use w in \<open>simp add: after_words_def tokenize_def\<close>)
qed

lemma command_in_view:
  assumes "arguments req = AObj entries" and "(k, AStr (after_words us (c # args))) \<in> set entries"
    and "list_all plain_word us" and "TIMEOUT_COMMAND \<notin> set us"
    and "list_all plain_word (c # args)" and "c \<noteq> TIMEOUT_COMMAND"
    and "c \<notin> set WRAPPER_COMMANDS" and "\<not> ASSIGNMENT c"
  shows "group_of (c # args) \<in> set (commands (scanTextSurface req))"
proof -
  let ?text = "after_words us (c # args)" and ?cmd = "word_tokens True (c # args)"
  have "no_timeout (word_tokens True us)"
    using assms(4) unfolding no_timeout_def by (metis image_set map_text_word_tokens)
  moreover have "headed ?cmd"
    using assms(6-8) word_tokens_False by (simp add: headed_def)
  ultimately obtain pre where
    "withWrappersSkipped (word_tokens True us @ ?cmd) = pre @ ?cmd"
    using withWrappersSkipped_headed by blast
  then have "pre @ ?cmd \<in> set (pushStreams ?text 0)"
    using tokenize_after_words [of us "c # args"] assms(3,5)
    by (subst pushStreams.simps) (simp add: Let_def)
  moreover have "(?text, parameterRole k) \<in> set (collectValues (arguments req) CommandText)"
    using collectValues_entry [OF assms(2)] assms(1) by simp
  ultimately have stream: "pre @ ?cmd \<in> set (surface_streams (extractCommandSurface req))"
    by (force simp: extractCommandSurface_def Let_def)
  obtain gs where "splitCommands (pre @ ?cmd) = gs @ [?cmd]"
    using splitCommands_headed \<open>headed ?cmd\<close> by blast
  with stream have "?cmd \<in> set (concat (map splitCommands (surface_streams (extractCommandSurface req))))"
    by force
  then have "map (\<lambda>t. to_lower (tok_text t)) ?cmd \<in>
      set (map (map (\<lambda>t. to_lower (tok_text t)))
        (concat (map splitCommands (surface_streams (extractCommandSurface req)))))"
    by (metis image_eqI set_map)
  moreover have "map (\<lambda>t. to_lower (tok_text t)) ?cmd = map to_lower (c # args)"
    by (metis (no_types, lifting) map_map map_text_word_tokens comp_apply map_cong)
  ultimately show ?thesis
    by (force simp: scanTextSurface_def Let_def toCommands_def group_of_def)
qed

subsection \<open>What is always denied\<close>

lemma evaluateHardDeny_loopback:
  assumes "\<lparr>host = h, target_evidence = Strong\<rparr> \<in> set (extractConnectionTargets req)"
    and "selfProtectionRule h addrs \<noteq> None"
  shows "\<exists>hit. evaluateHardDeny req addrs = Some hit \<and>
    (\<exists>t \<in> set (extractConnectionTargets req). target_evidence t = Strong \<and>
       selfProtectionRule (host t) addrs = Some (deny_rule hit))"
  using evaluateHardDeny_strong [OF assms(1)] assms(2) by fastforce

lemma loopback_host:
  assumes "h = ''localhost'' \<or> (\<exists>a b c. h = ''127.'' @ a @ ''.'' @ b @ ''.'' @ c \<and>
           list_all (\<lambda>p. list_all is_digit p \<and> 1 \<le> length p \<and> length p \<le> 3) [a, b, c])"
  shows "selfProtectionRule h addrs \<noteq> None"
proof -
  have "re_test (r_seq [RBoundary, RStr ''localhost'', RBoundary]) ''localhost''"
    by (simp add: re_test_def at_word_def is_word_def is_digit_def digits10_def is_alpha_def
        lower26_def upper26_def)
  then have "selfProtectionRule ''localhost'' addrs \<noteq> None"
    by (simp add: selfProtectionRule_def LOOPBACK_RULES_def to_lower_def Let_def)
  then show ?thesis using assms selfProtectionRule_loopback_v4 by auto
qed

lemma unprotected_targets:
  assumes "evaluateHardDeny req addrs = None" "evaluateWeakSelfProtection req addrs = None"
    and "t \<in> set (extractConnectionTargets req)"
  shows "selfProtectionRule (host t) addrs = None"
proof (rule ccontr)
  assume n: "selfProtectionRule (host t) addrs \<noteq> None"
  show False
  proof (cases "target_evidence t")
    case Weak
    with evaluateWeak_hit [OF assms(3) _ n] assms(2) show False by simp
  next
    case Strong
    with evaluateHardDeny_strong [OF assms(3) _ n] assms(1) show False by auto
  qed
qed

text \<open>
  A tool call whose declared target is this machine is denied. If a parameter with a
  declared-target name (\<open>url\<close>, \<open>host\<close>, \<open>target\<close>, ...) holds a plain word that is a URL with a
  127.a.b.c authority, a 127.a.b.c address or \<open>localhost\<close>, then whatever the other arguments are, and
  however deep the machine's own address list is, the built-in hard deny returns a denial, and the
  rule it names is one tripped by a strong connection target of the request.
\<close>

lemma loopback_target_denied:
  assumes "arguments req = AObj entries" and "(k, AStr w) \<in> set entries"
    and "parameterRole k = DeclaredTarget" and "plain_word w" and "declared_host w = Some h"
    and "h = ''localhost'' \<or> (\<exists>a b c. h = ''127.'' @ a @ ''.'' @ b @ ''.'' @ c \<and>
           list_all (\<lambda>p. list_all is_digit p \<and> 1 \<le> length p \<and> length p \<le> 3) [a, b, c])"
  shows "\<exists>hit. evaluateHardDeny req addrs = Some hit \<and>
    (\<exists>t \<in> set (extractConnectionTargets req). target_evidence t = Strong \<and>
       selfProtectionRule (host t) addrs = Some (deny_rule hit))"
  using declared_target_strong [OF assms(1-5)] loopback_host [OF assms(6)]
    evaluateHardDeny_loopback by blast

definition loopback_request :: request where
  "loopback_request = \<lparr>toolName = ''fetch'', resource = ''tool:fetch'',
     arguments = AObj [(''note'', AStr ''hello''), (''url'', AStr ''127.0.0.1'')]\<rparr>"

lemmas word_eval = plain_word_def plain_char_def SEPARATORS_def is_space_def
  is_digit_def digits10_def is_alpha_def lower26_def upper26_def

lemma sample_roles:
  "parameterRole ''url'' = DeclaredTarget" "parameterRole ''content'' = Detail"
  by (simp_all add: parameterRole_def TARGET_VALUE_PARAMETERS_def COMMAND_TEXT_PARAMETERS_def
      DETAIL_PARAMETERS_def to_lower_def)

lemma destructive_command_hit:
  assumes "arguments req = AObj entries" and "(k, AStr (after_words us (c # args))) \<in> set entries"
    and "list_all plain_word us" and "TIMEOUT_COMMAND \<notin> set us"
    and "list_all plain_word (c # args)" and "c \<noteq> TIMEOUT_COMMAND"
    and "c \<notin> set WRAPPER_COMMANDS" and "\<not> ASSIGNMENT c"
    and "hitsRmRoot (group_of (c # args)) \<or> hitsRmHome (group_of (c # args)) \<or>
      MKFS_HEAD (to_lower c) \<or> hitsDdDevice (group_of (c # args)) \<or> to_lower c \<in> set POWER_COMMANDS"
  shows "evaluateHardDeny req addrs \<noteq> None"
proof -
  have "self_destructive (group_of (c # args))"
    using assms(9) by (auto simp: self_destructive_def group_of_def)
  with command_in_view [OF assms(1-8)] show ?thesis by (rule evaluateHardDeny_command)
qed

text \<open>
  A self-destructive command is denied behind any prefix of the command line. If any string of
  the arguments is a line of plain words, a semicolon, and a command of plain words that forcibly
  removes the root or home directory, formats a file system, writes a device or powers the machine
  off, then the hard deny returns a denial. The words before it are arbitrary except that none is
  \<open>timeout\<close>, which the wrapper skipping treats specially.
\<close>

lemma destructive_command_denied:
  assumes "arguments req = AObj entries" and "(k, AStr (after_words us (c # args))) \<in> set entries"
    and "list_all plain_word us" and "TIMEOUT_COMMAND \<notin> set us"
    and "list_all plain_word (c # args)" and "c \<noteq> TIMEOUT_COMMAND"
    and "c \<notin> set WRAPPER_COMMANDS" and "\<not> ASSIGNMENT c"
    and "hitsRmRoot (group_of (c # args)) \<or> hitsRmHome (group_of (c # args)) \<or>
      MKFS_HEAD (to_lower c) \<or> hitsDdDevice (group_of (c # args)) \<or> to_lower c \<in> set POWER_COMMANDS"
  shows "evaluateHardDeny req addrs \<noteq> None"
  using assms by (rule destructive_command_hit)

definition rm_root_request :: request where
  "rm_root_request = \<lparr>toolName = ''shell'', resource = ''tool:shell'',
     arguments = AObj [(''command'', AStr ''cd build; rm -rf /'')]\<rparr>"

lemma rm_root_facts:
  "arguments rm_root_request = AObj [(''command'', AStr ''cd build; rm -rf /'')]"
  "(''command'', AStr (after_words [''cd'', ''build''] [''rm'', ''-rf'', ''/''])) \<in>
     set [(''command'', AStr ''cd build; rm -rf /'')]"
  "list_all plain_word [''cd'', ''build'']" "TIMEOUT_COMMAND \<notin> set [''cd'', ''build'']"
  "list_all plain_word [''rm'', ''-rf'', ''/'']" "''rm'' \<noteq> TIMEOUT_COMMAND"
  "''rm'' \<notin> set WRAPPER_COMMANDS" "\<not> ASSIGNMENT ''rm''"
  "hitsRmRoot (group_of [''rm'', ''-rf'', ''/'']) \<or> hitsRmHome (group_of [''rm'', ''-rf'', ''/'']) \<or>
      MKFS_HEAD (to_lower ''rm'') \<or> hitsDdDevice (group_of [''rm'', ''-rf'', ''/'']) \<or>
      to_lower ''rm'' \<in> set POWER_COMMANDS"
  by (simp_all add: rm_root_request_def after_words_def word_eval TIMEOUT_COMMAND_def
      WRAPPER_COMMANDS_def ASSIGNMENT_def is_word_def)
    (simp add: hitsRmRoot_def group_of_def to_lower_def hasForcedRecursiveFlags_def Let_def
        flag_cluster_def nonFlagTargets_def word_eval is_lower_def)

lemma rm_root_denied: "evaluateHardDeny rm_root_request addrs \<noteq> None"
  by (rule destructive_command_hit [OF rm_root_facts])

end
