(* ===== verification/Scope_Registry.thy ===== *)
theory Scope_Registry
  imports Command_Text
begin

unbundle bit_operations_syntax

text \<open>
  The scope registry (\<open>packages/sec-guard/src/scope-registry.ts\<close>) and the scope resolver built on
  it (\<open>scope.ts\<close>): IPv4 and IPv6 literals as numbers, canonical host spellings, compiled scope
  entries, deny-over-allow precedence, and the verdict of one request. JavaScript \<open>bigint\<close>s that
  are never negative are \<open>nat\<close>, with the shifts and masks of the code. Compiling may throw, so its
  result is a sum whose left side is the error.
\<close>

subsection \<open>Entries and verdicts\<close>

datatype scope_kind = ExactHost | SuffixDomain | FuzzyHost | Cidr4 | Cidr6

datatype scope_effect = ScopeAllow | ScopeDeny

record scope_rule =
  kind :: scope_kind
  pattern :: string
  effect :: scope_effect
  enabled :: bool

datatype scope_verdict = Denied scope_rule | Allowed scope_rule | Unlisted

datatype scope_error =
    InvalidExactHost string
  | InvalidSuffixDomain string
  | InvalidFuzzyHost string
  | InvalidCidr scope_kind string
  | InvalidBase scope_kind string
  | InvalidPrefix string
  | PrefixTooLong scope_kind string nat
  | ConfigNotJson string
  | ConfigNotArray
  | EntryNotObject nat
  | EntryKind nat
  | EntryEffect nat
  | EntryPattern nat
  | EntryEnabled nat

subsection \<open>Addresses as numbers\<close>

definition MAX_IPV4 :: nat where "MAX_IPV4 = 0xffffffff"
definition MAPPED_V6_PREFIX :: nat where "MAPPED_V6_PREFIX = push_bit 32 0xffff"

text \<open>\<open>/^\d{1,3}$/\<close>\<close>

definition is_octet_text :: "string \<Rightarrow> bool" where
  "is_octet_text p \<longleftrightarrow> 1 \<le> length p \<and> length p \<le> 3 \<and> list_all is_digit p"

fun ipv4_parts :: "nat \<Rightarrow> string list \<Rightarrow> nat option" where
  "ipv4_parts val [] = Some val"
| "ipv4_parts val (part # parts) =
     (if \<not> is_octet_text part then None
      else
        let octet = parse_base 10 part in
        if 255 < octet then None else ipv4_parts (push_bit 8 val OR octet) parts)"

definition ipv4Value :: "string \<Rightarrow> nat option" where
  "ipv4Value s =
     (let parts = split_str ''.'' s in
      if length parts \<noteq> 4 then None else ipv4_parts 0 parts)"

text \<open>One side of an address as 16-bit groups; an IPv4 tail only counts as the last token.\<close>

fun expandIpv6Side :: "string list \<Rightarrow> bool \<Rightarrow> nat list option" where
  "expandIpv6Side [] mayEndInV4 = Some []"
| "expandIpv6Side (tok # rest) mayEndInV4 =
     (if CHR ''.'' \<in> set tok then
        (if \<not> mayEndInV4 \<or> rest \<noteq> [] then None
         else
           case ipv4Value tok of
             None \<Rightarrow> None
           | Some v4 \<Rightarrow> Some [drop_bit 16 v4, v4 AND 0xffff])
      else if \<not> IPV6_GROUP tok then None
      else map_option (\<lambda>gs. parse_base 16 tok # gs) (expandIpv6Side rest mayEndInV4))"

definition groupsTo128 :: "nat list \<Rightarrow> nat" where
  "groupsTo128 groups = foldl (\<lambda>val group. push_bit 16 val OR group) 0 groups"

definition tokens_of_half :: "string \<Rightarrow> string list" where
  "tokens_of_half half = (if half = [] then [] else split_str '':'' half)"

definition ipv6Value :: "string \<Rightarrow> nat option" where
  "ipv6Value s =
     (let lower = to_lower s in
      if lower = [] \<or> \<not> list_all (\<lambda>c. is_hex c \<or> c = CHR '':'' \<or> c = CHR ''.'') lower then None
      else
        let halves = split_str ''::'' lower in
        if 2 < length halves then None
        else
          let headTokens = tokens_of_half (halves ! 0) in
          if length halves = 1 then
            (case expandIpv6Side headTokens True of
               None \<Rightarrow> None
             | Some groups \<Rightarrow> if length groups \<noteq> 8 then None else Some (groupsTo128 groups))
          else
            let tailTokens = tokens_of_half (halves ! 1) in
            case (expandIpv6Side headTokens False, expandIpv6Side tailTokens True) of
              (Some head, Some tail) \<Rightarrow>
                if 7 < length head + length tail then None
                else
                  Some (groupsTo128
                    (head @ replicate (8 - length head - length tail) 0 @ tail))
            | _ \<Rightarrow> None)"

definition isMappedV4 :: "nat \<Rightarrow> bool" where
  "isMappedV4 val \<longleftrightarrow> drop_bit 32 val = 0xffff"

definition hostToV4 :: "string \<Rightarrow> nat option" where
  "hostToV4 h =
     (case ipv4Value h of
        Some v4 \<Rightarrow> Some v4
      | None \<Rightarrow>
          (case ipv6Value h of
             Some v6 \<Rightarrow> if isMappedV4 v6 then Some (v6 AND MAX_IPV4) else None
           | None \<Rightarrow> None))"

definition hostToV6 :: "string \<Rightarrow> nat option" where
  "hostToV6 h =
     (case ipv6Value h of
        Some v6 \<Rightarrow> Some v6
      | None \<Rightarrow> map_option (\<lambda>v4. MAPPED_V6_PREFIX OR v4) (ipv4Value h))"

definition renderV4 :: "nat \<Rightarrow> string" where
  "renderV4 val =
     join_str ''.''
       (map (\<lambda>octet. dec_string (octet AND 0xff))
         [drop_bit 24 val, drop_bit 16 val AND 0xff, drop_bit 8 val AND 0xff, val AND 0xff])"

text \<open>\<open>toString(16).padStart(4, "0")\<close> of a 16-bit group.\<close>

definition hex4 :: "nat \<Rightarrow> string" where
  "hex4 n =
     [digit_char (n div 4096 mod 16), digit_char (n div 256 mod 16), digit_char (n div 16 mod 16),
      digit_char (n mod 16)]"

definition renderV6 :: "nat \<Rightarrow> string" where
  "renderV6 val =
     join_str '':'' (map (\<lambda>i. hex4 (drop_bit (16 * i) val AND 0xffff)) (rev [0..<8]))"

definition canonicalHost :: "string \<Rightarrow> string" where
  "canonicalHost h =
     (let lower = to_lower (trim h) in
      case ipv4Value lower of
        Some v4 \<Rightarrow> renderV4 v4
      | None \<Rightarrow>
          (case ipv6Value lower of
             None \<Rightarrow> lower
           | Some v6 \<Rightarrow> if isMappedV4 v6 then renderV4 (v6 AND MAX_IPV4) else renderV6 v6))"

definition inNetwork :: "nat \<Rightarrow> nat \<Rightarrow> nat \<Rightarrow> nat \<Rightarrow> bool" where
  "inNetwork val base pre bits \<longleftrightarrow>
     (if pre = 0 then True else drop_bit (bits - pre) val = drop_bit (bits - pre) base)"

definition isHostToken :: "string \<Rightarrow> bool" where
  "isHostToken s \<longleftrightarrow>
     (if s = [] \<or> CHR ''/'' \<in> set s \<or> sublist ''://'' s \<or> list_ex is_space s then False
      else if ipv4Value s \<noteq> None \<or> ipv6Value s \<noteq> None then True
      else list_all is_domain_label (split_str ''.'' s))"

definition DOMAIN_PATTERN :: "string \<Rightarrow> bool" where
  "DOMAIN_PATTERN s \<longleftrightarrow>
     2 \<le> length (split_str ''.'' s) \<and> list_all is_domain_label (split_str ''.'' s)"

subsection \<open>Compiling entries\<close>

definition parseCidr ::
  "scope_kind \<Rightarrow> string \<Rightarrow> nat \<Rightarrow> (string \<Rightarrow> nat option) \<Rightarrow> scope_error + (nat \<times> nat)" where
  "parseCidr k pat bits parse =
     (case last_index_of CHR ''/'' pat of
        None \<Rightarrow> Inl (InvalidCidr k pat)
      | Some slash \<Rightarrow>
          if slash = 0 \<or> slash = length pat - 1 then Inl (InvalidCidr k pat)
          else
            case parse (take slash pat) of
              None \<Rightarrow> Inl (InvalidBase k pat)
            | Some base \<Rightarrow>
                let prefixText = drop (slash + 1) pat in
                if \<not> is_octet_text prefixText then Inl (InvalidPrefix pat)
                else
                  let pre = parse_base 10 prefixText in
                  if bits < pre then Inl (PrefixTooLong k pat pre) else Inr (base, pre))"

definition compileRule :: "scope_rule \<Rightarrow> scope_error + (string \<Rightarrow> bool)" where
  "compileRule rule =
     (let pat = to_lower (trim (pattern rule)) in
      case kind rule of
        ExactHost \<Rightarrow>
          if \<not> isHostToken pat then Inl (InvalidExactHost (pattern rule))
          else let want = canonicalHost pat in Inr (\<lambda>h. canonicalHost h = want)
      | SuffixDomain \<Rightarrow>
          if \<not> DOMAIN_PATTERN pat then Inl (InvalidSuffixDomain (pattern rule))
          else
            let dotted = CHR ''.'' # pat in
            Inr (\<lambda>host. let h = to_lower (trim host) in h = pat \<or> suffix dotted h)
      | FuzzyHost \<Rightarrow>
          if pat = [] \<or> list_ex is_space pat then Inl (InvalidFuzzyHost (pattern rule))
          else Inr (\<lambda>h. sublist pat (to_lower h))
      | Cidr4 \<Rightarrow>
          (case parseCidr (kind rule) pat 32 ipv4Value of
             Inl e \<Rightarrow> Inl e
           | Inr (base, pre) \<Rightarrow>
               Inr (\<lambda>h. case hostToV4 h of None \<Rightarrow> False | Some v \<Rightarrow> inNetwork v base pre 32))
      | Cidr6 \<Rightarrow>
          (case parseCidr (kind rule) pat 128 ipv6Value of
             Inl e \<Rightarrow> Inl e
           | Inr (base, pre) \<Rightarrow>
               Inr (\<lambda>h. case hostToV6 h of None \<Rightarrow> False | Some v \<Rightarrow> inNetwork v base pre 128)))"

subsection \<open>The registry\<close>

type_synonym compiled_rule = "scope_rule \<times> (string \<Rightarrow> bool)"

record scope_registry =
  denies :: "compiled_rule list"
  allows :: "compiled_rule list"

definition createTgSecScopeRegistry :: "scope_rule list \<Rightarrow> scope_error + scope_registry" where
  "createTgSecScopeRegistry rules =
     (case map_err
             (\<lambda>rule. case compileRule rule of Inl e \<Rightarrow> Inl e | Inr m \<Rightarrow> Inr (rule, m)) rules of
        Inl e \<Rightarrow> Inl e
      | Inr compiled \<Rightarrow>
          let armed = filter (\<lambda>(rule, m). enabled rule) compiled in
          Inr \<lparr>denies = filter (\<lambda>(rule, m). effect rule = ScopeDeny) armed,
               allows = filter (\<lambda>(rule, m). effect rule = ScopeAllow) armed\<rparr>)"

definition findVerdict :: "compiled_rule list \<Rightarrow> compiled_rule list \<Rightarrow> string \<Rightarrow> scope_verdict" where
  "findVerdict ds als h =
     (case find (\<lambda>(rule, m). m h) ds of
        Some (rule, m) \<Rightarrow> Denied rule
      | None \<Rightarrow>
          (case find (\<lambda>(rule, m). m h) als of
             Some (rule, m) \<Rightarrow> Allowed rule
           | None \<Rightarrow> Unlisted))"

definition outcome :: "scope_registry \<Rightarrow> string \<Rightarrow> scope_verdict" where
  "outcome reg h = findVerdict (denies reg) (allows reg) h"

definition contains :: "scope_registry \<Rightarrow> string \<Rightarrow> bool" where
  "contains reg h \<longleftrightarrow> (case outcome reg h of Allowed r \<Rightarrow> True | _ \<Rightarrow> False)"

subsection \<open>The operator's configuration\<close>

text \<open>A property read \<open>raw.name\<close> of a JSON value that passed \<open>typeof entry === "object"\<close>.\<close>

definition arg_field :: "arg \<Rightarrow> string \<Rightarrow> arg" where
  "arg_field raw name =
     (case raw of
        AObj entries \<Rightarrow> (case map_of entries name of None \<Rightarrow> AUndefined | Some v \<Rightarrow> v)
      | _ \<Rightarrow> AUndefined)"

definition scope_kind_of :: "arg \<Rightarrow> scope_kind option" where
  "scope_kind_of k =
     (if k = AStr ''exact-host'' then Some ExactHost
      else if k = AStr ''suffix-domain'' then Some SuffixDomain
      else if k = AStr ''fuzzy-host'' then Some FuzzyHost
      else if k = AStr ''cidr4'' then Some Cidr4
      else if k = AStr ''cidr6'' then Some Cidr6
      else None)"

definition is_object :: "arg \<Rightarrow> bool" where
  "is_object v = (case v of AObj _ \<Rightarrow> True | AArr _ \<Rightarrow> True | _ \<Rightarrow> False)"

definition parseScopeRule :: "nat \<Rightarrow> arg \<Rightarrow> scope_error + scope_rule" where
  "parseScopeRule index entry =
     (if \<not> is_object entry then Inl (EntryNotObject index)
      else
        case scope_kind_of (arg_field entry ''kind'') of
          None \<Rightarrow> Inl (EntryKind index)
        | Some k \<Rightarrow>
            if arg_field entry ''effect'' \<noteq> AStr ''allow'' \<and>
               arg_field entry ''effect'' \<noteq> AStr ''deny'' then Inl (EntryEffect index)
            else
              let eff = (if arg_field entry ''effect'' = AStr ''allow'' then ScopeAllow
                         else ScopeDeny) in
              case arg_field entry ''pattern'' of
                AStr pat \<Rightarrow>
                  (case arg_field entry ''enabled'' of
                     ABool en \<Rightarrow>
                       let rule = \<lparr>kind = k, pattern = pat, effect = eff, enabled = en\<rparr> in
                       (case compileRule rule of Inl e \<Rightarrow> Inl e | Inr m \<Rightarrow> Inr rule)
                   | _ \<Rightarrow> Inl (EntryEnabled index))
              | _ \<Rightarrow> Inl (EntryPattern index))"

text \<open>\<open>json_parse\<close> stands for \<open>JSON.parse\<close>, which throws a message on invalid text.\<close>

definition parseTgSecScopeConfig ::
  "(string \<Rightarrow> string + arg) \<Rightarrow> string \<Rightarrow> scope_error + scope_rule list" where
  "parseTgSecScopeConfig json_parse config =
     (case json_parse config of
        Inl message \<Rightarrow> Inl (ConfigNotJson message)
      | Inr (AArr entries) \<Rightarrow>
          map_err (\<lambda>(index, entry). parseScopeRule index entry) (List.enumerate 0 entries)
      | Inr _ \<Rightarrow> Inl ConfigNotArray)"

text \<open>
  Loading from a file: the read fails with \<open>ENOENT\<close> (a missing file, hence the empty registry) or
  with another error, which propagates; otherwise the text is parsed and compiled.
\<close>

datatype 'e file_read = FileMissing | FileError 'e | FileText string

definition loadTgSecScopeRegistry ::
  "(string \<Rightarrow> string + arg) \<Rightarrow> 'e file_read \<Rightarrow> ('e + scope_error) + scope_registry" where
  "loadTgSecScopeRegistry json_parse file =
     (case file of
        FileMissing \<Rightarrow>
          (case createTgSecScopeRegistry [] of Inl e \<Rightarrow> Inl (Inr e) | Inr r \<Rightarrow> Inr r)
      | FileError e \<Rightarrow> Inl (Inl e)
      | FileText config \<Rightarrow>
          (case parseTgSecScopeConfig json_parse config of
             Inl e \<Rightarrow> Inl (Inr e)
           | Inr rules \<Rightarrow>
               (case createTgSecScopeRegistry rules of
                  Inl e \<Rightarrow> Inl (Inr e) | Inr r \<Rightarrow> Inr r)))"

subsection \<open>Bit arithmetic\<close>

lemma and_masks:
  "(n :: nat) AND 0xff = n mod 256"
  "(n :: nat) AND 0xffff = n mod 65536"
  "(n :: nat) AND MAX_IPV4 = n mod 4294967296"
  using take_bit_eq_mask [of 8 n] take_bit_eq_mask [of 16 n] take_bit_eq_mask [of 32 n]
  by (simp_all add: take_bit_eq_mod mask_eq_exp_minus_1 MAX_IPV4_def)

subsection \<open>IPv4 literals\<close>

lemma ipv4_parts_bound: "ipv4_parts val ps = Some v \<Longrightarrow> v < (val + 1) * 256 ^ length ps"
proof (induction val ps rule: ipv4_parts.induct)
  case (2 val part parts)
  let ?o = "parse_base 10 part"
  from "2.prems" have o: "is_octet_text part" "?o < 2 ^ 8"
    and r: "ipv4_parts (push_bit 8 val OR ?o) parts = Some v"
    by (auto simp: Let_def split: if_splits)
  have "v < ((push_bit 8 val OR ?o) + 1) * 256 ^ length parts"
    using "2.IH" o r by (auto simp: Let_def)
  also have "\<dots> \<le> ((val + 1) * 256) * 256 ^ length parts"
    using o(2) by (intro mult_le_mono1) (simp add: or_push_bit)
  finally show ?case by (simp add: algebra_simps)
qed simp

lemma ipv4Value_bound: "ipv4Value s = Some v \<Longrightarrow> v < 2 ^ 32"
  by (auto simp: ipv4Value_def Let_def dest!: ipv4_parts_bound split: if_splits)

lemma octet_text_dec: "n < 256 \<Longrightarrow> is_octet_text (dec_string n)"
  using dec_string_length3 [of n] dec_string_nonempty [of n] dec_string_digits [of n]
  by (simp add: is_octet_text_def Suc_le_eq)

lemma digit_dot_colon [simp]: "is_digit c \<Longrightarrow> c \<noteq> CHR ''.''" "is_digit c \<Longrightarrow> c \<noteq> CHR '':''"
  "is_hex c \<Longrightarrow> c \<noteq> CHR ''.''" "is_hex c \<Longrightarrow> c \<noteq> CHR '':''"
  by (auto simp: is_digit_def digits10_def is_hex_def)

lemma not_digit_hex [simp]:
  "\<not> is_digit CHR ''.''" "\<not> is_digit CHR '':''" "\<not> is_hex CHR ''.''" "\<not> is_hex CHR '':''"
  by (auto simp: is_digit_def digits10_def is_hex_def)

lemma dec_string_no_dot [simp]: "CHR ''.'' \<notin> set (dec_string n)" "CHR '':'' \<notin> set (dec_string n)"
  using dec_string_digits [of n] by (auto simp: list_all_iff)

lemma renderV4_join:
  "renderV4 v = join_str ''.'' (map dec_string
     [v div 2 ^ 24 mod 256, v div 2 ^ 16 mod 256, v div 2 ^ 8 mod 256, v mod 256])"
  by (simp add: renderV4_def and_masks drop_bit_eq_div)

lemma mod_256_le [simp]: "\<not> 255 < (v :: nat) mod 256"
  by (simp add: not_less)

lemma octets_sum:
  assumes "v < 2 ^ 32"
  shows "((v div 2 ^ 24 mod 256 * 256 + v div 2 ^ 16 mod 256) * 256
      + v div 2 ^ 8 mod 256) * 256 + v mod 256 = (v :: nat)"
proof -
  have "v div 2 ^ 24 mod 256 = v div 2 ^ 24" using assms by (simp add: less_mult_imp_div_less)
  moreover have "v div 2 ^ 24 = v div 2 ^ 16 div 256" "v div 2 ^ 16 = v div 2 ^ 8 div 256"
    "v div 2 ^ 8 = v div 256"
    by (simp_all add: div_mult2_eq [symmetric])
  ultimately show ?thesis by (metis div_mult_mod_eq)
qed

lemma ipv4_parts_dec:
  assumes "a < 256" "b < 256" "c < 256" "d < 256"
  shows "ipv4_parts 0 (map dec_string [a, b, c, d]) = Some (((a * 256 + b) * 256 + c) * 256 + d)"
  using assms by (simp add: octet_text_dec or_push_bit [where k = 8, simplified] Let_def)

lemma ipv4Value_renderV4: "v < 2 ^ 32 \<Longrightarrow> ipv4Value (renderV4 v) = Some v"
proof -
  assume v: "v < 2 ^ 32"
  let ?ds = "[v div 2 ^ 24 mod 256, v div 2 ^ 16 mod 256, v div 2 ^ 8 mod 256, v mod 256]"
  have "split_str ''.'' (renderV4 v) = map dec_string ?ds"
    unfolding renderV4_join by (rule split_join_str) auto
  moreover have "ipv4_parts 0 (map dec_string ?ds) = Some v"
    by (subst ipv4_parts_dec) (simp_all only: octets_sum [OF v] mod_less_divisor zero_less_numeral)
  ultimately show ?thesis by (simp add: ipv4Value_def)
qed

subsection \<open>IPv6 literals\<close>

lemma hex4_props:
  "length (hex4 n) = 4" "list_all is_hex (hex4 n)" "IPV6_GROUP (hex4 n)" "hex4 n \<noteq> []"
  by (simp_all add: hex4_def IPV6_GROUP_def)

lemma hex4_sum: "n < 65536 \<Longrightarrow>
  ((n div 4096 mod 16 * 16 + n div 256 mod 16) * 16 + n div 16 mod 16) * 16 + n mod 16 = (n :: nat)"
proof -
  assume n: "n < 65536"
  have "n div 4096 mod 16 = n div 4096" using n by (simp add: less_mult_imp_div_less)
  moreover have "n div 4096 = n div 256 div 16" "n div 256 = n div 16 div 16"
    by (simp_all add: div_mult2_eq [symmetric])
  ultimately show ?thesis by (metis div_mult_mod_eq)
qed

lemma parse_hex4: "n < 65536 \<Longrightarrow> parse_base 16 (hex4 n) = n"
  using hex4_sum [of n] by (simp add: parse_base_def hex4_def)

lemma hex4_chars:
  "CHR ''.'' \<notin> set (hex4 n)" "CHR '':'' \<notin> set (hex4 n)"
  using hex4_props(2) [of n] by (auto simp: list_all_iff)

lemma is_hex_lower [simp]: "is_hex c \<Longrightarrow> lower_char c = c"
  by (auto simp: is_hex_def is_digit_def digits10_def)

lemma expandIpv6Side_hex4:
  "list_all (\<lambda>n. n < 65536) ns \<Longrightarrow> expandIpv6Side (map hex4 ns) m = Some ns"
  by (induction ns) (auto simp: hex4_chars hex4_props parse_hex4)

lemma groupsTo128_chunks:
  "foldl (\<lambda>val group. push_bit 16 val OR group) acc
     (map (\<lambda>i. drop_bit (16 * i) v AND 0xffff) (rev [0..<n])) =
   push_bit (16 * n) acc OR take_bit (16 * n) (v :: nat)"
proof (induction n arbitrary: acc)
  case (Suc n)
  have "push_bit (16 * n) (push_bit 16 acc OR (drop_bit (16 * n) v AND 0xffff)) OR take_bit (16 * n) v
      = push_bit (16 * Suc n) acc OR take_bit (16 * Suc n) v"
  proof (rule bit_eqI)
    fix i
    have "(drop_bit (16 * n) v AND 0xffff) = take_bit 16 (drop_bit (16 * n) v)"
      by (simp add: and_masks take_bit_eq_mod)
    then show "bit (push_bit (16 * n) (push_bit 16 acc OR (drop_bit (16 * n) v AND 0xffff)) OR
        take_bit (16 * n) v) i \<longleftrightarrow>
      bit (push_bit (16 * Suc n) acc OR take_bit (16 * Suc n) v) i"
      by (auto simp: bit_simps add.commute)
  qed
  with Suc show ?case by simp
qed simp

definition groups128 :: "nat \<Rightarrow> nat list" where
  "groups128 v = map (\<lambda>i. drop_bit (16 * i) v AND 0xffff) (rev [0..<8])"

lemma groups128_props:
  "length (groups128 v) = 8" "list_all (\<lambda>n. n < 65536) (groups128 v)"
  "v < 2 ^ 128 \<Longrightarrow> groupsTo128 (groups128 v) = v"
  using groupsTo128_chunks [of 0 v 8]
  by (simp_all add: groups128_def groupsTo128_def list_all_iff and_masks take_bit_nat_eq_self
      del: upt_rec_numeral)

lemma renderV6_groups: "renderV6 v = join_str '':'' (map hex4 (groups128 v))"
  by (simp add: renderV6_def groups128_def comp_def del: upt_rec_numeral)

lemma split_renderV6: "split_str '':'' (renderV6 v) = map hex4 (groups128 v)"
  unfolding renderV6_groups
  using groups128_props(1) [of v] by (intro split_join_str) (auto simp: hex4_chars)

lemma join_str_set: "set (join_str sep xs) \<subseteq> set sep \<union> (\<Union>x \<in> set xs. set x)"
proof (induction xs)
  case (Cons x xs)
  then show ?case by (cases "xs = []") (auto simp: join_str_Cons)
qed simp

lemma renderV6_chars: "c \<in> set (renderV6 v) \<Longrightarrow> is_hex c \<or> c = CHR '':''"
  using join_str_set [of "'':''" "map hex4 (groups128 v)"] hex4_props(2)
  by (auto simp: renderV6_groups list_all_iff dest!: subsetD)

lemma to_lower_id: "(\<And>c. c \<in> set s \<Longrightarrow> lower_char c = c) \<Longrightarrow> to_lower s = s"
  by (simp add: to_lower_def map_idI)

lemma renderV6_lower [simp]: "to_lower (renderV6 v) = renderV6 v"
  by (rule to_lower_id) (use renderV6_chars in \<open>fastforce simp: lower_char_Char\<close>)

lemma ipv6Value_renderV6: "v < 2 ^ 128 \<Longrightarrow> ipv6Value (renderV6 v) = Some v"
proof -
  assume v: "v < 2 ^ 128"
  have "[] \<notin> set (split_str '':'' (renderV6 v))"
    unfolding split_renderV6 using hex4_props(4) by (auto simp: image_iff dest: sym)
  then have "\<not> sublist ''::'' (renderV6 v)" using split_str_double_sep by blast
  moreover have "renderV6 v \<noteq> []"
    using split_renderV6 [of v] groups128_props(1) [of v] by (auto simp: split_str_def)
  moreover have "list_all (\<lambda>c. is_hex c \<or> c = CHR '':'' \<or> c = CHR ''.'') (renderV6 v)"
    using renderV6_chars by (auto simp: list_all_iff)
  ultimately show ?thesis
    using v groups128_props [of v]
    by (simp add: ipv6Value_def split_str_no_sublist tokens_of_half_def split_renderV6
        expandIpv6Side_hex4)
qed

lemma hex_digit_val: "is_hex c \<Longrightarrow> digit_val c < 16"
proof -
  have "list_all (\<lambda>c. digit_val c < 16) (digits10 @ ''abcdef'')"
    by (simp add: digits10_def digit_val_def is_digit_def)
  then show "is_hex c \<Longrightarrow> digit_val c < 16"
    by (auto simp: list_all_iff is_hex_def is_digit_def simp del: set_simps)
qed

lemma parse_hex_bound: "list_all is_hex t \<Longrightarrow> parse_base 16 t < 16 ^ length t"
proof (induction t rule: rev_induct)
  case (snoc c t)
  then have "parse_base 16 t < 16 ^ length t" "digit_val c < 16" by (simp_all add: hex_digit_val)
  then show ?case by (simp add: parse_base_snoc)
qed (simp add: parse_base_def)

lemma group_bound: "IPV6_GROUP t \<Longrightarrow> parse_base 16 t < 65536"
proof -
  assume "IPV6_GROUP t"
  then have "list_all is_hex t" and l: "length t \<le> 4" by (simp_all add: IPV6_GROUP_def)
  from parse_hex_bound [OF this(1)] power_increasing [OF l, of "16 :: nat"] show ?thesis by simp
qed

lemma expandIpv6Side_bound:
  "expandIpv6Side ts m = Some gs \<Longrightarrow> list_all (\<lambda>n. n < 65536) gs"
proof (induction ts m arbitrary: gs rule: expandIpv6Side.induct)
  case (2 tok rest m)
  show ?case
  proof (cases "CHR ''.'' \<in> set tok")
    case True
    then show ?thesis using 2 ipv4Value_bound
      by (force simp: and_masks drop_bit_eq_div less_mult_imp_div_less split: if_splits option.splits)
  next
    case False
    then show ?thesis using 2 group_bound by (auto split: if_splits)
  qed
qed simp

lemma groupsTo128_bound: "list_all (\<lambda>n. n < 65536) gs \<Longrightarrow> groupsTo128 gs < 65536 ^ length gs"
proof (induction gs rule: rev_induct)
  case (snoc g gs)
  then show ?case
    by (simp add: groupsTo128_def or_push_bit [where k = 16, simplified])
qed (simp add: groupsTo128_def)

lemma ipv6Value_bound:
  assumes "ipv6Value s = Some v" shows "v < 2 ^ 128"
proof -
  have b: "groupsTo128 gs < 2 ^ 128" if "length gs = 8" "list_all (\<lambda>n. n < 65536) gs" for gs
    using groupsTo128_bound [OF that(2)] that(1) by simp
  let ?hs = "split_str ''::'' (to_lower s)"
  show ?thesis
  proof (cases "length ?hs = 1")
    case True
    with assms obtain gs where "expandIpv6Side (tokens_of_half (?hs ! 0)) True = Some gs"
      "length gs = 8" "v = groupsTo128 gs"
      by (simp add: ipv6Value_def Let_def split: if_splits option.splits)
    then show ?thesis using b expandIpv6Side_bound by blast
  next
    case False
    with assms obtain hd tl where "expandIpv6Side (tokens_of_half (?hs ! 0)) False = Some hd"
      "expandIpv6Side (tokens_of_half (?hs ! 1)) True = Some tl" "length hd + length tl \<le> 7"
      "v = groupsTo128 (hd @ replicate (8 - length hd - length tl) 0 @ tl)"
      by (simp add: ipv6Value_def Let_def not_less split: if_splits option.splits)
    moreover from this have "list_all (\<lambda>n. n < 65536)
        (hd @ replicate (8 - length hd - length tl) 0 @ tl)"
      using expandIpv6Side_bound by (simp add: list_all_iff) blast
    ultimately show ?thesis using b by auto
  qed
qed

lemma expandIpv6Side_single: "expandIpv6Side [t] m = Some gs \<Longrightarrow> length gs \<le> 2"
  by (auto split: if_splits option.splits)

lemma lower_char_colon: "lower_char c = CHR '':'' \<Longrightarrow> c = CHR '':''"
  by (cases c) (auto simp: lower_char_Char split: if_splits)

lemma ipv6Value_colon: "ipv6Value s = Some v \<Longrightarrow> CHR '':'' \<in> set s"
proof (rule ccontr)
  assume v: "ipv6Value s = Some v" and n: "CHR '':'' \<notin> set s"
  let ?l = "to_lower s"
  have n': "CHR '':'' \<notin> set ?l" using n by (auto simp: to_lower_def dest!: sym [of "CHR '':''"] lower_char_colon)
  then have "\<not> sublist ''::'' ?l" by (auto simp: sublist_def)
  moreover have "\<not> sublist '':'' ?l" using n' by (auto simp: sublist_def)
  ultimately show False using v expandIpv6Side_single [of ?l True]
    by (auto simp: ipv6Value_def split_str_no_sublist tokens_of_half_def Let_def
        split: if_splits option.splits)
qed

lemma renderV4_chars: "c \<in> set (renderV4 v) \<Longrightarrow> is_digit c \<or> c = CHR ''.''"
  using join_str_set [of "''.''" "map (\<lambda>octet. dec_string (octet AND 0xff))
    [drop_bit 24 v, drop_bit 16 v AND 0xff, drop_bit 8 v AND 0xff, v AND 0xff]"] dec_string_digits
  by (auto simp: renderV4_def list_all_iff dest!: subsetD)

lemma render_shape:
  assumes "s = renderV4 v \<or> s = renderV6 v"
  shows "to_lower s = s" "trim s = s"
proof -
  have c: "is_hex c \<or> c = CHR '':'' \<or> c = CHR ''.''" if "c \<in> set s" for c
    using assms that renderV4_chars renderV6_chars by (auto simp: is_hex_def)
  then show "to_lower s = s"
    by (intro to_lower_id) (fastforce simp: lower_char_Char)
  have "list_all (\<lambda>c. \<not> is_space c) s"
    unfolding list_all_iff using c
    by (fastforce simp: is_space_def is_hex_def is_digit_def digits10_def)
  then show "trim s = s" by (rule trim_no_space)
qed

subsection \<open>Canonical hosts\<close>

text \<open>The address a candidate host denotes, whatever its spelling: the IPv6 reading of the code.\<close>

definition host_address :: "string \<Rightarrow> nat option" where
  "host_address h = hostToV6 (to_lower (trim h))"

definition render_address :: "nat \<Rightarrow> string" where
  "render_address v = (if isMappedV4 v then renderV4 (v AND MAX_IPV4) else renderV6 v)"

lemma mapped_prefix_or: "v < 2 ^ 32 \<Longrightarrow> MAPPED_V6_PREFIX OR v = 0xffff * 2 ^ 32 + v"
  using or_push_bit [of v 32 "0xffff"] by (simp only: MAPPED_V6_PREFIX_def)

lemma mapped_prefix_props:
  assumes "v < 2 ^ 32"
  shows "isMappedV4 (MAPPED_V6_PREFIX OR v)" "(MAPPED_V6_PREFIX OR v) AND MAX_IPV4 = v"
    "MAPPED_V6_PREFIX OR v < 2 ^ 128"
proof -
  have "(0xffff * 2 ^ 32 + v) mod 2 ^ 32 = v mod 2 ^ 32" by (simp only: mod_mult_self3)
  then show "(MAPPED_V6_PREFIX OR v) AND MAX_IPV4 = v"
    using assms mapped_prefix_or [OF assms] by (simp add: and_masks)
qed (use assms in \<open>simp_all add: mapped_prefix_or isMappedV4_def drop_bit_eq_div\<close>)

lemma mapped_rebuild: "isMappedV4 v \<Longrightarrow> MAPPED_V6_PREFIX OR (v AND MAX_IPV4) = v"
proof -
  assume "isMappedV4 v"
  then have "v div 4294967296 = 65535" by (simp add: isMappedV4_def drop_bit_eq_div)
  moreover have "v mod 4294967296 < 2 ^ 32" by simp
  ultimately show ?thesis
    using mapped_prefix_or [of "v mod 4294967296"] div_mult_mod_eq [of v 4294967296]
    by (simp add: and_masks)
qed

lemma hostToV6_bound: "hostToV6 s = Some v \<Longrightarrow> v < 2 ^ 128"
  using ipv6Value_bound [of s] ipv4Value_bound [of s] mapped_prefix_props(3)
  by (auto simp: hostToV6_def split: option.splits)

lemma ipv4_not_ipv6: "ipv4Value s = Some v \<Longrightarrow> ipv6Value s = None"
proof (rule ccontr)
  assume v4: "ipv4Value s = Some v" and "ipv6Value s \<noteq> None"
  then have colon: "CHR '':'' \<in> set s" using ipv6Value_colon by auto
  have d: "list_all is_octet_text ps" if "ipv4_parts n ps = Some v" for n ps
    using that by (induction n ps rule: ipv4_parts.induct) (auto simp: Let_def split: if_splits)
  have "list_all is_octet_text (split_str ''.'' s)"
    using v4 d by (auto simp: ipv4Value_def Let_def split: if_splits)
  then have "CHR '':'' \<notin> set p" if "p \<in> set (split_str ''.'' s)" for p
    using that by (fastforce simp: list_all_iff is_octet_text_def)
  then have "CHR '':'' \<notin> set s"
    using join_str_set [of "''.''" "split_str ''.'' s"] by (auto simp: join_split_str)
  with colon show False by simp
qed

lemma canonicalHost_address:
  "canonicalHost h =
     (case host_address h of None \<Rightarrow> to_lower (trim h) | Some v \<Rightarrow> render_address v)"
  using ipv4_not_ipv6 [of "to_lower (trim h)"] ipv4Value_bound [of "to_lower (trim h)"]
    mapped_prefix_props
  by (auto simp: canonicalHost_def host_address_def hostToV6_def render_address_def Let_def
      split: option.splits)

lemma hostToV6_render: "v < 2 ^ 128 \<Longrightarrow> hostToV6 (render_address v) = Some v"
proof (cases "isMappedV4 v")
  case True
  have "v AND MAX_IPV4 < 2 ^ 32" by (simp add: and_masks)
  with True show ?thesis
    using ipv4Value_renderV4 ipv4_not_ipv6 mapped_rebuild
    by (simp add: render_address_def hostToV6_def)
next
  case False
  assume "v < 2 ^ 128"
  with False show ?thesis by (simp add: render_address_def hostToV6_def ipv6Value_renderV6)
qed

lemma host_address_canonical: "host_address (canonicalHost h) = host_address h"
proof (cases "host_address h")
  case None
  then show ?thesis
    by (simp add: canonicalHost_address) (simp add: host_address_def trim_to_lower)
next
  case (Some v)
  then have "v < 2 ^ 128" using hostToV6_bound by (auto simp: host_address_def)
  moreover have "to_lower (trim (render_address v)) = render_address v"
    using render_shape [of "render_address v" v] render_shape [of "render_address v" "v AND MAX_IPV4"]
    by (auto simp: render_address_def)
  ultimately show ?thesis
    using Some hostToV6_render by (simp add: canonicalHost_address) (simp add: host_address_def)
qed

text \<open>
  Canonical spelling decides host identity. Two candidate hosts get the same canonical string
  exactly when they denote the same address (dotted IPv4, any IPv6 compression, an IPv4-mapped
  form), or when neither is an address and their trimmed lower-case text is equal. So an
  \<open>exact-host\<close> entry can neither be dodged by respelling an address nor hit a different one.
\<close>

lemma canonicalHost_identity:
  "canonicalHost a = canonicalHost b \<longleftrightarrow>
     (case host_address a of
        Some v \<Rightarrow> host_address b = Some v
      | None \<Rightarrow> host_address b = None \<and> to_lower (trim a) = to_lower (trim b))"
proof
  assume eq: "canonicalHost a = canonicalHost b"
  then have "host_address a = host_address b" by (metis host_address_canonical)
  with eq show "case host_address a of Some v \<Rightarrow> host_address b = Some v
      | None \<Rightarrow> host_address b = None \<and> to_lower (trim a) = to_lower (trim b)"
    by (auto simp: canonicalHost_address split: option.splits)
qed (auto simp: canonicalHost_address split: option.splits)

subsection \<open>Compiled registries\<close>

text \<open>Whether an entry covers a host, once compiled.\<close>

definition rule_covers :: "scope_rule \<Rightarrow> string \<Rightarrow> bool" where
  "rule_covers rule h = (case compileRule rule of Inl _ \<Rightarrow> False | Inr m \<Rightarrow> m h)"

definition compiled_ok :: "compiled_rule \<Rightarrow> bool" where
  "compiled_ok c \<longleftrightarrow> compileRule (fst c) = Inr (snd c)"

lemma compiled_ok_covers: "compiled_ok c \<Longrightarrow> snd c h = rule_covers (fst c) h"
  by (simp add: compiled_ok_def rule_covers_def)

lemma registry_lists:
  assumes "createTgSecScopeRegistry rules = Inr reg"
  shows "map fst (denies reg) = filter (\<lambda>r. enabled r \<and> effect r = ScopeDeny) rules"
    "map fst (allows reg) = filter (\<lambda>r. enabled r \<and> effect r = ScopeAllow) rules"
    "list_all compiled_ok (denies reg)" "list_all compiled_ok (allows reg)"
proof -
  let ?f = "\<lambda>rule. case compileRule rule of Inl e \<Rightarrow> Inl e | Inr m \<Rightarrow> Inr (rule, m)"
  obtain cs where f: "list_all2 (\<lambda>r c. ?f r = Inr c) rules cs"
    and reg: "reg = \<lparr>denies = filter (\<lambda>c. effect (fst c) = ScopeDeny) (filter (\<lambda>c. enabled (fst c)) cs),
      allows = filter (\<lambda>c. effect (fst c) = ScopeAllow) (filter (\<lambda>c. enabled (fst c)) cs)\<rparr>"
    using assms
    by (auto simp: createTgSecScopeRegistry_def map_err_Inr_iff case_prod_beta Let_def
        split: sum.splits)
  have cs: "list_all2 (\<lambda>r c. fst c = r \<and> compiled_ok c) rules cs"
    using f by (rule list_all2_mono) (auto simp: compiled_ok_def split: sum.splits)
  have "map fst cs = rules" using cs by (induction rule: list_all2_induct) auto
  then have "map fst (filter (\<lambda>c. P (fst c)) cs) = filter P rules" for P
    by (auto simp: filter_map comp_def)
  moreover have "list_all compiled_ok cs" using cs by (induction rule: list_all2_induct) auto
  ultimately show "map fst (denies reg) = filter (\<lambda>r. enabled r \<and> effect r = ScopeDeny) rules"
    "map fst (allows reg) = filter (\<lambda>r. enabled r \<and> effect r = ScopeAllow) rules"
    "list_all compiled_ok (denies reg)" "list_all compiled_ok (allows reg)"
    by (auto simp: reg list_all_iff conj_commute)
qed

lemma find_compiled:
  assumes "list_all compiled_ok cs"
  shows "map_option fst (find (\<lambda>(rule, m). m h) cs) = find (\<lambda>r. rule_covers r h) (map fst cs)"
  using assms by (induction cs) (auto simp: compiled_ok_covers [symmetric] split: prod.splits)

lemma outcome_rules:
  assumes "createTgSecScopeRegistry rules = Inr reg"
  shows "outcome reg h =
    (case find (\<lambda>r. rule_covers r h) (filter (\<lambda>r. enabled r \<and> effect r = ScopeDeny) rules) of
       Some r \<Rightarrow> Denied r
     | None \<Rightarrow>
         (case find (\<lambda>r. rule_covers r h) (filter (\<lambda>r. enabled r \<and> effect r = ScopeAllow) rules) of
            Some r \<Rightarrow> Allowed r | None \<Rightarrow> Unlisted))"
proof -
  have "outcome reg h =
    (case map_option fst (find (\<lambda>(rule, m). m h) (denies reg)) of
       Some r \<Rightarrow> Denied r
     | None \<Rightarrow>
         (case map_option fst (find (\<lambda>(rule, m). m h) (allows reg)) of
            Some r \<Rightarrow> Allowed r | None \<Rightarrow> Unlisted))"
    by (simp add: outcome_def findVerdict_def split: option.splits prod.splits)
  then show ?thesis
    unfolding find_compiled [OF registry_lists(3) [OF assms]]
      find_compiled [OF registry_lists(4) [OF assms]] registry_lists(1,2) [OF assms] .
qed

lemma find_filter_None:
  "find P (filter Q xs) = None \<longleftrightarrow> (\<forall>x \<in> set xs. Q x \<longrightarrow> \<not> P x)"
  by (auto simp: find_None_iff)

lemmas registry_eval = isHostToken_def canonicalHost_def ipv4Value_def split_str_def Let_def
  is_octet_text_def parse_base_def digit_val_def is_digit_def digits10_def trim_def is_space_def
  to_lower_def renderV4_def and_masks drop_bit_eq_div push_bit_eq_mult dec_string.simps
  digit_char_def hostToV4_def parseCidr_def inNetwork_def

text \<open>
  C20. A deny entry vetoes whatever the order of the entries: a compiled registry contains a host
  exactly when an enabled allow entry covers it and no enabled deny entry does. Disabled entries
  and the position of an entry in the list have no effect, and an empty registry contains nothing.
\<close>

theorem contains_iff:
  assumes "createTgSecScopeRegistry rules = Inr reg"
  shows "contains reg h \<longleftrightarrow>
    (\<exists>r \<in> set rules. enabled r \<and> effect r = ScopeAllow \<and> rule_covers r h) \<and>
    \<not> (\<exists>r \<in> set rules. enabled r \<and> effect r = ScopeDeny \<and> rule_covers r h)"
  unfolding contains_def outcome_rules [OF assms]
  by (auto simp: find_filter_None split: option.splits dest!: find_Some_in_set)

lemma sample_hosts:
  "ipv4Value ''10.0.0.1'' = Some 167772161" "ipv4Value ''10.0.0.2'' = Some 167772162"
  by (simp_all add: registry_eval)

lemma sample_rules:
  "compileRule \<lparr>kind = ExactHost, pattern = ''10.0.0.1'', effect = e, enabled = b\<rparr> =
     Inr (\<lambda>h. canonicalHost h = ''10.0.0.1'')"
  "compileRule \<lparr>kind = ExactHost, pattern = ''10.0.0.2'', effect = e, enabled = b\<rparr> =
     Inr (\<lambda>h. canonicalHost h = ''10.0.0.2'')"
  by (simp_all add: registry_eval compileRule_def sublist_Cons_right)

lemma sample_canonical:
  "canonicalHost ''10.0.0.1'' = ''10.0.0.1''" "canonicalHost ''10.0.0.2'' = ''10.0.0.2''"
  by (simp_all add: registry_eval)

theorem contains_iff_witness:
  "\<exists>reg. createTgSecScopeRegistry
       [\<lparr>kind = ExactHost, pattern = ''10.0.0.1'', effect = ScopeAllow, enabled = True\<rparr>,
        \<lparr>kind = ExactHost, pattern = ''10.0.0.2'', effect = ScopeDeny, enabled = True\<rparr>] = Inr reg \<and>
     contains reg ''10.0.0.1'' \<and> \<not> contains reg ''10.0.0.2''"
proof -
  let ?rules = "[\<lparr>kind = ExactHost, pattern = ''10.0.0.1'', effect = ScopeAllow, enabled = True\<rparr>,
        \<lparr>kind = ExactHost, pattern = ''10.0.0.2'', effect = ScopeDeny, enabled = True\<rparr>]"
  obtain reg where reg: "createTgSecScopeRegistry ?rules = Inr reg"
    by (simp add: createTgSecScopeRegistry_def sample_rules)
  from contains_iff [OF reg, of "''10.0.0.1''"] contains_iff [OF reg, of "''10.0.0.2''"] reg
  show ?thesis
    by (simp add: rule_covers_def sample_rules sample_canonical)
qed

subsection \<open>Network entries\<close>

lemma last_index_of_append:
  "c \<notin> set q \<Longrightarrow> last_index_of c (p @ c # q) = Some (length p)"
proof (induction p)
  case Nil
  have "last_index_of c q = None" using Nil by (induction q) auto
  then show ?case by simp
qed simp

lemma hex_char_class:
  assumes "is_hex c" shows "c \<noteq> CHR ''/''" "\<not> is_space c"
  using assms by (auto simp: is_hex_def is_digit_def digits10_def is_space_def)

lemma slash_free:
  "CHR ''/'' \<notin> set (dec_string n)" "CHR ''/'' \<notin> set (renderV4 v)" "CHR ''/'' \<notin> set (renderV6 v)"
proof -
  have d: "is_digit c \<Longrightarrow> c \<noteq> CHR ''/''" for c using hex_char_class(1) by (simp add: is_hex_def)
  show "CHR ''/'' \<notin> set (dec_string n)" using dec_string_digits [of n] d by (auto simp: list_all_iff)
  show "CHR ''/'' \<notin> set (renderV4 v)" using renderV4_chars [of "CHR ''/''" v] d by auto
  show "CHR ''/'' \<notin> set (renderV6 v)" using renderV6_chars [of "CHR ''/''" v] hex_char_class(1) by auto
qed

lemma render_nonempty: "renderV4 v \<noteq> []" "renderV6 v \<noteq> []"
  using split_renderV6 [of v] groups128_props(1) [of v]
  by (auto simp: renderV4_def join_str_Cons split_str_def)

lemma parseCidr_render:
  assumes "CHR ''/'' \<notin> set s" "s \<noteq> []" "parse s = Some base" "pre \<le> bits" "pre < 256"
  shows "parseCidr k (s @ ''/'' @ dec_string pre) bits parse = Inr (base, pre)"
  using assms last_index_of_append [of "CHR ''/''" "dec_string pre" s] slash_free(1) [of pre]
    octet_text_dec [of pre] dec_string_nonempty [of pre]
  by (auto simp: parseCidr_def Let_def)

lemma network_text_shape:
  assumes "s = renderV4 v \<or> s = renderV6 v"
  shows "to_lower (trim (s @ ''/'' @ dec_string n)) = s @ ''/'' @ dec_string n"
proof -
  let ?p = "s @ ''/'' @ dec_string n"
  have c: "is_hex c \<or> c = CHR '':'' \<or> c = CHR ''.'' \<or> c = CHR ''/''" if "c \<in> set ?p" for c
    using assms that renderV4_chars [of c v] renderV6_chars [of c v] dec_string_digits [of n]
    by (auto simp: is_hex_def list_all_iff)
  have "list_all (\<lambda>c. \<not> is_space c) ?p"
    unfolding list_all_iff
  proof
    fix x assume "x \<in> set ?p"
    from c [OF this] show "\<not> is_space x"
      using hex_char_class(2) [of x] by (elim disjE) (simp_all add: is_space_def)
  qed
  moreover have "to_lower ?p = ?p"
  proof (rule to_lower_id)
    fix x assume "x \<in> set ?p"
    from c [OF this] show "lower_char x = x" by (elim disjE) simp_all
  qed
  ultimately show ?thesis by (simp only: trim_no_space)
qed

definition network_rule :: "scope_kind \<Rightarrow> string \<Rightarrow> nat \<Rightarrow> scope_rule" where
  "network_rule k base_text pre =
     \<lparr>kind = k, pattern = base_text @ ''/'' @ dec_string pre, effect = ScopeAllow, enabled = True\<rparr>"

lemma inNetwork_div:
  "pre \<le> bits \<Longrightarrow> val < 2 ^ bits \<Longrightarrow> base < 2 ^ bits \<Longrightarrow>
   inNetwork val base pre bits \<longleftrightarrow> val div 2 ^ (bits - pre) = base div 2 ^ (bits - pre)"
  by (auto simp: inNetwork_def drop_bit_eq_div)

lemma cidr4_covers:
  assumes "base < 2 ^ 32" "pre \<le> 32"
  shows "rule_covers (network_rule Cidr4 (renderV4 base) pre) h \<longleftrightarrow>
      (case hostToV4 h of None \<Rightarrow> False
       | Some v \<Rightarrow> v div 2 ^ (32 - pre) = base div 2 ^ (32 - pre))"
proof -
  have v4: "v < 2 ^ 32" if "hostToV4 h = Some v" for v
    using that ipv4Value_bound [of h]
    by (auto simp: hostToV4_def and_masks split: option.splits if_splits)
  have "parseCidr Cidr4 (renderV4 base @ ''/'' @ dec_string pre) 32 ipv4Value = Inr (base, pre)"
    using assms slash_free(2) render_nonempty(1) ipv4Value_renderV4 by (intro parseCidr_render) auto
  then show ?thesis
    using network_text_shape [of "renderV4 base" base pre] assms v4 inNetwork_div [of pre 32]
    by (auto simp: rule_covers_def compileRule_def network_rule_def split: option.splits)
qed

lemma cidr6_covers:
  assumes "base6 < 2 ^ 128" "pre6 \<le> 128"
  shows "rule_covers (network_rule Cidr6 (renderV6 base6) pre6) h \<longleftrightarrow>
      (case hostToV6 h of None \<Rightarrow> False
       | Some v \<Rightarrow> v div 2 ^ (128 - pre6) = base6 div 2 ^ (128 - pre6))"
proof -
  have "parseCidr Cidr6 (renderV6 base6 @ ''/'' @ dec_string pre6) 128 ipv6Value = Inr (base6, pre6)"
    using assms slash_free(3) render_nonempty(2) ipv6Value_renderV6 by (intro parseCidr_render) auto
  then show ?thesis
    using network_text_shape [of "renderV6 base6" base6 pre6] assms hostToV6_bound
      inNetwork_div [of pre6 128]
    by (auto simp: rule_covers_def compileRule_def network_rule_def split: option.splits)
qed

text \<open>
  A CIDR entry means its network. For every base address and prefix length in range, the entry
  written \<open>base/prefix\<close> compiles, and it covers a host exactly when the host is an address of that
  family whose leading prefix bits are those of the base; a host that is no address is not covered.
\<close>

lemma cidr_covers:
  assumes "base < 2 ^ 32" "pre \<le> 32" "base6 < 2 ^ 128" "pre6 \<le> 128"
  shows "(rule_covers (network_rule Cidr4 (renderV4 base) pre) h \<longleftrightarrow>
      (case hostToV4 h of None \<Rightarrow> False
       | Some v \<Rightarrow> v div 2 ^ (32 - pre) = base div 2 ^ (32 - pre))) \<and>
    (rule_covers (network_rule Cidr6 (renderV6 base6) pre6) h \<longleftrightarrow>
      (case hostToV6 h of None \<Rightarrow> False
       | Some v \<Rightarrow> v div 2 ^ (128 - pre6) = base6 div 2 ^ (128 - pre6)))"
  using cidr4_covers [OF assms(1,2)] cidr6_covers [OF assms(3,4)] by simp

lemma hostToV4_V6:
  "hostToV4 h = (case hostToV6 h of None \<Rightarrow> None
     | Some v \<Rightarrow> if isMappedV4 v then Some (v AND MAX_IPV4) else None)"
  using ipv4_not_ipv6 [of h] ipv4Value_bound [of h] mapped_prefix_props
  by (auto simp: hostToV4_def hostToV6_def split: option.splits)

text \<open>
  The two families agree on IPv4. A \<open>cidr4\<close> entry and the \<open>cidr6\<close> entry of the mapped network
  (the mapped base, 96 more prefix bits) cover exactly the same hosts, so writing a host or a rule in
  mapped form changes no verdict.
\<close>

lemma cidr_families_agree:
  assumes "base < 2 ^ 32" "pre \<le> 32"
  shows "rule_covers (network_rule Cidr4 (renderV4 base) pre) h \<longleftrightarrow>
    rule_covers (network_rule Cidr6 (renderV6 (MAPPED_V6_PREFIX OR base)) (96 + pre)) h"
proof -
  let ?mb = "MAPPED_V6_PREFIX OR base"
  have mb: "?mb < 2 ^ 128" "isMappedV4 ?mb" "?mb = 0xffff * 2 ^ 32 + base"
    using assms mapped_prefix_props mapped_prefix_or by auto
  have key: "v div 2 ^ (32 - pre) = ?mb div 2 ^ (32 - pre) \<longleftrightarrow>
      isMappedV4 v \<and> (v AND MAX_IPV4) div 2 ^ (32 - pre) = base div 2 ^ (32 - pre)" for v
  proof -
    let ?d = "2 ^ (32 - pre) :: nat"
    have d: "?d * 2 ^ pre = 2 ^ 32" using assms by (simp add: power_add [symmetric])
    have split: "(q * 2 ^ 32 + r) div ?d = q * 2 ^ pre + r div ?d" for q r
    proof -
      have "q * 2 ^ 32 + r = r + (q * 2 ^ pre) * ?d" using d by (simp add: mult.assoc mult.commute)
      also have "\<dots> div ?d = q * 2 ^ pre + r div ?d" by (rule div_mult_self1) simp
      finally show ?thesis .
    qed
    have small: "r div ?d < 2 ^ pre" if "r < 2 ^ 32" for r
      using that d by (metis less_mult_imp_div_less mult.commute)
    have "v = v div 2 ^ 32 * 2 ^ 32 + v mod 2 ^ 32" by simp
    then have "v div ?d = v div 2 ^ 32 * 2 ^ pre + v mod 2 ^ 32 div ?d" by (metis split)
    moreover have "?mb div ?d = 0xffff * 2 ^ pre + base div ?d" using mb(3) split by metis
    moreover have "v mod 2 ^ 32 div ?d < 2 ^ pre" "base div ?d < 2 ^ pre"
      using small assms by simp_all
    moreover have "q * k + a = q' * k + b \<longleftrightarrow> q = q' \<and> a = b" if "a < k" "b < k" for q q' k a b :: nat
    proof
      assume eq: "q * k + a = q' * k + b"
      have "(q * k + a) div k = q" "(q' * k + b) div k = q'" using that by simp_all
      with eq show "q = q' \<and> a = b" by auto
    qed simp
    ultimately show ?thesis
      by (simp add: isMappedV4_def drop_bit_eq_div and_masks)
  qed
  show ?thesis
    using assms mb(1) key
    by (subst cidr4_covers [OF assms], subst cidr6_covers [of ?mb "96 + pre"])
      (auto simp: hostToV4_V6 split: option.splits)
qed

end
