(* ===== verification/Scope.thy ===== *)
theory Scope
  imports Scope_Registry Hard_Deny
begin

text \<open>
  The scope resolver (\<open>packages/sec-guard/src/scope.ts\<close>): the verdict of one request from its
  connection targets and a registry. The resolver only uses \<open>registry.outcome\<close>, so its facts are
  proved once from what a registry promises and then interpreted on the registry of
  \<open>scope-registry.ts\<close>. The file also states which tool parameters cannot reach either the scope
  verdict or the self-protection rules.
\<close>

subsection \<open>The resolver\<close>

record scope_result =
  inScope :: bool
  scope_reason :: "string option"

definition evidence_text :: "evidence \<Rightarrow> string" where
  "evidence_text e = (case e of Weak \<Rightarrow> ''weak'' | Strong \<Rightarrow> ''strong'')"

definition kind_text :: "scope_kind \<Rightarrow> string" where
  "kind_text k =
     (case k of ExactHost \<Rightarrow> ''exact-host'' | SuffixDomain \<Rightarrow> ''suffix-domain''
      | FuzzyHost \<Rightarrow> ''fuzzy-host'' | Cidr4 \<Rightarrow> ''cidr4'' | Cidr6 \<Rightarrow> ''cidr6'')"

fun resolve_targets :: "(string \<Rightarrow> scope_verdict) \<Rightarrow> connection_target list \<Rightarrow> scope_result" where
  "resolve_targets verdict_of [] = \<lparr>inScope = True, scope_reason = None\<rparr>"
| "resolve_targets verdict_of (t # ts) =
     (let named = ''the connection target '' @ [dquote] @ host t @ [dquote] @ '' ('' @
                  evidence_text (target_evidence t) @ '' evidence)''
      in case verdict_of (host t) of
           Allowed rule \<Rightarrow> resolve_targets verdict_of ts
         | Denied rule \<Rightarrow>
             \<lparr>inScope = False,
              scope_reason = Some (named @ '' is refused by the scope deny entry '' @ [dquote] @
                pattern rule @ [dquote] @ '' ('' @ kind_text (kind rule) @ '')'')\<rparr>
         | Unlisted \<Rightarrow>
             \<lparr>inScope = False,
              scope_reason = Some (named @ '' is not in the registered scope: no allow entry covers it'')\<rparr>)"

definition createTgSecScopeResolver :: "(string \<Rightarrow> scope_verdict) \<Rightarrow> request \<Rightarrow> scope_result" where
  "createTgSecScopeResolver verdict_of req = resolve_targets verdict_of (extractConnectionTargets req)"

subsection \<open>What the resolver promises over any registry\<close>

text \<open>
  A registry decides each host by a verdict, and permits a host exactly on an \<open>Allowed\<close> verdict;
  a denied host is denied by an enabled deny entry of its configuration.
\<close>

locale scope_registry_contract =
  fixes verdict_of :: "'r \<Rightarrow> string \<Rightarrow> scope_verdict"
    and permits :: "'r \<Rightarrow> string \<Rightarrow> bool"
    and configured :: "scope_rule list \<Rightarrow> 'r \<Rightarrow> bool"
  assumes permits_verdict: "permits r h \<longleftrightarrow> (\<exists>rule. verdict_of r h = Allowed rule)"
    and deny_sound: "configured rules r \<Longrightarrow> verdict_of r h = Denied rule \<Longrightarrow>
      rule \<in> set rules \<and> enabled rule \<and> effect rule = ScopeDeny \<and> rule_covers rule h"
    and allow_sound: "configured rules r \<Longrightarrow> verdict_of r h = Allowed rule \<Longrightarrow>
      rule \<in> set rules \<and> enabled rule \<and> effect rule = ScopeAllow \<and> rule_covers rule h"
begin

lemma inScope_targets:
  "inScope (resolve_targets (verdict_of r) ts) \<longleftrightarrow> (\<forall>t \<in> set ts. permits r (host t))"
  by (induction ts) (auto simp: permits_verdict Let_def split: scope_verdict.splits)

lemma inScope_iff:
  "inScope (createTgSecScopeResolver (verdict_of r) req) \<longleftrightarrow>
     (\<forall>t \<in> set (extractConnectionTargets req). permits r (host t))"
  by (simp add: createTgSecScopeResolver_def inScope_targets)

lemma refused_reason:
  "inScope (resolve_targets (verdict_of r) ts) \<longleftrightarrow> scope_reason (resolve_targets (verdict_of r) ts) = None"
  by (induction ts) (auto simp: Let_def split: scope_verdict.splits)

lemma inScope_covered:
  assumes "configured rules r" "inScope (createTgSecScopeResolver (verdict_of r) req)"
    and "t \<in> set (extractConnectionTargets req)"
  shows "\<exists>rule \<in> set rules. enabled rule \<and> effect rule = ScopeAllow \<and> rule_covers rule (host t)"
  using assms allow_sound by (force simp: inScope_iff permits_verdict)

end

interpretation registry: scope_registry_contract outcome contains
  "\<lambda>rules reg. createTgSecScopeRegistry rules = Inr reg"
proof unfold_locales
  show "contains r h \<longleftrightarrow> (\<exists>rule. outcome r h = Allowed rule)" for r h
    by (simp add: contains_def split: scope_verdict.splits)
next
  fix rules r h rule
  assume c: "createTgSecScopeRegistry rules = Inr r"
  show "outcome r h = Denied rule \<Longrightarrow>
      rule \<in> set rules \<and> enabled rule \<and> effect rule = ScopeDeny \<and> rule_covers rule h"
    unfolding outcome_rules [OF c]
    by (auto split: option.splits dest!: find_Some_in_set)
  show "outcome r h = Allowed rule \<Longrightarrow>
      rule \<in> set rules \<and> enabled rule \<and> effect rule = ScopeAllow \<and> rule_covers rule h"
    unfolding outcome_rules [OF c]
    by (auto split: option.splits dest!: find_Some_in_set)
qed

subsection \<open>The scope verdict of a request\<close>

lemma contains_rules:
  assumes "createTgSecScopeRegistry rules = Inr reg"
  shows "contains reg h \<longleftrightarrow>
    (\<exists>r \<in> set rules. enabled r \<and> effect r = ScopeAllow \<and> rule_covers r h) \<and>
    (\<forall>r \<in> set rules. enabled r \<longrightarrow> effect r = ScopeDeny \<longrightarrow> \<not> rule_covers r h)"
  unfolding contains_def outcome_rules [OF assms]
  by (auto simp: find_filter_None split: option.splits dest!: find_Some_in_set)

text \<open>
  A request is in scope exactly when every one of its connection targets, strong or weak, is
  covered by an enabled allow entry and by no enabled deny entry of the configuration. A refused
  request always carries a reason and one in scope never does; a request without targets is in
  scope.
\<close>

lemma inScope_every_target:
  assumes "createTgSecScopeRegistry rules = Inr reg"
  shows "(inScope (createTgSecScopeResolver (outcome reg) req) \<longleftrightarrow>
      (\<forall>t \<in> set (extractConnectionTargets req).
         (\<exists>r \<in> set rules. enabled r \<and> effect r = ScopeAllow \<and> rule_covers r (host t)) \<and>
         (\<forall>r \<in> set rules. enabled r \<and> effect r = ScopeDeny \<longrightarrow> \<not> rule_covers r (host t)))) \<and>
    (inScope (createTgSecScopeResolver (outcome reg) req) \<longleftrightarrow>
      scope_reason (createTgSecScopeResolver (outcome reg) req) = None)"
  using registry.inScope_iff [of reg req] contains_rules [OF assms]
    registry.refused_reason [of reg "extractConnectionTargets req"]
  by (auto simp: createTgSecScopeResolver_def)

text \<open>A URL parameter as the only argument: the request the witnesses use.\<close>

definition url_request :: "string \<Rightarrow> request" where
  "url_request u =
     \<lparr>toolName = ''fetch'', resource = ''tool:fetch'', arguments = AObj [(''url'', AStr u)]\<rparr>"


subsection \<open>Detail parameters cannot steer the target checks\<close>

lemma collectValues_Detail:
  "filter (\<lambda>e. snd e \<noteq> Detail) (collectValues (AObj (pre @ (k, AStr x) # post)) role) =
     filter (\<lambda>e. snd e \<noteq> Detail) (collectValues (AObj pre) role) @
     (if parameterRole k = Detail then [] else [(x, parameterRole k)]) @
     filter (\<lambda>e. snd e \<noteq> Detail) (collectValues (AObj post) role)"
  by simp

text \<open>
  The text of a detail parameter (\<open>content\<close>, \<open>text\<close>, \<open>path\<close>, \<open>query\<close>, ...) has no influence
  on the connection targets: replacing it by any other text leaves the extracted targets, the scope
  verdict under any registry, and both halves of self-protection as they were. So a document that
  mentions an address can neither be denied for it nor pull a call into or out of scope.
\<close>

lemma detail_text_ignored:
  assumes "parameterRole k = Detail"
    and "arguments r1 = AObj (pre @ (k, AStr x) # post)"
    and "arguments r2 = AObj (pre @ (k, AStr y) # post)"
  shows "extractConnectionTargets r1 = extractConnectionTargets r2 \<and>
    createTgSecScopeResolver verdict_of r1 = createTgSecScopeResolver verdict_of r2 \<and>
    strongSelfProtection (extractConnectionTargets r1) addrs =
      strongSelfProtection (extractConnectionTargets r2) addrs \<and>
    evaluateWeakSelfProtection r1 addrs = evaluateWeakSelfProtection r2 addrs"
proof -
  have "extractConnectionTargets r1 = extractConnectionTargets r2"
    by (simp add: extractConnectionTargets_def targets_of_surface targetStreams_filter
        assms collectValues_Detail del: collectValues.simps)
  then show ?thesis by (simp add: createTgSecScopeResolver_def evaluateWeakSelfProtection_def)
qed

end
