(* ===== verification/Rule_Table.thy ===== *)
theory Rule_Table
  imports Regex Scope_Registry
begin

text \<open>
  The operator's intercept rules (\<open>packages/sec-guard/src/rules.ts\<close>): the wildcard grammar, the
  precedence deny over ask over allow, compiling a table with its validation errors, matching a
  resource, and parsing the configuration file. Effects are datatype values and priorities are
  rationals, the finite numbers JSON can carry; a priority that is no integer is rejected as in the
  code. The checks of \<open>createTgSecRuleTable\<close> that a field has its declared primitive type hold by
  typing here; the same checks on the untyped configuration are in \<open>parseRule\<close>.
\<close>

subsection \<open>Rules\<close>

datatype rule_effect = DenyRule | AskRule | AllowRule

text \<open>\<open>effectRank\<close>: the index in \<open>EFFECT_RANK\<close>, strongest first.\<close>

definition EFFECT_RANK :: "rule_effect list" where
  "EFFECT_RANK = [DenyRule, AskRule, AllowRule]"

fun effectRank :: "rule_effect \<Rightarrow> nat" where
  "effectRank DenyRule = 0"
| "effectRank AskRule = 1"
| "effectRank AllowRule = 2"

instantiation rule_effect :: linorder
begin

definition less_eq_rule_effect :: "rule_effect \<Rightarrow> rule_effect \<Rightarrow> bool" where
  "less_eq_rule_effect a b \<longleftrightarrow> effectRank b \<le> effectRank a"

definition less_rule_effect :: "rule_effect \<Rightarrow> rule_effect \<Rightarrow> bool" where
  "less_rule_effect a b \<longleftrightarrow> effectRank b < effectRank a"

instance
proof
  fix a b c :: rule_effect
  show "a < b \<longleftrightarrow> a \<le> b \<and> \<not> b \<le> a" "a \<le> a" "a \<le> b \<or> b \<le> a"
    by (auto simp: less_eq_rule_effect_def less_rule_effect_def)
  show "a \<le> b \<Longrightarrow> b \<le> c \<Longrightarrow> a \<le> c" by (simp add: less_eq_rule_effect_def)
  show "a \<le> b \<Longrightarrow> b \<le> a \<Longrightarrow> a = b"
    by (cases a; cases b) (simp_all add: less_eq_rule_effect_def)
qed

end

record sec_rule =
  rule_id :: string
  priority :: rat
  rule_pattern :: string
  rule_effect :: rule_effect
  rule_enabled :: bool
  rule_note :: "string option"

datatype rule_error =
    EmptyId nat
  | DuplicateId string
  | NotToolPattern string string
  | PriorityNotInteger string rat
  | RulesNotJson string
  | RulesNotArray
  | RuleNotObject nat
  | RuleId nat
  | RulePriority nat
  | RulePattern nat
  | RuleEffect nat
  | RuleEnabled nat
  | RuleNote nat

subsection \<open>Wildcards\<close>

text \<open>\<open>.\<close> without the \<open>s\<close> flag stops at line terminators.\<close>

definition line_terminator :: "char \<Rightarrow> bool" where
  "line_terminator c \<longleftrightarrow> c = CHR 0x0A \<or> c = CHR 0x0D"

definition wildcardToRegExp :: "string \<Rightarrow> regex" where
  "wildcardToRegExp pat =
     r_seq (RBegin #
       map (\<lambda>c. if c = CHR ''*'' then RRep 0 None (RClass (\<lambda>d. \<not> line_terminator d)) else RStr [c]) pat
       @ [REnd])"

definition isToolPattern :: "string \<Rightarrow> bool" where
  "isToolPattern pat \<longleftrightarrow>
     prefix ''tool:'' pat \<and> drop 5 pat \<noteq> [] \<and> list_all (\<lambda>c. \<not> is_space c) (drop 5 pat)"

subsection \<open>Precedence\<close>

record rule_entry =
  entry_rule :: sec_rule
  entry_test :: regex
  entry_order :: nat

definition outranks :: "rule_entry \<Rightarrow> rule_entry \<Rightarrow> bool" where
  "outranks a b \<longleftrightarrow>
     (let rankA = effectRank (rule_effect (entry_rule a)); rankB = effectRank (rule_effect (entry_rule b))
      in if rankA \<noteq> rankB then rankA < rankB
         else if priority (entry_rule a) \<noteq> priority (entry_rule b)
         then priority (entry_rule a) > priority (entry_rule b)
         else entry_order a < entry_order b)"

subsection \<open>Compiling and matching\<close>

fun compile_rules :: "string list \<Rightarrow> nat \<Rightarrow> sec_rule list \<Rightarrow> rule_error + rule_entry list" where
  "compile_rules seen order [] = Inr []"
| "compile_rules seen order (rule # rules) =
     (if trim (rule_id rule) = [] then Inl (EmptyId order)
      else if rule_id rule \<in> set seen then Inl (DuplicateId (rule_id rule))
      else if \<not> isToolPattern (rule_pattern rule)
      then Inl (NotToolPattern (rule_id rule) (rule_pattern rule))
      else if \<not> is_integer (priority rule)
      then Inl (PriorityNotInteger (rule_id rule) (priority rule))
      else
        case compile_rules (rule_id rule # seen) (order + 1) rules of
          Inl e \<Rightarrow> Inl e
        | Inr entries \<Rightarrow>
            Inr (\<lparr>entry_rule = rule, entry_test = wildcardToRegExp (rule_pattern rule),
                  entry_order = order\<rparr> # entries))"

type_synonym rule_table = "rule_entry list"

definition createTgSecRuleTable :: "sec_rule list \<Rightarrow> rule_error + rule_table" where
  "createTgSecRuleTable rules =
     (case compile_rules [] 0 rules of
        Inl e \<Rightarrow> Inl e
      | Inr compiled \<Rightarrow> Inr (filter (\<lambda>entry. rule_enabled (entry_rule entry)) compiled))"

text \<open>The loop of \<open>match\<close>: the winner so far, replaced by an entry that outranks it.\<close>

fun pick_winner :: "(rule_entry \<Rightarrow> rule_entry \<Rightarrow> bool) \<Rightarrow> rule_entry option \<Rightarrow> rule_entry list \<Rightarrow>
    rule_entry option" where
  "pick_winner beats winner [] = winner"
| "pick_winner beats winner (entry # entries) =
     pick_winner beats
       (case winner of None \<Rightarrow> Some entry | Some w \<Rightarrow> if beats entry w then Some entry else Some w)
       entries"

definition match_rule :: "rule_table \<Rightarrow> string \<Rightarrow> sec_rule option" where
  "match_rule table res =
     map_option entry_rule
       (pick_winner outranks None (filter (\<lambda>entry. re_test (entry_test entry) res) table))"

subsection \<open>The configuration file\<close>

definition effect_of :: "arg \<Rightarrow> rule_effect option" where
  "effect_of e =
     (if e = AStr ''allow'' then Some AllowRule
      else if e = AStr ''deny'' then Some DenyRule
      else if e = AStr ''ask'' then Some AskRule
      else None)"

definition parseRule :: "nat \<Rightarrow> arg \<Rightarrow> rule_error + sec_rule" where
  "parseRule index raw =
     (case raw of
        AObj _ \<Rightarrow>
          (case arg_field raw ''id'' of
             AStr i \<Rightarrow>
               (case arg_field raw ''priority'' of
                  ANum p \<Rightarrow>
                    (case arg_field raw ''pattern'' of
                       AStr pat \<Rightarrow>
                         (case effect_of (arg_field raw ''effect'') of
                            None \<Rightarrow> Inl (RuleEffect index)
                          | Some eff \<Rightarrow>
                              (case arg_field raw ''enabled'' of
                                 ABool en \<Rightarrow>
                                   (case arg_field raw ''note'' of
                                      AUndefined \<Rightarrow>
                                        Inr \<lparr>rule_id = i, priority = p, rule_pattern = pat,
                                             rule_effect = eff, rule_enabled = en, rule_note = None\<rparr>
                                    | AStr n \<Rightarrow>
                                        Inr \<lparr>rule_id = i, priority = p, rule_pattern = pat,
                                             rule_effect = eff, rule_enabled = en, rule_note = Some n\<rparr>
                                    | _ \<Rightarrow> Inl (RuleNote index))
                               | _ \<Rightarrow> Inl (RuleEnabled index)))
                     | _ \<Rightarrow> Inl (RulePattern index))
                | _ \<Rightarrow> Inl (RulePriority index))
           | _ \<Rightarrow> Inl (RuleId index))
      | _ \<Rightarrow> Inl (RuleNotObject index))"

definition parseTgSecRules ::
  "(string \<Rightarrow> string + arg) \<Rightarrow> string \<Rightarrow> rule_error + sec_rule list" where
  "parseTgSecRules json_parse config =
     (case json_parse config of
        Inl message \<Rightarrow> Inl (RulesNotJson message)
      | Inr (AArr entries) \<Rightarrow>
          (case map_err (\<lambda>(index, entry). parseRule index entry) (List.enumerate 0 entries) of
             Inl e \<Rightarrow> Inl e
           | Inr rules \<Rightarrow>
               (case createTgSecRuleTable rules of Inl e \<Rightarrow> Inl e | Inr table \<Rightarrow> Inr rules))
      | Inr _ \<Rightarrow> Inl RulesNotArray)"

definition loadTgSecRules ::
  "(string \<Rightarrow> string + arg) \<Rightarrow> 'e file_read \<Rightarrow> ('e + rule_error) + rule_table" where
  "loadTgSecRules json_parse file =
     (case file of
        FileMissing \<Rightarrow>
          (case createTgSecRuleTable [] of Inl e \<Rightarrow> Inl (Inr e) | Inr t \<Rightarrow> Inr t)
      | FileError e \<Rightarrow> Inl (Inl e)
      | FileText config \<Rightarrow>
          (case parseTgSecRules json_parse config of
             Inl e \<Rightarrow> Inl (Inr e)
           | Inr rules \<Rightarrow>
               (case createTgSecRuleTable rules of Inl e \<Rightarrow> Inl (Inr e) | Inr t \<Rightarrow> Inr t)))"

subsection \<open>The wildcard grammar\<close>

text \<open>The grammar without regular expressions: a star stands for any text within a line.\<close>

fun wildcard_match :: "string \<Rightarrow> string \<Rightarrow> bool" where
  "wildcard_match [] s \<longleftrightarrow> s = []"
| "wildcard_match (p # ps) [] \<longleftrightarrow> p = CHR ''*'' \<and> wildcard_match ps []"
| "wildcard_match (p # ps) (c # cs) \<longleftrightarrow>
     (if p = CHR ''*'' then
        wildcard_match ps (c # cs) \<or> \<not> line_terminator c \<and> wildcard_match (p # ps) cs
      else p = c \<and> wildcard_match ps cs)"

lemma wildcard_match_star:
  "wildcard_match (CHR ''*'' # ps) s \<longleftrightarrow>
     (\<exists>w v. s = w @ v \<and> list_all (\<lambda>c. \<not> line_terminator c) w \<and> wildcard_match ps v)"
proof (induction s)
  case (Cons c cs)
  show ?case (is "_ \<longleftrightarrow> ?R")
  proof
    assume "wildcard_match (CHR ''*'' # ps) (c # cs)"
    then consider "wildcard_match ps (c # cs)"
      | w v where "\<not> line_terminator c" "cs = w @ v" "list_all (\<lambda>c. \<not> line_terminator c) w"
          "wildcard_match ps v"
      using Cons by auto
    then show ?R
    proof cases
      case 1
      then show ?thesis by (intro exI [of _ "[]"] exI [of _ "c # cs"]) simp
    next
      case 2
      then show ?thesis by (intro exI [of _ "c # w"] exI [of _ v]) simp
    qed
  next
    assume ?R
    then obtain w v where r: "c # cs = w @ v" "list_all (\<lambda>c. \<not> line_terminator c) w"
      "wildcard_match ps v" by blast
    then show "wildcard_match (CHR ''*'' # ps) (c # cs)" using Cons by (cases w) auto
  qed
qed auto

lemma star_positions:
  "q \<in> set (rmatch (RRep 0 None (RClass P)) (b, a)) \<longleftrightarrow>
     (\<exists>w v. a = w @ v \<and> list_all P w \<and> q = (rev w @ b, v))"
proof
  assume q: "q \<in> set (rmatch (RRep 0 None (RClass P)) (b, a))"
  have "\<exists>w v. snd p = w @ v \<and> list_all P w \<and> q = (rev w @ fst p, v)"
    if "q \<in> set (repeat_upto n (rmatch (RClass P)) p)" for n p
    using that
  proof (induction n arbitrary: p)
    case (Suc n)
    then consider "q = p"
      | m where "m \<in> set (rmatch (RClass P) p)" "q \<in> set (repeat_upto n (rmatch (RClass P)) m)"
      by auto
    then show ?case
    proof cases
      case 1
      then show ?thesis by (intro exI [of _ "[]"] exI [of _ "snd p"]) simp
    next
      case 2
      then obtain c cs where c: "snd p = c # cs" "P c" "m = (c # fst p, cs)"
        by (auto split: prod.splits list.splits if_splits)
      from Suc.IH [OF 2(2)] obtain w v where
        "cs = w @ v" "list_all P w" "q = (rev w @ c # fst p, v)" using c by auto
      then show ?thesis using c by (intro exI [of _ "c # w"] exI [of _ v]) simp
    qed
  qed (auto intro: exI [of _ "[]"])
  with q show "\<exists>w v. a = w @ v \<and> list_all P w \<and> q = (rev w @ b, v)" by fastforce
next
  assume "\<exists>w v. a = w @ v \<and> list_all P w \<and> q = (rev w @ b, v)"
  then show "q \<in> set (rmatch (RRep 0 None (RClass P)) (b, a))"
    using rmatch_class_run [where m = 0 and M = None and P = P] by auto
qed

lemma wildcard_steps:
  "rmatch (r_seq (map (\<lambda>c. if c = CHR ''*'' then RRep 0 None (RClass (\<lambda>d. \<not> line_terminator d))
       else RStr [c]) pat @ [REnd])) (b, s) \<noteq> [] \<longleftrightarrow> wildcard_match pat s"
proof (induction pat arbitrary: b s)
  case (Cons c pat)
  show ?case
  proof (cases "c = CHR ''*''")
    case True
    have "(\<exists>q \<in> set (rmatch (RRep 0 None (RClass (\<lambda>d. \<not> line_terminator d))) (b, s)).
        wildcard_match pat (snd q)) \<longleftrightarrow> wildcard_match (CHR ''*'' # pat) s"
      unfolding wildcard_match_star star_positions Bex_def by fastforce
    with True show ?thesis
      by (simp add: Cons.IH [of "fst q" "snd q" for q, simplified] del: rmatch.simps)
  next
    case False
    then show ?thesis using Cons.IH by (cases s) auto
  qed
qed auto

lemma wildcard_regex_match: "re_test (wildcardToRegExp pat) s \<longleftrightarrow> wildcard_match pat s"
proof -
  have start: "(p \<in> set (positions [] s) \<and> fst p = []) \<longleftrightarrow> p = ([], s)" for p
    by (cases p) (auto simp: positions_steps steps_to_def)
  have "rmatch (wildcardToRegExp pat) (b, a) \<noteq> [] \<longleftrightarrow> b = [] \<and> wildcard_match pat a" for b a
    by (cases "b = []") (simp_all add: wildcardToRegExp_def wildcard_steps [simplified])
  then have "re_test (wildcardToRegExp pat) s \<longleftrightarrow>
      (\<exists>p. (p \<in> set (positions [] s) \<and> fst p = []) \<and> wildcard_match pat (snd p))"
    by (auto simp: re_test_def list_ex_iff)
  then show ?thesis by (simp add: start)
qed

text \<open>
  The regular expression built from a wildcard pattern means the wildcard grammar: a resource
  matches exactly when the pattern matches character by character, a star standing for any text
  without line terminators, nothing else being special and the whole resource being consumed.
\<close>

lemma wildcard_regex: "re_test (wildcardToRegExp pat) s \<longleftrightarrow> wildcard_match pat s"
  by (rule wildcard_regex_match)

lemma wildcard_match_self: "wildcard_match pat pat"
proof (induction pat)
  case (Cons c pat)
  have "wildcard_match (CHR ''*'' # ps) (c # cs)"
    if "wildcard_match ps cs" "\<not> line_terminator c" for ps c cs
    unfolding wildcard_match_star using that by (intro exI [of _ "[c]"] exI [of _ cs]) simp
  with Cons show ?case by (auto simp: line_terminator_def)
qed simp

subsection \<open>A strict precedence has one winner\<close>

text \<open>
  What the loop of \<open>match\<close> needs of its comparison: \<open>beats\<close> is a strict order that decides every
  pair of entries with different keys. Then the loop returns the entry that beats all others.
\<close>

locale strict_precedence =
  fixes beats :: "rule_entry \<Rightarrow> rule_entry \<Rightarrow> bool"
  assumes irrefl: "\<not> beats a a"
    and trans: "beats a b \<Longrightarrow> beats b c \<Longrightarrow> beats a c"
    and total: "entry_order a \<noteq> entry_order b \<Longrightarrow> beats a b \<or> beats b a"
begin

lemma pick_from:
  assumes "distinct (map entry_order (w # xs))"
  shows "\<exists>m \<in> set (w # xs). pick_winner beats (Some w) xs = Some m \<and>
           (\<forall>x \<in> set (w # xs). x \<noteq> m \<longrightarrow> beats m x)"
  using assms
proof (induction xs arbitrary: w)
  case (Cons x xs)
  let ?w = "if beats x w then x else w"
  have "distinct (map entry_order (?w # xs))" using Cons.prems by auto
  from Cons.IH [OF this] obtain m where m: "m \<in> set (?w # xs)"
    "pick_winner beats (Some ?w) xs = Some m" "\<forall>y \<in> set (?w # xs). y \<noteq> m \<longrightarrow> beats m y" by blast
  let ?l = "if beats x w then w else x"
  have wl: "beats ?w ?l" using total [of x w] Cons.prems by auto
  have "beats m ?l"
  proof (cases "m = ?w")
    case False
    then have "beats m ?w" using m(3) by simp
    then show ?thesis using wl by (rule trans)
  qed (use wl in simp)
  then have "\<forall>y \<in> set (w # x # xs). y \<noteq> m \<longrightarrow> beats m y" using m(3) by (auto split: if_splits)
  with m show ?case by (auto split: if_splits)
qed simp

lemma pick_winner_iff:
  assumes "distinct (map entry_order xs)"
  shows "pick_winner beats None xs = Some m \<longleftrightarrow>
           m \<in> set xs \<and> (\<forall>x \<in> set xs. x \<noteq> m \<longrightarrow> beats m x)"
proof (cases xs)
  case (Cons x ys)
  from pick_from [of x ys] assms Cons obtain n where n: "n \<in> set xs"
    "pick_winner beats None xs = Some n" "\<forall>x \<in> set xs. x \<noteq> n \<longrightarrow> beats n x" by auto
  have "m = n" if "m \<in> set xs" "\<forall>x \<in> set xs. x \<noteq> m \<longrightarrow> beats m x"
  proof (rule ccontr)
    assume "m \<noteq> n"
    then have "beats m n" "beats n m" using that n by auto
    then have "beats m m" by (rule trans)
    then show False using irrefl by simp
  qed
  with n show ?thesis by auto
qed simp

lemma pick_winner_None: "distinct (map entry_order xs) \<Longrightarrow> pick_winner beats None xs = None \<longleftrightarrow> xs = []"
  using pick_from by (cases xs) force+

end

interpretation rules: strict_precedence outranks
proof unfold_locales
  show "\<not> outranks a a" for a by (simp add: outranks_def)
  show "outranks a b \<Longrightarrow> outranks b c \<Longrightarrow> outranks a c" for a b c
    by (auto simp: outranks_def Let_def split: if_splits)
  show "entry_order a \<noteq> entry_order b \<Longrightarrow> outranks a b \<or> outranks b a" for a b
    by (auto simp: outranks_def Let_def)
qed

subsection \<open>Compiled tables\<close>

definition entry_of :: "nat \<Rightarrow> sec_rule \<Rightarrow> rule_entry" where
  "entry_of i r =
     \<lparr>entry_rule = r, entry_test = wildcardToRegExp (rule_pattern r), entry_order = i\<rparr>"

definition valid_rule :: "sec_rule \<Rightarrow> bool" where
  "valid_rule r \<longleftrightarrow> trim (rule_id r) \<noteq> [] \<and> isToolPattern (rule_pattern r) \<and> is_integer (priority r)"

lemma compile_rules_iff:
  "compile_rules seen i rules = Inr entries \<longleftrightarrow>
     list_all valid_rule rules \<and> distinct (map rule_id rules) \<and>
     set (map rule_id rules) \<inter> set seen = {} \<and>
     entries = map (\<lambda>(j, r). entry_of j r) (List.enumerate i rules)"
proof (induction rules arbitrary: seen i entries)
  case (Cons r rs)
  show ?case
    by (cases "compile_rules (rule_id r # seen) (i + 1) rs")
      (use Cons.IH [of "rule_id r # seen" "i + 1"] in
        \<open>auto simp: valid_rule_def entry_of_def\<close>)
qed auto

lemma compile_table:
  assumes "createTgSecRuleTable rules = Inr table"
  shows "table = filter (\<lambda>e. rule_enabled (entry_rule e))
           (map (\<lambda>(j, r). entry_of j r) (List.enumerate 0 rules))"
    and "distinct (map entry_order (filter P table))"
proof -
  show t: "table = filter (\<lambda>e. rule_enabled (entry_rule e))
           (map (\<lambda>(j, r). entry_of j r) (List.enumerate 0 rules))"
    using assms by (auto simp: createTgSecRuleTable_def compile_rules_iff split: sum.splits)
  have "map entry_order (map (\<lambda>(j, r). entry_of j r) (List.enumerate 0 rules)) = [0..<length rules]"
    by (simp add: case_prod_beta entry_of_def comp_def)
  then have "distinct (map entry_order (map (\<lambda>(j, r). entry_of j r) (List.enumerate 0 rules)))"
    by (simp only: distinct_upt)
  then show "distinct (map entry_order (filter P table))"
    unfolding t by (intro distinct_map_filter)
qed

text \<open>
  A table compiles exactly when its rules are well formed: every id is non-blank and used once,
  every pattern is \<open>tool:\<close> followed by at least one character and no white space, and every priority
  is an integer. No rule is dropped: all enabled rules are in the table, in order.
\<close>

lemma table_compiles_iff:
  "createTgSecRuleTable rules = Inr table \<longleftrightarrow>
     list_all valid_rule rules \<and> distinct (map rule_id rules) \<and>
     table = filter (\<lambda>e. rule_enabled (entry_rule e))
       (map (\<lambda>(j, r). entry_of j r) (List.enumerate 0 rules))"
proof (cases "compile_rules [] 0 rules")
  case (Inl e)
  then have "\<not> (list_all valid_rule rules \<and> distinct (map rule_id rules))"
    using compile_rules_iff [of "[]" 0 rules] by auto
  with Inl show ?thesis by (auto simp: createTgSecRuleTable_def)
next
  case (Inr es)
  then show ?thesis
    using compile_rules_iff [of "[]" 0 rules es] by (auto simp: createTgSecRuleTable_def)
qed

lemma table_entries:
  assumes "createTgSecRuleTable rules = Inr table" and "e \<in> set table"
  shows "entry_rule e \<in> set rules" "rule_enabled (entry_rule e)"
    "entry_test e = wildcardToRegExp (rule_pattern (entry_rule e))"
  using assms(2) compile_table(1) [OF assms(1)]
  by (auto simp: entry_of_def in_set_enumerate_eq)

lemma rule_entry_exists:
  assumes "createTgSecRuleTable rules = Inr table" and "r \<in> set rules" and "rule_enabled r"
  shows "\<exists>e \<in> set table. entry_rule e = r"
proof -
  obtain j where "j < length rules" "rules ! j = r" using assms(2) by (auto simp: in_set_conv_nth)
  then have "(j, r) \<in> set (List.enumerate 0 rules)" by (auto simp: in_set_enumerate_eq)
  then have "entry_of j r \<in> set (map (\<lambda>(j, r). entry_of j r) (List.enumerate 0 rules))"
    by (force simp: image_iff)
  then have "entry_of j r \<in> set table"
    using assms(3) compile_table(1) [OF assms(1)] by (simp add: entry_of_def)
  then show ?thesis by (rule bexI [rotated]) (simp add: entry_of_def)
qed

definition rule_hits :: "sec_rule list \<Rightarrow> string \<Rightarrow> sec_rule set" where
  "rule_hits rules res = {r \<in> set rules. rule_enabled r \<and> wildcard_match (rule_pattern r) res}"

lemma match_rule_entry:
  assumes "createTgSecRuleTable rules = Inr table"
  shows "match_rule table res = Some r \<Longrightarrow>
      r \<in> rule_hits rules res \<and> (\<forall>q \<in> rule_hits rules res. rule_effect q \<le> rule_effect r \<and>
        (rule_effect q = rule_effect r \<longrightarrow> priority q \<le> priority r))"
    and "match_rule table res = None \<longleftrightarrow> rule_hits rules res = {}"
proof -
  let ?xs = "filter (\<lambda>e. re_test (entry_test e) res) table"
  have d: "distinct (map entry_order ?xs)" using compile_table(2) [OF assms] .
  have hits: "rule_hits rules res = entry_rule ` set ?xs"
    using table_entries [OF assms] rule_entry_exists [OF assms]
    by (force simp: rule_hits_def wildcard_regex_match)
  show "match_rule table res = None \<longleftrightarrow> rule_hits rules res = {}"
    using rules.pick_winner_None [OF d] by (auto simp: match_rule_def hits filter_empty_conv)
  assume "match_rule table res = Some r"
  then obtain m where m: "pick_winner outranks None ?xs = Some m" "entry_rule m = r"
    by (auto simp: match_rule_def)
  then have w: "m \<in> set ?xs" "\<forall>x \<in> set ?xs. x \<noteq> m \<longrightarrow> outranks m x"
    using rules.pick_winner_iff [OF d] by auto
  have "rule_effect q \<le> rule_effect r \<and> (rule_effect q = rule_effect r \<longrightarrow> priority q \<le> priority r)"
    if qh: "q \<in> rule_hits rules res" for q
  proof -
    obtain x where x: "x \<in> set ?xs" "entry_rule x = q"
      using qh unfolding hits by blast
    show ?thesis
    proof (cases "x = m")
      case False
      with w x have "outranks m x" by blast
      then show ?thesis using x m(2)
        by (auto simp: outranks_def Let_def less_eq_rule_effect_def split: if_splits)
    qed (use x m in simp)
  qed
  then show "r \<in> rule_hits rules res \<and> (\<forall>q \<in> rule_hits rules res. rule_effect q \<le> rule_effect r \<and>
        (rule_effect q = rule_effect r \<longrightarrow> priority q \<le> priority r))"
    using w(1) m(2) hits by auto
qed

text \<open>
  The winning rule. On a compiled table, a resource has a winner exactly when some enabled rule's
  pattern matches it. The winner is such a rule; no matching rule has a stronger effect, whatever
  the priorities (deny over ask over allow), and none of the same effect has a higher priority.
\<close>

lemma match_winner:
  assumes "createTgSecRuleTable rules = Inr table"
  shows "case match_rule table res of
      None \<Rightarrow> \<forall>r \<in> set rules. rule_enabled r \<longrightarrow> \<not> wildcard_match (rule_pattern r) res
    | Some r \<Rightarrow>
        r \<in> set rules \<and> rule_enabled r \<and> wildcard_match (rule_pattern r) res \<and>
        (\<forall>q \<in> set rules. rule_enabled q \<and> wildcard_match (rule_pattern q) res \<longrightarrow>
           rule_effect q \<le> rule_effect r \<and>
           (rule_effect q = rule_effect r \<longrightarrow> priority q \<le> priority r))"
  using match_rule_entry [OF assms, of res]
  by (cases "match_rule table res") (auto simp: rule_hits_def)

definition sample_rules :: "sec_rule list" where
  "sample_rules =
     [\<lparr>rule_id = ''a'', priority = 9, rule_pattern = ''tool:*'', rule_effect = AllowRule,
       rule_enabled = True, rule_note = None\<rparr>,
      \<lparr>rule_id = ''b'', priority = 1, rule_pattern = ''tool:shell'', rule_effect = DenyRule,
       rule_enabled = True, rule_note = None\<rparr>]"

lemma sample_table: "\<exists>table. createTgSecRuleTable sample_rules = Inr table"
  by (simp add: createTgSecRuleTable_def sample_rules_def isToolPattern_def is_integer_def
      quotient_of_number trim_def is_space_def)

end
