(* ===== verification/Danger.thy ===== *)
theory Danger
  imports Hard_Deny
begin

text \<open>
  The dangerous-instruction set (\<open>packages/sec-guard/src/danger.ts\<close>): every rule with its id, its
  reason, the objectives it is armed on and its matcher, and the evaluator that reports the first
  armed rule that matches. The regular expressions are terms of \<open>Regex\<close>, alternative by
  alternative. Alternatives that consist of Chinese text are left out: they contain characters
  outside the model's code points, so they match no text of the model.
\<close>

subsection \<open>Objectives, rules, hits\<close>

datatype objective = Redteam | Ctf | Src

definition TG_SEC_OBJECTIVES :: "objective list" where
  "TG_SEC_OBJECTIVES = [Redteam, Ctf, Src]"

datatype danger_id =
    SqlDropTable | SqlDropDatabase | SqlTruncate | SqlDeleteFrom | SqlAlterDrop | SqlUpdateSet
  | SqlInsertInto | SqlReplaceInto | SqlLoadDataInfile | SqlIntoOutfile | SqlIntoDumpfile
  | ToolSqlmapOsShell | ToolSqlmapOsCmd | ToolSqlmapFileWrite | ToolSqlmapSqlShell
  | WebActionDestroy | RedisFlushall | RedisFlushdb | MongoDropDatabase
  | PersistCrontab | PersistAddUser | PersistAuthorizedKeys | PersistSchtasks | PersistSystemdUnit
  | RmSystemPath
  | BusinessPasswordChange | BusinessContactRebind | BusinessPaymentMove | BusinessMessagingBomb
  | WordlistHuge
  | BruteforceHashcat | BruteforceJohnWordlist

record danger_hit =
  hit :: bool
  hit_rule :: "danger_id option"
  hit_reason :: "string option"

definition ALL_OBJECTIVES :: "objective list" where "ALL_OBJECTIVES = TG_SEC_OBJECTIVES"
definition REAL_TARGET_OBJECTIVES :: "objective list" where
  "REAL_TARGET_OBJECTIVES = [Redteam, Src]"
definition CTF_OBJECTIVES :: "objective list" where "CTF_OBJECTIVES = [Ctf]"

record danger_rule =
  danger_rule_id :: danger_id
  danger_reason :: string
  objectives :: "objective list"
  danger_match :: "text_surface \<Rightarrow> string \<Rightarrow> bool"

definition anyText :: "text_surface \<Rightarrow> regex list \<Rightarrow> bool" where
  "anyText view patterns \<longleftrightarrow>
     list_ex (\<lambda>s. let lowered = to_lower s in list_ex (\<lambda>p. re_test p lowered) patterns) (strings view)"

definition isWriteTool :: "string \<Rightarrow> bool" where
  "isWriteTool tool \<longleftrightarrow>
     tool = ''write'' \<or> tool = ''edit'' \<or> tool = ''multiedit'' \<or> tool = ''patch''"

subsection \<open>Character classes and gaps of the patterns\<close>

abbreviation r_spaces :: regex where "r_spaces \<equiv> r_plus r_space"
abbreviation r_spaces0 :: regex where "r_spaces0 \<equiv> r_star r_space"
abbreviation r_gap :: "nat \<Rightarrow> regex" where "r_gap n \<equiv> RRep 0 (Some n) r_any"
abbreviation r_anything :: regex where "r_anything \<equiv> r_star r_any"

text \<open>\<open>[`"']\<close>, \<open>[\w.$-]\<close>, \<open>[`"'[\w.$-]\<close>, \<open>["']\<close>, \<open>[-_.]\<close>, \<open>[_-]\<close>, \<open>[/\\]\<close>.\<close>

definition quote3 :: "char \<Rightarrow> bool" where "quote3 c \<longleftrightarrow> c \<in> {CHR 0x60, dquote, squote}"
definition name_char :: "char \<Rightarrow> bool" where
  "name_char c \<longleftrightarrow> is_word c \<or> c \<in> {CHR ''.'', CHR ''$'', CHR ''-''}"
definition quoted_name_char :: "char \<Rightarrow> bool" where
  "quoted_name_char c \<longleftrightarrow> quote3 c \<or> c = CHR ''['' \<or> name_char c"
definition quote2 :: "char \<Rightarrow> bool" where "quote2 c \<longleftrightarrow> c \<in> {dquote, squote}"
definition joiner3 :: "char \<Rightarrow> bool" where "joiner3 c \<longleftrightarrow> c \<in> {CHR ''-'', CHR ''_'', CHR ''.''}"
definition joiner2 :: "char \<Rightarrow> bool" where "joiner2 c \<longleftrightarrow> c \<in> {CHR ''-'', CHR ''_''}"
definition path_sep :: "char \<Rightarrow> bool" where "path_sep c \<longleftrightarrow> c \<in> {CHR ''/'', backslash}"

subsection \<open>Target-destructive SQL\<close>

type_synonym text_rule = "danger_id \<times> regex list \<times> string"

definition SQL_DESTRUCTIVE :: "text_rule list" where
  "SQL_DESTRUCTIVE =
    [(SqlDropTable,
      [r_seq [RBoundary, RStr ''drop'', r_spaces,
              RAlt (RStr ''table'')
                (r_seq [RStr ''temp'', r_opt (RStr ''orary''), r_spaces, RStr ''table'']),
              r_opt (RStr ''s''), RBoundary]],
      ''a DROP TABLE destroys target table data''),
     (SqlDropDatabase,
      [r_seq [RBoundary, RStr ''drop'', r_spaces, r_words [''database'', ''schema''],
              r_opt (RStr ''s''), RBoundary]],
      ''a DROP DATABASE destroys the whole target database''),
     (SqlTruncate,
      [r_seq [RBoundary, RStr ''truncate'', r_spaces, r_opt (r_seq [RStr ''table'', r_spaces]),
              r_opt (RClass quote3), r_plus (RClass name_char)]],
      ''a TRUNCATE empties a target table in place''),
     (SqlDeleteFrom,
      [r_seq [RBoundary, RStr ''delete'', r_spaces, RStr ''from'', RBoundary]],
      ''a DELETE FROM removes target rows''),
     (SqlAlterDrop,
      [r_seq [RBoundary, RStr ''alter'', RBoundary, r_anything, RBoundary, RStr ''drop'', r_spaces,
              r_words [''table'', ''database'', ''schema'', ''column'', ''index'', ''constraint'',
                       ''partition'', ''user''],
              RBoundary]],
      ''an ALTER ... DROP removes a target object''),
     (SqlUpdateSet,
      [r_seq [RBoundary, RStr ''update'', r_spaces, r_plus (RClass quoted_name_char), r_spaces,
              RStr ''set'', r_spaces, r_plus (RClass quoted_name_char), r_spaces0, RStr ''='']],
      ''an UPDATE ... SET rewrites target rows''),
     (SqlInsertInto,
      [r_seq [RBoundary, RStr ''insert'', r_spaces, RStr ''into'', RBoundary]],
      ''an INSERT INTO writes target rows''),
     (SqlReplaceInto,
      [r_seq [RBoundary, RStr ''replace'', r_spaces, RStr ''into'', RBoundary]],
      ''a REPLACE INTO overwrites target rows''),
     (SqlLoadDataInfile,
      [r_seq [RBoundary, RStr ''load'', r_spaces, RStr ''data'', r_spaces,
              r_opt (r_seq [RStr ''local'', r_spaces]), RStr ''infile'', RBoundary],
       r_seq [RBoundary, RStr ''load'', r_spaces, RStr ''data'', RBoundary, r_gap 40, RBoundary,
              RStr ''infile'', RBoundary]],
      ''LOAD DATA INFILE moves a server file into a target table''),
     (SqlIntoOutfile,
      [r_seq [RBoundary, RStr ''into'', r_spaces, RStr ''outfile'', RBoundary]],
      ''SELECT ... INTO OUTFILE writes a file on the target''),
     (SqlIntoDumpfile,
      [r_seq [RBoundary, RStr ''into'', r_spaces, RStr ''dumpfile'', RBoundary]],
      ''SELECT ... INTO DUMPFILE writes a raw file on the target'')]"

subsection \<open>Target-destructive tool flags and protocol commands\<close>

definition TOOL_DESTRUCTIVE :: "text_rule list" where
  "TOOL_DESTRUCTIVE =
    [(ToolSqlmapOsShell, [r_seq [RStr ''--os-shell'', RBoundary]],
      ''sqlmap --os-shell opens an interactive shell on the target host''),
     (ToolSqlmapOsCmd, [r_seq [RStr ''--os-cmd'', RBoundary]],
      ''sqlmap --os-cmd runs a command on the target host''),
     (ToolSqlmapFileWrite, [r_seq [RStr ''--file-write'', RBoundary]],
      ''sqlmap --file-write writes a file onto the target host''),
     (ToolSqlmapSqlShell, [r_seq [RStr ''--sql-shell'', RBoundary]],
      ''sqlmap --sql-shell opens an interactive SQL shell on the target''),
     (WebActionDestroy,
      [r_seq [RBoundary, RStr ''action'', r_spaces0, RStr ''='', r_spaces0, r_opt (RClass quote2),
              r_words [''delete'', ''destroy'', ''drop'', ''remove'', ''purge'', ''truncate''],
              RBoundary],
       r_seq [RBoundary, r_words [''do'', ''op'', ''method'', ''func'', ''route''], r_spaces0,
              RStr ''='', r_spaces0, r_opt (RClass quote2),
              r_words [''delete'', ''destroy'', ''drop''], RBoundary]],
      ''a web request carries a destructive action parameter''),
     (RedisFlushall, [r_seq [RBoundary, RStr ''flushall'', RBoundary]],
      ''Redis FLUSHALL wipes every key on the target''),
     (RedisFlushdb, [r_seq [RBoundary, RStr ''flushdb'', RBoundary]],
      ''Redis FLUSHDB wipes the current target keyspace''),
     (MongoDropDatabase,
      [r_seq [RBoundary, RStr ''drop'', r_spaces0, RStr ''database'', RBoundary]],
      ''a Mongo dropDatabase destroys the target database'')]"

definition textRules :: "text_rule list \<Rightarrow> danger_rule list" where
  "textRules table =
     map (\<lambda>(i, patterns, why).
       \<lparr>danger_rule_id = i, danger_reason = ''danger set: '' @ why, objectives = ALL_OBJECTIVES,
        danger_match = (\<lambda>view tool. anyText view patterns)\<rparr>) table"

subsection \<open>Persistence\<close>

text \<open>\<open>/^-[a-z]*l[a-z]*$/\<close>\<close>

definition list_flag :: "string \<Rightarrow> bool" where
  "list_flag f \<longleftrightarrow>
     prefix ''-'' f \<and> list_all is_lower (tl f) \<and> CHR ''l'' \<in> set (tl f)"

definition crontabWrites :: "command_group \<Rightarrow> bool" where
  "crontabWrites command \<longleftrightarrow>
     (if cmd_head command \<noteq> ''crontab'' then False
      else
        let args = drop 1 (cmd_tokens command);
            files = filter (\<lambda>t. \<not> prefix ''-'' t) args;
            flags = filter (prefix ''-'') args
        in if files \<noteq> [] then True
           else if flags = [] then True
           else \<not> list_all list_flag flags)"

definition authorized_keys_patterns :: "regex list" where
  "authorized_keys_patterns =
     [r_seq [RAlt (RStr ''>>'') (r_seq [RBoundary, RStr ''tee'', RBoundary]), r_anything,
             RStr ''authorized_keys''],
      r_seq [RStr ''authorized_keys'', r_anything, RBoundary, RStr ''tee'', RBoundary]]"

definition systemd_patterns :: "regex list" where
  "systemd_patterns =
     [r_seq [RBoundary, RStr ''systemctl'', r_spaces, RStr ''enable'', RBoundary],
      r_seq [r_alt [RStr ''>>'', RStr ''tee'',
                    r_seq [RBoundary, RStr ''cp'', RBoundary],
                    r_seq [RBoundary, RStr ''mv'', RBoundary],
                    r_seq [RBoundary, RStr ''install'', RBoundary],
                    r_seq [RBoundary, RStr ''printf'', RBoundary],
                    r_seq [RBoundary, RStr ''echo'', RBoundary]],
             r_anything, RStr ''/etc/systemd/system'']]"

definition PERSISTENCE_RULES :: "danger_rule list" where
  "PERSISTENCE_RULES =
    [\<lparr>danger_rule_id = PersistCrontab,
      danger_reason = ''danger set: a crontab write installs a persistent scheduled task'',
      objectives = ALL_OBJECTIVES,
      danger_match = (\<lambda>view tool. list_ex crontabWrites (commands view))\<rparr>,
     \<lparr>danger_rule_id = PersistAddUser,
      danger_reason = ''danger set: an account-creation command leaves a persistent user on the target'',
      objectives = ALL_OBJECTIVES,
      danger_match = (\<lambda>view tool.
        list_ex (\<lambda>c. cmd_head c = ''useradd'' \<or> cmd_head c = ''adduser'') (commands view))\<rparr>,
     \<lparr>danger_rule_id = PersistAuthorizedKeys,
      danger_reason = ''danger set: an SSH authorized_keys write plants persistent key-based access'',
      objectives = ALL_OBJECTIVES,
      danger_match = (\<lambda>view tool.
        anyText view authorized_keys_patterns \<or>
        isWriteTool tool \<and> list_ex (\<lambda>s. suffix ''authorized_keys'' (to_lower (trim s))) (strings view))\<rparr>,
     \<lparr>danger_rule_id = PersistSchtasks,
      danger_reason = ''danger set: a schtasks create registers a persistent Windows task'',
      objectives = ALL_OBJECTIVES,
      danger_match = (\<lambda>view tool.
        anyText view [r_seq [RBoundary, RStr ''schtasks'', RBoundary, r_anything, RStr ''/create'',
                             RBoundary]])\<rparr>,
     \<lparr>danger_rule_id = PersistSystemdUnit,
      danger_reason = ''danger set: a systemd unit write or enable leaves a persistent service on the target'',
      objectives = ALL_OBJECTIVES,
      danger_match = (\<lambda>view tool.
        anyText view systemd_patterns \<or>
        isWriteTool tool \<and> list_ex (\<lambda>s. prefix ''/etc/systemd/system/'' (to_lower (trim s))) (strings view))\<rparr>]"

subsection \<open>Removal of system directories\<close>

definition SYSTEM_DIRECTORIES :: "string list" where
  "SYSTEM_DIRECTORIES =
     [''/etc'', ''/usr'', ''/var'', ''/boot'', ''/dev'', ''/sys'', ''/proc'', ''/lib'', ''/bin'', ''/sbin'']"

text \<open>\<open>target.replace(/\/\*$/, "")\<close>\<close>

definition strip_star :: "string \<Rightarrow> string" where
  "strip_star t = (if suffix ''/*'' t then take (length t - 2) t else t)"

definition removes_system_path :: "command_group \<Rightarrow> bool" where
  "removes_system_path command \<longleftrightarrow>
     (if cmd_head command \<noteq> ''rm'' then False
      else if \<not> hasForcedRecursiveFlags (cmd_tokens command) then False
      else
        list_ex (\<lambda>target.
          let path = strip_star target in
          list_ex (\<lambda>directory. path = directory \<or> prefix (directory @ ''/'') path) SYSTEM_DIRECTORIES)
          (nonFlagTargets command))"

definition CRITICAL_PATH_REMOVAL :: "danger_rule list" where
  "CRITICAL_PATH_REMOVAL =
    [\<lparr>danger_rule_id = RmSystemPath,
      danger_reason = ''danger set: a forced recursive removal of a system directory'',
      objectives = ALL_OBJECTIVES,
      danger_match = (\<lambda>view tool. list_ex removes_system_path (commands view))\<rparr>]"

subsection \<open>Business-action guardrails\<close>

abbreviation r_password :: regex where
  "r_password \<equiv> r_words [''password'', ''passwd'', ''pwd'']"

definition password_patterns :: "regex list" where
  "password_patterns =
     [r_seq [RBoundary, r_words [''change'', ''reset'', ''modify'', ''update''], RBoundary, r_gap 24,
             RBoundary, r_password, RBoundary],
      r_seq [RBoundary, r_password, RBoundary, r_gap 16, RBoundary,
             r_words [''change'', ''reset'', ''modify''], RBoundary],
      RAlt (r_seq [r_words [''change'', ''reset'', ''modify'', ''update'', ''set''],
                   RClass joiner2, r_password])
           (r_seq [r_password, RClass joiner2, r_words [''change'', ''reset'', ''modify'']])]"

abbreviation r_rebind :: regex where
  "r_rebind \<equiv> r_alt [r_seq [RStr ''re'', r_opt (RStr ''-''), RStr ''bind''], RStr ''relink'', RStr ''unbind'']"

definition rebind_patterns :: "regex list" where
  "rebind_patterns =
     [r_seq [RBoundary, r_rebind, RBoundary, r_gap 24, RBoundary,
             r_words [''phone'', ''mobile'', ''email'', ''mail''], RBoundary],
      r_seq [RBoundary, r_words [''phone'', ''mobile'', ''email''], RBoundary, r_gap 16, RBoundary,
             r_rebind, RBoundary]]"

definition payment_patterns :: "regex list" where
  "payment_patterns =
     [r_seq [RBoundary, r_words [''refund'', ''withdraw'', ''remit'', ''payout''], RBoundary],
      r_seq [RBoundary, RStr ''transfer'', RBoundary, r_gap 24, RBoundary,
             r_words [''money'', ''amount'', ''balance'', ''account'', ''payment'', ''to account'']],
      r_seq [RBoundary, r_words [''pay'', ''order'', ''balance'', ''account''], RBoundary, r_gap 16,
             RBoundary, r_words [''refund'', ''transfer''], RBoundary]]"

definition messaging_patterns :: "regex list" where
  "messaging_patterns =
     [r_seq [RBoundary, r_words [''sms'', ''email'', ''mail'', ''notify''], RBoundary, r_gap 24,
             RBoundary, r_words [''bomb'', ''flood''], RBoundary],
      r_seq [RBoundary, r_words [''bomb'', ''flood''], RBoundary, r_gap 24, RBoundary,
             r_words [''sms'', ''email'', ''mail''], RBoundary]]"

definition BUSINESS_RULES :: "danger_rule list" where
  "BUSINESS_RULES =
    [\<lparr>danger_rule_id = BusinessPasswordChange,
      danger_reason = ''danger set: a request changes or resets a password on a live business account'',
      objectives = REAL_TARGET_OBJECTIVES,
      danger_match = (\<lambda>view tool. anyText view password_patterns)\<rparr>,
     \<lparr>danger_rule_id = BusinessContactRebind,
      danger_reason = ''danger set: a request rebinds an account phone number or email'',
      objectives = REAL_TARGET_OBJECTIVES,
      danger_match = (\<lambda>view tool. anyText view rebind_patterns)\<rparr>,
     \<lparr>danger_rule_id = BusinessPaymentMove,
      danger_reason = ''danger set: a request moves, refunds, or transfers money on a live business system'',
      objectives = REAL_TARGET_OBJECTIVES,
      danger_match = (\<lambda>view tool. anyText view payment_patterns)\<rparr>,
     \<lparr>danger_rule_id = BusinessMessagingBomb,
      danger_reason = ''danger set: a request floods SMS, email, or phone calls at a live target'',
      objectives = REAL_TARGET_OBJECTIVES,
      danger_match = (\<lambda>view tool. anyText view messaging_patterns)\<rparr>]"

subsection \<open>Oversized wordlists\<close>

definition HUGE_WORDLIST_MARKERS :: "regex list" where
  "HUGE_WORDLIST_MARKERS =
     [RStr ''rockyou'',
      RStr ''seclists'',
      r_seq [RStr ''darkweb'', r_opt (RStr ''l''), RStr ''l''],
      r_seq [RStr ''probable'', r_opt (RClass joiner3), RStr ''password'', r_opt (RStr ''s'')],
      r_seq [RStr ''collection'', r_opt (RClass joiner3), RStr ''list''],
      r_seq [RBoundary, RStr ''combo'', r_opt (RClass joiner3), RStr ''list''],
      r_seq [RStr ''backup'', r_opt (RClass joiner3), RStr ''pass''],
      RStr ''brutescene'',
      r_seq [RStr ''skullbre'', r_opt (RStr ''a''), RStr ''ker'', r_opt (RStr ''s'')],
      r_seq [RStr ''rootkit'', r_opt (RClass joiner3), RStr ''pass''],
      r_seq [RStr ''10'', r_opt (RClass joiner3),
             RAlt (RStr ''million'') (RSeq (RStr ''m'') (RRep 0 (Some 3) (RClass is_word))),
             r_opt (RStr ''.''), r_words [''txt'', ''lst'', ''gz'']],
      r_seq [RStr ''top'', r_opt (RClass joiner3),
             r_words [''1000'', ''1k'', ''10k'', ''100k'', ''1m'', ''10m'', ''100m'', ''1mil'', ''10mil'']],
      r_seq [RAlt RBegin (RClass path_sep), RStr ''wordlist'', r_opt (RStr ''s''),
             RAlt (RClass path_sep) REnd],
      r_seq [RStr ''/usr/share/'',
             RAlt (r_seq [RStr ''wordlist'', r_opt (RStr ''s'')])
                  (r_seq [RStr ''rocktar'', r_opt (RStr ''r'')])]]"

definition strip_wordlist_flag :: "string \<Rightarrow> string option" where
  "strip_wordlist_flag tok =
     (if prefix ''--wordlist='' tok \<or> prefix ''--word-list='' tok \<or> prefix ''-w='' (to_lower tok)
      then Some (drop 1 (dropWhile (\<lambda>c. c \<noteq> CHR ''='') tok)) else None)"

text \<open>A flag at the end has no value, which reads as \<open>undefined\<close>.\<close>

fun wordlistValue_from :: "string list \<Rightarrow> string option" where
  "wordlistValue_from [] = None"
| "wordlistValue_from (tok # rest) =
     (if tok = ''-w'' \<or> tok = ''--wordlist'' \<or> tok = ''--word-list''
      then (case rest of [] \<Rightarrow> None | v # _ \<Rightarrow> Some v)
      else
        case strip_wordlist_flag tok of
          Some v \<Rightarrow> Some v
        | None \<Rightarrow> wordlistValue_from rest)"

definition wordlistValue :: "command_group \<Rightarrow> string option" where
  "wordlistValue command = wordlistValue_from (cmd_tokens command)"

definition not_space_class :: regex where "not_space_class = RClass (\<lambda>c. \<not> is_space c)"

definition flagged_marker :: "regex \<Rightarrow> regex" where
  "flagged_marker marker =
     r_seq [RAlt (RStr ''-w'') (r_seq [RStr ''--word'', r_opt (RStr ''-''), RStr ''list'']),
            RClass (\<lambda>c. c = CHR ''='' \<or> is_space c), r_star not_space_class, marker]"

definition huge_wordlist :: "text_surface \<Rightarrow> bool" where
  "huge_wordlist view \<longleftrightarrow>
     list_ex (\<lambda>c. case wordlistValue c of
                    None \<Rightarrow> False
                  | Some v \<Rightarrow> list_ex (\<lambda>marker. re_test marker v) HUGE_WORDLIST_MARKERS) (commands view) \<or>
     anyText view (map flagged_marker HUGE_WORDLIST_MARKERS)"

definition WORDLIST_RULES :: "danger_rule list" where
  "WORDLIST_RULES =
    [\<lparr>danger_rule_id = WordlistHuge,
      danger_reason = ''danger set: a public oversized wordlist - a budget and pacing guardrail, not a safety boundary'',
      objectives = ALL_OBJECTIVES,
      danger_match = (\<lambda>view tool. huge_wordlist view)\<rparr>]"

subsection \<open>Cracking on the CTF track\<close>

definition BRUTEFORCE_RULES :: "danger_rule list" where
  "BRUTEFORCE_RULES =
    [\<lparr>danger_rule_id = BruteforceHashcat,
      danger_reason = ''danger set (CTF): hashcat cracking is delegated to platform pacing, not run bare by the agent'',
      objectives = CTF_OBJECTIVES,
      danger_match = (\<lambda>view tool. list_ex (\<lambda>c. cmd_head c = ''hashcat'') (commands view))\<rparr>,
     \<lparr>danger_rule_id = BruteforceJohnWordlist,
      danger_reason = ''danger set (CTF): john with a wordlist is delegated to platform pacing, not run bare by the agent'',
      objectives = CTF_OBJECTIVES,
      danger_match = (\<lambda>view tool.
        list_ex (\<lambda>c. cmd_head c = ''john'' \<and>
          list_ex (\<lambda>t. prefix ''-w'' t \<or> prefix ''--wordlist'' t \<or> prefix ''--word-list'' t)
            (drop 1 (cmd_tokens c))) (commands view))\<rparr>]"

subsection \<open>The evaluator\<close>

definition DANGER_RULES :: "danger_rule list" where
  "DANGER_RULES =
     textRules SQL_DESTRUCTIVE @ textRules TOOL_DESTRUCTIVE @ PERSISTENCE_RULES @
     CRITICAL_PATH_REMOVAL @ BUSINESS_RULES @ WORDLIST_RULES @ BRUTEFORCE_RULES"

text \<open>Every \<open>objective\<close> of the type is in \<open>TG_SEC_OBJECTIVES\<close>, so construction cannot throw here.\<close>

definition createTgSecDangerEvaluator :: "objective \<Rightarrow> request \<Rightarrow> danger_hit" where
  "createTgSecDangerEvaluator obj req =
     (let armed = filter (\<lambda>rule. obj \<in> set (objectives rule)) DANGER_RULES;
          view = scanTextSurface req
      in case find (\<lambda>rule. danger_match rule view (toolName req)) armed of
           Some rule \<Rightarrow>
             \<lparr>hit = True, hit_rule = Some (danger_rule_id rule), hit_reason = Some (danger_reason rule)\<rparr>
         | None \<Rightarrow> \<lparr>hit = False, hit_rule = None, hit_reason = None\<rparr>)"

subsection \<open>Facts about the evaluator\<close>

lemma find_filter_Some: "find P (filter Q xs) = Some x \<Longrightarrow> x \<in> set xs \<and> Q x \<and> P x"
  using find_Some_in_set [of P "filter Q xs" x] by simp

lemma evaluator_rule:
  assumes "hit_rule (createTgSecDangerEvaluator obj req) = Some i"
  shows "\<exists>rule \<in> set DANGER_RULES. danger_rule_id rule = i \<and> obj \<in> set (objectives rule) \<and>
    danger_match rule (scanTextSurface req) (toolName req)"
proof (cases "find (\<lambda>rule. danger_match rule (scanTextSurface req) (toolName req))
    (filter (\<lambda>rule. obj \<in> set (objectives rule)) DANGER_RULES)")
  case (Some rule)
  with assms have "danger_rule_id rule = i"
    by (simp add: createTgSecDangerEvaluator_def Let_def)
  with find_filter_Some [OF Some] show ?thesis by blast
qed (use assms in \<open>simp add: createTgSecDangerEvaluator_def Let_def\<close>)

lemma evaluator_hit_rule:
  "hit (createTgSecDangerEvaluator obj req) \<longleftrightarrow>
     (\<exists>i. hit_rule (createTgSecDangerEvaluator obj req) = Some i)"
  by (simp add: createTgSecDangerEvaluator_def Let_def split: option.split)

lemma evaluator_hit:
  "hit (createTgSecDangerEvaluator obj req) \<longleftrightarrow>
     (\<exists>rule \<in> set DANGER_RULES. obj \<in> set (objectives rule) \<and>
        danger_match rule (scanTextSurface req) (toolName req))"
proof
  assume "hit (createTgSecDangerEvaluator obj req)"
  then show "\<exists>rule \<in> set DANGER_RULES. obj \<in> set (objectives rule) \<and>
        danger_match rule (scanTextSurface req) (toolName req)"
    using evaluator_hit_rule evaluator_rule by blast
next
  assume "\<exists>rule \<in> set DANGER_RULES. obj \<in> set (objectives rule) \<and>
        danger_match rule (scanTextSurface req) (toolName req)"
  then have "find (\<lambda>rule. danger_match rule (scanTextSurface req) (toolName req))
    (filter (\<lambda>rule. obj \<in> set (objectives rule)) DANGER_RULES) \<noteq> None"
    by (simp add: find_None_iff) blast
  then show "hit (createTgSecDangerEvaluator obj req)"
    by (auto simp: createTgSecDangerEvaluator_def Let_def)
qed

definition business_ids :: "danger_id set" where
  "business_ids = {BusinessPasswordChange, BusinessContactRebind, BusinessPaymentMove,
     BusinessMessagingBomb}"

definition bruteforce_ids :: "danger_id set" where
  "bruteforce_ids = {BruteforceHashcat, BruteforceJohnWordlist}"

lemma textRules_objectives:
  "rule \<in> set (textRules table) \<Longrightarrow> objectives rule = ALL_OBJECTIVES \<and>
     danger_rule_id rule \<in> fst ` set table"
  by (force simp: textRules_def)

lemma rule_objectives:
  assumes "rule \<in> set DANGER_RULES"
  shows "objectives rule =
    (if danger_rule_id rule \<in> business_ids then REAL_TARGET_OBJECTIVES
     else if danger_rule_id rule \<in> bruteforce_ids then CTF_OBJECTIVES else ALL_OBJECTIVES)"
proof -
  have "fst ` set SQL_DESTRUCTIVE \<inter> (business_ids \<union> bruteforce_ids) = {}"
    "fst ` set TOOL_DESTRUCTIVE \<inter> (business_ids \<union> bruteforce_ids) = {}"
    by (auto simp: SQL_DESTRUCTIVE_def TOOL_DESTRUCTIVE_def business_ids_def bruteforce_ids_def)
  then have textual: "rule \<in> set (textRules SQL_DESTRUCTIVE @ textRules TOOL_DESTRUCTIVE) \<Longrightarrow> ?thesis"
    using textRules_objectives by fastforce
  consider "rule \<in> set (textRules SQL_DESTRUCTIVE @ textRules TOOL_DESTRUCTIVE)"
    | "rule \<in> set (PERSISTENCE_RULES @ CRITICAL_PATH_REMOVAL @ WORDLIST_RULES)"
    | "rule \<in> set BUSINESS_RULES" | "rule \<in> set BRUTEFORCE_RULES"
    using assms unfolding DANGER_RULES_def by auto
  then show ?thesis
  proof cases
    case 2
    then show ?thesis
      by (auto simp: PERSISTENCE_RULES_def CRITICAL_PATH_REMOVAL_def WORDLIST_RULES_def
          business_ids_def bruteforce_ids_def)
  qed (use textual in \<open>auto simp: BUSINESS_RULES_def BRUTEFORCE_RULES_def business_ids_def bruteforce_ids_def\<close>)
qed

text \<open>
  The objective matrix. An evaluator that hits names a rule armed on its objective: never a
  business guardrail on the CTF track and never a cracking rule on a real-target track. A rule
  outside those two families that fires on one track makes the evaluator of every track hit the
  same request: no objective switches off the destructive, persistence or removal rules.
\<close>

lemma objective_matrix:
  assumes "hit_rule (createTgSecDangerEvaluator obj req) = Some i"
  shows "(if i \<in> business_ids then obj \<noteq> Ctf
     else if i \<in> bruteforce_ids then obj = Ctf
     else \<forall>obj'. hit (createTgSecDangerEvaluator obj' req))"
proof -
  obtain rule where r: "rule \<in> set DANGER_RULES" "danger_rule_id rule = i"
    "obj \<in> set (objectives rule)" "danger_match rule (scanTextSurface req) (toolName req)"
    using evaluator_rule [OF assms] by blast
  have all: "obj' \<in> set ALL_OBJECTIVES" for obj'
    by (cases obj') (simp_all add: ALL_OBJECTIVES_def TG_SEC_OBJECTIVES_def)
  have "hit (createTgSecDangerEvaluator obj' req)" if "objectives rule = ALL_OBJECTIVES" for obj'
    using r(1,4) all [of obj'] that unfolding evaluator_hit by metis
  then show ?thesis
    using r rule_objectives [OF r(1)]
    by (auto simp: REAL_TARGET_OBJECTIVES_def CTF_OBJECTIVES_def split: if_splits)
qed

definition text_request :: "string \<Rightarrow> request" where
  "text_request s = \<lparr>toolName = ''http'', resource = ''tool:http'',
     arguments = AObj [(''body'', AStr s)]\<rparr>"

subsection \<open>Destructive text\<close>

text \<open>The words without which a text rule cannot fire.\<close>

fun danger_verbs :: "danger_id \<Rightarrow> string list" where
  "danger_verbs SqlDropTable = [''drop'', ''table'']"
| "danger_verbs SqlDropDatabase = [''drop'']"
| "danger_verbs SqlTruncate = [''truncate'']"
| "danger_verbs SqlDeleteFrom = [''delete'', ''from'']"
| "danger_verbs SqlAlterDrop = [''alter'', ''drop'']"
| "danger_verbs SqlUpdateSet = [''update'', ''set'', ''='']"
| "danger_verbs SqlInsertInto = [''insert'', ''into'']"
| "danger_verbs SqlReplaceInto = [''replace'', ''into'']"
| "danger_verbs SqlLoadDataInfile = [''load'', ''data'', ''infile'']"
| "danger_verbs SqlIntoOutfile = [''into'', ''outfile'']"
| "danger_verbs SqlIntoDumpfile = [''into'', ''dumpfile'']"
| "danger_verbs ToolSqlmapOsShell = [''--os-shell'']"
| "danger_verbs ToolSqlmapOsCmd = [''--os-cmd'']"
| "danger_verbs ToolSqlmapFileWrite = [''--file-write'']"
| "danger_verbs ToolSqlmapSqlShell = [''--sql-shell'']"
| "danger_verbs WebActionDestroy = [''='']"
| "danger_verbs RedisFlushall = [''flushall'']"
| "danger_verbs RedisFlushdb = [''flushdb'']"
| "danger_verbs MongoDropDatabase = [''drop'', ''database'']"
| "danger_verbs i = []"

lemma text_rules_must:
  "list_all (\<lambda>(i, ps, why). list_all (\<lambda>p. list_all (\<lambda>w. must w p) (danger_verbs i)) ps)
     (SQL_DESTRUCTIVE @ TOOL_DESTRUCTIVE)"
  by (simp add: SQL_DESTRUCTIVE_def TOOL_DESTRUCTIVE_def)

lemma anyText_must:
  assumes "anyText view ps" and "list_all (\<lambda>p. list_all (\<lambda>w. must w p) ws) ps"
  shows "\<exists>s \<in> set (strings view). \<forall>w \<in> set ws. sublist w (to_lower s)"
  using assms must_re_test unfolding anyText_def list_ex_iff list_all_iff Let_def by blast

lemma surface_strings: "strings (scanTextSurface req) = map fst (collectValues (arguments req) CommandText)"
  by (simp add: scanTextSurface_def extractCommandSurface_def Let_def)

lemma text_rule_of:
  assumes "rule \<in> set (textRules table)"
  shows "\<exists>ps why. (danger_rule_id rule, ps, why) \<in> set table \<and>
    (\<forall>view tool. danger_match rule view tool = anyText view ps)"
  using assms unfolding textRules_def by (auto simp del: append.simps) blast

lemma textRules_append: "textRules (xs @ ys) = textRules xs @ textRules ys"
  by (simp add: textRules_def)

lemma other_rules_no_verbs:
  "rule \<in> set (PERSISTENCE_RULES @ CRITICAL_PATH_REMOVAL @ BUSINESS_RULES @ WORDLIST_RULES @
     BRUTEFORCE_RULES) \<Longrightarrow> danger_verbs (danger_rule_id rule) = []"
  by (auto simp: PERSISTENCE_RULES_def CRITICAL_PATH_REMOVAL_def BUSINESS_RULES_def WORDLIST_RULES_def
      BRUTEFORCE_RULES_def)

text \<open>
  Reads stay out of the destructive text rules. When the evaluator reports one of the SQL or tool
  rules, a single string value of the arguments contains every word the rule demands, in any letter
  case: no \<open>DELETE FROM\<close> hit without \<open>delete\<close> and \<open>from\<close>, no \<open>UPDATE\<close> hit without
  \<open>update\<close>, \<open>set\<close> and \<open>=\<close>, and so on for each id. A \<open>SELECT\<close> without those words cannot hit.
\<close>

lemma destructive_text_needs_verb:
  assumes "hit_rule (createTgSecDangerEvaluator obj req) = Some i"
  shows "danger_verbs i = [] \<or>
    (\<exists>s \<in> set (map fst (collectValues (arguments req) CommandText)).
       list_all (\<lambda>w. sublist w (to_lower s)) (danger_verbs i))"
proof -
  obtain rule where r: "rule \<in> set DANGER_RULES" "danger_rule_id rule = i"
    "danger_match rule (scanTextSurface req) (toolName req)"
    using evaluator_rule [OF assms] by blast
  consider (textual) "rule \<in> set (textRules (SQL_DESTRUCTIVE @ TOOL_DESTRUCTIVE))"
    | (other) "rule \<in> set (PERSISTENCE_RULES @ CRITICAL_PATH_REMOVAL @ BUSINESS_RULES @
        WORDLIST_RULES @ BRUTEFORCE_RULES)"
    using r(1) unfolding DANGER_RULES_def textRules_append set_append by blast
  then show ?thesis
  proof cases
    case textual
    from text_rule_of [OF this] obtain ps why where
      t: "(i, ps, why) \<in> set (SQL_DESTRUCTIVE @ TOOL_DESTRUCTIVE)"
      "\<forall>view tool. danger_match rule view tool = anyText view ps" using r(2) by blast
    have "list_all (\<lambda>p. list_all (\<lambda>w. must w p) (danger_verbs i)) ps"
      using text_rules_must t(1) unfolding list_all_iff by fast
    moreover have "anyText (scanTextSurface req) ps" using r(3) t(2) by simp
    ultimately show ?thesis
      using anyText_must surface_strings [of req] by (simp only: list_all_iff) metis
  qed (use other_rules_no_verbs r(2) in blast)
qed

lemma seq_step:
  "q \<in> set (rmatch r p) \<Longrightarrow> x \<in> set (rmatch (r_seq rs) q) \<Longrightarrow> x \<in> set (rmatch (r_seq (r # rs)) p)"
  by auto

lemma two_words_re_test:
  assumes "u = [] \<or> \<not> is_word (last u)" "v = [] \<or> \<not> is_word (hd v)"
    and "ws \<noteq> []" "list_all is_space ws" "a \<noteq> []" "is_word (hd a)" "b \<noteq> []" "is_word (last b)"
  shows "re_test (r_seq [RBoundary, RStr a, r_spaces, RStr b, RBoundary]) (u @ a @ ws @ b @ v)"
proof -
  let ?r = "r_seq [RBoundary, RStr a, r_spaces, RStr b, RBoundary]"
  let ?w = "a @ ws @ b"
  have start: "\<not> at_word (rev u)" "at_word (a @ s)" for s
    using assms(1,5,6) by (auto simp: at_word_def hd_rev)
  have stop: "\<not> at_word v" "at_word (rev b @ s)" for s
    using assms(2,7,8) by (auto simp: at_word_def hd_rev)
  have run: "(rev ws @ rev a @ rev u, b @ v) \<in> set (rmatch r_spaces (rev a @ rev u, ws @ b @ v))"
    using assms(3,4) by (intro rmatch_class_run) (auto simp: Suc_le_eq)
  have "(rev ?w @ rev u, v) \<in> set (rmatch ?r (rev u, ?w @ v))"
    by (rule seq_step [of "(rev u, ?w @ v)"], use start in simp,
        rule seq_step [of "(rev a @ rev u, ws @ b @ v)"], simp,
        rule seq_step [OF run],
        rule seq_step [of "(rev b @ rev ws @ rev a @ rev u, v)"], simp,
        rule seq_step [of "(rev b @ rev ws @ rev a @ rev u, v)"], use stop in simp)
      simp
  then show ?thesis unfolding re_test_iff by (intro exI [of _ u] exI [of _ ?w] exI [of _ v]) simp
qed

text \<open>The two-word statements of the SQL table.\<close>

definition two_word_statements :: "(string \<times> string) list" where
  "two_word_statements =
     [(''delete'', ''from''), (''insert'', ''into''), (''replace'', ''into''),
      (''into'', ''outfile''), (''into'', ''dumpfile'')]"

abbreviation two_words :: "string \<Rightarrow> string \<Rightarrow> regex" where
  "two_words a b \<equiv> r_seq [RBoundary, RStr a, r_spaces, RStr b, RBoundary]"

lemma single_pattern:
  "\<exists>why. (i, [p], why) \<in> set table \<Longrightarrow> \<exists>i ps why. (i, ps, why) \<in> set table \<and> p \<in> set ps"
  by (metis list.set_intros(1))

lemma two_word_rule:
  assumes "(a, b) \<in> set two_word_statements"
  shows "\<exists>i ps why. (i, ps, why) \<in> set SQL_DESTRUCTIVE \<and>
    r_seq [RBoundary, RStr a, r_spaces, RStr b, RBoundary] \<in> set ps"
proof -
  have m: "\<exists>why. (SqlDeleteFrom, [two_words ''delete'' ''from''], why) \<in> set SQL_DESTRUCTIVE"
    "\<exists>why. (SqlInsertInto, [two_words ''insert'' ''into''], why) \<in> set SQL_DESTRUCTIVE"
    "\<exists>why. (SqlReplaceInto, [two_words ''replace'' ''into''], why) \<in> set SQL_DESTRUCTIVE"
    "\<exists>why. (SqlIntoOutfile, [two_words ''into'' ''outfile''], why) \<in> set SQL_DESTRUCTIVE"
    "\<exists>why. (SqlIntoDumpfile, [two_words ''into'' ''dumpfile''], why) \<in> set SQL_DESTRUCTIVE"
    by (simp_all add: SQL_DESTRUCTIVE_def)
  have "a = ''delete'' \<and> b = ''from'' \<or> a = ''insert'' \<and> b = ''into'' \<or>
      a = ''replace'' \<and> b = ''into'' \<or> a = ''into'' \<and> b = ''outfile'' \<or>
      a = ''into'' \<and> b = ''dumpfile''"
    using assms by (simp add: two_word_statements_def)
  then show ?thesis
  proof (elim disjE conjE)
    assume e: "a = ''delete''" "b = ''from''"
    show ?thesis unfolding e by (rule single_pattern [OF m(1)])
  next
    assume e: "a = ''insert''" "b = ''into''"
    show ?thesis unfolding e by (rule single_pattern [OF m(2)])
  next
    assume e: "a = ''replace''" "b = ''into''"
    show ?thesis unfolding e by (rule single_pattern [OF m(3)])
  next
    assume e: "a = ''into''" "b = ''outfile''"
    show ?thesis unfolding e by (rule single_pattern [OF m(4)])
  next
    assume e: "a = ''into''" "b = ''dumpfile''"
    show ?thesis unfolding e by (rule single_pattern [OF m(5)])
  qed
qed

lemma sql_text_hit:
  assumes "(i, ps, why) \<in> set SQL_DESTRUCTIVE" "p \<in> set ps" "s \<in> set (strings (scanTextSurface req))"
    and "re_test p (to_lower s)"
  shows "hit (createTgSecDangerEvaluator obj req)"
proof -
  have "anyText (scanTextSurface req) ps"
    using assms(2-4) by (auto simp: anyText_def list_ex_iff Let_def)
  moreover have "obj \<in> set ALL_OBJECTIVES"
    by (cases obj) (simp_all add: ALL_OBJECTIVES_def TG_SEC_OBJECTIVES_def)
  ultimately show ?thesis
    using assms(1) unfolding evaluator_hit DANGER_RULES_def textRules_def by force
qed

lemma two_word_ends:
  "(a, b) \<in> set two_word_statements \<Longrightarrow> a \<noteq> [] \<and> is_word (hd a) \<and> b \<noteq> [] \<and> is_word (last b)"
  by (auto simp: two_word_statements_def is_word_def is_alpha_def lower26_def)

lemma sql_words_hit:
  assumes "(s, role) \<in> set (collectValues (arguments req) CommandText)"
    and "(a, b) \<in> set two_word_statements"
    and "to_lower s = u @ a @ ws @ b @ v" "ws \<noteq> []" "list_all is_space ws"
    and "u = [] \<or> \<not> is_word (last u)" "v = [] \<or> \<not> is_word (hd v)"
  shows "hit (createTgSecDangerEvaluator obj req)"
proof -
  obtain i ps why where t: "(i, ps, why) \<in> set SQL_DESTRUCTIVE"
    "r_seq [RBoundary, RStr a, r_spaces, RStr b, RBoundary] \<in> set ps"
    using two_word_rule [OF assms(2)] by blast
  have "s \<in> set (strings (scanTextSurface req))"
    using assms(1) by (force simp: surface_strings)
  then show ?thesis
    using two_words_re_test [OF assms(6,7,4,5)] two_word_ends [OF assms(2)] assms(3)
    by (intro sql_text_hit [OF t]) auto
qed

text \<open>
  Destructive SQL is caught wherever it is written. If any string value of the arguments, a detail
  parameter included, holds \<open>DELETE FROM\<close>, \<open>INSERT INTO\<close>, \<open>REPLACE INTO\<close>, \<open>INTO OUTFILE\<close> or
  \<open>INTO DUMPFILE\<close> as words, in any letter case and with any white space between the two, then the
  evaluator of every objective hits.
\<close>

lemma destructive_sql_hits:
  assumes "(s, role) \<in> set (collectValues (arguments req) CommandText)"
    and "(a, b) \<in> set two_word_statements"
    and "to_lower s = u @ a @ ws @ b @ v" "ws \<noteq> []" "list_all is_space ws"
    and "u = [] \<or> \<not> is_word (last u)" "v = [] \<or> \<not> is_word (hd v)"
  shows "hit (createTgSecDangerEvaluator obj req)"
  using assms by (rule sql_words_hit)

lemma sample_sql:
  "(''DELETE  FROM users'', Detail) \<in> set (collectValues (arguments (text_request ''DELETE  FROM users'')) CommandText)"
  "(''delete'', ''from'') \<in> set two_word_statements"
  "to_lower ''DELETE  FROM users'' = [] @ ''delete'' @ ''  '' @ ''from'' @ '' users''"
  "''  '' \<noteq> []" "list_all is_space ''  ''" "[] = [] \<or> \<not> is_word (last [])"
  "'' users'' = [] \<or> \<not> is_word (hd '' users'')"
  by (simp_all add: text_request_def parameterRole_def TARGET_VALUE_PARAMETERS_def
      COMMAND_TEXT_PARAMETERS_def DETAIL_PARAMETERS_def two_word_statements_def to_lower_def
      is_space_def is_word_def is_digit_def digits10_def is_alpha_def lower26_def upper26_def)

lemma sample_sql_rule:
  "\<exists>i. hit_rule (createTgSecDangerEvaluator obj (text_request ''DELETE  FROM users'')) = Some i"
  using sql_words_hit [OF sample_sql] evaluator_hit_rule by blast

subsection \<open>Removal of system paths\<close>

lemma system_directory_shape:
  "d \<in> set SYSTEM_DIRECTORIES \<Longrightarrow> to_lower d = d \<and> prefix ''/'' d \<and> CHR ''*'' \<notin> set d"
  by (auto simp: SYSTEM_DIRECTORIES_def to_lower_def)

lemma strip_star_directory:
  assumes "CHR ''*'' \<notin> set d" "rest = [] \<or> prefix ''/'' rest"
  shows "strip_star (d @ rest) = d \<or> prefix (d @ ''/'') (strip_star (d @ rest))"
proof (cases "suffix ''/*'' (d @ rest)")
  case True
  then obtain p where p: "d @ rest = p @ ''/*''" by (auto simp: suffix_def)
  have "rest \<noteq> []"
  proof
    assume "rest = []"
    then have "CHR ''*'' \<in> set d" using p by simp
    with assms(1) show False by simp
  qed
  then obtain r where r: "rest = CHR ''/'' # r" using assms(2) by (auto simp: prefix_def)
  have "last rest = CHR ''*''" using p \<open>rest \<noteq> []\<close> by (metis last_appendR last_snoc append.assoc append_Cons append_Nil)
  then have "r \<noteq> []" using r by auto
  then obtain r' where r': "rest = CHR ''/'' # r' @ [CHR ''*'']"
    using r \<open>last rest = CHR ''*''\<close> by (metis append_butlast_last_id last_ConsR)
  have e: "d @ CHR ''/'' # r' = p @ ''/''" using p r' by simp
  have strip: "strip_star (d @ rest) = p" using True p by (simp add: strip_star_def)
  show ?thesis
  proof (cases "r' = []")
    case True
    then show ?thesis using e strip by simp
  next
    case False
    then obtain q where "r' = q @ ''/''"
      using e by (metis append_butlast_last_id last_ConsR last_appendR last_snoc list.distinct(1))
    then have "p = d @ CHR ''/'' # q" using e by simp
    then show ?thesis using strip by simp
  qed
next
  case False
  then show ?thesis using assms(2) by (auto simp: strip_star_def prefix_def)
qed

lemma removes_system_path_rm:
  assumes "d \<in> set SYSTEM_DIRECTORIES" "rest = [] \<or> prefix ''/'' rest"
  shows "removes_system_path (group_of [''rm'', ''-rf'', d @ rest])"
proof -
  have d: "to_lower d = d" "CHR ''*'' \<notin> set d" "prefix ''/'' d"
    using system_directory_shape [OF assms(1)] by simp_all
  have rest: "to_lower rest = [] \<or> prefix ''/'' (to_lower rest)"
    using assms(2) by (auto simp: prefix_def to_lower_def)
  have low: "to_lower (d @ rest) = d @ to_lower rest" using d(1) by (simp add: to_lower_def)
  have "\<not> prefix ''-'' (d @ to_lower rest)" using d(3) by (auto simp: prefix_def)
  then have targets: "d @ to_lower rest \<in> set (nonFlagTargets (group_of [''rm'', ''-rf'', d @ rest]))"
    by (simp add: nonFlagTargets_def group_of_def low)
  have "hasForcedRecursiveFlags (cmd_tokens (group_of [''rm'', ''-rf'', d @ rest]))"
    by (simp add: group_of_def to_lower_def hasForcedRecursiveFlags_def Let_def flag_cluster_def
        word_eval is_lower_def)
  moreover have "cmd_head (group_of [''rm'', ''-rf'', d @ rest]) = ''rm''"
    by (simp add: group_of_def to_lower_def)
  moreover have "list_ex (\<lambda>target. let path = strip_star target in
      list_ex (\<lambda>directory. path = directory \<or> prefix (directory @ ''/'') path) SYSTEM_DIRECTORIES)
    (nonFlagTargets (group_of [''rm'', ''-rf'', d @ rest]))"
    using targets strip_star_directory [OF d(2) rest] assms(1)
    unfolding list_ex_iff Let_def by blast
  ultimately show ?thesis by (simp add: removes_system_path_def)
qed

text \<open>
  Removing a system directory always reaches a human. A command line of plain words, a semicolon
  and \<open>rm -rf\<close> of a system directory, of everything in it or of any path below it makes the
  evaluator of every objective hit, whichever parameter carries the line.
\<close>

lemma system_path_removal_hits:
  assumes "arguments req = AObj entries"
    and "(k, AStr (after_words us [''rm'', ''-rf'', d @ rest])) \<in> set entries"
    and "list_all plain_word us" "TIMEOUT_COMMAND \<notin> set us"
    and "d \<in> set SYSTEM_DIRECTORIES" "rest = [] \<or> prefix ''/'' rest" "list_all plain_char rest"
  shows "hit (createTgSecDangerEvaluator obj req)"
proof -
  have "list_all plain_char d" "d \<noteq> []" using assms(5)
    by (auto simp: SYSTEM_DIRECTORIES_def word_eval)
  then have "list_all plain_word [''rm'', ''-rf'', d @ rest]"
    using assms(7) by (simp add: plain_word_def) (simp add: word_eval)
  then have "group_of [''rm'', ''-rf'', d @ rest] \<in> set (commands (scanTextSurface req))"
    by (intro command_in_view [OF assms(1,2,3,4)])
      (simp_all add: TIMEOUT_COMMAND_def WRAPPER_COMMANDS_def ASSIGNMENT_def word_eval is_word_def)
  then have "list_ex removes_system_path (commands (scanTextSurface req))"
    using removes_system_path_rm [OF assms(5,6)] by (auto simp: list_ex_iff)
  moreover have "obj \<in> set ALL_OBJECTIVES"
    by (cases obj) (simp_all add: ALL_OBJECTIVES_def TG_SEC_OBJECTIVES_def)
  ultimately show ?thesis
    unfolding evaluator_hit DANGER_RULES_def CRITICAL_PATH_REMOVAL_def
    by (intro bexI [of _ "hd CRITICAL_PATH_REMOVAL"]) (simp_all add: CRITICAL_PATH_REMOVAL_def)
qed

subsection \<open>Listing another user's crontab\<close>

text \<open>
  The crontab rule and the comment on it differ. The comment says that \<open>crontab -l\<close> with \<open>-u\<close>
  lists and is excluded; the value of \<open>-u\<close> is a token without a dash, which the matcher takes for a
  file to install, so \<open>crontab -u <user> -l\<close> is reported as a schedule write for every user name,
  while a bare \<open>crontab -l\<close> is not.
\<close>

lemma crontab_list_for_user_flagged:
  "crontabWrites (group_of [''crontab'', ''-u'', CHR ''u'' # user, ''-l'']) \<and>
   \<not> crontabWrites (group_of [''crontab'', ''-l''])"
  by (simp add: crontabWrites_def group_of_def to_lower_def Let_def list_flag_def is_lower_def
      lower26_def)

end
