(* ===== verification/Utf8.thy ===== *)
theory Utf8
  imports Prelude
begin

unbundle bit_operations_syntax

text \<open>
  UTF-8, as \<open>Buffer.from(text, "utf8")\<close> writes it and \<open>toString("utf8")\<close> reads it back: bytes are
  numbers below 256, and decoding what was encoded gives the text back.
\<close>

text \<open>UTF-8 of the model's characters (code points below 256), and its inverse.\<close>

definition utf8_bytes_of :: "char \<Rightarrow> nat list" where
  "utf8_bytes_of c =
     (let n = of_char c in
      if n < 128 then [n] else [0xc0 OR drop_bit 6 n, 0x80 OR (n AND 0x3f)])"

definition utf8_encode :: "string \<Rightarrow> nat list" where
  "utf8_encode s = concat (map utf8_bytes_of s)"

fun utf8_decode :: "nat list \<Rightarrow> string option" where
  "utf8_decode [] = Some []"
| "utf8_decode (b # bs) =
     (if b < 128 then map_option (\<lambda>s. char_of b # s) (utf8_decode bs)
      else
        case bs of
          [] \<Rightarrow> None
        | b2 # bs' \<Rightarrow> map_option (\<lambda>s. char_of ((b AND 0x1f) * 64 + (b2 AND 0x3f)) # s) (utf8_decode bs'))"

subsection \<open>Decoding an encoded text\<close>

lemma char_code_bound: "(of_char c :: nat) < 256"
  by (cases c) (simp add: of_char_def)

lemma utf8_bytes_high:
  assumes "128 \<le> (of_char c :: nat)"
  shows "utf8_bytes_of c = [192 + of_char c div 64, 128 + of_char c mod 64]"
    and "of_char c div 64 < (4 :: nat)" "2 \<le> (of_char c :: nat) div 64"
proof -
  let ?n = "of_char c :: nat"
  show b: "?n div 64 < 4" using char_code_bound [of c] by (simp add: less_mult_imp_div_less)
  show "2 \<le> ?n div 64" using assms div_le_mono [OF assms, of 64] by simp
  have "0xc0 OR ?n div 64 = 192 + ?n div 64"
    using or_push_bit [of "?n div 64" 6 3] b by (simp add: push_bit_eq_mult)
  moreover have "?n AND 0x3f = ?n mod 64"
    using take_bit_eq_mask [of 6 ?n] by (simp add: take_bit_eq_mod mask_eq_exp_minus_1)
  moreover have "0x80 OR ?n mod 64 = 128 + ?n mod 64"
    using or_push_bit [of "?n mod 64" 7 1] by (simp add: push_bit_eq_mult less_trans [of _ 64])
  ultimately show "utf8_bytes_of c = [192 + ?n div 64, 128 + ?n mod 64]"
    using assms by (simp add: utf8_bytes_of_def drop_bit_eq_div Let_def)
qed

lemma and_0x3f: "(n :: nat) AND 0x3f = n mod 64"
  using take_bit_eq_mask [of 6 n] by (simp add: take_bit_eq_mod mask_eq_exp_minus_1)

lemma and_0x1f: "(n :: nat) AND 0x1f = n mod 32"
  using take_bit_eq_mask [of 5 n] by (simp add: take_bit_eq_mod mask_eq_exp_minus_1)

lemma continuation_byte: "m < 64 \<Longrightarrow> (128 + m) AND 0xc0 = (0x80 :: nat)"
proof -
  assume m: "m < 64"
  have "(128 + m) AND 0xc0 = (push_bit 6 2 OR m) AND push_bit 6 3"
    using or_push_bit [of m 6 2] m by (simp add: push_bit_eq_mult)
  also have "\<dots> = push_bit 6 2"
  proof (rule bit_eqI)
    fix i
    have "take_bit 6 m = m" using m by (simp add: take_bit_nat_eq_self_iff)
    then have a: "bit m i \<Longrightarrow> i < 6" by (metis bit_take_bit_iff)
    have "(2 :: nat) AND 3 = 2" by simp
    then have b: "bit (2 :: nat) j \<Longrightarrow> bit (3 :: nat) j" for j by (metis bit_and_iff)
    show "bit ((push_bit 6 2 OR m) AND push_bit 6 3) i \<longleftrightarrow> bit (push_bit 6 2 :: nat) i"
      unfolding bit_and_iff bit_or_iff bit_push_bit_iff using a b by fastforce
  qed
  also have "\<dots> = 0x80" by (simp add: push_bit_eq_mult)
  finally show ?thesis .
qed

lemma utf8_bytes_length: "length (utf8_bytes_of c) = utf8_width c"
  by (simp add: utf8_bytes_of_def utf8_width_def Let_def)

lemma utf8_encode_simps [simp]:
  "utf8_encode [] = []" "utf8_encode (c # s) = utf8_bytes_of c @ utf8_encode s"
  by (simp_all add: utf8_encode_def)

lemma utf8_encode_length: "length (utf8_encode s) = utf8_length s"
  by (induction s) (simp_all add: utf8_bytes_length)

lemma utf8_decode_encode: "utf8_decode (utf8_encode s) = Some s"
proof (induction s)
  case (Cons c s)
  show ?case
  proof (cases "(of_char c :: nat) < 128")
    case True
    then show ?thesis using Cons by (simp add: utf8_bytes_of_def Let_def)
  next
    case False
    let ?n = "of_char c :: nat"
    have b: "utf8_bytes_of c = [192 + ?n div 64, 128 + ?n mod 64]" "?n div 64 < 4"
      using utf8_bytes_high [of c] False by simp_all
    have "(192 + ?n div 64) AND 0x1f = ?n div 64" "(128 + ?n mod 64) AND 0x3f = ?n mod 64"
      using b(2) mod_mult_self3 [of 6 32 "?n div 64"] mod_mult_self3 [of 2 64 "?n mod 64"]
      by (simp_all add: and_0x1f and_0x3f)
    then show ?thesis using Cons b by simp
  qed
qed simp

lemma utf8_encode_inj [simp]: "utf8_encode s = utf8_encode t \<longleftrightarrow> s = t"
  by (metis option.inject utf8_decode_encode)

lemma utf8_bytes_small: "b \<in> set (utf8_encode s) \<Longrightarrow> b < 256"
proof (induction s)
  case (Cons c s)
  have "b < 256" if "b \<in> set (utf8_bytes_of c)"
  proof (cases "128 \<le> (of_char c :: nat)")
    case True
    then show ?thesis using that utf8_bytes_high [OF True] mod_less_divisor [of 64 "of_char c :: nat"] by auto
  next
    case False
    then show ?thesis using that by (simp add: utf8_bytes_of_def Let_def)
  qed
  with Cons show ?case by auto
qed simp

end
