(* ===== verification/Mode.thy ===== *)
theory Mode
  imports Command_Text
begin

text \<open>
  The session's permission mode (\<open>packages/sec-guard/src/mode.ts\<close>): the four modes, the document
  \<open>tg.sec.mode\<close> that holds the current one, reading it and switching it. The document is read
  through an untyped boundary, so its \<open>mode\<close> field is an arbitrary JSON value; a session port is the
  document it holds, if any, and whether a commit through it succeeds.
\<close>

datatype permission_mode = Strict | JudgeAuto | Auto | Yolo

definition TG_SEC_MODES :: "permission_mode list" where
  "TG_SEC_MODES = [Strict, JudgeAuto, Auto, Yolo]"

definition TG_SEC_DEFAULT_MODE :: permission_mode where "TG_SEC_DEFAULT_MODE = Auto"

fun mode_text :: "permission_mode \<Rightarrow> string" where
  "mode_text Strict = ''strict''"
| "mode_text JudgeAuto = ''judge-auto''"
| "mode_text Auto = ''auto''"
| "mode_text Yolo = ''yolo''"

text \<open>\<open>isTgSecMode\<close>, with the mode it recognises.\<close>

definition isTgSecMode :: "arg \<Rightarrow> permission_mode option" where
  "isTgSecMode v =
     (case v of AStr s \<Rightarrow> find (\<lambda>m. mode_text m = s) TG_SEC_MODES | _ \<Rightarrow> None)"

datatype mode_error =
    CorruptMode arg
  | CannotSwitch arg
  | EmptyActor
  | CommitFailed

record session_port =
  mode_doc :: "arg option"
  commit_ok :: bool

record switch_span =
  span_from :: permission_mode
  span_to :: permission_mode
  span_actor :: string

definition readTgSecMode :: "arg option \<Rightarrow> mode_error + permission_mode" where
  "readTgSecMode doc =
     (case doc of
        None \<Rightarrow> Inr TG_SEC_DEFAULT_MODE
      | Some v \<Rightarrow> (case isTgSecMode v of None \<Rightarrow> Inl (CorruptMode v) | Some m \<Rightarrow> Inr m))"

text \<open>
  The port after the switch, the spans it started and the error it threw, if any. The span covers
  the commit, so it is started even if the commit fails.
\<close>

definition switchTgSecMode ::
  "session_port \<Rightarrow> arg \<Rightarrow> string \<Rightarrow> session_port \<times> switch_span list \<times> mode_error option" where
  "switchTgSecMode port new_mode actor =
     (case isTgSecMode new_mode of
        None \<Rightarrow> (port, [], Some (CannotSwitch new_mode))
      | Some m \<Rightarrow>
          if trim actor = [] then (port, [], Some EmptyActor)
          else
            case readTgSecMode (mode_doc port) of
              Inl e \<Rightarrow> (port, [], Some e)
            | Inr old \<Rightarrow>
                let span = \<lparr>span_from = old, span_to = m, span_actor = actor\<rparr> in
                if commit_ok port then (port\<lparr>mode_doc := Some (AStr (mode_text m))\<rparr>, [span], None)
                else (port, [span], Some CommitFailed))"

lemma isTgSecMode_text [simp]: "isTgSecMode (AStr (mode_text m)) = Some m"
  by (cases m) (simp_all add: isTgSecMode_def TG_SEC_MODES_def)

lemma isTgSecMode_Some: "isTgSecMode v = Some m \<longleftrightarrow> v = AStr (mode_text m)"
proof
  assume "isTgSecMode v = Some m"
  then obtain s where s: "v = AStr s" "find (\<lambda>m. mode_text m = s) TG_SEC_MODES = Some m"
    by (auto simp: isTgSecMode_def split: arg.splits)
  from find_Some_in_set [OF s(2)] s(1) show "v = AStr (mode_text m)" by simp
qed simp

lemma readTgSecMode_text [simp]: "readTgSecMode (Some (AStr (mode_text m))) = Inr m"
  by (simp add: readTgSecMode_def)

text \<open>
  Switching is all or nothing. A switch either succeeds, and then the next read of the document
  returns exactly the requested mode and one audit span records the old mode, the new mode and the
  actor; or it throws, and then the document is as before. It succeeds exactly for one of the four
  mode names, a non-blank actor, a readable current mode and a commit that goes through.
\<close>

lemma switch_atomic:
  "case switchTgSecMode port v actor of (port', spans, err) \<Rightarrow>
     (case err of
        Some _ \<Rightarrow> port' = port
      | None \<Rightarrow> \<exists>old new. readTgSecMode (mode_doc port) = Inr old \<and> v = AStr (mode_text new) \<and>
          readTgSecMode (mode_doc port') = Inr new \<and>
          spans = [\<lparr>span_from = old, span_to = new, span_actor = actor\<rparr>]) \<and>
     (err = None \<longleftrightarrow> (\<exists>old new. v = AStr (mode_text new) \<and> trim actor \<noteq> [] \<and>
        readTgSecMode (mode_doc port) = Inr old \<and> commit_ok port))"
proof (cases "isTgSecMode v")
  case None
  then have "v \<noteq> AStr (mode_text m)" for m by auto
  with None show ?thesis by (simp add: switchTgSecMode_def)
next
  case (Some m)
  then have v: "v = AStr (mode_text m)" by (simp add: isTgSecMode_Some)
  show ?thesis
    by (auto simp: v switchTgSecMode_def Let_def split: sum.split)
qed

end
