(* ===== verification/Guard.thy ===== *)
theory Guard
  imports Mode Scope Rule_Table Danger Judge "HOL-Library.Char_ord" "HOL-Library.List_Lexorder" "HOL-Library.Multiset"
begin

text \<open>
  The guard (\<open>packages/sec-guard/src/guard.ts\<close>): construction, the decision chain in its order, the
  audit spans, the adapter that maps a decision and a human reply to pass or block, \<open>always\<close> grants
  and mode switching. The grant store, the ask channel, the judge and the digest are interfaces of
  the code, so they are arguments; the in-memory store of the code instantiates the store. The
  state of a guard is its cached mode, its grants, the session port it writes through and the spans
  it emitted. An em dash in a reason text is written as a hyphen.
\<close>

subsection \<open>Decisions and evaluations\<close>

datatype sec_decision = Allow | Deny string | Ask string bool

datatype matched_layer = LHardDeny | LRules | LSelfProtection | LScope | LDanger | LGrants | LMode

datatype rule_ref = HardRule hard_deny_rule | DangerRule danger_id

record evaluation =
  ev_decision :: sec_decision
  ev_layer :: matched_layer
  ev_rule :: "rule_ref option"

datatype ask_reply = ReplyAllow | ReplyDeny | ReplyAlways

fun forced_ask :: "sec_decision \<Rightarrow> bool" where
  "forced_ask (Ask r f) \<longleftrightarrow> f"
| "forced_ask d \<longleftrightarrow> False"

subsection \<open>Grant stores\<close>

definition createInMemoryGrantStore :: "string list" where
  "createInMemoryGrantStore = []"

definition grants_has :: "string list \<Rightarrow> string \<Rightarrow> bool" where
  "grants_has granted res \<longleftrightarrow> res \<in> set granted"

definition grants_add :: "string \<Rightarrow> string list \<Rightarrow> string list" where
  "grants_add res granted = List.insert res granted"

subsection \<open>The request\<close>

record tool_call =
  call_name :: string
  call_arguments :: arg

definition toTgSecRequest :: "tool_call \<Rightarrow> request" where
  "toTgSecRequest call =
     \<lparr>toolName = call_name call, resource = ''tool:'' @ call_name call, arguments = call_arguments call\<rparr>"

subsection \<open>Canonical JSON and the arguments digest\<close>

text \<open>\<open>stringify\<close> is \<open>JSON.stringify\<close> of a primitive; a missing value reads as \<open>null\<close>.\<close>

fun canonicalJson :: "(arg \<Rightarrow> string) \<Rightarrow> arg \<Rightarrow> string" where
  "canonicalJson stringify AUndefined = stringify ANull"
| "canonicalJson stringify ANull = stringify ANull"
| "canonicalJson stringify (ABool b) = stringify (ABool b)"
| "canonicalJson stringify (ANum n) = stringify (ANum n)"
| "canonicalJson stringify (AStr s) = stringify (AStr s)"
| "canonicalJson stringify (AArr items) =
     ''['' @ join_str '','' (map (canonicalJson stringify) items) @ '']''"
| "canonicalJson stringify (AObj entries) =
     ''{'' @ join_str '',''
       (map (\<lambda>(key, item). stringify (AStr key) @ '':'' @ item)
         (sort_key fst
           (map (\<lambda>(key, item). (key, canonicalJson stringify item))
             (filter (\<lambda>(key, item). item \<noteq> AUndefined) entries)))) @ ''}''"

definition digestArguments :: "(arg \<Rightarrow> string) \<Rightarrow> (string \<Rightarrow> string) \<Rightarrow> request \<Rightarrow> string" where
  "digestArguments stringify sha256_hex req =
     take 16 (sha256_hex (canonicalJson stringify (arguments req)))"

subsection \<open>Construction\<close>

record guard_options =
  o_mode :: arg
  o_scopeResolver :: "(request \<Rightarrow> scope_result) option"
  o_dangerEvaluator :: "(request \<Rightarrow> danger_hit) option"
  o_judge :: "(request \<Rightarrow> judge_verdict settle) option"
  o_askChannel :: "(request \<Rightarrow> sec_decision \<Rightarrow> string + ask_reply) option"
  o_rules :: "rule_table option"
  o_hasSession :: bool
  o_hostAddresses :: "string list"
  o_judgeTimeoutMs :: "nat option"

datatype guard_error =
    NotAMode arg
  | NoScopeResolver
  | NoDangerEvaluator
  | JudgeRequired
  | JudgeMissingAtEvaluation
  | NoSessionPort
  | ModeError mode_error
  | AskChannelFailed string

text \<open>What the closure of a constructed guard holds.\<close>

record guard_chain =
  scopeResolver :: "request \<Rightarrow> scope_result"
  dangerEvaluator :: "request \<Rightarrow> danger_hit"
  judge :: "(request \<Rightarrow> judge_verdict settle) option"
  askChannel :: "(request \<Rightarrow> sec_decision \<Rightarrow> string + ask_reply) option"
  ruleTable :: rule_table
  hasSession :: bool
  hostAddresses :: "string list"
  judgeTimeoutMs :: nat

definition createTgSecGuard :: "guard_options \<Rightarrow> guard_error + guard_chain \<times> permission_mode" where
  "createTgSecGuard options =
     (case isTgSecMode (o_mode options) of
        None \<Rightarrow> Inl (NotAMode (o_mode options))
      | Some m \<Rightarrow>
          (case o_scopeResolver options of
             None \<Rightarrow> Inl NoScopeResolver
           | Some sr \<Rightarrow>
               (case o_dangerEvaluator options of
                  None \<Rightarrow> Inl NoDangerEvaluator
                | Some de \<Rightarrow>
                    if m = JudgeAuto \<and> o_judge options = None then Inl JudgeRequired
                    else
                      Inr (\<lparr>scopeResolver = sr, dangerEvaluator = de, judge = o_judge options,
                            askChannel = o_askChannel options,
                            ruleTable = (case o_rules options of None \<Rightarrow> [] | Some t \<Rightarrow> t),
                            hasSession = o_hasSession options,
                            hostAddresses = o_hostAddresses options,
                            judgeTimeoutMs =
                              (case o_judgeTimeoutMs options of None \<Rightarrow> 15000 | Some t \<Rightarrow> t)\<rparr>, m))))"

subsection \<open>The decision chain\<close>

definition mode_evaluation :: "sec_decision \<Rightarrow> evaluation" where
  "mode_evaluation d = \<lparr>ev_decision = d, ev_layer = LMode, ev_rule = None\<rparr>"

text \<open>The judge against the guard's own clock.\<close>

definition judgeWithTimeout :: "judge_verdict settle \<Rightarrow> nat \<Rightarrow> evaluation" where
  "judgeWithTimeout settled timeoutMs =
     (let timedOut = mode_evaluation (Ask ''the judge timed out'' False)
      in case settled of
           Resolves t verdict \<Rightarrow>
             if t < timeoutMs then
               (if decision verdict = JudgeAllow then mode_evaluation Allow
                else mode_evaluation
                  (Ask (if comment verdict = [] then ''the judge asked for a human''
                        else comment verdict) False))
             else timedOut
         | Rejects t message \<Rightarrow>
             if t < timeoutMs then
               mode_evaluation
                 (Ask (''the judge failed and the call escalates to a human: '' @ message) False)
             else timedOut
         | Never \<Rightarrow> timedOut)"

definition rule_reason :: "sec_rule \<Rightarrow> string" where
  "rule_reason r =
     (let named = ''intercept rule '' @ [dquote] @ rule_id r @ [dquote] @ '' ('' @ rule_pattern r @ '')'';
          note = (case rule_note r of None \<Rightarrow> [] | Some n \<Rightarrow> '' - '' @ n)
      in if rule_effect r = DenyRule
         then named @ '' denies this call by policy'' @ note @
              '': a human may approve this one, but no grant and no mode exempts it''
         else named @ '' asks for a human decision on this call'' @ note)"

text \<open>Mode dispatch; \<open>has\<close> is the grant store's lookup.\<close>

definition dispatch_mode ::
  "guard_chain \<Rightarrow> (string \<Rightarrow> bool) \<Rightarrow> permission_mode \<Rightarrow> sec_rule option \<Rightarrow> request \<Rightarrow>
   guard_error + evaluation" where
  "dispatch_mode c has m rulesHit req =
     (let ruleAllow = (case rulesHit of None \<Rightarrow> False | Some r \<Rightarrow> rule_effect r = AllowRule);
          byRule = \<lparr>ev_decision = Allow, ev_layer = LRules, ev_rule = None\<rparr>
      in case m of
           Strict \<Rightarrow>
             Inr (mode_evaluation (Ask ''strict mode puts every tool call in front of a human'' False))
         | JudgeAuto \<Rightarrow>
             if ruleAllow then Inr byRule
             else
               (case judge c of
                  None \<Rightarrow> Inl JudgeMissingAtEvaluation
                | Some j \<Rightarrow> Inr (judgeWithTimeout (j req) (judgeTimeoutMs c)))
         | _ \<Rightarrow>
             if ruleAllow then Inr byRule
             else if has (resource req)
             then Inr \<lparr>ev_decision = Allow, ev_layer = LGrants, ev_rule = None\<rparr>
             else Inr (mode_evaluation Allow))"

definition evaluate ::
  "guard_chain \<Rightarrow> (string \<Rightarrow> bool) \<Rightarrow> request \<Rightarrow> permission_mode \<Rightarrow> guard_error + evaluation" where
  "evaluate c has req m =
     (case evaluateHardDeny req (hostAddresses c) of
        Some denial \<Rightarrow>
          Inr \<lparr>ev_decision = Deny (deny_reason denial), ev_layer = LHardDeny,
               ev_rule = Some (HardRule (deny_rule denial))\<rparr>
      | None \<Rightarrow>
          let rulesHit = match_rule (ruleTable c) (resource req);
              stopped = (case rulesHit of None \<Rightarrow> None
                | Some r \<Rightarrow> if rule_effect r = AllowRule then None else Some r)
          in case stopped of
            Some r \<Rightarrow>
              Inr \<lparr>ev_decision = Ask (rule_reason r) (rule_effect r = DenyRule), ev_layer = LRules,
                   ev_rule = None\<rparr>
          | None \<Rightarrow>
              (case evaluateWeakSelfProtection req (hostAddresses c) of
                 Some w \<Rightarrow>
                   Inr \<lparr>ev_decision = Ask (weak_reason w) True, ev_layer = LSelfProtection,
                        ev_rule = Some (HardRule (weak_rule w))\<rparr>
               | None \<Rightarrow>
                   let scope = scopeResolver c req in
                   if \<not> inScope scope then
                     Inr \<lparr>ev_decision =
                            Ask (case scope_reason scope of None \<Rightarrow> ''the target is outside the registered scope''
                                 | Some r \<Rightarrow> r) True,
                          ev_layer = LScope, ev_rule = None\<rparr>
                   else
                     let danger = dangerEvaluator c req in
                     if hit danger then
                       Inr \<lparr>ev_decision =
                              Ask (case hit_reason danger of
                                     None \<Rightarrow> ''the call matches the dangerous-instruction set''
                                   | Some r \<Rightarrow> r) True,
                            ev_layer = LDanger, ev_rule = map_option DangerRule (hit_rule danger)\<rparr>
                     else dispatch_mode c has m rulesHit req))"

subsection \<open>The guard's state and its operations\<close>

record guard_span =
  sp_mode :: permission_mode
  sp_digest :: string
  sp_layer :: "matched_layer option"
  sp_effect :: "string option"
  sp_forced :: "bool option"
  sp_rule :: "rule_ref option"

record 's guard_state =
  currentMode :: permission_mode
  granted :: 's
  port :: session_port
  guard_spans :: "guard_span list"
  mode_spans :: "switch_span list"

fun effect_text :: "sec_decision \<Rightarrow> string" where
  "effect_text Allow = ''allow''"
| "effect_text (Deny r) = ''deny''"
| "effect_text (Ask r f) = ''ask''"

fun forced_attribute :: "sec_decision \<Rightarrow> bool option" where
  "forced_attribute (Ask r f) = Some f"
| "forced_attribute d = None"

text \<open>The span is started before the evaluation; an evaluation that throws sets no attribute.\<close>

definition decisionFor ::
  "(request \<Rightarrow> string) \<Rightarrow> ('s \<Rightarrow> string \<Rightarrow> bool) \<Rightarrow> guard_chain \<Rightarrow> request \<Rightarrow> 's guard_state \<Rightarrow>
   's guard_state \<times> (guard_error + sec_decision)" where
  "decisionFor digest has c req st =
     (let m = currentMode st;
          started = \<lparr>sp_mode = m, sp_digest = digest req, sp_layer = None, sp_effect = None,
                     sp_forced = None, sp_rule = None\<rparr>
      in case evaluate c (has (granted st)) req m of
           Inl e \<Rightarrow> (st\<lparr>guard_spans := guard_spans st @ [started]\<rparr>, Inl e)
         | Inr ev \<Rightarrow>
             (st\<lparr>guard_spans := guard_spans st @
                   [started\<lparr>sp_layer := Some (ev_layer ev), sp_effect := Some (effect_text (ev_decision ev)),
                            sp_forced := forced_attribute (ev_decision ev), sp_rule := ev_rule ev\<rparr>]\<rparr>,
              Inr (ev_decision ev)))"

datatype hook_result = Pass | Block string | Throws guard_error

text \<open>A hook that throws is turned into a block by the caller.\<close>

fun passes :: "hook_result \<Rightarrow> bool" where
  "passes Pass \<longleftrightarrow> True"
| "passes r \<longleftrightarrow> False"

definition ask_human ::
  "(string \<Rightarrow> 's \<Rightarrow> 's) \<Rightarrow> guard_chain \<Rightarrow> request \<Rightarrow> string \<Rightarrow> bool \<Rightarrow> 's guard_state \<Rightarrow>
   's guard_state \<times> hook_result" where
  "ask_human add c req why forced st =
     (case askChannel c of
        None \<Rightarrow> (st, Block (''the guard fails closed without an ask channel: '' @ why))
      | Some channel \<Rightarrow>
          (case channel req (Ask why forced) of
             Inl message \<Rightarrow> (st, Throws (AskChannelFailed message))
           | Inr ReplyAlways \<Rightarrow>
               (if forced then st else st\<lparr>granted := add (resource req) (granted st)\<rparr>, Pass)
           | Inr ReplyAllow \<Rightarrow> (st, Pass)
           | Inr ReplyDeny \<Rightarrow> (st, Block why)))"

text \<open>\<open>doc\<close> is the mode document the hook API reads at this call.\<close>

definition beforeTool ::
  "(request \<Rightarrow> string) \<Rightarrow> ('s \<Rightarrow> string \<Rightarrow> bool) \<Rightarrow> (string \<Rightarrow> 's \<Rightarrow> 's) \<Rightarrow> guard_chain \<Rightarrow>
   tool_call \<Rightarrow> arg option \<Rightarrow> 's guard_state \<Rightarrow> 's guard_state \<times> hook_result" where
  "beforeTool digest has add c call doc st =
     (case readTgSecMode doc of
        Inl e \<Rightarrow> (st, Throws (ModeError e))
      | Inr m \<Rightarrow>
          let req = toTgSecRequest call;
              decided = decisionFor digest has c req (st\<lparr>currentMode := m\<rparr>)
          in case decided of
               (st', Inl e) \<Rightarrow> (st', Throws e)
             | (st', Inr Allow) \<Rightarrow> (st', Pass)
             | (st', Inr (Deny why)) \<Rightarrow> (st', Block why)
             | (st', Inr (Ask why forced)) \<Rightarrow> ask_human add c req why forced st')"

definition switchMode ::
  "guard_chain \<Rightarrow> arg \<Rightarrow> string \<Rightarrow> 's guard_state \<Rightarrow> 's guard_state \<times> guard_error option" where
  "switchMode c v actor st =
     (case isTgSecMode v of
        None \<Rightarrow> (st, Some (NotAMode v))
      | Some m \<Rightarrow>
          if m = JudgeAuto \<and> judge c = None then (st, Some JudgeRequired)
          else if \<not> hasSession c then (st, Some NoSessionPort)
          else
            case switchTgSecMode (port st) v actor of
              (port', spans, Some e) \<Rightarrow>
                (st\<lparr>port := port', mode_spans := mode_spans st @ spans\<rparr>, Some (ModeError e))
            | (port', spans, None) \<Rightarrow>
                (st\<lparr>port := port', mode_spans := mode_spans st @ spans, currentMode := m\<rparr>, None))"

subsection \<open>The chain, layer by layer\<close>

definition rule_lets_through :: "guard_chain \<Rightarrow> request \<Rightarrow> bool" where
  "rule_lets_through c req \<longleftrightarrow>
     (case match_rule (ruleTable c) (resource req) of
        None \<Rightarrow> True | Some r \<Rightarrow> rule_effect r = AllowRule)"

text \<open>No layer before mode dispatch stops the request.\<close>

definition clean_request :: "guard_chain \<Rightarrow> request \<Rightarrow> bool" where
  "clean_request c req \<longleftrightarrow>
     evaluateHardDeny req (hostAddresses c) = None \<and> rule_lets_through c req \<and>
     evaluateWeakSelfProtection req (hostAddresses c) = None \<and>
     inScope (scopeResolver c req) \<and> \<not> hit (dangerEvaluator c req)"

lemma dispatch_not_final:
  "dispatch_mode c has m r req = Inr e \<Longrightarrow> ev_decision e \<noteq> Deny why \<and> \<not> forced_ask (ev_decision e)"
  by (cases m)
    (auto simp: dispatch_mode_def judgeWithTimeout_def mode_evaluation_def Let_def
      split: if_splits option.splits settle.splits)

lemma evaluate_clean:
  "clean_request c req \<Longrightarrow>
     evaluate c has req m = dispatch_mode c has m (match_rule (ruleTable c) (resource req)) req"
  by (auto simp: clean_request_def rule_lets_through_def evaluate_def Let_def split: option.splits)

lemma evaluate_stopped:
  assumes "\<not> clean_request c req"
  shows "\<exists>e. evaluate c has req m = Inr e \<and> ev_decision e \<noteq> Allow \<and> ev_layer e \<notin> {LMode, LGrants} \<and>
    (\<forall>has' m'. evaluate c has' req m' = Inr e)"
  using assms
  by (auto simp: clean_request_def rule_lets_through_def evaluate_def Let_def split: option.splits)

lemma dispatch_allow:
  "(\<exists>e. dispatch_mode c has m r req = Inr e \<and> ev_decision e = Allow) \<longleftrightarrow>
     (case m of
        Strict \<Rightarrow> False
      | JudgeAuto \<Rightarrow>
          (case r of None \<Rightarrow> False | Some q \<Rightarrow> rule_effect q = AllowRule) \<or>
          (\<exists>j t v. judge c = Some j \<and> j req = Resolves t v \<and> t < judgeTimeoutMs c \<and>
             decision v = JudgeAllow)
      | Auto \<Rightarrow> True
      | Yolo \<Rightarrow> True)"
  by (cases m; cases r)
    (auto simp: dispatch_mode_def judgeWithTimeout_def mode_evaluation_def Let_def
      split: if_splits option.splits settle.splits)

text \<open>
  C4. What an automatic pass means. The chain allows a request exactly when the hard deny finds
  nothing, the winning intercept rule (if any) is an allow, no weak self-protection candidate is
  found, the request is in scope, the danger set does not hit, and the mode lets it: never under
  \<open>strict\<close>; under \<open>judge-auto\<close> by an allow rule or by a judge that resolves to allow within the
  guard's deadline; under \<open>auto\<close> and \<open>yolo\<close> always. Grants appear nowhere in the condition.
\<close>

theorem chain_allows_iff:
  "(\<exists>e. evaluate c has req m = Inr e \<and> ev_decision e = Allow) \<longleftrightarrow>
     evaluateHardDeny req (hostAddresses c) = None \<and>
     (case match_rule (ruleTable c) (resource req) of
        None \<Rightarrow> True | Some r \<Rightarrow> rule_effect r = AllowRule) \<and>
     evaluateWeakSelfProtection req (hostAddresses c) = None \<and>
     inScope (scopeResolver c req) \<and> \<not> hit (dangerEvaluator c req) \<and>
     (case m of
        Strict \<Rightarrow> False
      | JudgeAuto \<Rightarrow>
          (\<exists>r. match_rule (ruleTable c) (resource req) = Some r) \<or>
          (\<exists>j t v. judge c = Some j \<and> j req = Resolves t v \<and> t < judgeTimeoutMs c \<and>
             decision v = JudgeAllow)
      | Auto \<Rightarrow> True
      | Yolo \<Rightarrow> True)"
proof (cases "clean_request c req")
  case True
  then show ?thesis
    using dispatch_allow [of c has m "match_rule (ruleTable c) (resource req)" req]
    unfolding evaluate_clean [OF True]
    by (cases m) (auto simp: clean_request_def rule_lets_through_def split: option.splits)
next
  case False
  then show ?thesis using evaluate_stopped [OF False, of has m]
    by (auto simp: clean_request_def rule_lets_through_def)
qed

text \<open>
  The hard deny is the only source of a denial, and it comes first: the chain denies with a
  reason exactly when the built-in hard deny does, in every mode, under every rule table, scope,
  danger set and grant.
\<close>

lemma chain_denies_iff:
  "(\<exists>e. evaluate c has req m = Inr e \<and> ev_decision e = Deny why) \<longleftrightarrow>
     (\<exists>d. evaluateHardDeny req (hostAddresses c) = Some d \<and> deny_reason d = why)"
proof (cases "evaluateHardDeny req (hostAddresses c)")
  case None
  have "ev_decision e \<noteq> Deny why" if "evaluate c has req m = Inr e" for e
    using that None dispatch_not_final
    by (auto simp: evaluate_def Let_def split: option.splits if_splits)
  with None show ?thesis by auto
qed (auto simp: evaluate_def)

text \<open>
  C33. No exemption reaches a denial or a forced ask. If the chain denies a request or forces an ask
  on it, then it gives the identical evaluation (reason, layer and rule) in every mode, with every
  grant store and with any judge: switching to \<open>yolo\<close> or storing an \<open>always\<close> grant changes nothing.
\<close>

theorem forced_evaluation_immune:
  assumes "evaluate c has req m = Inr e"
    and "(\<exists>why. ev_decision e = Deny why) \<or> forced_ask (ev_decision e)"
  shows "evaluate (c\<lparr>judge := j, judgeTimeoutMs := t, askChannel := a\<rparr>) has' req m' = Inr e"
proof -
  have "\<not> clean_request c req"
    using assms dispatch_not_final evaluate_clean [of c req has m] by metis
  from evaluate_stopped [OF this, of has m] assms(1) have e: "evaluate c has' req m' = Inr e"
    by (auto dest: spec)
  have "evaluate (c\<lparr>judge := j, judgeTimeoutMs := t, askChannel := a\<rparr>) has' req m' = evaluate c has' req m'"
    using \<open>\<not> clean_request c req\<close>
    by (auto simp: clean_request_def rule_lets_through_def evaluate_def Let_def split: option.splits)
  with e show ?thesis by simp
qed

text \<open>A chain for the witnesses: everything in scope, the CTF danger set, no rules, no judge.\<close>

definition sample_chain :: guard_chain where
  "sample_chain =
     \<lparr>scopeResolver = (\<lambda>_. \<lparr>inScope = True, scope_reason = None\<rparr>),
      dangerEvaluator = createTgSecDangerEvaluator Ctf, judge = None, askChannel = None,
      ruleTable = [], hasSession = False, hostAddresses = [], judgeTimeoutMs = 15000\<rparr>"

theorem forced_evaluation_immune_witness:
  "\<exists>e why. evaluate sample_chain (\<lambda>_. False) rm_root_request Strict = Inr e \<and> ev_decision e = Deny why \<and>
     evaluate (sample_chain\<lparr>judge := None, judgeTimeoutMs := 1, askChannel := None\<rparr>) (\<lambda>_. True)
       rm_root_request Yolo = Inr e"
proof -
  obtain d where "evaluateHardDeny rm_root_request (hostAddresses sample_chain) = Some d"
    using rm_root_denied by blast
  then obtain e where "evaluate sample_chain (\<lambda>_. False) rm_root_request Strict = Inr e"
    "ev_decision e = Deny (deny_reason d)"
    by (simp add: evaluate_def)
  with forced_evaluation_immune [OF this(1)] show ?thesis by blast
qed

subsection \<open>Passing a tool call\<close>

lemma decisionFor_result:
  "snd (decisionFor digest has c req st) =
     map_sum id ev_decision (evaluate c (has (granted st)) req (currentMode st))"
  by (auto simp: decisionFor_def Let_def split: sum.split)

lemma decisionFor_state:
  "granted (fst (decisionFor digest has c req st)) = granted st"
  "port (fst (decisionFor digest has c req st)) = port st"
  "currentMode (fst (decisionFor digest has c req st)) = currentMode st"
  by (auto simp: decisionFor_def Let_def split: sum.split)

text \<open>The decision of a call whose mode document reads as \<open>m\<close>.\<close>

definition call_decision ::
  "('s \<Rightarrow> string \<Rightarrow> bool) \<Rightarrow> guard_chain \<Rightarrow> tool_call \<Rightarrow> permission_mode \<Rightarrow> 's \<Rightarrow>
   guard_error + sec_decision" where
  "call_decision has c call m s = map_sum id ev_decision (evaluate c (has s) (toTgSecRequest call) m)"

lemma beforeTool_result:
  assumes "readTgSecMode doc = Inr m"
  shows "snd (beforeTool digest has add c call doc st) =
    (case call_decision has c call m (granted st) of
       Inl e \<Rightarrow> Throws e
     | Inr Allow \<Rightarrow> Pass
     | Inr (Deny why) \<Rightarrow> Block why
     | Inr (Ask why forced) \<Rightarrow>
         (case askChannel c of
            None \<Rightarrow> Block (''the guard fails closed without an ask channel: '' @ why)
          | Some channel \<Rightarrow>
              (case channel (toTgSecRequest call) (Ask why forced) of
                 Inl message \<Rightarrow> Throws (AskChannelFailed message)
               | Inr ReplyDeny \<Rightarrow> Block why
               | Inr _ \<Rightarrow> Pass)))"
  and "granted (fst (beforeTool digest has add c call doc st)) =
    (case call_decision has c call m (granted st) of
       Inr (Ask why False) \<Rightarrow>
         (case askChannel c of
            Some channel \<Rightarrow>
              if channel (toTgSecRequest call) (Ask why False) = Inr ReplyAlways
              then add (resource (toTgSecRequest call)) (granted st) else granted st
          | None \<Rightarrow> granted st)
     | _ \<Rightarrow> granted st)"
proof -
  let ?st = "st\<lparr>currentMode := m\<rparr>" and ?req = "toTgSecRequest call"
  obtain st' r where d: "decisionFor digest has c ?req ?st = (st', r)" by fastforce
  have r: "r = call_decision has c call m (granted st)" "granted st' = granted st"
    using decisionFor_result [of digest has c ?req ?st] decisionFor_state(1) [of digest has c ?req ?st] d
    by (simp_all add: call_decision_def)
  note eq = beforeTool_def assms Let_def d ask_human_def r(2)
  show "snd (beforeTool digest has add c call doc st) =
    (case call_decision has c call m (granted st) of
       Inl e \<Rightarrow> Throws e
     | Inr Allow \<Rightarrow> Pass
     | Inr (Deny why) \<Rightarrow> Block why
     | Inr (Ask why forced) \<Rightarrow>
         (case askChannel c of
            None \<Rightarrow> Block (''the guard fails closed without an ask channel: '' @ why)
          | Some channel \<Rightarrow>
              (case channel (toTgSecRequest call) (Ask why forced) of
                 Inl message \<Rightarrow> Throws (AskChannelFailed message)
               | Inr ReplyDeny \<Rightarrow> Block why
               | Inr _ \<Rightarrow> Pass)))"
    by (auto simp: eq r(1) split: sum.split sec_decision.split option.split ask_reply.split)
  show "granted (fst (beforeTool digest has add c call doc st)) =
    (case call_decision has c call m (granted st) of
       Inr (Ask why False) \<Rightarrow>
         (case askChannel c of
            Some channel \<Rightarrow>
              if channel (toTgSecRequest call) (Ask why False) = Inr ReplyAlways
              then add (resource (toTgSecRequest call)) (granted st) else granted st
          | None \<Rightarrow> granted st)
     | _ \<Rightarrow> granted st)"
    by (auto simp: eq r(1) split: sum.split sec_decision.split option.split ask_reply.split bool.split)
qed

lemma beforeTool_unreadable:
  "readTgSecMode doc = Inl e \<Longrightarrow> beforeTool digest has add c call doc st = (st, Throws (ModeError e))"
  by (simp add: beforeTool_def)

text \<open>
  C6. A tool call runs only on an automatic allow or a human yes. A call passes the hook exactly when
  the mode document is readable and the chain, at that mode and with the current grants, either
  allows it, or asks and the wired channel answers \<open>allow\<close> or \<open>always\<close>. A corrupt mode, a denial, a
  missing channel, a channel that fails and a \<open>deny\<close> reply never pass.
\<close>

theorem hook_passes_iff:
  "passes (snd (beforeTool digest has add c call doc st)) \<longleftrightarrow>
     (\<exists>m e. readTgSecMode doc = Inr m \<and>
        evaluate c (has (granted st)) (toTgSecRequest call) m = Inr e \<and>
        (ev_decision e = Allow \<or>
         (\<exists>why forced channel reply. ev_decision e = Ask why forced \<and> askChannel c = Some channel \<and>
            channel (toTgSecRequest call) (Ask why forced) = Inr reply \<and> reply \<noteq> ReplyDeny)))"
proof (cases "readTgSecMode doc")
  case (Inl e)
  then show ?thesis by (simp add: beforeTool_unreadable)
next
  case (Inr m)
  show ?thesis
    unfolding beforeTool_result(1) [OF Inr] call_decision_def using Inr
    by (cases "evaluate c (has (granted st)) (toTgSecRequest call) m")
      (auto split: sec_decision.split option.split ask_reply.split sum.split)
qed

subsection \<open>Grants over a session\<close>

text \<open>The laws of a grant store: exact resources, nothing else.\<close>

locale grant_store =
  fixes has :: "'s \<Rightarrow> string \<Rightarrow> bool"
    and add :: "string \<Rightarrow> 's \<Rightarrow> 's"
    and fresh :: 's
  assumes has_add: "has (add r s) q \<longleftrightarrow> q = r \<or> has s q"
    and has_fresh: "\<not> has fresh q"
begin

lemma grant_gained:
  assumes "has (granted (fst (beforeTool digest has add c call doc st))) q" "\<not> has (granted st) q"
  shows "q = ''tool:'' @ call_name call \<and>
    snd (beforeTool digest has add c call doc st) = Pass \<and>
    (\<exists>m why. readTgSecMode doc = Inr m \<and> call_decision has c call m (granted st) = Inr (Ask why False))"
proof (cases "readTgSecMode doc")
  case (Inl e)
  then show ?thesis using assms by (simp add: beforeTool_unreadable)
next
  case (Inr m)
  then obtain why channel where d: "call_decision has c call m (granted st) = Inr (Ask why False)"
    "askChannel c = Some channel"
    "channel (toTgSecRequest call) (Ask why False) = Inr ReplyAlways"
    "q = resource (toTgSecRequest call)"
    using assms unfolding beforeTool_result(2) [OF Inr]
    by (auto simp: has_add split: sum.splits sec_decision.splits option.splits bool.splits if_splits)
  then have "snd (beforeTool digest has add c call doc st) = Pass"
    unfolding beforeTool_result(1) [OF Inr] by simp
  with d Inr show ?thesis by (auto simp: toTgSecRequest_def)
qed

lemma grant_kept:
  "has (granted st) q \<Longrightarrow> has (granted (fst (beforeTool digest has add c call doc st))) q"
  by (cases "readTgSecMode doc")
    (auto simp: beforeTool_unreadable beforeTool_result(2) has_add
      split: sum.splits sec_decision.splits option.splits bool.splits)

end

interpretation memory: grant_store grants_has grants_add createInMemoryGrantStore
  by unfold_locales
    (auto simp: grants_has_def grants_add_def createInMemoryGrantStore_def)

text \<open>
  A session of a guard with the in-memory store: calls and mode switches in any order. The mode
  document a call reads is whatever the session holds then, since others may write it too.
\<close>

datatype guard_event =
    ECall tool_call "arg option" hook_result
  | ESwitch arg string "guard_error option"

inductive guard_session ::
  "(request \<Rightarrow> string) \<Rightarrow> guard_chain \<Rightarrow> string list guard_state \<Rightarrow> guard_event list \<Rightarrow>
   string list guard_state \<Rightarrow> bool"
  for digest :: "request \<Rightarrow> string" and c :: guard_chain and st0 :: "string list guard_state" where
  session_start: "guard_session digest c st0 [] st0"
| session_call: "guard_session digest c st0 evs st \<Longrightarrow>
    beforeTool digest grants_has grants_add c call doc st = (st', r) \<Longrightarrow>
    guard_session digest c st0 (evs @ [ECall call doc r]) st'"
| session_switch: "guard_session digest c st0 evs st \<Longrightarrow> switchMode c v actor st = (st', r) \<Longrightarrow>
    guard_session digest c st0 (evs @ [ESwitch v actor r]) st'"

inductive_cases session_snocE: "guard_session digest c st0 (evs @ [ev]) st"

lemma switchMode_keeps:
  "granted (fst (switchMode c v actor st)) = granted st"
  "guard_spans (fst (switchMode c v actor st)) = guard_spans st"
  by (auto simp: switchMode_def split: option.split prod.split)


lemma empty_surface:
  assumes "arguments req = AObj []"
  shows "extractConnectionTargets req = []"
    "scanTextSurface req = \<lparr>strings = [], streams = [], commands = []\<rparr>"
  using assms
  by (simp_all add: extractConnectionTargets_def extractCommandSurface_def scanTextSurface_def
      toCommands_def Let_def connectionTargetsFromSurface_def)

lemma no_text_no_danger:
  assumes "arguments req = AObj []"
  shows "\<not> hit (createTgSecDangerEvaluator obj req)"
proof -
  have "\<not> danger_match rule (scanTextSurface req) (toolName req)" if "rule \<in> set DANGER_RULES" for rule
    using that unfolding empty_surface [OF assms] DANGER_RULES_def textRules_def
    by (auto simp: anyText_def PERSISTENCE_RULES_def CRITICAL_PATH_REMOVAL_def BUSINESS_RULES_def
        WORDLIST_RULES_def BRUTEFORCE_RULES_def huge_wordlist_def)
  then show ?thesis by (auto simp: evaluator_hit)
qed

definition empty_call :: "string \<Rightarrow> tool_call" where
  "empty_call n = \<lparr>call_name = n, call_arguments = AObj []\<rparr>"

lemma empty_call_request:
  "toTgSecRequest (empty_call n) =
     \<lparr>toolName = n, resource = ''tool:'' @ n, arguments = AObj []\<rparr>"
  by (simp add: toTgSecRequest_def empty_call_def)

lemma empty_call_clean:
  assumes "ruleTable c = []" "dangerEvaluator c = createTgSecDangerEvaluator obj"
    and "inScope (scopeResolver c (toTgSecRequest (empty_call n)))"
  shows "clean_request c (toTgSecRequest (empty_call n))"
proof -
  let ?req = "toTgSecRequest (empty_call n)"
  have a: "arguments ?req = AObj []" by (simp add: empty_call_request)
  have "evaluateHardDeny ?req (hostAddresses c) = None"
    by (simp add: evaluateHardDeny_def strongSelfProtection_def empty_surface [OF a] Let_def)
  moreover have "evaluateWeakSelfProtection ?req (hostAddresses c) = None"
    by (simp add: evaluateWeakSelfProtection_def empty_surface [OF a])
  moreover have "match_rule (ruleTable c) (resource ?req) = None"
    by (simp add: match_rule_def assms(1))
  ultimately show ?thesis
    using no_text_no_danger [OF a] assms by (simp add: clean_request_def rule_lets_through_def)
qed

definition asking_chain :: "ask_reply \<Rightarrow> guard_chain" where
  "asking_chain reply = sample_chain\<lparr>askChannel := Some (\<lambda>_ _. Inr reply)\<rparr>"

definition fresh_state :: "permission_mode \<Rightarrow> string list guard_state" where
  "fresh_state m =
     \<lparr>currentMode = m, granted = createInMemoryGrantStore,
      port = \<lparr>mode_doc = Some (AStr (mode_text m)), commit_ok = True\<rparr>,
      guard_spans = [], mode_spans = []\<rparr>"

text \<open>Under \<open>strict\<close> a call without arguments is asked about, not forced.\<close>

lemma strict_call_decision:
  "call_decision grants_has (asking_chain reply) (empty_call n) Strict g =
     Inr (Ask ''strict mode puts every tool call in front of a human'' False)"
proof -
  have "clean_request (asking_chain reply) (toTgSecRequest (empty_call n))"
    by (rule empty_call_clean [where obj = Ctf]) (simp_all add: asking_chain_def sample_chain_def)
  then show ?thesis
    by (simp add: call_decision_def evaluate_clean dispatch_mode_def mode_evaluation_def)
qed

lemma strict_always:
  "\<exists>st. beforeTool (\<lambda>_. []) grants_has grants_add (asking_chain ReplyAlways) (empty_call ''list'')
      (Some (AStr ''strict'')) (fresh_state Strict) = (st, Pass) \<and>
    grants_has (granted st) ''tool:list''"
proof -
  let ?b = "beforeTool (\<lambda>_. []) grants_has grants_add (asking_chain ReplyAlways) (empty_call ''list'')
      (Some (AStr ''strict'')) (fresh_state Strict)"
  have r: "readTgSecMode (Some (AStr ''strict'')) = Inr Strict"
    using readTgSecMode_text [of Strict] by simp
  have a: "askChannel (asking_chain ReplyAlways) = Some (\<lambda>_ _. Inr ReplyAlways)"
    by (simp add: asking_chain_def)
  have "snd ?b = Pass" "granted (fst ?b) = grants_add ''tool:list'' (granted (fresh_state Strict))"
    by (simp_all add: beforeTool_result [OF r] strict_call_decision a empty_call_request)
  then show ?thesis
    by (metis memory.has_add prod.collapse)
qed


subsection \<open>The audit trail\<close>

lemma decisionFor_span:
  "\<exists>sp. guard_spans (fst (decisionFor digest has c req st)) = guard_spans st @ [sp] \<and>
     sp_mode sp = currentMode st \<and> sp_digest sp = digest req \<and>
     sp_layer sp = (case evaluate c (has (granted st)) req (currentMode st) of
        Inl e \<Rightarrow> None | Inr ev \<Rightarrow> Some (ev_layer ev))"
  by (auto simp: decisionFor_def Let_def split: sum.split)

lemma ask_human_spans: "guard_spans (fst (ask_human add c req why forced st)) = guard_spans st"
  by (auto simp: ask_human_def split: option.split sum.split ask_reply.split)

text \<open>The mode and digest the span of an event must carry.\<close>

fun event_span :: "(request \<Rightarrow> string) \<Rightarrow> guard_event \<Rightarrow> (permission_mode \<times> string) list" where
  "event_span digest (ECall call doc r) =
     (case readTgSecMode doc of Inl e \<Rightarrow> [] | Inr m \<Rightarrow> [(m, digest (toTgSecRequest call))])"
| "event_span digest (ESwitch v actor r) = []"

lemma beforeTool_spans:
  "map (\<lambda>sp. (sp_mode sp, sp_digest sp)) (guard_spans (fst (beforeTool digest has add c call doc st))) =
     map (\<lambda>sp. (sp_mode sp, sp_digest sp)) (guard_spans st) @ event_span digest (ECall call doc r)"
proof (cases "readTgSecMode doc")
  case (Inl e)
  then show ?thesis by (simp add: beforeTool_unreadable)
next
  case (Inr m)
  let ?d = "decisionFor digest has c (toTgSecRequest call) (st\<lparr>currentMode := m\<rparr>)"
  have "guard_spans (fst (beforeTool digest has add c call doc st)) = guard_spans (fst ?d)"
    by (cases ?d) (auto simp: beforeTool_def Inr Let_def ask_human_spans split: sum.split sec_decision.split)
  moreover obtain sp where "guard_spans (fst ?d) = guard_spans st @ [sp]" "sp_mode sp = m"
    "sp_digest sp = digest (toTgSecRequest call)"
    using decisionFor_span [of digest has c "toTgSecRequest call" "st\<lparr>currentMode := m\<rparr>"] by auto
  ultimately show ?thesis by (simp add: Inr)
qed

text \<open>
  C35. The audit trail is complete and in order. Over any session the guard's spans are, one for one
  and in order, the calls that reached the chain: each carries the mode read at that call and the
  digest of its arguments. Mode switches add no guard span and no call is recorded twice.
\<close>

theorem audit_trail_complete:
  assumes "guard_session digest c st0 evs st"
  shows "map (\<lambda>sp. (sp_mode sp, sp_digest sp)) (guard_spans st) =
    map (\<lambda>sp. (sp_mode sp, sp_digest sp)) (guard_spans st0) @ concat (map (event_span digest) evs)"
  using assms
proof (induction rule: guard_session.induct)
  case (session_call evs st call doc st' r)
  then show ?case
    using beforeTool_spans [of digest grants_has grants_add c call doc st r] by (simp del: event_span.simps)
next
  case (session_switch evs st v actor st' r)
  then show ?case using switchMode_keeps(2) [of c v actor st] by simp
qed simp

theorem audit_trail_complete_witness:
  "\<exists>st. guard_session (\<lambda>_. ''d'') (asking_chain ReplyAllow) (fresh_state Strict)
      [ECall (empty_call ''list'') (Some (AStr ''yolo'')) Pass] st \<and>
    map (\<lambda>sp. (sp_mode sp, sp_digest sp)) (guard_spans st) = [(Yolo, ''d'')]"
proof -
  let ?b = "beforeTool (\<lambda>_. ''d'') grants_has grants_add (asking_chain ReplyAllow) (empty_call ''list'')
      (Some (AStr ''yolo'')) (fresh_state Strict)"
  have r: "readTgSecMode (Some (AStr ''yolo'')) = Inr Yolo" using readTgSecMode_text [of Yolo] by simp
  have "clean_request (asking_chain ReplyAllow) (toTgSecRequest (empty_call ''list''))"
    by (rule empty_call_clean [where obj = Ctf]) (simp_all add: asking_chain_def sample_chain_def)
  then have "call_decision grants_has (asking_chain ReplyAllow) (empty_call ''list'') Yolo
      (granted (fresh_state Strict)) = Inr Allow"
    by (simp add: call_decision_def evaluate_clean dispatch_mode_def mode_evaluation_def
        fresh_state_def grants_has_def createInMemoryGrantStore_def asking_chain_def sample_chain_def
        match_rule_def)
  then have "snd ?b = Pass" by (simp add: beforeTool_result [OF r])
  then obtain st where b: "?b = (st, Pass)" by (metis prod.collapse)
  have s: "guard_session (\<lambda>_. ''d'') (asking_chain ReplyAllow) (fresh_state Strict)
      [ECall (empty_call ''list'') (Some (AStr ''yolo'')) Pass] st"
    using session_call [OF session_start b] by simp
  from audit_trail_complete [OF s] s r show ?thesis by (auto simp: fresh_state_def)
qed

subsection \<open>Digests do not depend on key order\<close>

lemma canonicalJson_sorted:
  assumes "mset entries = mset entries'" "distinct (map fst entries)"
  shows "canonicalJson stringify (AObj entries) = canonicalJson stringify (AObj entries')"
proof -
  let ?m = "\<lambda>es. map (\<lambda>(key, item). (key, canonicalJson stringify item))
    (filter (\<lambda>(key, item). item \<noteq> AUndefined) es)"
  have "mset (?m entries) = mset (?m entries')" using assms(1) by (simp add: mset_map mset_filter)
  moreover have "map fst (?m entries) = map fst (filter (\<lambda>(key, item). item \<noteq> AUndefined) entries)"
    by (simp add: case_prod_beta comp_def)
  then have "distinct (map fst (?m entries))"
    using assms(2) by (simp only: distinct_map_filter)
  then have "inj_on fst (set (?m entries))" by (simp only: distinct_map)
  ultimately have "sort_key fst (?m entries) = sort_key fst (?m entries')"
    by (intro sort_key_inj_key_eq) (simp_all only: mset_sort sorted_sort_key)
  then show ?thesis by (simp del: filter.simps)
qed

text \<open>Two argument trees that differ only in the order of object keys, at any depth.\<close>

inductive same_json :: "arg \<Rightarrow> arg \<Rightarrow> bool" where
  same_refl: "same_json v v"
| same_trans: "same_json u v \<Longrightarrow> same_json v w \<Longrightarrow> same_json u w"
| same_arr: "list_all2 same_json xs ys \<Longrightarrow> same_json (AArr xs) (AArr ys)"
| same_obj: "map fst es = map fst fs \<Longrightarrow> list_all2 same_json (map snd es) (map snd fs) \<Longrightarrow>
    same_json (AObj es) (AObj fs)"
| same_perm: "mset es = mset fs \<Longrightarrow> distinct (map fst es) \<Longrightarrow> same_json (AObj es) (AObj fs)"
monos list.rel_mono_strong

lemma canonicalJson_entries:
  assumes "map fst es = map fst fs"
    and "list_all2 (\<lambda>v w. canonicalJson stringify v = canonicalJson stringify w \<and>
      (v = AUndefined \<longleftrightarrow> w = AUndefined)) (map snd es) (map snd fs)"
  shows "canonicalJson stringify (AObj es) = canonicalJson stringify (AObj fs)"
proof -
  have "map (\<lambda>(key, item). (key, canonicalJson stringify item))
      (filter (\<lambda>(key, item). item \<noteq> AUndefined) es) =
    map (\<lambda>(key, item). (key, canonicalJson stringify item))
      (filter (\<lambda>(key, item). item \<noteq> AUndefined) fs)"
    using assms
  proof (induction es arbitrary: fs)
    case (Cons e es)
    then obtain f fs' where "fs = f # fs'" by (cases fs) auto
    with Cons show ?case by (cases e; cases f) auto
  qed simp
  then show ?thesis by simp
qed

text \<open>
  The digest of a call depends on its arguments as JSON, not on how the object was built: two
  argument trees that differ only in the order of object keys, at any depth, have the same canonical
  JSON and so the same digest, whatever the hash.
\<close>

lemma digest_ignores_key_order:
  assumes "same_json (arguments r1) (arguments r2)"
  shows "digestArguments stringify sha256_hex r1 = digestArguments stringify sha256_hex r2"
proof -
  have "canonicalJson stringify v = canonicalJson stringify w \<and> (v = AUndefined \<longleftrightarrow> w = AUndefined)"
    if "same_json v w" for v w
    using that
  proof (induction rule: same_json.induct)
    case (same_arr xs ys)
    then have "map (canonicalJson stringify) xs = map (canonicalJson stringify) ys"
      by (induction rule: list_all2_induct) auto
    then show ?case by simp
  next
    case (same_obj es fs)
    have "list_all2 (\<lambda>v w. canonicalJson stringify v = canonicalJson stringify w \<and>
      (v = AUndefined \<longleftrightarrow> w = AUndefined)) (map snd es) (map snd fs)"
      using same_obj(2) by (rule list_all2_mono) auto
    from canonicalJson_entries [OF same_obj(1) this] show ?case by simp
  next
    case (same_perm es fs)
    then show ?case using canonicalJson_sorted by blast
  qed auto
  with assms show ?thesis by (simp add: digestArguments_def)
qed

end
