(* ===== verification/Attest.thy ===== *)
theory Attest
  imports Guard
begin

text \<open>
  The attestation of a guard (\<open>packages/sec-guard/src/attest.ts\<close>, and \<open>attest\<close> of
  \<open>packages/sec-guard/src/guard.ts\<close>): the eleven probes, each a run that fails with an error or ends,
  the guards they build for themselves, and the runner that stops at the first failure. What the
  host hands over is a record; its forbidden read is the value the read settles with. The telemetry
  of a probe is the span list of the guard it built. A guard a probe builds receives no host
  addresses, so the addresses are those of the machine, \<open>hosts\<close>.
\<close>

subsection \<open>Probes and the runner\<close>

text \<open>What a probe throws: its own error, or what the construction of its guard threw.\<close>

datatype probe_failure =
    ProbeFailed string
  | GuardThrew guard_error
  | RulesThrew rule_error

record probe =
  probe_name :: string
  probe_run :: "probe_failure option"

text \<open>The runner names the probe in the error it throws.\<close>

fun runTgSecAttestation :: "probe list \<Rightarrow> (string \<times> probe_failure) option" where
  "runTgSecAttestation [] = None"
| "runTgSecAttestation (p # probes) =
     (case probe_run p of
        Some failure \<Rightarrow> Some (probe_name p, failure)
      | None \<Rightarrow> runTgSecAttestation probes)"

subsection \<open>What the host hands over\<close>

text \<open>A read succeeds, or it is rejected with an error that carries a string code or none.\<close>

datatype read_outcome = ReadSucceeds | ReadFails "string option" string

record probe_guard_pieces =
  pieces_mode :: arg
  pieces_scope :: "request \<Rightarrow> scope_result"
  pieces_danger :: "request \<Rightarrow> danger_hit"

record attest_context =
  modeReader :: "arg option"
  forbiddenRead :: read_outcome
  registeredTools :: "string list"
  declaredTools :: "string list"
  forcedAskSample :: tool_call
  dangerSample :: tool_call
  rulesSample :: tool_call
  hookApi :: "arg option"
  probeGuard :: probe_guard_pieces

subsection \<open>The guards of the probes\<close>

type_synonym built_guard = "guard_chain \<times> string list guard_state"

definition build_guard :: "guard_options \<Rightarrow> string list \<Rightarrow> probe_failure + built_guard" where
  "build_guard options grants =
     (case createTgSecGuard options of
        Inl e \<Rightarrow> Inl (GuardThrew e)
      | Inr (c, m) \<Rightarrow> Inr (c, (fresh_state m)\<lparr>granted := grants\<rparr>))"

text \<open>The options every probe guard is built from: no judge, channel, rules, session or addresses.\<close>

definition probe_options :: "string list \<Rightarrow> probe_guard_pieces \<Rightarrow> arg \<Rightarrow> guard_options" where
  "probe_options hosts pieces m =
     \<lparr>o_mode = m, o_scopeResolver = Some (pieces_scope pieces),
      o_dangerEvaluator = Some (pieces_danger pieces), o_judge = None, o_askChannel = None,
      o_rules = None, o_hasSession = False, o_hostAddresses = hosts, o_judgeTimeoutMs = None\<rparr>"

definition chainProbeGuard :: "string list \<Rightarrow> probe_guard_pieces \<Rightarrow> probe_failure + built_guard" where
  "chainProbeGuard hosts pieces =
     build_guard (probe_options hosts pieces (pieces_mode pieces)) createInMemoryGrantStore"

text \<open>One decision of a probe guard, with the state that holds its spans.\<close>

definition probe_decision ::
  "(request \<Rightarrow> string) \<Rightarrow> tool_call \<Rightarrow> built_guard \<Rightarrow>
   string list guard_state \<times> (guard_error + sec_decision)" where
  "probe_decision digest sample guard =
     (case guard of (c, st) \<Rightarrow> decisionFor digest grants_has c (toTgSecRequest sample) st)"

subsection \<open>Probes 1, 4 and 5: the environment\<close>

definition probeRestrictedEnv :: "read_outcome \<Rightarrow> probe" where
  "probeRestrictedEnv read =
     \<lparr>probe_name = ''restricted-env'',
      probe_run =
        (case read of
           ReadSucceeds \<Rightarrow>
             Some (ProbeFailed ''the forbidden read succeeded; the confined ExecutionEnv is not in effect'')
         | ReadFails code message \<Rightarrow>
             if code = Some ''EACCES'' \<or> code = Some ''EPERM'' then None
             else Some (ProbeFailed (''expected an EACCES/EPERM refusal, got '' @
               (case code of None \<Rightarrow> message | Some c \<Rightarrow> c))))\<rparr>"

text \<open>The elements of \<open>new Set(xs)\<close> in its insertion order.\<close>

definition set_order :: "string list \<Rightarrow> string list" where
  "set_order xs = rev (remdups (rev xs))"

definition probeToolSetAlignment :: "string list \<Rightarrow> string list \<Rightarrow> probe" where
  "probeToolSetAlignment registered declared =
     \<lparr>probe_name = ''tool-set-alignment'',
      probe_run =
        (let missing = filter (\<lambda>name. name \<notin> set registered) (set_order declared);
             extra = filter (\<lambda>name. name \<notin> set declared) (set_order registered)
         in if missing \<noteq> [] \<or> extra \<noteq> [] then
              Some (ProbeFailed (''registered tools do not match the declared set ('' @
                join_str ''; ''
                  ((if missing \<noteq> [] then [''missing: '' @ join_str '', '' missing] else []) @
                   (if extra \<noteq> [] then [''extra: '' @ join_str '', '' extra] else [])) @ '')''))
            else None)\<rparr>"

definition probeModeDocument :: "(arg \<Rightarrow> string) \<Rightarrow> mode_error + arg \<Rightarrow> probe" where
  "probeModeDocument json_stringify read =
     \<lparr>probe_name = ''mode-document'',
      probe_run =
        (case read of
           Inl e \<Rightarrow> Some (GuardThrew (ModeError e))
         | Inr v \<Rightarrow>
             if v \<noteq> AStr ''strict'' \<and> v \<noteq> AStr ''judge-auto'' \<and> v \<noteq> AStr ''auto'' \<and>
                v \<noteq> AStr ''yolo'' then
               Some (ProbeFailed (''tg.sec.mode reads '' @ json_stringify v @
                 '', which is not one of the four modes''))
             else None)\<rparr>"

subsection \<open>Probes 2, 6 and 7: the chain of the session\<close>

text \<open>The value an answer of the guard leads to, or the error it threw.\<close>

definition probeScopeOutsideNotAllows ::
  "(request \<Rightarrow> string) \<Rightarrow> tool_call \<Rightarrow> probe_failure + built_guard \<Rightarrow> probe" where
  "probeScopeOutsideNotAllows digest sample createGuard =
     \<lparr>probe_name = ''scope-outside-not-allow'',
      probe_run =
        (case createGuard of
           Inl failure \<Rightarrow> Some failure
         | Inr guard \<Rightarrow>
             (case probe_decision digest sample guard of
                (st, Inl e) \<Rightarrow> Some (GuardThrew e)
              | (st, Inr d) \<Rightarrow>
                  if d = Allow then
                    Some (ProbeFailed ''a scope-outside sample must never resolve to allow'')
                  else if \<not> forced_ask d then
                    Some (ProbeFailed
                      (''a scope-outside sample must produce a forced ask, got '' @ effect_text d))
                  else None))\<rparr>"

definition span_count_failure :: "string list guard_state \<Rightarrow> probe_failure option" where
  "span_count_failure st =
     (if length (guard_spans st) \<noteq> 1 then
        Some (ProbeFailed (''every decision must record exactly one tg.span.sec.guard span, saw '' @
          dec_string (length (guard_spans st))))
      else None)"

text \<open>A decision is always typed here, so the check for an \<open>undefined\<close> answer cannot fail.\<close>

definition probeUnaffiliatedCallEntersChain ::
  "(request \<Rightarrow> string) \<Rightarrow> tool_call \<Rightarrow> probe_failure + built_guard \<Rightarrow> probe" where
  "probeUnaffiliatedCallEntersChain digest sample createGuard =
     \<lparr>probe_name = ''unaffiliated-call-enters-chain'',
      probe_run =
        (case createGuard of
           Inl failure \<Rightarrow> Some failure
         | Inr guard \<Rightarrow>
             (case probe_decision digest sample guard of
                (st, Inl e) \<Rightarrow> Some (GuardThrew e)
              | (st, Inr d) \<Rightarrow> span_count_failure st))\<rparr>"

definition probeForcedAskBlocks ::
  "(request \<Rightarrow> string) \<Rightarrow> tool_call \<Rightarrow> arg option \<Rightarrow> probe_failure + built_guard \<Rightarrow> probe" where
  "probeForcedAskBlocks digest sample api createGuard =
     \<lparr>probe_name = ''forced-ask-fails-closed'',
      probe_run =
        (case createGuard of
           Inl failure \<Rightarrow> Some failure
         | Inr guard \<Rightarrow>
             (case probe_decision digest sample guard of
                (st, Inl e) \<Rightarrow> Some (GuardThrew e)
              | (st, Inr d) \<Rightarrow>
                  if \<not> forced_ask d then
                    Some (ProbeFailed
                      (''the probe guard's own chain must force an ask on the sample, got '' @
                       effect_text d))
                  else
                    (case snd (beforeTool digest grants_has grants_add (fst guard) sample api st) of
                       Throws e \<Rightarrow> Some (GuardThrew e)
                     | Pass \<Rightarrow>
                         Some (ProbeFailed
                           ''a forced ask without an ask channel must block the call, not pass it'')
                     | Block why \<Rightarrow> None)))\<rparr>"

subsection \<open>Probes 3 and 8 to 11: which layer answers\<close>

fun layer_text :: "matched_layer \<Rightarrow> string" where
  "layer_text LHardDeny = ''hard-deny''"
| "layer_text LRules = ''rules''"
| "layer_text LSelfProtection = ''self-protection''"
| "layer_text LScope = ''scope''"
| "layer_text LDanger = ''danger''"
| "layer_text LGrants = ''grants''"
| "layer_text LMode = ''mode''"

text \<open>\<open>JSON.stringify\<close> of the span's \<open>layer\<close> attribute.\<close>

definition layer_json :: "matched_layer option \<Rightarrow> string" where
  "layer_json l =
     (case l of None \<Rightarrow> ''undefined'' | Some l \<Rightarrow> [dquote] @ layer_text l @ [dquote])"

text \<open>
  The body these probes share: a guard on a telemetry of its own, one decision that must be
  \<open>accepted\<close>, exactly one guard span, and its layer.
\<close>

definition layer_probe ::
  "(request \<Rightarrow> string) \<Rightarrow> tool_call \<Rightarrow> (sec_decision \<Rightarrow> bool) \<Rightarrow> string \<Rightarrow> matched_layer \<Rightarrow> string \<Rightarrow>
   probe_failure + built_guard \<Rightarrow> probe_failure option" where
  "layer_probe digest sample accepted refusal layer complaint createGuard =
     (case createGuard of
        Inl failure \<Rightarrow> Some failure
      | Inr guard \<Rightarrow>
          (case probe_decision digest sample guard of
             (st, Inl e) \<Rightarrow> Some (GuardThrew e)
           | (st, Inr d) \<Rightarrow>
               if \<not> accepted d then Some (ProbeFailed (refusal @ '', got '' @ effect_text d))
               else
                 (case span_count_failure st of
                    Some failure \<Rightarrow> Some failure
                  | None \<Rightarrow>
                      if sp_layer (hd (guard_spans st)) \<noteq> Some layer then
                        Some (ProbeFailed (complaint @ '', saw layer '' @
                          layer_json (sp_layer (hd (guard_spans st)))))
                      else None)))"

definition is_ask :: "sec_decision \<Rightarrow> bool" where
  "is_ask d \<longleftrightarrow> effect_text d = ''ask''"

definition probeDangerSetForcesAskPastGrants ::
  "(request \<Rightarrow> string) \<Rightarrow> tool_call \<Rightarrow> probe_failure + built_guard \<Rightarrow> probe" where
  "probeDangerSetForcesAskPastGrants digest sample createGuard =
     \<lparr>probe_name = ''danger-set-forced-ask-past-grants'',
      probe_run = layer_probe digest sample forced_ask
        ''a danger-set sample must force an ask even under yolo with a standing always grant''
        LDanger ''the forced ask must come from the danger layer'' createGuard\<rparr>"

definition probeRuleDenyForcesAskPastExemptions ::
  "(request \<Rightarrow> string) \<Rightarrow> tool_call \<Rightarrow> probe_failure + built_guard \<Rightarrow> probe" where
  "probeRuleDenyForcesAskPastExemptions digest sample createGuard =
     \<lparr>probe_name = ''rule-deny-forced-ask-past-exemptions'',
      probe_run = layer_probe digest sample forced_ask
        ''a rule-deny sample must force an ask (appealable, not exemptible) even under yolo with a standing grant''
        LRules ''the forced ask must come from the rules layer'' createGuard\<rparr>"

definition probeStrictIgnoresRuleAllow ::
  "(request \<Rightarrow> string) \<Rightarrow> tool_call \<Rightarrow> probe_failure + built_guard \<Rightarrow> probe" where
  "probeStrictIgnoresRuleAllow digest sample createGuard =
     \<lparr>probe_name = ''strict-ignores-rule-allow'',
      probe_run = layer_probe digest sample is_ask
        ''strict must ask even when a rules-table allow matches the call''
        LMode ''the strict ask must come from mode dispatch, not from a rule'' createGuard\<rparr>"

definition askOnModeLayerProbe ::
  "string \<Rightarrow> (request \<Rightarrow> string) \<Rightarrow> tool_call \<Rightarrow> probe_failure + built_guard \<Rightarrow> probe" where
  "askOnModeLayerProbe name digest sample createGuard =
     \<lparr>probe_name = name,
      probe_run = layer_probe digest sample is_ask
        ''a degraded judge must escalate to a human''
        LMode ''the judge ask must be attributed to the mode layer'' createGuard\<rparr>"

definition probeJudgeTransportErrorAsks ::
  "(request \<Rightarrow> string) \<Rightarrow> tool_call \<Rightarrow> probe_failure + built_guard \<Rightarrow> probe" where
  "probeJudgeTransportErrorAsks = askOnModeLayerProbe ''judge-transport-error-asks''"

definition probeJudgeTimeoutAsks ::
  "(request \<Rightarrow> string) \<Rightarrow> tool_call \<Rightarrow> probe_failure + built_guard \<Rightarrow> probe" where
  "probeJudgeTimeoutAsks = askOnModeLayerProbe ''judge-timeout-asks''"

subsection \<open>The probes of a guard\<close>

definition unaffiliatedSample :: tool_call where
  "unaffiliatedSample =
     \<lparr>call_name = ''read'',
      call_arguments = AObj [(''path'', AStr ''tg-sec-attestation-probe-6'')]\<rparr>"

definition fixtureRule :: "tool_call \<Rightarrow> rule_effect \<Rightarrow> sec_rule" where
  "fixtureRule sample eff =
     \<lparr>rule_id = ''attestation-rule-'' @
        (case eff of AllowRule \<Rightarrow> ''allow'' | DenyRule \<Rightarrow> ''deny'' | AskRule \<Rightarrow> ''ask''),
      priority = 1000, rule_pattern = ''tool:'' @ call_name sample, rule_effect = eff,
      rule_enabled = True, rule_note = Some ''attestation fixture''\<rparr>"

text \<open>
  When the promise of a two-axis judge settles: with its transport, or when its own clock runs out.
\<close>

definition judge_clock :: "nat \<Rightarrow> string settle \<Rightarrow> nat" where
  "judge_clock timeoutMs settled =
     (case settled of Resolves t _ \<Rightarrow> min t timeoutMs | Rejects t _ \<Rightarrow> min t timeoutMs | Never \<Rightarrow> timeoutMs)"

definition fixture_judge ::
  "(string \<Rightarrow> string + arg) \<Rightarrow> (arg \<Rightarrow> string) \<Rightarrow> nat \<Rightarrow> string settle \<Rightarrow>
   judge_error + (request \<Rightarrow> judge_verdict settle)" where
  "fixture_judge json_parse json_stringify timeoutMs settled =
     (case createTgSecTwoAxisJudge json_parse json_stringify
             \<lparr>transport = Some (\<lambda>_. settled), opt_model = None,
              opt_timeoutMs = Some (of_nat timeoutMs), opt_maxInputBytes = None\<rparr> of
        Inl e \<Rightarrow> Inl e
      | Inr j \<Rightarrow> Inr (\<lambda>req. Resolves (judge_clock timeoutMs settled) (j req)))"

definition errorJudge ::
  "(string \<Rightarrow> string + arg) \<Rightarrow> (arg \<Rightarrow> string) \<Rightarrow> judge_error + (request \<Rightarrow> judge_verdict settle)" where
  "errorJudge json_parse json_stringify =
     fixture_judge json_parse json_stringify 1000 (Rejects 0 ''attestation transport failure'')"

definition hangingJudge ::
  "(string \<Rightarrow> string + arg) \<Rightarrow> (arg \<Rightarrow> string) \<Rightarrow> judge_error + (request \<Rightarrow> judge_verdict settle)" where
  "hangingJudge json_parse json_stringify = fixture_judge json_parse json_stringify 5 Never"

text \<open>A yolo guard whose store already holds the sample's resource.\<close>

definition granted_resource :: "tool_call \<Rightarrow> string list" where
  "granted_resource sample = grants_add (''tool:'' @ call_name sample) createInMemoryGrantStore"

definition rule_guard ::
  "guard_options \<Rightarrow> sec_rule \<Rightarrow> string list \<Rightarrow> probe_failure + built_guard" where
  "rule_guard options rule grants =
     (case createTgSecRuleTable [rule] of
        Inl e \<Rightarrow> Inl (RulesThrew e)
      | Inr table \<Rightarrow> build_guard (options\<lparr>o_rules := Some table\<rparr>) grants)"

definition attest_probes ::
  "(request \<Rightarrow> string) \<Rightarrow> (arg \<Rightarrow> string) \<Rightarrow> string list \<Rightarrow> attest_context \<Rightarrow>
   (request \<Rightarrow> judge_verdict settle) \<Rightarrow> (request \<Rightarrow> judge_verdict settle) \<Rightarrow> probe list" where
  "attest_probes digest json_stringify hosts ctx failing hanging =
     (let pieces = probeGuard ctx;
          options = (\<lambda>m. probe_options hosts pieces (AStr m));
          chain = chainProbeGuard hosts pieces;
          rules = rulesSample ctx
      in [probeRestrictedEnv (forbiddenRead ctx),
          probeScopeOutsideNotAllows digest (forcedAskSample ctx) chain,
          probeDangerSetForcesAskPastGrants digest (dangerSample ctx)
            (build_guard (options ''yolo'') (granted_resource (dangerSample ctx))),
          probeToolSetAlignment (registeredTools ctx) (declaredTools ctx),
          probeModeDocument json_stringify
            (map_sum id (\<lambda>m. AStr (mode_text m)) (readTgSecMode (modeReader ctx))),
          probeUnaffiliatedCallEntersChain digest unaffiliatedSample chain,
          probeForcedAskBlocks digest (forcedAskSample ctx) (hookApi ctx) chain,
          probeRuleDenyForcesAskPastExemptions digest rules
            (rule_guard (options ''yolo'') (fixtureRule rules DenyRule) (granted_resource rules)),
          probeStrictIgnoresRuleAllow digest rules
            (rule_guard (options ''strict'') (fixtureRule rules AllowRule) createInMemoryGrantStore),
          probeJudgeTransportErrorAsks digest rules
            (build_guard ((options ''judge-auto'')\<lparr>o_judge := Some failing\<rparr>) createInMemoryGrantStore),
          probeJudgeTimeoutAsks digest rules
            (build_guard ((options ''judge-auto'')\<lparr>o_judge := Some hanging\<rparr>) createInMemoryGrantStore)])"

datatype attest_error = JudgeThrew judge_error | ProbeThrew string probe_failure

definition attest ::
  "(request \<Rightarrow> string) \<Rightarrow> (string \<Rightarrow> string + arg) \<Rightarrow> (arg \<Rightarrow> string) \<Rightarrow> string list \<Rightarrow>
   attest_context \<Rightarrow> attest_error option" where
  "attest digest json_parse json_stringify hosts ctx =
     (case errorJudge json_parse json_stringify of
        Inl e \<Rightarrow> Some (JudgeThrew e)
      | Inr failing \<Rightarrow>
          (case hangingJudge json_parse json_stringify of
             Inl e \<Rightarrow> Some (JudgeThrew e)
           | Inr hanging \<Rightarrow>
               map_option (\<lambda>(name, failure). ProbeThrew name failure)
                 (runTgSecAttestation (attest_probes digest json_stringify hosts ctx failing hanging))))"

subsection \<open>What each probe passes on\<close>

lemma attestation_passes: "runTgSecAttestation probes = None \<longleftrightarrow> list_all (\<lambda>p. probe_run p = None) probes"
  by (induction probes) (auto split: option.split)

lemma attestation_fails:
  "runTgSecAttestation probes = Some (name, failure) \<longleftrightarrow>
     (\<exists>before p after. probes = before @ p # after \<and> probe_name p = name \<and>
        probe_run p = Some failure \<and> list_all (\<lambda>q. probe_run q = None) before)"
  (is "_ \<longleftrightarrow> ?R probes")
proof (induction probes)
  case (Cons q probes)
  show ?case
  proof (cases "probe_run q")
    case None
    have "?R (q # probes) \<longleftrightarrow> ?R probes"
    proof
      assume "?R (q # probes)"
      then obtain before p after where b: "q # probes = before @ p # after" "probe_name p = name"
        "probe_run p = Some failure" "list_all (\<lambda>q. probe_run q = None) before" by blast
      with None obtain bs where "before = q # bs" by (cases before) auto
      with b show "?R probes" by auto
    next
      assume "?R probes"
      then obtain before p after where "probes = before @ p # after" "probe_name p = name"
        "probe_run p = Some failure" "list_all (\<lambda>q. probe_run q = None) before" by blast
      with None show "?R (q # probes)"
        by (intro exI [of _ "q # before"] exI [of _ p] exI [of _ after]) simp
    qed
    with Cons None show ?thesis by simp
  next
    case (Some f)
    have "?R (q # probes) \<longleftrightarrow> probe_name q = name \<and> f = failure"
    proof
      assume "?R (q # probes)"
      then obtain before p after where b: "q # probes = before @ p # after" "probe_name p = name"
        "probe_run p = Some failure" "list_all (\<lambda>q. probe_run q = None) before" by blast
      with Some have "before = []" by (cases before) auto
      with b Some show "probe_name q = name \<and> f = failure" by simp
    next
      assume "probe_name q = name \<and> f = failure"
      with Some show "?R (q # probes)" by (intro exI [of _ "[]"]) auto
    qed
    with Some show ?thesis by simp
  qed
qed simp

lemma probeRestrictedEnv_passes:
  "probe_run (probeRestrictedEnv read) = None \<longleftrightarrow>
     (\<exists>message. read = ReadFails (Some ''EACCES'') message \<or> read = ReadFails (Some ''EPERM'') message)"
  by (cases read) (auto simp: probeRestrictedEnv_def)

lemma set_order_set [simp]: "set (set_order xs) = set xs"
  by (simp add: set_order_def)

lemma probeToolSetAlignment_passes:
  "probe_run (probeToolSetAlignment registered declared) = None \<longleftrightarrow> set registered = set declared"
  by (auto simp: probeToolSetAlignment_def Let_def filter_empty_conv)

lemma probeModeDocument_passes:
  "probe_run (probeModeDocument js (map_sum id (\<lambda>m. AStr (mode_text m)) (readTgSecMode doc))) = None \<longleftrightarrow>
     (\<exists>m. readTgSecMode doc = Inr m)"
proof (cases "readTgSecMode doc")
  case (Inr m)
  then show ?thesis by (cases m) (simp_all add: probeModeDocument_def)
qed (simp add: probeModeDocument_def)

subsection \<open>The chain of a probe guard\<close>

definition probe_chain ::
  "string list \<Rightarrow> probe_guard_pieces \<Rightarrow> rule_table \<Rightarrow> (request \<Rightarrow> judge_verdict settle) option \<Rightarrow> guard_chain" where
  "probe_chain hosts pieces table j =
     \<lparr>scopeResolver = pieces_scope pieces, dangerEvaluator = pieces_danger pieces, judge = j,
      askChannel = None, ruleTable = table, hasSession = False, hostAddresses = hosts,
      judgeTimeoutMs = 15000\<rparr>"

lemma probe_chain_simps [simp]:
  "scopeResolver (probe_chain hosts pieces table j) = pieces_scope pieces"
  "dangerEvaluator (probe_chain hosts pieces table j) = pieces_danger pieces"
  "judge (probe_chain hosts pieces table j) = j"
  "askChannel (probe_chain hosts pieces table j) = None"
  "ruleTable (probe_chain hosts pieces table j) = table"
  "hostAddresses (probe_chain hosts pieces table j) = hosts"
  "judgeTimeoutMs (probe_chain hosts pieces table j) = 15000"
  by (simp_all add: probe_chain_def)

definition started_with :: "permission_mode \<Rightarrow> string list \<Rightarrow> string list guard_state" where
  "started_with m grants = (fresh_state m)\<lparr>granted := grants\<rparr>"

lemma started_with_simps [simp]:
  "currentMode (started_with m grants) = m" "granted (started_with m grants) = grants"
  "guard_spans (started_with m grants) = []"
  by (simp_all add: started_with_def fresh_state_def)

lemma build_chain:
  assumes "m = JudgeAuto \<Longrightarrow> j \<noteq> None"
  shows "build_guard ((probe_options hosts pieces (AStr (mode_text m)))\<lparr>o_judge := j, o_rules := t\<rparr>) grants =
    Inr (probe_chain hosts pieces (case t of None \<Rightarrow> [] | Some t \<Rightarrow> t) j, started_with m grants)"
  using assms
  by (auto simp: build_guard_def createTgSecGuard_def probe_options_def probe_chain_def started_with_def)

lemma build_plain:
  "m \<noteq> JudgeAuto \<Longrightarrow> build_guard (probe_options hosts pieces (AStr (mode_text m))) grants =
     Inr (probe_chain hosts pieces [] None, started_with m grants)"
  by (auto simp: build_guard_def createTgSecGuard_def probe_options_def probe_chain_def started_with_def)

lemma chainProbeGuard_builds:
  "(\<exists>guard. chainProbeGuard hosts pieces = Inr guard) \<longleftrightarrow>
     (\<exists>m. pieces_mode pieces = AStr (mode_text m) \<and> m \<noteq> JudgeAuto)"
proof (cases "isTgSecMode (pieces_mode pieces)")
  case None
  then have "pieces_mode pieces \<noteq> AStr (mode_text m)" for m by auto
  with None show ?thesis
    by (simp add: chainProbeGuard_def build_guard_def createTgSecGuard_def probe_options_def)
next
  case (Some m)
  then have p: "pieces_mode pieces = AStr (mode_text m)" by (simp add: isTgSecMode_Some)
  have "mode_text m = mode_text m' \<longleftrightarrow> m = m'" for m' by (cases m; cases m') simp_all
  with p show ?thesis
    by (auto simp: chainProbeGuard_def build_guard_def createTgSecGuard_def probe_options_def)
qed

lemma chainProbeGuard_chain:
  assumes "pieces_mode pieces = AStr (mode_text m)" "m \<noteq> JudgeAuto"
  shows "chainProbeGuard hosts pieces =
    Inr (probe_chain hosts pieces [] None, started_with m createInMemoryGrantStore)"
  using build_plain [OF assms(2)] assms(1) by (simp add: chainProbeGuard_def)

lemma probe_decision_result:
  "snd (probe_decision digest sample (c, started_with m grants)) =
     map_sum id ev_decision (evaluate c (grants_has grants) (toTgSecRequest sample) m)"
  by (simp add: probe_decision_def decisionFor_result)

lemma layer_probe_passes:
  "layer_probe digest sample accepted refusal layer complaint (Inr (c, started_with m grants)) = None \<longleftrightarrow>
     (\<exists>ev. evaluate c (grants_has grants) (toTgSecRequest sample) m = Inr ev \<and>
        accepted (ev_decision ev) \<and> ev_layer ev = layer)"
  by (auto simp: layer_probe_def probe_decision_def decisionFor_def Let_def span_count_failure_def
      split: sum.split)

text \<open>What stops a request ahead of the danger set, seen from one chain.\<close>

definition quiet_request :: "string list \<Rightarrow> probe_guard_pieces \<Rightarrow> request \<Rightarrow> bool" where
  "quiet_request hosts pieces req \<longleftrightarrow>
     evaluateHardDeny req hosts = None \<and> evaluateWeakSelfProtection req hosts = None \<and>
     inScope (pieces_scope pieces req)"

lemma chain_forces_ask:
  "(\<exists>ev. evaluate (probe_chain hosts pieces [] j) has req m = Inr ev \<and> forced_ask (ev_decision ev)) \<longleftrightarrow>
     evaluateHardDeny req hosts = None \<and> (quiet_request hosts pieces req \<longrightarrow> hit (pieces_danger pieces req))"
proof (cases "clean_request (probe_chain hosts pieces [] j) req")
  case True
  then show ?thesis using dispatch_not_final [of _ has m]
    unfolding evaluate_clean [OF True] by (auto simp: clean_request_def quiet_request_def)
next
  case False
  then show ?thesis
    by (auto simp: clean_request_def rule_lets_through_def quiet_request_def evaluate_def
        match_rule_def Let_def split: option.split)
qed

lemma chain_asks_at_danger:
  "(\<exists>ev. evaluate (probe_chain hosts pieces [] j) has req m = Inr ev \<and> forced_ask (ev_decision ev) \<and>
      ev_layer ev = LDanger) \<longleftrightarrow>
     quiet_request hosts pieces req \<and> hit (pieces_danger pieces req)"
proof (cases "clean_request (probe_chain hosts pieces [] j) req")
  case True
  then show ?thesis using dispatch_not_final [of _ has m]
    unfolding evaluate_clean [OF True] by (auto simp: clean_request_def quiet_request_def)
next
  case False
  then show ?thesis
    by (auto simp: clean_request_def rule_lets_through_def quiet_request_def evaluate_def
        match_rule_def Let_def split: option.split)
qed

lemma chain_asks_at_mode:
  assumes "case match_rule table (resource req) of None \<Rightarrow> True | Some r \<Rightarrow> rule_effect r = AllowRule"
    and "m = Strict \<or> m = JudgeAuto \<and> match_rule table (resource req) = None \<and> j = Some judges \<and>
      judges req = Resolves t v \<and> decision v = JudgeAsk"
  shows "(\<exists>ev. evaluate (probe_chain hosts pieces table j) has req m = Inr ev \<and> is_ask (ev_decision ev) \<and>
      ev_layer ev = LMode) \<longleftrightarrow>
     quiet_request hosts pieces req \<and> \<not> hit (pieces_danger pieces req)"
proof (cases "clean_request (probe_chain hosts pieces table j) req")
  case True
  then show ?thesis using assms(2)
    unfolding evaluate_clean [OF True]
    by (auto simp: clean_request_def quiet_request_def dispatch_mode_def judgeWithTimeout_def
        mode_evaluation_def is_ask_def)
next
  case False
  have q: "\<not> (quiet_request hosts pieces req \<and> \<not> hit (pieces_danger pieces req))"
    using False assms(1) by (auto simp: clean_request_def rule_lets_through_def quiet_request_def)
  from evaluate_stopped [OF False, of has m] obtain e where
    "evaluate (probe_chain hosts pieces table j) has req m = Inr e" "ev_layer e \<noteq> LMode" by auto
  with q show ?thesis by simp
qed

lemma chain_asks_at_rules:
  assumes "match_rule table (resource req) = Some r" "rule_effect r = DenyRule"
  shows "(\<exists>ev. evaluate (probe_chain hosts pieces table j) has req m = Inr ev \<and>
      forced_ask (ev_decision ev) \<and> ev_layer ev = LRules) \<longleftrightarrow> evaluateHardDeny req hosts = None"
  using assms by (auto simp: evaluate_def Let_def split: option.split)

subsection \<open>The fixtures\<close>

lemma trim_solid:
  assumes "list_ex (\<lambda>c. \<not> is_space c) s"
  shows "trim s \<noteq> []"
proof -
  let ?d = "dropWhile is_space s"
  from assms have d: "?d \<noteq> []" by (auto simp: list_ex_iff)
  have "\<not> is_space (hd ?d)" "hd ?d \<in> set ?d" using hd_dropWhile [OF d] d by auto
  then show ?thesis unfolding trim_def by auto
qed

lemma fixture_id: "trim (rule_id (fixtureRule sample eff)) \<noteq> []"
  by (rule trim_solid) (simp add: fixtureRule_def is_space_def)

lemma fixture_table:
  "createTgSecRuleTable [fixtureRule sample eff] =
     (if isToolPattern (''tool:'' @ call_name sample)
      then Inr [\<lparr>entry_rule = fixtureRule sample eff,
                 entry_test = wildcardToRegExp (''tool:'' @ call_name sample), entry_order = 0\<rparr>]
      else Inl (NotToolPattern (rule_id (fixtureRule sample eff)) (''tool:'' @ call_name sample)))"
proof -
  let ?r = "fixtureRule sample eff"
  have "is_integer (priority ?r)" "rule_pattern ?r = ''tool:'' @ call_name sample" "rule_enabled ?r"
    by (simp_all add: is_integer_def fixtureRule_def)
  then show ?thesis using fixture_id [of sample eff] by (simp add: createTgSecRuleTable_def)
qed

lemma fixture_match:
  assumes "createTgSecRuleTable [fixtureRule sample eff] = Inr table"
  shows "match_rule table (resource (toTgSecRequest sample)) = Some (fixtureRule sample eff)"
proof -
  have "re_test (wildcardToRegExp (''tool:'' @ call_name sample)) (''tool:'' @ call_name sample)"
    unfolding wildcard_regex_match by (rule wildcard_match_self)
  with assms show ?thesis
    by (auto simp: fixture_table match_rule_def toTgSecRequest_def split: if_splits)
qed

lemma fixture_effect [simp]: "rule_effect (fixtureRule sample eff) = eff"
  by (simp add: fixtureRule_def)

lemma fixture_judges:
  "\<exists>j. errorJudge jp js = Inr j \<and> (\<forall>req. \<exists>t v. j req = Resolves t v \<and> decision v = JudgeAsk)"
  "\<exists>j. hangingJudge jp js = Inr j \<and> (\<forall>req. \<exists>t v. j req = Resolves t v \<and> decision v = JudgeAsk)"
  by (simp_all add: errorJudge_def hangingJudge_def fixture_judge_def createTgSecTwoAxisJudge_def
      isPositiveInteger_def is_integer_def TG_SEC_JUDGE_DEFAULT_MAX_INPUT_BYTES_def Let_def
      race_transport_def askVerdict_def nat_of_def)

subsection \<open>What each chain probe passes on\<close>

lemma scope_probe_passes:
  "probe_run (probeScopeOutsideNotAllows digest sample (chainProbeGuard hosts pieces)) = None \<longleftrightarrow>
     (\<exists>m. pieces_mode pieces = AStr (mode_text m) \<and> m \<noteq> JudgeAuto) \<and>
     evaluateHardDeny (toTgSecRequest sample) hosts = None \<and>
     (quiet_request hosts pieces (toTgSecRequest sample) \<longrightarrow> hit (pieces_danger pieces (toTgSecRequest sample)))"
proof (cases "\<exists>m. pieces_mode pieces = AStr (mode_text m) \<and> m \<noteq> JudgeAuto")
  case True
  then obtain m where m: "pieces_mode pieces = AStr (mode_text m)" "m \<noteq> JudgeAuto" by blast
  let ?g = "(probe_chain hosts pieces [] None, started_with m createInMemoryGrantStore)"
  obtain st d where d: "probe_decision digest sample ?g = (st, d)" by fastforce
  have "d = map_sum id ev_decision (evaluate (probe_chain hosts pieces [] None)
      (grants_has createInMemoryGrantStore) (toTgSecRequest sample) m)"
    using probe_decision_result [of digest sample "probe_chain hosts pieces [] None" m
        createInMemoryGrantStore] d by simp
  then have "probe_run (probeScopeOutsideNotAllows digest sample (Inr ?g)) = None \<longleftrightarrow>
      (\<exists>ev. evaluate (probe_chain hosts pieces [] None) (grants_has createInMemoryGrantStore)
        (toTgSecRequest sample) m = Inr ev \<and> forced_ask (ev_decision ev))"
    by (cases "evaluate (probe_chain hosts pieces [] None) (grants_has createInMemoryGrantStore)
        (toTgSecRequest sample) m") (auto simp: probeScopeOutsideNotAllows_def d)
  then show ?thesis using True unfolding chain_forces_ask chainProbeGuard_chain [OF m] by blast
next
  case False
  then obtain failure where "chainProbeGuard hosts pieces = Inl failure"
    unfolding chainProbeGuard_builds [of hosts, symmetric] by (metis sumE)
  with False show ?thesis by (simp add: probeScopeOutsideNotAllows_def)
qed

lemma unaffiliated_probe_passes:
  "probe_run (probeUnaffiliatedCallEntersChain digest sample (chainProbeGuard hosts pieces)) = None \<longleftrightarrow>
     (\<exists>m. pieces_mode pieces = AStr (mode_text m) \<and> m \<noteq> JudgeAuto)"
proof (cases "\<exists>m. pieces_mode pieces = AStr (mode_text m) \<and> m \<noteq> JudgeAuto")
  case True
  then obtain m where m: "pieces_mode pieces = AStr (mode_text m)" "m \<noteq> JudgeAuto" by blast
  let ?c = "probe_chain hosts pieces [] None"
  obtain ev where "evaluate ?c (grants_has createInMemoryGrantStore) (toTgSecRequest sample) m = Inr ev"
  proof (cases "clean_request ?c (toTgSecRequest sample)")
    case True
    show ?thesis using that m(2) unfolding evaluate_clean [OF True]
      by (cases m) (auto simp: dispatch_mode_def Let_def match_rule_def memory.has_fresh)
  next
    case False
    then show ?thesis using that evaluate_stopped by blast
  qed
  then have "probe_run (probeUnaffiliatedCallEntersChain digest sample (chainProbeGuard hosts pieces)) = None"
    by (simp add: probeUnaffiliatedCallEntersChain_def chainProbeGuard_chain [OF m] probe_decision_def
        decisionFor_def Let_def span_count_failure_def)
  with True show ?thesis by simp
next
  case False
  then obtain failure where "chainProbeGuard hosts pieces = Inl failure"
    unfolding chainProbeGuard_builds [of hosts, symmetric] by (metis sumE)
  with False show ?thesis by (simp add: probeUnaffiliatedCallEntersChain_def)
qed

lemma blocks_probe_passes:
  "probe_run (probeForcedAskBlocks digest sample api (chainProbeGuard hosts pieces)) = None \<longleftrightarrow>
     (\<exists>m. pieces_mode pieces = AStr (mode_text m) \<and> m \<noteq> JudgeAuto) \<and>
     (\<exists>m. readTgSecMode api = Inr m) \<and>
     evaluateHardDeny (toTgSecRequest sample) hosts = None \<and>
     (quiet_request hosts pieces (toTgSecRequest sample) \<longrightarrow> hit (pieces_danger pieces (toTgSecRequest sample)))"
  (is "_ \<longleftrightarrow> _ \<and> _ \<and> ?forced")
proof (cases "\<exists>m. pieces_mode pieces = AStr (mode_text m) \<and> m \<noteq> JudgeAuto")
  case True
  then obtain m where m: "pieces_mode pieces = AStr (mode_text m)" "m \<noteq> JudgeAuto" by blast
  let ?c = "probe_chain hosts pieces [] None"
  let ?g = "(?c, started_with m createInMemoryGrantStore)" and ?req = "toTgSecRequest sample"
  obtain st d where d: "probe_decision digest sample ?g = (st, d)" by fastforce
  have r: "d = map_sum id ev_decision (evaluate ?c (grants_has createInMemoryGrantStore) ?req m)"
    using probe_decision_result [of digest sample ?c m createInMemoryGrantStore] d by simp
  have forced: "(\<exists>x. call_decision grants_has ?c sample m' g = Inr x \<and> forced_ask x) \<longleftrightarrow> ?forced" for m' g
    using chain_forces_ask [of hosts pieces None "grants_has g" ?req m']
    by (cases "evaluate ?c (grants_has g) ?req m'") (simp_all add: call_decision_def)
  have now: "(\<exists>x. d = Inr x \<and> forced_ask x) \<longleftrightarrow> ?forced"
    using forced [of m createInMemoryGrantStore] r by (simp add: call_decision_def)
  have run: "probe_run (probeForcedAskBlocks digest sample api (Inr ?g)) = None \<longleftrightarrow>
      (\<exists>x. d = Inr x \<and> forced_ask x) \<and>
      (\<exists>why. snd (beforeTool digest grants_has grants_add ?c sample api st) = Block why)"
    by (cases d) (auto simp: probeForcedAskBlocks_def d split: hook_result.split)
  have blocks: "(\<exists>why. snd (beforeTool digest grants_has grants_add ?c sample api st) = Block why) \<longleftrightarrow>
      (\<exists>m'. readTgSecMode api = Inr m')" if ?forced
  proof (cases "readTgSecMode api")
    case (Inr m')
    from that obtain x where x: "call_decision grants_has ?c sample m' (granted st) = Inr x" "forced_ask x"
      using forced [of m' "granted st"] by blast
    then obtain why where "x = Ask why True" by (cases x) auto
    with x Inr show ?thesis by (simp add: beforeTool_result(1) [OF Inr])
  qed (simp add: beforeTool_unreadable)
  show ?thesis unfolding chainProbeGuard_chain [OF m] run now using blocks True by blast
next
  case False
  then obtain failure where "chainProbeGuard hosts pieces = Inl failure"
    unfolding chainProbeGuard_builds [of hosts, symmetric] by (metis sumE)
  with False show ?thesis by (simp add: probeForcedAskBlocks_def)
qed

lemma danger_probe_passes:
  "probe_run (probeDangerSetForcesAskPastGrants digest sample
      (build_guard (probe_options hosts pieces (AStr ''yolo'')) grants)) = None \<longleftrightarrow>
     quiet_request hosts pieces (toTgSecRequest sample) \<and> hit (pieces_danger pieces (toTgSecRequest sample))"
  using build_plain [of Yolo hosts pieces grants]
  by (simp add: probeDangerSetForcesAskPastGrants_def layer_probe_passes chain_asks_at_danger)

lemma rule_guard_builds:
  assumes "m \<noteq> JudgeAuto"
  shows "rule_guard (probe_options hosts pieces (AStr (mode_text m))) rule grants =
    (case createTgSecRuleTable [rule] of
       Inl e \<Rightarrow> Inl (RulesThrew e)
     | Inr table \<Rightarrow> Inr (probe_chain hosts pieces table None, started_with m grants))"
proof -
  have "(probe_options hosts pieces (AStr (mode_text m)))\<lparr>o_rules := t\<rparr> =
      (probe_options hosts pieces (AStr (mode_text m)))\<lparr>o_judge := None, o_rules := t\<rparr>" for t
    by (simp add: probe_options_def)
  with build_chain [where m = m and j = None and hosts = hosts and pieces = pieces and
        t = "Some t" and grants = grants for t] assms show ?thesis
    by (auto simp: rule_guard_def split: sum.split)
qed

lemma rule_deny_probe_passes:
  "probe_run (probeRuleDenyForcesAskPastExemptions digest sample
      (rule_guard (probe_options hosts pieces (AStr ''yolo'')) (fixtureRule sample DenyRule) grants)) = None \<longleftrightarrow>
     isToolPattern (''tool:'' @ call_name sample) \<and> evaluateHardDeny (toTgSecRequest sample) hosts = None"
proof (cases "createTgSecRuleTable [fixtureRule sample DenyRule]")
  case (Inl e)
  then have "\<not> isToolPattern (''tool:'' @ call_name sample)" by (simp add: fixture_table split: if_splits)
  then show ?thesis using rule_guard_builds [of Yolo hosts pieces "fixtureRule sample DenyRule" grants] Inl
    by (simp add: probeRuleDenyForcesAskPastExemptions_def layer_probe_def)
next
  case (Inr table)
  then have "isToolPattern (''tool:'' @ call_name sample)" by (simp add: fixture_table split: if_splits)
  then show ?thesis using rule_guard_builds [of Yolo hosts pieces "fixtureRule sample DenyRule" grants] Inr
    by (simp add: probeRuleDenyForcesAskPastExemptions_def layer_probe_passes
        chain_asks_at_rules [OF fixture_match [OF Inr]])
qed

lemma strict_probe_passes:
  "probe_run (probeStrictIgnoresRuleAllow digest sample
      (rule_guard (probe_options hosts pieces (AStr ''strict'')) (fixtureRule sample AllowRule) grants)) = None \<longleftrightarrow>
     isToolPattern (''tool:'' @ call_name sample) \<and> quiet_request hosts pieces (toTgSecRequest sample) \<and>
     \<not> hit (pieces_danger pieces (toTgSecRequest sample))"
proof (cases "createTgSecRuleTable [fixtureRule sample AllowRule]")
  case (Inl e)
  then have "\<not> isToolPattern (''tool:'' @ call_name sample)" by (simp add: fixture_table split: if_splits)
  then show ?thesis using rule_guard_builds [of Strict hosts pieces "fixtureRule sample AllowRule" grants] Inl
    by (simp add: probeStrictIgnoresRuleAllow_def layer_probe_def)
next
  case (Inr table)
  then have "isToolPattern (''tool:'' @ call_name sample)" by (simp add: fixture_table split: if_splits)
  moreover have "case match_rule table (resource (toTgSecRequest sample)) of
      None \<Rightarrow> True | Some r \<Rightarrow> rule_effect r = AllowRule"
    by (simp add: fixture_match [OF Inr])
  ultimately show ?thesis
    using rule_guard_builds [of Strict hosts pieces "fixtureRule sample AllowRule" grants] Inr
    by (simp add: probeStrictIgnoresRuleAllow_def layer_probe_passes chain_asks_at_mode [where m = Strict])
qed

lemma judge_probe_passes:
  assumes "\<forall>req. \<exists>t v. j req = Resolves t v \<and> decision v = JudgeAsk"
  shows "probe_run (askOnModeLayerProbe name digest sample
      (build_guard ((probe_options hosts pieces (AStr ''judge-auto''))\<lparr>o_judge := Some j\<rparr>) grants)) = None \<longleftrightarrow>
     quiet_request hosts pieces (toTgSecRequest sample) \<and> \<not> hit (pieces_danger pieces (toTgSecRequest sample))"
proof -
  let ?req = "toTgSecRequest sample"
  obtain t v where "j ?req = Resolves t v \<and> decision v = JudgeAsk" using assms by blast
  then have m: "JudgeAuto = Strict \<or> JudgeAuto = JudgeAuto \<and> match_rule [] (resource ?req) = None \<and>
      Some j = Some j \<and> j ?req = Resolves t v \<and> decision v = JudgeAsk"
    by (simp add: match_rule_def)
  have "(probe_options hosts pieces (AStr ''judge-auto''))\<lparr>o_judge := Some j\<rparr> =
      (probe_options hosts pieces (AStr (mode_text JudgeAuto)))\<lparr>o_judge := Some j, o_rules := None\<rparr>"
    by (simp add: probe_options_def)
  then have o: "build_guard ((probe_options hosts pieces (AStr ''judge-auto''))\<lparr>o_judge := Some j\<rparr>) grants =
      Inr (probe_chain hosts pieces [] (Some j), started_with JudgeAuto grants)"
    by (simp only: build_chain option.distinct option.case simp_thms)
  have n: "case match_rule [] (resource ?req) of None \<Rightarrow> True | Some r \<Rightarrow> rule_effect r = AllowRule"
    by (simp add: match_rule_def)
  show ?thesis
    by (simp add: o askOnModeLayerProbe_def layer_probe_passes chain_asks_at_mode [OF n m])
qed

subsection \<open>What an attestation means\<close>

text \<open>
  The chain answers a request with a forced ask: the hard deny is silent, and a weak candidate, the
  scope or the danger set stops it.
\<close>

definition forces_ask :: "string list \<Rightarrow> probe_guard_pieces \<Rightarrow> request \<Rightarrow> bool" where
  "forces_ask hosts pieces req \<longleftrightarrow>
     evaluateHardDeny req hosts = None \<and>
     (quiet_request hosts pieces req \<longrightarrow> hit (pieces_danger pieces req))"

lemma attest_runs:
  "\<exists>failing hanging.
     (\<forall>req. \<exists>t v. failing req = Resolves t v \<and> decision v = JudgeAsk) \<and>
     (\<forall>req. \<exists>t v. hanging req = Resolves t v \<and> decision v = JudgeAsk) \<and>
     attest digest jp js hosts ctx = map_option (\<lambda>(name, failure). ProbeThrew name failure)
       (runTgSecAttestation (attest_probes digest js hosts ctx failing hanging))"
proof -
  from fixture_judges [of jp js] obtain failing hanging where
    "errorJudge jp js = Inr failing" "\<forall>req. \<exists>t v. failing req = Resolves t v \<and> decision v = JudgeAsk"
    "hangingJudge jp js = Inr hanging" "\<forall>req. \<exists>t v. hanging req = Resolves t v \<and> decision v = JudgeAsk"
    by blast
  then show ?thesis by (intro exI [of _ failing] exI [of _ hanging]) (simp add: attest_def)
qed

lemma attest_None:
  "attest digest jp js hosts ctx = None \<longleftrightarrow>
     (\<exists>message. forbiddenRead ctx = ReadFails (Some ''EACCES'') message \<or>
        forbiddenRead ctx = ReadFails (Some ''EPERM'') message) \<and>
     (\<exists>m. pieces_mode (probeGuard ctx) = AStr (mode_text m) \<and> m \<noteq> JudgeAuto) \<and>
     set (registeredTools ctx) = set (declaredTools ctx) \<and>
     (\<exists>m. readTgSecMode (modeReader ctx) = Inr m) \<and> (\<exists>m. readTgSecMode (hookApi ctx) = Inr m) \<and>
     forces_ask hosts (probeGuard ctx) (toTgSecRequest (forcedAskSample ctx)) \<and>
     quiet_request hosts (probeGuard ctx) (toTgSecRequest (dangerSample ctx)) \<and>
     hit (pieces_danger (probeGuard ctx) (toTgSecRequest (dangerSample ctx))) \<and>
     isToolPattern (''tool:'' @ call_name (rulesSample ctx)) \<and>
     quiet_request hosts (probeGuard ctx) (toTgSecRequest (rulesSample ctx)) \<and>
     \<not> hit (pieces_danger (probeGuard ctx) (toTgSecRequest (rulesSample ctx)))"
proof -
  obtain failing hanging where
    j: "\<forall>req. \<exists>t v. failing req = Resolves t v \<and> decision v = JudgeAsk"
      "\<forall>req. \<exists>t v. hanging req = Resolves t v \<and> decision v = JudgeAsk" and
    a: "attest digest jp js hosts ctx = map_option (\<lambda>(name, failure). ProbeThrew name failure)
      (runTgSecAttestation (attest_probes digest js hosts ctx failing hanging))"
    using attest_runs [of digest jp js hosts ctx] by (elim exE conjE) (rule that)
  have quiet: "quiet_request hosts (probeGuard ctx) req \<Longrightarrow> evaluateHardDeny req hosts = None" for req
    by (simp add: quiet_request_def)
  show ?thesis
    unfolding a option.map_disc_iff attestation_passes attest_probes_def Let_def list.pred_inject
      probeRestrictedEnv_passes scope_probe_passes danger_probe_passes probeToolSetAlignment_passes
      probeModeDocument_passes unaffiliated_probe_passes blocks_probe_passes rule_deny_probe_passes
      strict_probe_passes probeJudgeTransportErrorAsks_def probeJudgeTimeoutAsks_def
      judge_probe_passes [OF j(1)] judge_probe_passes [OF j(2)] forces_ask_def
    by (rule iffI; elim conjE; intro conjI list.pred_inject(1) TrueI;
        (assumption | (rule quiet, assumption)))
qed

text \<open>
  C34. What a passed attestation proves. The probes pass exactly when: the forbidden read is refused
  with \<open>EACCES\<close> or \<open>EPERM\<close>; the mode handed over is one of the four and not \<open>judge-auto\<close>; the
  registered and the declared tools are the same set; both mode documents read as a mode; the first
  sample is one the chain answers with a forced ask; the danger sample passes every layer before the
  danger set and hits it; and the rules sample has a tool name without spaces, passes every layer and
  misses the danger set. Nothing else about the host, the judge or the digest matters.
\<close>

theorem attestation_passes_iff:
  "attest digest jp js hosts ctx = None \<longleftrightarrow>
     (\<exists>message. forbiddenRead ctx = ReadFails (Some ''EACCES'') message \<or>
        forbiddenRead ctx = ReadFails (Some ''EPERM'') message) \<and>
     (\<exists>m. pieces_mode (probeGuard ctx) = AStr (mode_text m) \<and> m \<noteq> JudgeAuto) \<and>
     set (registeredTools ctx) = set (declaredTools ctx) \<and>
     (\<exists>m. readTgSecMode (modeReader ctx) = Inr m) \<and> (\<exists>m. readTgSecMode (hookApi ctx) = Inr m) \<and>
     forces_ask hosts (probeGuard ctx) (toTgSecRequest (forcedAskSample ctx)) \<and>
     quiet_request hosts (probeGuard ctx) (toTgSecRequest (dangerSample ctx)) \<and>
     hit (pieces_danger (probeGuard ctx) (toTgSecRequest (dangerSample ctx))) \<and>
     isToolPattern (''tool:'' @ call_name (rulesSample ctx)) \<and>
     quiet_request hosts (probeGuard ctx) (toTgSecRequest (rulesSample ctx)) \<and>
     \<not> hit (pieces_danger (probeGuard ctx) (toTgSecRequest (rulesSample ctx)))"
  by (rule attest_None)

text \<open>
  The first failure is the one reported. The runner throws exactly when some probe fails, and then
  it names the first failing probe with what that probe threw; every probe before it has passed.
\<close>

lemma attestation_first_failure:
  "runTgSecAttestation probes = Some (name, failure) \<longleftrightarrow>
     (\<exists>before p after. probes = before @ p # after \<and> probe_name p = name \<and>
        probe_run p = Some failure \<and> list_all (\<lambda>q. probe_run q = None) before)"
  by (rule attestation_fails)

text \<open>
  A \<open>judge-auto\<close> session never attests. With the session's mode \<open>judge-auto\<close> as the probe mode,
  and the environment confined, the second probe always fails, for want of a judge: the guard it
  builds is given none, and construction requires one in that mode.
\<close>

lemma judge_auto_never_attests:
  "attest digest jp js hosts
     (ctx\<lparr>forbiddenRead := ReadFails (Some ''EACCES'') message,
          probeGuard := (probeGuard ctx)\<lparr>pieces_mode := AStr ''judge-auto''\<rparr>\<rparr>) =
   Some (ProbeThrew ''scope-outside-not-allow'' (GuardThrew JudgeRequired))"
proof -
  let ?ctx = "ctx\<lparr>forbiddenRead := ReadFails (Some ''EACCES'') message,
    probeGuard := (probeGuard ctx)\<lparr>pieces_mode := AStr ''judge-auto''\<rparr>\<rparr>"
  have "chainProbeGuard hosts (probeGuard ?ctx) = Inl (GuardThrew JudgeRequired)"
    using isTgSecMode_text [of JudgeAuto]
    by (simp add: chainProbeGuard_def build_guard_def createTgSecGuard_def probe_options_def)
  then have "runTgSecAttestation (attest_probes digest js hosts ?ctx failing hanging) =
      Some (''scope-outside-not-allow'', GuardThrew JudgeRequired)" for failing hanging
    by (simp add: attest_probes_def Let_def probeRestrictedEnv_def probeScopeOutsideNotAllows_def)
  then show ?thesis using attest_runs [of digest jp js hosts ?ctx] by auto
qed

end
