(* ===== verification/Json.thy ===== *)
theory Json
  imports Prelude
begin

text \<open>
  JSON values as the code of \<open>packages/chord\<close> holds them in memory. An array or object has an
  identity besides its contents: \<open>===\<close> on two containers compares addresses, and the differ relies
  on it to recognise what a revision kept. So every container of the model carries an address. A
  number is an integer below 10^21 in magnitude, which JavaScript prints in decimal, or any other
  finite number, named by its printed text. An object is the list of its own properties in
  \<open>Object.keys\<close> order, which puts array-index keys first and in numeric order. \<open>tree_of\<close> forgets
  addresses and key order and keeps exactly what JSON means.
\<close>

named_theorems json_eval \<open>the standard-library operations on values and objects\<close>

subsection \<open>Values\<close>

datatype js_number = Whole int | Fractional string

datatype json =
    JNull
  | JBool bool
  | JNum js_number
  | JStr string
  | JArr nat "json list"
  | JObj nat "(string \<times> json) list"

datatype seg = SKey string | SIdx nat

type_synonym path = "seg list"

definition isObj :: "json \<Rightarrow> bool" where
  "isObj v \<longleftrightarrow> (case v of JArr a xs \<Rightarrow> True | JObj a es \<Rightarrow> True | _ \<Rightarrow> False)"

lemma isObj_simps [simp]:
  "isObj (JArr a xs)" "isObj (JObj a es)" "\<not> isObj JNull" "\<not> isObj (JBool b)" "\<not> isObj (JNum n)"
  "\<not> isObj (JStr s)"
  by (simp_all add: isObj_def)

text \<open>\<open>===\<close>: containers by address, everything else by value.\<close>

fun strictEq :: "json \<Rightarrow> json \<Rightarrow> bool" where
  "strictEq (JArr a xs) w = (case w of JArr b ys \<Rightarrow> a = b | _ \<Rightarrow> False)"
| "strictEq (JObj a es) w = (case w of JObj b fs \<Rightarrow> a = b | _ \<Rightarrow> False)"
| "strictEq v w = (v = w)"

lemma strictEq_refl [simp]: "strictEq v v"
  by (cases v) simp_all

lemma strictEq_sym: "strictEq v w \<longleftrightarrow> strictEq w v"
  by (cases v; cases w) auto

lemma strictEq_trans: "strictEq u v \<Longrightarrow> strictEq v w \<Longrightarrow> strictEq u w"
  by (cases u; cases v; cases w) auto

subsection \<open>Objects\<close>

text \<open>The property name a segment addresses on an object.\<close>

fun seg_text :: "seg \<Rightarrow> string" where
  "seg_text (SKey s) = s"
| "seg_text (SIdx n) = dec_string n"

text \<open>Array-index keys: canonical decimal numerals below 2^32 - 1.\<close>

definition array_index :: "string \<Rightarrow> nat option" where
  "array_index s =
     (if s \<noteq> [] \<and> list_all is_digit s \<and> dec_string (parse_base 10 s) = s \<and> parse_base 10 s < 4294967295
      then Some (parse_base 10 s) else None)"

text \<open>Where a new property goes in \<open>Object.keys\<close> order.\<close>

fun insert_property :: "string \<Rightarrow> 'v \<Rightarrow> (string \<times> 'v) list \<Rightarrow> (string \<times> 'v) list" where
  "insert_property k v [] = [(k, v)]"
| "insert_property k v ((k', v') # es) =
     (case array_index k of
        None \<Rightarrow> (k', v') # insert_property k v es
      | Some n \<Rightarrow>
          (case array_index k' of
             None \<Rightarrow> (k, v) # (k', v') # es
           | Some n' \<Rightarrow>
               if n < n' then (k, v) # (k', v') # es else (k', v') # insert_property k v es))"

text \<open>\<open>Object.defineProperty\<close> of an enumerable data property, and \<open>delete\<close>.\<close>

definition define_property :: "string \<Rightarrow> 'v \<Rightarrow> (string \<times> 'v) list \<Rightarrow> (string \<times> 'v) list" where
  "define_property k v es =
     (if k \<in> fst ` set es then map (\<lambda>(k', v'). if k' = k then (k, v) else (k', v')) es
      else insert_property k v es)"

definition delete_property :: "string \<Rightarrow> (string \<times> 'v) list \<Rightarrow> (string \<times> 'v) list" where
  "delete_property k es = filter (\<lambda>(k', v'). k' \<noteq> k) es"

lemma insert_property_split:
  obtains ps qs where "es = ps @ qs" "insert_property k v es = ps @ (k, v) # qs"
proof -
  have "\<exists>ps qs. es = ps @ qs \<and> insert_property k v es = ps @ (k, v) # qs"
  proof (induction es)
    case (Cons e es)
    then obtain ps qs where i: "es = ps @ qs" "insert_property k v es = ps @ (k, v) # qs" by blast
    show ?case
    proof (cases "insert_property k v (e # es) = (k, v) # e # es")
      case True
      then show ?thesis by (intro exI [of _ "[]"] exI [of _ "e # es"]) simp
    next
      case False
      then have "insert_property k v (e # es) = e # insert_property k v es"
        by (cases e) (auto split: option.splits if_splits)
      with i show ?thesis by (intro exI [of _ "e # ps"] exI [of _ qs]) simp
    qed
  qed simp
  then show ?thesis using that by blast
qed

lemma map_of_insert_property:
  assumes "k \<notin> fst ` set es"
  shows "map_of (insert_property k v es) = (map_of es)(k \<mapsto> v)"
proof -
  obtain ps qs where i: "es = ps @ qs" "insert_property k v es = ps @ (k, v) # qs"
    by (rule insert_property_split)
  with assms have "map_of ps k = None" by (auto simp: map_of_eq_None_iff)
  with i show ?thesis by (auto simp: fun_eq_iff map_add_def split: option.split)
qed

lemma map_of_overwrite:
  "map_of (map (\<lambda>(k', v'). if k' = k then (k, v) else (k', v')) es) x =
     (if x = k then map_option (\<lambda>_. v) (map_of es k) else map_of es x)"
  by (induction es) auto

lemma map_of_define [json_eval]: "map_of (define_property k v es) = (map_of es)(k \<mapsto> v)"
proof (cases "k \<in> fst ` set es")
  case True
  then obtain w where "map_of es k = Some w" by (cases "map_of es k") (auto simp: map_of_eq_None_iff)
  with True show ?thesis by (simp add: define_property_def fun_eq_iff map_of_overwrite)
qed (simp add: define_property_def map_of_insert_property)

lemma map_of_delete [json_eval]: "map_of (delete_property k es) = (map_of es)(k := None)"
  by (induction es) (auto simp: delete_property_def fun_eq_iff)

lemma distinct_insert_property:
  assumes "distinct (map fst es)" "k \<notin> fst ` set es"
  shows "distinct (map fst (insert_property k v es))"
proof -
  obtain ps qs where "es = ps @ qs" "insert_property k v es = ps @ (k, v) # qs"
    by (rule insert_property_split)
  with assms show ?thesis by (simp add: image_Un)
qed

lemma distinct_define: "distinct (map fst es) \<Longrightarrow> distinct (map fst (define_property k v es))"
proof (cases "k \<in> fst ` set es")
  case True
  have "map fst (map (\<lambda>(k', v'). if k' = k then (k, v) else (k', v')) es) = map fst es"
    by (induction es) auto
  with True show "distinct (map fst es) \<Longrightarrow> ?thesis" by (simp only: define_property_def if_True)
qed (simp add: define_property_def distinct_insert_property)

subsection \<open>What a value means\<close>

datatype tree =
    TNull
  | TBool bool
  | TNum js_number
  | TStr string
  | TArr "tree list"
  | TObj "string \<Rightarrow> tree option"

primrec tree_of :: "json \<Rightarrow> tree" where
  "tree_of JNull = TNull"
| "tree_of (JBool b) = TBool b"
| "tree_of (JNum n) = TNum n"
| "tree_of (JStr s) = TStr s"
| "tree_of (JArr a xs) = TArr (map tree_of xs)"
| "tree_of (JObj a es) = TObj (map_of (map (map_prod id tree_of) es))"

lemma map_of_tree: "map_of (map (map_prod id tree_of) es) = map_option tree_of \<circ> map_of es"
  by (induction es) (auto simp: fun_eq_iff)

lemma tree_of_object: "tree_of (JObj a es) = TObj (map_option tree_of \<circ> map_of es)"
  by (simp add: map_of_tree)

declare tree_of.simps(6) [simp del]
declare tree_of_object [simp]

text \<open>A well-formed value: no object has a property twice.\<close>

fun wf_json :: "json \<Rightarrow> bool" where
  "wf_json (JArr a xs) = list_all wf_json xs"
| "wf_json (JObj a es) = (distinct (map fst es) \<and> list_all (\<lambda>(k, v). wf_json v) es)"
| "wf_json v = True"

text \<open>Every container within a value.\<close>

fun containers :: "json \<Rightarrow> json list" where
  "containers (JArr a xs) = JArr a xs # concat (map containers xs)"
| "containers (JObj a es) = JObj a es # concat (map (\<lambda>(k, v). containers v) es)"
| "containers v = []"

text \<open>
  Immutable revisions: wherever an address occurs in the two values, it is the same container. This
  is what never mutating a published revision gives.
\<close>

definition coherent :: "json \<Rightarrow> json \<Rightarrow> bool" where
  "coherent before after \<longleftrightarrow>
     list_all (\<lambda>u. list_all (\<lambda>w. (u = w) = strictEq u w) (containers after)) (containers before)"

lemma containers_self: "isObj v \<Longrightarrow> v \<in> set (containers v)"
  by (cases v) simp_all

lemma containers_trans: "w \<in> set (containers v) \<Longrightarrow> set (containers w) \<subseteq> set (containers v)"
  by (induction v rule: containers.induct) fastforce+

lemma coherent_strictEq:
  assumes "coherent before after" and "strictEq u w"
    and "isObj u \<Longrightarrow> u \<in> set (containers before)" and "isObj w \<Longrightarrow> w \<in> set (containers after)"
  shows "u = w"
proof (cases "isObj u \<and> isObj w")
  case True
  then have "(u = w) = strictEq u w" using assms by (simp add: coherent_def list_all_iff)
  with assms(2) show ?thesis by simp
next
  case False
  with assms(2) show ?thesis by (cases u; cases w) simp_all
qed

lemma coherent_subset:
  assumes "coherent before after" "set (containers u) \<subseteq> set (containers before)"
    "set (containers w) \<subseteq> set (containers after)"
  shows "coherent u w"
  using assms by (auto simp: coherent_def list_all_iff)

lemma coherent_same: "coherent u w \<Longrightarrow> strictEq u w \<Longrightarrow> u = w"
  by (rule coherent_strictEq [of u w u w]) (simp_all add: containers_self)

lemma containers_elem: "x \<in> set xs \<Longrightarrow> set (containers x) \<subseteq> set (containers (JArr a xs))"
  by auto

lemma containers_prop: "(k, x) \<in> set es \<Longrightarrow> set (containers x) \<subseteq> set (containers (JObj a es))"
  by force

lemma coherent_elem:
  "coherent (JArr a xs) (JArr b ys) \<Longrightarrow> x \<in> set xs \<Longrightarrow> y \<in> set ys \<Longrightarrow> coherent x y"
  by (erule coherent_subset; rule containers_elem)

lemma coherent_prop:
  "coherent (JObj a es) (JObj b fs) \<Longrightarrow> (k, x) \<in> set es \<Longrightarrow> (l, y) \<in> set fs \<Longrightarrow> coherent x y"
  by (erule coherent_subset; rule containers_prop)

subsection \<open>\<open>JSON.stringify\<close> of a path\<close>

definition escape_char :: "char \<Rightarrow> string" where
  "escape_char c =
     (if c = dquote then [backslash, dquote]
      else if c = backslash then [backslash, backslash]
      else if c = CHR 0x08 then [backslash, CHR ''b'']
      else if c = CHR 0x0C then [backslash, CHR ''f'']
      else if c = CHR 0x0A then [backslash, CHR ''n'']
      else if c = CHR 0x0D then [backslash, CHR ''r'']
      else if c = CHR 0x09 then [backslash, CHR ''t'']
      else if (of_char c :: nat) < 32
      then [backslash, CHR ''u'', CHR ''0'', CHR ''0'', digit_char (of_char c div 16), digit_char (of_char c mod 16)]
      else [c])"

definition quote_string :: "string \<Rightarrow> string" where
  "quote_string s = [dquote] @ concat (map escape_char s) @ [dquote]"

fun seg_json :: "seg \<Rightarrow> string" where
  "seg_json (SKey s) = quote_string s"
| "seg_json (SIdx n) = dec_string n"

definition pathKey :: "path \<Rightarrow> string" where
  "pathKey p = [CHR ''[''] @ join_str [CHR '',''] (map seg_json p) @ [CHR '']'']"

end
