(* ===== verification/Context_Order.thy ===== *)
theory Context_Order
  imports Json
begin

text \<open>
  Model messages and their order, after \<open>packages/gibraltar/src/harness/context.ts\<close>. A message is the JSON
  value an entry stores; the accessors read the properties the code reads. Every tool call must be
  followed by its result, so the code moves results behind the assistant message that asked for them; it
  does so for a growing list of messages by settling everything before the last assistant message.
\<close>

subsection \<open>Messages\<close>

definition field :: "string \<Rightarrow> json \<Rightarrow> json option" where
  "field key v = (case v of JObj a es \<Rightarrow> map_of es key | _ \<Rightarrow> None)"

definition has_role :: "string \<Rightarrow> json \<Rightarrow> bool" where
  "has_role r m \<longleftrightarrow> field ''role'' m = Some (JStr r)"

abbreviation is_assistant :: "json \<Rightarrow> bool" where "is_assistant \<equiv> has_role ''assistant''"
abbreviation is_result :: "json \<Rightarrow> bool" where "is_result \<equiv> has_role ''toolResult''"
abbreviation is_system :: "json \<Rightarrow> bool" where "is_system \<equiv> has_role ''system''"
abbreviation is_user :: "json \<Rightarrow> bool" where "is_user \<equiv> has_role ''user''"

lemma has_role_unique: "has_role r m \<Longrightarrow> has_role s m \<longleftrightarrow> r = s"
  by (auto simp: has_role_def)

definition tool_calls :: "json \<Rightarrow> json list" where
  "tool_calls m =
     (case field ''content'' m of
        Some (JArr a items) \<Rightarrow> filter (\<lambda>item. field ''type'' item = Some (JStr ''toolCall'')) items
      | _ \<Rightarrow> [])"

definition MISSING_RESULT_TEXT :: string where
  "MISSING_RESULT_TEXT = ''Tool result unavailable: history ends before this call completed.''"

text \<open>An object literal: a property whose value is \<open>undefined\<close> does not exist in JSON.\<close>

definition props :: "(string \<times> json option) list \<Rightarrow> (string \<times> json) list" where
  "props = List.map_filter (\<lambda>(key, v). map_option (Pair key) v)"

definition missingResult :: "json \<Rightarrow> json option \<Rightarrow> json" where
  "missingResult call timestamp =
     JObj 0 (props
       [(''role'', Some (JStr ''toolResult'')), (''toolCallId'', field ''id'' call), (''toolName'', field ''name'' call),
        (''content'', Some (JArr 0 [JObj 0 [(''type'', JStr ''text''), (''text'', JStr MISSING_RESULT_TEXT)]])),
        (''isError'', Some (JBool True)), (''details'', Some (JObj 0 [(''reason'', JStr ''missing_result'')])),
        (''timestamp'', timestamp)])"

text \<open>The first result of each call id before the next assistant message.\<close>

definition note_result :: "json \<Rightarrow> (json option \<times> json) list \<Rightarrow> (json option \<times> json) list" where
  "note_result m results =
     (if is_result m \<and> map_of results (field ''toolCallId'' m) = None
      then results @ [(field ''toolCallId'' m, m)] else results)"

definition call_results :: "json list \<Rightarrow> (json option \<times> json) list" where
  "call_results later = fold note_result (takeWhile (\<lambda>m. \<not> is_assistant m) later) []"

definition result_of :: "json \<Rightarrow> (json option \<times> json) list \<Rightarrow> json \<Rightarrow> json" where
  "result_of m results call =
     (case map_of results (field ''id'' call) of
        None \<Rightarrow> missingResult call (field ''timestamp'' m)
      | Some found \<Rightarrow> found)"

fun orderToolResults :: "json list \<Rightarrow> json list" where
  "orderToolResults [] = []"
| "orderToolResults (m # later) =
     (if is_result m then orderToolResults later
      else if is_assistant m then m # map (result_of m (call_results later)) (tool_calls m) @ orderToolResults later
      else m # orderToolResults later)"

subsection \<open>Every call is answered once\<close>

text \<open>What a provider accepts: results only behind the assistant message that asked for them, one per call, in call order.\<close>

function answered :: "json list \<Rightarrow> bool" where
  "answered [] \<longleftrightarrow> True"
| "answered (m # later) \<longleftrightarrow>
     (let n = (if is_assistant m then length (tool_calls m) else 0) in
      \<not> is_result m \<and> n \<le> length later \<and> list_all is_result (take n later) \<and>
      (is_assistant m \<longrightarrow> map (field ''toolCallId'') (take n later) = map (field ''id'') (tool_calls m)) \<and>
      answered (drop n later))"
  by pat_completeness auto
termination by (relation "measure length") auto

lemma map_of_note_result:
  "map_of (fold note_result ms results) key =
     (case map_of results key of
        Some m \<Rightarrow> Some m
      | None \<Rightarrow> find (\<lambda>m. is_result m \<and> field ''toolCallId'' m = key) ms)"
proof (induction ms arbitrary: results)
  case (Cons m ms)
  show ?case
  proof (cases "is_result m \<and> map_of results (field ''toolCallId'' m) = None")
    case True
    then have "note_result m results = results @ [(field ''toolCallId'' m, m)]" by (simp add: note_result_def)
    with True show ?thesis by (auto simp: Cons map_add_def split: option.split)
  next
    case False
    then have "note_result m results = results" by (auto simp: note_result_def)
    with False show ?thesis by (auto simp: Cons split: option.split)
  qed
qed (simp split: option.split)

lemma call_results_found:
  "map_of (call_results later) key =
     find (\<lambda>m. is_result m \<and> field ''toolCallId'' m = key) (takeWhile (\<lambda>m. \<not> is_assistant m) later)"
  by (simp add: call_results_def map_of_note_result)

lemma missingResult_fields:
  "is_result (missingResult call t)" "field ''toolCallId'' (missingResult call t) = field ''id'' call"
  by (cases "field ''id'' call"; cases "field ''name'' call"; cases t;
      simp add: missingResult_def props_def has_role_def field_def map_filter_simps)+

lemma result_of_fields:
  "is_result (result_of m (call_results later) call)"
  "field ''toolCallId'' (result_of m (call_results later) call) = field ''id'' call"
  by (auto simp: result_of_def call_results_found missingResult_fields find_Some_iff split: option.split)

lemma answered_order: "answered (orderToolResults ms)"
proof (induction ms)
  case (Cons m ms)
  have r: "list_all is_result (map (result_of m (call_results ms)) calls)"
    "map (field ''toolCallId'') (map (result_of m (call_results ms)) calls) = map (field ''id'') calls" for calls
    by (simp_all add: result_of_fields list_all_iff)
  show ?case using Cons by (simp add: r Let_def del: map_map)
qed simp

lemma order_keeps: "filter (\<lambda>m. \<not> is_result m) (orderToolResults ms) = filter (\<lambda>m. \<not> is_result m) ms"
proof (induction ms)
  case (Cons m ms)
  have "filter (\<lambda>m. \<not> is_result m) (map (result_of m (call_results ms)) calls) = []" for calls
    by (simp add: filter_empty_conv result_of_fields)
  with Cons show ?case by (simp del: filter_map)
qed simp

subsection \<open>Settling a growing list\<close>

definition findLast :: "(json \<Rightarrow> bool) \<Rightarrow> json list \<Rightarrow> nat option" where
  "findLast P ms = (case filter (\<lambda>k. P (ms ! k)) [0 ..< length ms] of [] \<Rightarrow> None | hits \<Rightarrow> Some (last hits))"

definition settle :: "json list \<Rightarrow> json list \<Rightarrow> json list \<times> json list" where
  "settle settled opened =
     (case findLast is_assistant opened of
        Some (Suc k) \<Rightarrow> (settled @ orderToolResults (take (Suc k) opened), drop (Suc k) opened)
      | _ \<Rightarrow> (settled, opened))"

lemma settle_at:
  "settle settled ms =
     (case findLast is_assistant ms of
        Some k \<Rightarrow> (settled @ orderToolResults (take k ms), drop k ms)
      | None \<Rightarrow> (settled, ms))"
  by (auto simp: settle_def split: option.split nat.split)

lemma findLast_if:
  "findLast P ms =
     (if filter (\<lambda>k. P (ms ! k)) [0 ..< length ms] = [] then None
      else Some (last (filter (\<lambda>k. P (ms ! k)) [0 ..< length ms])))"
  unfolding findLast_def by (cases "filter (\<lambda>k. P (ms ! k)) [0 ..< length ms]") simp_all

lemma findLast_append:
  "findLast P (xs @ ys) =
     (case findLast P ys of Some k \<Rightarrow> Some (length xs + k) | None \<Rightarrow> findLast P xs)"
proof -
  have u: "[0 ..< length (xs @ ys)] = [0 ..< length xs] @ map (\<lambda>k. k + length xs) [0 ..< length ys]"
    using upt_add_eq_append [of 0 "length xs" "length ys"] by (simp add: map_add_upt add.commute)
  have f: "filter (\<lambda>k. P ((xs @ ys) ! k)) [0 ..< length (xs @ ys)] =
      filter (\<lambda>k. P (xs ! k)) [0 ..< length xs] @
      map (\<lambda>k. k + length xs) (filter (\<lambda>k. P (ys ! k)) [0 ..< length ys])"
    unfolding u by (simp add: filter_map comp_def nth_append) (rule filter_cong; simp)
  show ?thesis
    unfolding findLast_if f by (simp add: last_map add.commute)
qed

lemma findLast_hit: "findLast P ms = Some k \<Longrightarrow> k < length ms \<and> P (ms ! k)"
proof -
  assume "findLast P ms = Some k"
  then have "k \<in> set (filter (\<lambda>k. P (ms ! k)) [0 ..< length ms])"
    by (auto simp: findLast_def simp del: set_filter split: list.splits intro: last_in_set)
  then show ?thesis by auto
qed

lemma order_append:
  "is_assistant a \<Longrightarrow> orderToolResults (xs @ a # ys) = orderToolResults xs @ orderToolResults (a # ys)"
proof (induction xs)
  case (Cons x xs)
  have "takeWhile (\<lambda>m. \<not> is_assistant m) (xs @ a # ys) = takeWhile (\<lambda>m. \<not> is_assistant m) xs"
    using Cons.prems by (induction xs) auto
  with Cons show ?case by (simp add: call_results_def)
qed simp

lemma order_split:
  assumes "is_assistant (ms ! k)" "k < length ms"
  shows "orderToolResults (take k ms) @ orderToolResults (drop k ms) = orderToolResults ms"
  using order_append [OF assms(1), of "take k ms" "drop (Suc k) ms"] assms(2)
  by (simp add: Cons_nth_drop_Suc id_take_nth_drop [symmetric])

text \<open>Settling loses nothing, and may be done in any number of rounds.\<close>

lemma settle_order:
  assumes "settle settled ms = (s, opened)"
  shows "s @ orderToolResults opened = settled @ orderToolResults ms"
  using assms order_split [of ms] findLast_hit [of is_assistant ms]
  by (auto simp: settle_at split: option.splits)

lemma settle_rounds:
  assumes "settle settled xs = (s, opened)"
  shows "settle s (opened @ ys) = settle settled (xs @ ys)"
proof (cases "findLast is_assistant xs")
  case (Some k)
  then have k: "k < length xs" "is_assistant (xs ! k)" using findLast_hit by blast+
  have s: "s = settled @ orderToolResults (take k xs)" "opened = drop k xs" using assms Some by (auto simp: settle_at)
  have "findLast is_assistant (take k xs @ drop k xs) = Some k" using Some by simp
  then have o: "findLast is_assistant (drop k xs) = Some 0"
    unfolding findLast_append using k(1) findLast_hit [of is_assistant "take k xs" k] by (auto split: option.splits)
  show ?thesis
  proof (cases "findLast is_assistant ys")
    case None
    with Some o k(1) show ?thesis by (simp add: settle_at findLast_append s)
  next
    case (Some i)
    have "orderToolResults (take k xs) @ orderToolResults (drop k xs @ take i ys) = orderToolResults (xs @ take i ys)"
      using order_split [of "xs @ take i ys" k] k by (simp add: nth_append)
    with Some show ?thesis by (simp add: settle_at findLast_append s)
  qed
qed (use assms in \<open>simp add: settle_at\<close>)

subsection \<open>The leading system message\<close>

datatype baseline = Undecided | NoBaseline | BaselineMessage json

definition is_baseline :: "json \<Rightarrow> baseline \<Rightarrow> bool" where
  "is_baseline m b = (case b of BaselineMessage system \<Rightarrow> strictEq m system | _ \<Rightarrow> False)"

definition leadWithSystem :: "json list \<Rightarrow> baseline \<Rightarrow> json list" where
  "leadWithSystem ms b =
     (let k = length (takeWhile (\<lambda>m. \<not> is_system m) ms) in
      if k = length ms \<or> k = 0 then ms
      else if \<not> is_baseline (ms ! k) b \<and> list_ex (\<lambda>m. \<not> is_user m) (take k ms) then ms
      else ms ! k # take k ms @ drop (Suc k) ms)"

lemma answered_remove:
  assumes "answered (xs @ m # ys)" "is_system m" "list_all (\<lambda>x. \<not> is_system x) xs"
  shows "answered (xs @ ys)"
  using assms
proof (induction xs rule: answered.induct)
  case 1
  then show ?case by (simp add: has_role_unique)
next
  case (2 x xs)
  let ?n = "if is_assistant x then length (tool_calls x) else 0"
  have "\<not> is_result m" using 2(3) has_role_unique [OF 2(3), of "''toolResult''"] by simp
  then have n: "?n \<le> length xs"
    using 2(2) by (fastforce simp: Let_def take_Cons' list_all_iff not_le split: if_splits)
  have "list_all (\<lambda>x. \<not> is_system x) (drop ?n xs)" using 2(4) by (auto simp: list_all_iff dest: in_set_dropD)
  then show ?case using 2 n by (auto simp: Let_def split: if_splits)
qed

lemma answered_lead: "answered ms \<Longrightarrow> answered (leadWithSystem ms b)"
proof -
  assume a: "answered ms"
  let ?k = "length (takeWhile (\<lambda>m. \<not> is_system m) ms)"
  show ?thesis
  proof (cases "?k < length ms")
    case True
    then have s: "is_system (ms ! ?k)" using nth_length_takeWhile [OF True] by simp
    have t: "take ?k ms = takeWhile (\<lambda>m. \<not> is_system m) ms" by (rule takeWhile_eq_take [symmetric])
    have "answered (take ?k ms @ ms ! ?k # drop (Suc ?k) ms)" using a True by (simp add: id_take_nth_drop [symmetric])
    then have "answered (take ?k ms @ drop (Suc ?k) ms)"
      by (rule answered_remove [OF _ s]) (simp only: t list_all_iff, blast dest: set_takeWhileD)
    moreover have "\<not> is_assistant (ms ! ?k)" "\<not> is_result (ms ! ?k)" using s by (simp_all add: has_role_unique)
    ultimately have "answered (ms ! ?k # take ?k ms @ drop (Suc ?k) ms)" by simp
    with a show ?thesis unfolding leadWithSystem_def Let_def by (simp del: answered.simps)
  next
    case False
    then have "?k = length ms" using length_takeWhile_le [of "\<lambda>m. \<not> is_system m" ms] by simp
    with a show ?thesis by (simp add: leadWithSystem_def)
  qed
qed

end
