(* ===== verification/Delta.thy ===== *)
theory Delta
  imports Json
begin

text \<open>
  Operations on JSON documents and their application
  (\<open>packages/chord/src/delta/index.ts\<close>): the seven operations, the validator of operations that
  crossed a boundary, path safety, string overlap and \<open>apply\<close>. An operation that crosses a boundary
  is untyped data, so \<open>apply\<close> takes JSON values and validates each before it runs; a validator
  returns the typed operation, which is what TypeScript's \<open>asserts\<close> means. Values are trees without
  sharing, as the ownership rule in the code's comments demands, and navigating to a container and
  mutating it in place is a function that rebuilds the tree along the path.
\<close>

subsection \<open>Operations\<close>

datatype op =
    OpR json
  | OpS path json
  | OpD path
  | OpA path string
  | OpT path nat
  | OpP path nat nat "json list"
  | OpM path "nat list"

datatype delta_error =
    TypeErr string
  | UnsafePath json
  | PathErr path
  | PathIdErr nat

fun is_replace :: "op \<Rightarrow> bool" where
  "is_replace (OpR v) \<longleftrightarrow> True"
| "is_replace _ \<longleftrightarrow> False"

definition isBase :: "op list \<Rightarrow> bool" where
  "isBase ops \<longleftrightarrow> ops \<noteq> [] \<and> is_replace (hd ops)"

subsection \<open>Overlap\<close>

definition index_from :: "string \<Rightarrow> string \<Rightarrow> nat \<Rightarrow> nat option" where
  "index_from p s i = map_option ((+) i) (index_of p (drop i s))"

text \<open>One head: at most \<open>r\<close> candidate positions, starting at the one given.\<close>

fun overlap_scan :: "string \<Rightarrow> string \<Rightarrow> string \<Rightarrow> nat \<Rightarrow> nat option \<Rightarrow> nat option" where
  "overlap_scan window b head 0 found = None"
| "overlap_scan window b head (Suc r) None = None"
| "overlap_scan window b head (Suc r) (Some k) =
     (let n = length window - k in
      if n \<le> length b \<and> drop k window = take n b then Some n
      else overlap_scan window b head r (index_from head window (k + 1)))"

definition overlap_head :: "string \<Rightarrow> string \<Rightarrow> nat \<Rightarrow> nat \<Rightarrow> nat option" where
  "overlap_head window b maxCandidates h =
     overlap_scan window b (take h b) maxCandidates (index_of (take h b) window)"

text \<open>The two heads: a long one, then a single character.\<close>

definition overlap_in :: "string \<Rightarrow> string \<Rightarrow> nat \<Rightarrow> nat \<Rightarrow> nat" where
  "overlap_in window b probe maxCandidates =
     (let h = min probe (length b) in
      case overlap_head window b maxCandidates h of
        Some n \<Rightarrow> n
      | None \<Rightarrow>
          if h = 1 then 0
          else (case overlap_head window b maxCandidates 1 of Some n \<Rightarrow> n | None \<Rightarrow> 0))"

definition overlap :: "string \<Rightarrow> string \<Rightarrow> nat \<Rightarrow> nat \<Rightarrow> nat \<Rightarrow> nat" where
  "overlap a b scan probe maxCandidates =
     (if a = [] \<or> b = [] \<or> scan = 0 then 0
      else overlap_in (if length a > scan then drop (length a - scan) a else a) b probe maxCandidates)"

subsection \<open>Path safety and validation\<close>

definition RESERVED_SEGMENTS :: "string list" where
  "RESERVED_SEGMENTS = [''__proto__'', ''constructor'', ''prototype'']"

fun assertSafePath :: "json list \<Rightarrow> delta_error + path" where
  "assertSafePath [] = Inr []"
| "assertSafePath (s # segs) =
     (case s of
        JStr k \<Rightarrow>
          if k \<in> set RESERVED_SEGMENTS then Inl (UnsafePath s)
          else err_bind (assertSafePath segs) (\<lambda>p. Inr (SKey k # p))
      | JNum (Whole i) \<Rightarrow>
          if i < 0 then Inl (UnsafePath s)
          else err_bind (assertSafePath segs) (\<lambda>p. Inr (SIdx (nat i) # p))
      | _ \<Rightarrow> Inl (UnsafePath s))"

definition assertPathArg :: "json \<Rightarrow> bool \<Rightarrow> delta_error + path" where
  "assertPathArg p nonEmpty =
     (case p of
        JArr a segs \<Rightarrow>
          if nonEmpty \<and> segs = [] then Inl (TypeErr ''path is empty'') else assertSafePath segs
      | _ \<Rightarrow> Inl (TypeErr ''path is not an array''))"

text \<open>\<open>Number.isInteger(v) \<and> v \<ge> 0\<close>, with the number.\<close>

definition nonNegative :: "json \<Rightarrow> nat option" where
  "nonNegative v = (case v of JNum (Whole i) \<Rightarrow> if 0 \<le> i then Some (nat i) else None | _ \<Rightarrow> None)"

definition string_arg :: "json \<Rightarrow> string option" where
  "string_arg v = (case v of JStr s \<Rightarrow> Some s | _ \<Rightarrow> None)"

lemma string_arg_JStr [simp]: "string_arg (JStr s) = Some s"
  by (simp add: string_arg_def)

fun permutation_loop :: "bool list \<Rightarrow> json list \<Rightarrow> delta_error + nat list" where
  "permutation_loop seen [] = Inr []"
| "permutation_loop seen (v # vs) =
     (case nonNegative v of
        None \<Rightarrow> Inl (TypeErr ''m permutation is not a bijection'')
      | Some i \<Rightarrow>
          if length seen \<le> i \<or> seen ! i then Inl (TypeErr ''m permutation is not a bijection'')
          else err_bind (permutation_loop (seen[i := True]) vs) (\<lambda>order. Inr (i # order)))"

definition assertPermutation :: "json \<Rightarrow> delta_error + nat list" where
  "assertPermutation v =
     (case v of
        JArr a xs \<Rightarrow> permutation_loop (replicate (length xs) False) xs
      | _ \<Rightarrow> Inl (TypeErr ''m permutation is not an array''))"

text \<open>The index, the count and the items of a splice, checked in this order.\<close>

definition splice_shape :: "json \<Rightarrow> json \<Rightarrow> json \<Rightarrow> delta_error + nat \<times> nat \<times> json list" where
  "splice_shape i r items =
     (case nonNegative i of
        None \<Rightarrow> Inl (TypeErr ''p index'')
      | Some index \<Rightarrow>
          (case nonNegative r of
             None \<Rightarrow> Inl (TypeErr ''p remove'')
           | Some remove \<Rightarrow>
               (case items of
                  JArr a xs \<Rightarrow> Inr (index, remove, xs)
                | _ \<Rightarrow> Inl (TypeErr ''p items''))))"

definition assertValidOp :: "json \<Rightarrow> delta_error + op" where
  "assertValidOp raw =
     (case raw of
        JArr a (JStr verb # args) \<Rightarrow>
          if verb = ''r'' then
            (case args of [v] \<Rightarrow> Inr (OpR v) | _ \<Rightarrow> Inl (TypeErr ''r arity''))
          else if verb = ''s'' then
            (case args of
               [p, v] \<Rightarrow> err_bind (assertPathArg p True) (\<lambda>path. Inr (OpS path v))
             | _ \<Rightarrow> Inl (TypeErr ''s arity''))
          else if verb = ''d'' then
            (case args of
               [p] \<Rightarrow> err_bind (assertPathArg p True) (\<lambda>path. Inr (OpD path))
             | _ \<Rightarrow> Inl (TypeErr ''d arity''))
          else if verb = ''a'' then
            (case args of
               [p, v] \<Rightarrow>
                 (case string_arg v of
                    None \<Rightarrow> Inl (TypeErr ''a shape'')
                  | Some s \<Rightarrow> err_bind (assertPathArg p True) (\<lambda>path. Inr (OpA path s)))
             | _ \<Rightarrow> Inl (TypeErr ''a shape''))
          else if verb = ''t'' then
            (case args of
               [p, v] \<Rightarrow>
                 (case nonNegative v of
                    None \<Rightarrow> Inl (TypeErr ''t shape'')
                  | Some n \<Rightarrow> err_bind (assertPathArg p True) (\<lambda>path. Inr (OpT path n)))
             | _ \<Rightarrow> Inl (TypeErr ''t shape''))
          else if verb = ''p'' then
            (case args of
               [p, i, r, items] \<Rightarrow>
                 err_bind (assertPathArg p False) (\<lambda>path.
                   err_bind (splice_shape i r items) (\<lambda>(index, remove, xs).
                     Inr (OpP path index remove xs)))
             | _ \<Rightarrow> Inl (TypeErr ''p arity''))
          else if verb = ''m'' then
            (case args of
               [p, perm] \<Rightarrow>
                 err_bind (assertPathArg p False) (\<lambda>path.
                   err_bind (assertPermutation perm) (\<lambda>order. Inr (OpM path order)))
             | _ \<Rightarrow> Inl (TypeErr ''m arity''))
          else Inl (TypeErr (''unknown op verb: '' @ verb))
      | JArr a (v # args) \<Rightarrow> Inl (TypeErr ''unknown op verb'')
      | _ \<Rightarrow> Inl (TypeErr ''op is not a tuple''))"

subsection \<open>Application\<close>

text \<open>\<open>Object.hasOwn(node, seg) ? node[seg]\<close>; arrays are only reached with an index.\<close>

fun own_get :: "json \<Rightarrow> seg \<Rightarrow> json option" where
  "own_get (JArr a xs) (SIdx i) = (if i < length xs then Some (xs ! i) else None)"
| "own_get (JObj a es) seg = map_of es (seg_text seg)"
| "own_get v seg = None"

text \<open>Defining a property: on an array an existing element or one past the end.\<close>

fun put_own :: "json \<Rightarrow> seg \<Rightarrow> json \<Rightarrow> json" where
  "put_own (JArr a xs) (SIdx i) v = JArr a (if i < length xs then xs[i := v] else xs @ [v])"
| "put_own (JObj a es) seg v = JObj a (define_property (seg_text seg) v es)"
| "put_own w seg v = w"

text \<open>
  One step of \<open>resolveValue\<close>; \<open>whole\<close> is the path the error reports.
\<close>

definition step_into :: "path \<Rightarrow> json \<Rightarrow> seg \<Rightarrow> delta_error + json" where
  "step_into whole node seg =
     (case (node, seg) of
        (JArr a xs, SKey k) \<Rightarrow> Inl (UnsafePath (JStr k))
      | _ \<Rightarrow>
          (case own_get node seg of None \<Rightarrow> Inl (PathErr whole) | Some child \<Rightarrow> Inr child))"

fun resolve_from :: "path \<Rightarrow> json \<Rightarrow> path \<Rightarrow> delta_error + json" where
  "resolve_from whole node [] = Inr node"
| "resolve_from whole node (seg # p) = err_bind (step_into whole node seg) (\<lambda>c. resolve_from whole c p)"

definition resolveValue :: "json \<Rightarrow> path \<Rightarrow> delta_error + json" where
  "resolveValue doc p = resolve_from p doc p"

definition resolve :: "json \<Rightarrow> path \<Rightarrow> delta_error + json" where
  "resolve doc p =
     err_bind (resolveValue doc p) (\<lambda>node. if isObj node then Inr node else Inl (PathErr p))"

text \<open>\<open>resolve\<close> the container at a path and mutate it in place.\<close>

fun mutate_from :: "path \<Rightarrow> (json \<Rightarrow> delta_error + json) \<Rightarrow> json \<Rightarrow> path \<Rightarrow> delta_error + json" where
  "mutate_from whole f node [] = (if isObj node then f node else Inl (PathErr whole))"
| "mutate_from whole f node (seg # p) =
     err_bind (step_into whole node seg) (\<lambda>c.
       err_bind (mutate_from whole f c p) (\<lambda>c'. Inr (put_own node seg c')))"

definition mutate_at :: "json \<Rightarrow> path \<Rightarrow> (json \<Rightarrow> delta_error + json) \<Rightarrow> delta_error + json" where
  "mutate_at doc p f = mutate_from p f doc p"

definition splice :: "'a list \<Rightarrow> nat \<Rightarrow> nat \<Rightarrow> 'a list \<Rightarrow> 'a list" where
  "splice xs i r items = take i xs @ items @ drop (i + r) xs"

text \<open>The insertion in chunks of \<open>chunkSize\<close>; \<open>fuel\<close> is the number of items left.\<close>

fun insert_chunks :: "nat \<Rightarrow> 'a list \<Rightarrow> nat \<Rightarrow> 'a list \<Rightarrow> 'a list" where
  "insert_chunks 0 xs i items = xs"
| "insert_chunks (Suc fuel) xs i items =
     (if items = [] then xs
      else insert_chunks fuel (splice xs i 0 (take 10000 items)) (i + 10000) (drop 10000 items))"

fun edit_array :: "path \<Rightarrow> nat \<Rightarrow> nat \<Rightarrow> json list \<Rightarrow> json \<Rightarrow> delta_error + json" where
  "edit_array p i r items (JArr a xs) =
     Inr (JArr a (insert_chunks (length items) (splice xs i r []) i items))"
| "edit_array p i r items v = Inl (PathErr p)"

fun permute_array :: "path \<Rightarrow> nat list \<Rightarrow> json \<Rightarrow> delta_error + json" where
  "permute_array p order (JArr a xs) =
     (if length xs = length order then Inr (JArr a (map (\<lambda>i. xs ! i) order)) else Inl (PathErr p))"
| "permute_array p order v = Inl (PathErr p)"

text \<open>The checks on the last segment of a path when the parent is an array.\<close>

fun check_key :: "json \<Rightarrow> seg \<Rightarrow> delta_error option" where
  "check_key (JArr a xs) (SKey k) = Some (UnsafePath (JStr k))"
| "check_key (JArr a xs) (SIdx i) =
     (if i > length xs then Some (UnsafePath (JNum (Whole (int i)))) else None)"
| "check_key v seg = None"

fun delete_own :: "path \<Rightarrow> seg \<Rightarrow> json \<Rightarrow> delta_error + json" where
  "delete_own p (SIdx i) (JArr a xs) =
     (if i \<ge> length xs then Inl (PathErr p) else Inr (JArr a (splice xs i 1 [])))"
| "delete_own p seg (JObj a es) = Inr (JObj a (delete_property (seg_text seg) es))"
| "delete_own p seg v = Inl (PathErr p)"

text \<open>Rewriting the string a key holds.\<close>

definition rewrite_string :: "path \<Rightarrow> seg \<Rightarrow> (string \<Rightarrow> string) \<Rightarrow> json \<Rightarrow> delta_error + json" where
  "rewrite_string p key f parent =
     (case own_get parent key of
        Some (JStr s) \<Rightarrow> Inr (put_own parent key (JStr (f s)))
      | _ \<Rightarrow> Inl (PathErr p))"

definition edit_parent ::
  "json \<Rightarrow> path \<Rightarrow> (seg \<Rightarrow> json \<Rightarrow> delta_error + json) \<Rightarrow> delta_error + json" where
  "edit_parent doc p f =
     mutate_at doc (butlast p) (\<lambda>parent.
       case check_key parent (last p) of Some e \<Rightarrow> Inl e | None \<Rightarrow> f (last p) parent)"

text \<open>One validated operation on a defined document.\<close>

fun run_op :: "json \<Rightarrow> op \<Rightarrow> delta_error + json" where
  "run_op doc (OpR v) = Inr v"
| "run_op doc (OpP p i r items) = mutate_at doc p (edit_array p i r items)"
| "run_op doc (OpM p order) = mutate_at doc p (permute_array p order)"
| "run_op doc (OpS p v) = edit_parent doc p (\<lambda>key parent. Inr (put_own parent key v))"
| "run_op doc (OpD p) = edit_parent doc p (delete_own p)"
| "run_op doc (OpA p s) = edit_parent doc p (\<lambda>key. rewrite_string p key (\<lambda>t. t @ s))"
| "run_op doc (OpT p n) = edit_parent doc p (\<lambda>key. rewrite_string p key (drop n))"

text \<open>Before the first base the target is \<open>undefined\<close>, where no path resolves.\<close>

fun run_target :: "json option \<Rightarrow> op \<Rightarrow> delta_error + json" where
  "run_target (Some doc) w = run_op doc w"
| "run_target None w =
     (case w of
        OpR v \<Rightarrow> Inr v
      | OpP p i r items \<Rightarrow> Inl (PathErr p)
      | OpM p order \<Rightarrow> Inl (PathErr p)
      | OpS p v \<Rightarrow> Inl (PathErr (butlast p))
      | OpD p \<Rightarrow> Inl (PathErr (butlast p))
      | OpA p s \<Rightarrow> Inl (PathErr (butlast p))
      | OpT p n \<Rightarrow> Inl (PathErr (butlast p)))"

fun applyOps :: "json option \<Rightarrow> json list \<Rightarrow> delta_error + json option" where
  "applyOps target [] = Inr target"
| "applyOps target (raw # raws) =
     err_bind (assertValidOp raw) (\<lambda>w.
       err_bind (run_target target w) (\<lambda>doc. applyOps (Some doc) raws))"

subsection \<open>What operations mean on trees\<close>

text \<open>
  The specification: an operation is a partial function on trees. Addresses, key order and the
  reasons of failures are gone, and an array operation is a splice or a reordering.
\<close>

fun tree_get :: "tree \<Rightarrow> seg \<Rightarrow> tree option" where
  "tree_get (TArr ts) (SIdx i) = (if i < length ts then Some (ts ! i) else None)"
| "tree_get (TObj m) seg = m (seg_text seg)"
| "tree_get t seg = None"

fun tree_put :: "tree \<Rightarrow> seg \<Rightarrow> tree \<Rightarrow> tree" where
  "tree_put (TArr ts) (SIdx i) t = TArr (if i < length ts then ts[i := t] else ts @ [t])"
| "tree_put (TObj m) seg t = TObj (m(seg_text seg \<mapsto> t))"
| "tree_put t' seg t = t'"

fun tree_node :: "tree \<Rightarrow> bool" where
  "tree_node (TArr ts) \<longleftrightarrow> True"
| "tree_node (TObj m) \<longleftrightarrow> True"
| "tree_node t \<longleftrightarrow> False"

fun tree_edit :: "tree \<Rightarrow> path \<Rightarrow> (tree \<Rightarrow> tree option) \<Rightarrow> tree option" where
  "tree_edit t [] f = (if tree_node t then f t else None)"
| "tree_edit t (seg # p) f =
     (case tree_get t seg of
        None \<Rightarrow> None
      | Some c \<Rightarrow> map_option (tree_put t seg) (tree_edit c p f))"

fun tree_key_ok :: "seg \<Rightarrow> tree \<Rightarrow> bool" where
  "tree_key_ok (SIdx i) (TArr ts) \<longleftrightarrow> i \<le> length ts"
| "tree_key_ok (SKey k) (TArr ts) \<longleftrightarrow> False"
| "tree_key_ok seg t \<longleftrightarrow> True"

fun tree_delete :: "seg \<Rightarrow> tree \<Rightarrow> tree option" where
  "tree_delete (SIdx i) (TArr ts) = (if i < length ts then Some (TArr (splice ts i 1 [])) else None)"
| "tree_delete seg (TObj m) = Some (TObj (m(seg_text seg := None)))"
| "tree_delete seg t = None"

definition tree_rewrite :: "(string \<Rightarrow> string) \<Rightarrow> seg \<Rightarrow> tree \<Rightarrow> tree option" where
  "tree_rewrite f key t =
     (case tree_get t key of Some (TStr s) \<Rightarrow> Some (tree_put t key (TStr (f s))) | _ \<Rightarrow> None)"

fun tree_array :: "(tree list \<Rightarrow> tree list option) \<Rightarrow> tree \<Rightarrow> tree option" where
  "tree_array f (TArr ts) = map_option TArr (f ts)"
| "tree_array f t = None"

definition tree_parent :: "tree \<Rightarrow> path \<Rightarrow> (seg \<Rightarrow> tree \<Rightarrow> tree option) \<Rightarrow> tree option" where
  "tree_parent t p f =
     tree_edit t (butlast p) (\<lambda>u. if tree_key_ok (last p) u then f (last p) u else None)"

fun tree_op :: "tree \<Rightarrow> op \<Rightarrow> tree option" where
  "tree_op t (OpR v) = Some (tree_of v)"
| "tree_op t (OpP p i r items) =
     tree_edit t p (tree_array (\<lambda>ts. Some (splice ts i r (map tree_of items))))"
| "tree_op t (OpM p order) =
     tree_edit t p (tree_array (\<lambda>ts. if length ts = length order then Some (map (\<lambda>i. ts ! i) order) else None))"
| "tree_op t (OpS p v) = tree_parent t p (\<lambda>key u. Some (tree_put u key (tree_of v)))"
| "tree_op t (OpD p) = tree_parent t p tree_delete"
| "tree_op t (OpA p s) = tree_parent t p (tree_rewrite (\<lambda>u. u @ s))"
| "tree_op t (OpT p n) = tree_parent t p (tree_rewrite (drop n))"

fun tree_ops :: "tree \<Rightarrow> op list \<Rightarrow> tree option" where
  "tree_ops t [] = Some t"
| "tree_ops t (w # ws) = Option.bind (tree_op t w) (\<lambda>u. tree_ops u ws)"

lemma tree_ops_append: "tree_ops t (ws @ ws') = Option.bind (tree_ops t ws) (\<lambda>u. tree_ops u ws')"
  by (induction ws arbitrary: t) (auto split: bind_split)

subsection \<open>\<open>apply\<close> implements the specification\<close>

definition json_result :: "delta_error + json \<Rightarrow> tree option" where
  "json_result r = map_option tree_of (ok_value r)"

lemma json_result_simps [simp]:
  "json_result (Inl e) = None" "json_result (Inr v) = Some (tree_of v)"
  by (simp_all add: json_result_def)

lemma splice_none [simp]: "splice xs i 0 [] = xs"
  by (simp add: splice_def)

lemma splice_chunks:
  "length items \<le> fuel \<Longrightarrow> insert_chunks fuel xs i items = splice xs i 0 items"
proof (induction fuel arbitrary: xs i items)
  case (Suc fuel)
  show ?case
  proof (cases "items = []")
    case False
    let ?h = "take 10000 items" and ?t = "drop 10000 items"
    have "splice (splice xs i 0 ?h) (i + 10000) 0 ?t = splice xs i 0 items"
    proof (cases "i \<le> length xs \<and> 10000 \<le> length items")
      case True
      then show ?thesis by (simp add: splice_def min_absorb2)
    next
      case f: False
      show ?thesis
      proof (cases "10000 \<le> length items")
        case True
        with f have i: "length xs < i" by simp
        then have "10000 < i + 10000 - length xs" by simp
        with True i show ?thesis by (simp add: splice_def)
      next
        case False
        then show ?thesis by (simp add: splice_none)
      qed
    qed
    with Suc False show ?thesis by simp
  qed (simp add: splice_def)
qed (simp add: splice_def)

lemma splice_insert: "splice (splice xs i r []) i 0 items = splice xs i r items"
  by (cases "i \<le> length xs") (simp_all add: splice_def)

lemma map_splice: "map f (splice xs i r items) = splice (map f xs) i r (map f items)"
  by (simp add: splice_def take_map drop_map)

lemma tree_get_of: "tree_get (tree_of v) seg = map_option tree_of (own_get v seg)"
  by (cases v; cases seg) auto

lemma tree_put_of: "tree_of (put_own v seg w) = tree_put (tree_of v) seg (tree_of w)"
  by (cases v; cases seg) (auto simp: map_update map_of_define fun_eq_iff)

lemma tree_node_of [simp]: "tree_node (tree_of v) = isObj v"
  by (cases v) auto

lemma step_into_result:
  "ok_value (step_into whole node seg) = own_get node seg"
  by (cases node; cases seg) (auto simp: step_into_def split: option.split)

lemma mutate_from_tree:
  assumes "\<And>u. json_result (f u) = g (tree_of u)"
  shows "json_result (mutate_from whole f v p) = tree_edit (tree_of v) p g"
proof (induction p arbitrary: v)
  case Nil
  then show ?case using assms by simp
next
  case (Cons seg p)
  have s: "own_get v seg = ok_value (step_into whole v seg)" by (simp add: step_into_result)
  show ?case
  proof (cases "step_into whole v seg")
    case (Inl e)
    with s show ?thesis by (simp add: tree_get_of)
  next
    case (Inr c)
    with s Cons.IH [of c, symmetric] show ?thesis
      by (cases "mutate_from whole f c p") (simp_all add: tree_get_of tree_put_of)
  qed
qed

lemma mutate_at_tree:
  "(\<And>u. json_result (f u) = g (tree_of u)) \<Longrightarrow> json_result (mutate_at v p f) = tree_edit (tree_of v) p g"
  unfolding mutate_at_def by (rule mutate_from_tree)

lemma check_key_tree: "check_key u key = None \<longleftrightarrow> tree_key_ok key (tree_of u)"
  by (cases u; cases key) auto

lemma edit_parent_tree:
  assumes "\<And>u. tree_key_ok (last p) (tree_of u) \<Longrightarrow> json_result (f (last p) u) = g (last p) (tree_of u)"
  shows "json_result (edit_parent v p f) = tree_parent (tree_of v) p g"
  unfolding edit_parent_def tree_parent_def
proof (rule mutate_at_tree)
  fix u
  show "json_result (case check_key u (last p) of None \<Rightarrow> f (last p) u | Some e \<Rightarrow> Inl e) =
    (if tree_key_ok (last p) (tree_of u) then g (last p) (tree_of u) else None)"
  proof (cases "check_key u (last p)")
    case None
    then have "tree_key_ok (last p) (tree_of u)" using check_key_tree by blast
    with None assms show ?thesis by simp
  next
    case (Some e)
    then have "\<not> tree_key_ok (last p) (tree_of u)" using check_key_tree [of u "last p"] by simp
    with Some show ?thesis by simp
  qed
qed

lemma edit_array_tree:
  "json_result (edit_array p i r items u) =
     tree_array (\<lambda>ts. Some (splice ts i r (map tree_of items))) (tree_of u)"
  by (cases u) (simp_all add: splice_chunks splice_insert map_splice)

lemma permute_array_tree:
  assumes "list_all (\<lambda>i. i < length order) order"
  shows "json_result (permute_array p order u) =
    tree_array (\<lambda>ts. if length ts = length order then Some (map (\<lambda>i. ts ! i) order) else None) (tree_of u)"
  using assms by (cases u) (auto simp: list_all_iff)

lemma delete_own_tree: "json_result (delete_own p key u) = tree_delete key (tree_of u)"
  by (cases u; cases key) (auto simp: map_splice map_of_delete fun_eq_iff)

lemma rewrite_string_tree:
  "json_result (rewrite_string p key f u) = tree_rewrite f key (tree_of u)"
  unfolding rewrite_string_def tree_rewrite_def tree_get_of
  by (auto simp: tree_put_of split: option.split json.split tree.split)

text \<open>A permutation operation that passed the validator.\<close>

fun order_ok :: "op \<Rightarrow> bool" where
  "order_ok (OpM p order) \<longleftrightarrow> distinct order \<and> list_all (\<lambda>i. i < length order) order"
| "order_ok w \<longleftrightarrow> True"

lemma run_op_tree: "order_ok w \<Longrightarrow> json_result (run_op v w) = tree_op (tree_of v) w"
proof (cases w)
  case (OpP p i r items)
  then show ?thesis by (simp add: mutate_at_tree edit_array_tree)
next
  case (OpM p order)
  moreover assume "order_ok w"
  ultimately show ?thesis by (simp add: mutate_at_tree permute_array_tree)
qed (auto intro!: edit_parent_tree simp: tree_put_of delete_own_tree rewrite_string_tree)

subsection \<open>What the validator accepts\<close>

definition safe_seg :: "seg \<Rightarrow> bool" where
  "safe_seg seg \<longleftrightarrow> (case seg of SKey k \<Rightarrow> k \<notin> set RESERVED_SEGMENTS | SIdx i \<Rightarrow> True)"

abbreviation safe_path :: "path \<Rightarrow> bool" where
  "safe_path p \<equiv> list_all safe_seg p"

fun op_ok :: "op \<Rightarrow> bool" where
  "op_ok (OpR v) \<longleftrightarrow> True"
| "op_ok (OpS p v) \<longleftrightarrow> p \<noteq> [] \<and> safe_path p"
| "op_ok (OpD p) \<longleftrightarrow> p \<noteq> [] \<and> safe_path p"
| "op_ok (OpA p s) \<longleftrightarrow> p \<noteq> [] \<and> safe_path p"
| "op_ok (OpT p n) \<longleftrightarrow> p \<noteq> [] \<and> safe_path p"
| "op_ok (OpP p i r items) \<longleftrightarrow> safe_path p"
| "op_ok (OpM p order) \<longleftrightarrow> safe_path p \<and> distinct order \<and> list_all (\<lambda>i. i < length order) order"

lemma op_ok_order: "op_ok w \<Longrightarrow> order_ok w"
  by (cases w) auto

text \<open>The tuple an operation is as data; the address of a tuple is never read.\<close>

fun seg_value :: "seg \<Rightarrow> json" where
  "seg_value (SKey k) = JStr k"
| "seg_value (SIdx i) = JNum (Whole (int i))"

definition nat_value :: "nat \<Rightarrow> json" where "nat_value n = JNum (Whole (int n))"

definition path_value :: "path \<Rightarrow> json" where "path_value p = JArr 0 (map seg_value p)"

fun op_value :: "op \<Rightarrow> json" where
  "op_value (OpR v) = JArr 0 [JStr ''r'', v]"
| "op_value (OpS p v) = JArr 0 [JStr ''s'', path_value p, v]"
| "op_value (OpD p) = JArr 0 [JStr ''d'', path_value p]"
| "op_value (OpA p s) = JArr 0 [JStr ''a'', path_value p, JStr s]"
| "op_value (OpT p n) = JArr 0 [JStr ''t'', path_value p, nat_value n]"
| "op_value (OpP p i r items) =
     JArr 0 [JStr ''p'', path_value p, nat_value i, nat_value r, JArr 0 items]"
| "op_value (OpM p order) = JArr 0 [JStr ''m'', path_value p, JArr 0 (map nat_value order)]"

lemma nonNegative_value [simp]: "nonNegative (nat_value n) = Some n"
  by (simp add: nonNegative_def nat_value_def)

lemma assertSafePath_sound: "assertSafePath segs = Inr p \<Longrightarrow> safe_path p \<and> length p = length segs"
  by (induction segs arbitrary: p)
    (auto simp: err_bind_Inr safe_seg_def split: json.splits js_number.splits if_splits)

lemma assertSafePath_complete: "safe_path p \<Longrightarrow> assertSafePath (map seg_value p) = Inr p"
  by (induction p) (auto simp: safe_seg_def split: seg.splits)

lemma assertPathArg_sound:
  "assertPathArg v b = Inr p \<Longrightarrow> safe_path p \<and> (b \<longrightarrow> p \<noteq> [])"
  by (auto simp: assertPathArg_def dest: assertSafePath_sound split: json.splits if_splits)

lemma assertPathArg_complete:
  "safe_path p \<Longrightarrow> (b \<Longrightarrow> p \<noteq> []) \<Longrightarrow> assertPathArg (path_value p) b = Inr p"
  by (auto simp: assertPathArg_def path_value_def assertSafePath_complete)

lemma permutation_loop_sound:
  "permutation_loop seen vs = Inr order \<Longrightarrow>
     distinct order \<and> length order = length vs \<and>
     list_all (\<lambda>i. i < length seen \<and> \<not> seen ! i) order"
proof (induction seen vs arbitrary: order rule: permutation_loop.induct)
  case (2 seen v vs)
  then obtain i rest where i: "nonNegative v = Some i" "i < length seen" "\<not> seen ! i"
    "permutation_loop (seen[i := True]) vs = Inr rest" "order = i # rest"
    by (auto simp: err_bind_Inr not_le split: option.splits if_splits)
  then have ih: "distinct rest \<and> length rest = length vs \<and>
      list_all (\<lambda>j. j < length (seen[i := True]) \<and> \<not> seen[i := True] ! j) rest"
    using "2.IH" [OF i(1) _ i(4)] by simp
  have "j < length seen \<and> j \<noteq> i \<and> \<not> seen ! j" if "j \<in> set rest" for j
    using ih that i(2) by (cases "j = i") (auto simp: list_all_iff)
  with ih i show ?case by (auto simp: list_all_iff)
qed simp

lemma permutation_loop_complete:
  "distinct order \<Longrightarrow> list_all (\<lambda>i. i < length seen \<and> \<not> seen ! i) order \<Longrightarrow>
     permutation_loop seen (map nat_value order) = Inr order"
proof (induction order arbitrary: seen)
  case (Cons i order)
  have "list_all (\<lambda>j. j < length (seen[i := True]) \<and> \<not> seen[i := True] ! j) order"
    using Cons.prems by (auto simp: list_all_iff nth_list_update)
  with Cons show ?case by simp
qed simp

lemma assertPermutation_sound:
  "assertPermutation v = Inr order \<Longrightarrow> distinct order \<and> list_all (\<lambda>i. i < length order) order"
  by (auto simp: assertPermutation_def list_all_iff dest!: permutation_loop_sound split: json.splits)

lemma assertPermutation_complete:
  "distinct order \<Longrightarrow> list_all (\<lambda>i. i < length order) order \<Longrightarrow>
     assertPermutation (JArr a (map nat_value order)) = Inr order"
  by (auto simp: assertPermutation_def list_all_iff intro!: permutation_loop_complete)

lemma splice_shape_complete:
  "splice_shape (nat_value i) (nat_value r) (JArr a items) = Inr (i, r, items)"
  by (simp add: splice_shape_def)

lemma assertValidOp_tuple:
  "assertValidOp raw = Inr w \<Longrightarrow> \<exists>a verb args. raw = JArr a (JStr verb # args) \<and>
     verb \<in> {''r'', ''s'', ''d'', ''a'', ''t'', ''p'', ''m''}"
  unfolding assertValidOp_def
  by (cases raw) (simp_all split: list.splits json.splits if_splits)

lemma assertValidOp_sound:
  assumes "assertValidOp raw = Inr w"
  shows "op_ok w"
proof -
  obtain a verb args where raw: "raw = JArr a (JStr verb # args)"
    and v: "verb \<in> {''r'', ''s'', ''d'', ''a'', ''t'', ''p'', ''m''}"
    using assertValidOp_tuple [OF assms] by blast
  note facts = assms [unfolded raw assertValidOp_def]
  from v consider "verb = ''r''" | "verb = ''s''" | "verb = ''d''" | "verb = ''a''" | "verb = ''t''"
    | "verb = ''p''" | "verb = ''m''" by blast
  then show ?thesis
  proof cases
    case 1 with facts show ?thesis by (auto split: list.splits)
  next
    case 2 with facts show ?thesis by (auto simp: err_bind_Inr dest: assertPathArg_sound split: list.splits)
  next
    case 3 with facts show ?thesis by (auto simp: err_bind_Inr dest: assertPathArg_sound split: list.splits)
  next
    case 4 with facts show ?thesis
      by (auto simp: err_bind_Inr dest: assertPathArg_sound split: list.splits option.splits)
  next
    case 5 with facts show ?thesis
      by (auto simp: err_bind_Inr dest: assertPathArg_sound split: list.splits option.splits)
  next
    case 6 with facts show ?thesis by (auto simp: err_bind_Inr dest: assertPathArg_sound split: list.splits)
  next
    case 7 with facts show ?thesis
      by (auto simp: err_bind_Inr dest: assertPathArg_sound assertPermutation_sound split: list.splits)
  qed
qed

lemma assertValidOp_complete: "op_ok w \<Longrightarrow> assertValidOp (op_value w) = Inr w"
  by (cases w)
    (auto simp: assertValidOp_def assertPathArg_complete assertPermutation_complete splice_shape_complete)

text \<open>
  The validator of boundary data accepts exactly the well-formed operations: a tuple passes as
  operation \<open>w\<close> for some data only if \<open>w\<close> keeps to the rules (no reserved segment, no negative or
  fractional index, no root target for set, delete, append and truncate, and a permutation that is a
  bijection), and every such operation passes when written out as data.
\<close>

lemma validator_exact:
  "((\<exists>raw. assertValidOp raw = Inr w) \<longleftrightarrow> op_ok w) \<and> (assertValidOp (op_value w) = Inr w \<longleftrightarrow> op_ok w)"
  using assertValidOp_sound assertValidOp_complete by blast

subsection \<open>Overlap is correct\<close>

lemma overlap_scan_sound:
  "overlap_scan window b head r k = Some n \<Longrightarrow>
     n \<le> length window \<and> n \<le> length b \<and> drop (length window - n) window = take n b"
proof (induction window b head r k rule: overlap_scan.induct)
  case (3 window b head r k)
  show ?case
  proof (cases "length window - k \<le> length b \<and> drop k window = take (length window - k) b")
    case True
    with "3.prems" have n: "n = length window - k" by simp
    show ?thesis
    proof (cases "k \<le> length window")
      case True
      then have "length window - n = k" using n by simp
      with n \<open>length window - k \<le> length b \<and> _\<close> show ?thesis by simp
    qed (use n in simp)
  next
    case False
    with "3.prems" have "overlap_scan window b head r (index_from head window (k + 1)) = Some n"
      by (simp add: Let_def)
    with "3.IH" [OF refl False] show ?thesis by blast
  qed
qed simp_all

lemma overlap_in_sound:
  "overlap_in w b probe m \<le> length w \<and> overlap_in w b probe m \<le> length b \<and>
   drop (length w - overlap_in w b probe m) w = take (overlap_in w b probe m) b"
proof -
  have "overlap_in w b probe m = 0 \<or> (\<exists>h. overlap_head w b m h = Some (overlap_in w b probe m))"
    by (auto simp: overlap_in_def Let_def split: option.split)
  then show ?thesis
    using overlap_scan_sound [OF _ [folded overlap_head_def]] by (fastforce simp: overlap_head_def)
qed

lemma overlap_window: "drop (length a - n) a = x" if "drop (m - n) (drop (length a - m) a) = x" "n \<le> m" "m \<le> length a"
proof -
  have "m - n + (length a - m) = length a - n" using that by simp
  with that(1) show ?thesis by (simp add: drop_drop)
qed

lemma overlap_holds:
  "overlap a b scan probe m \<le> length a \<and> overlap a b scan probe m \<le> length b \<and>
   drop (length a - overlap a b scan probe m) a = take (overlap a b scan probe m) b"
proof (cases "a = [] \<or> b = [] \<or> scan = 0")
  case False
  define w where "w = (if length a > scan then drop (length a - scan) a else a)"
  define n where "n = overlap_in w b probe m"
  have n: "n \<le> length w" "n \<le> length b" "drop (length w - n) w = take n b"
    using overlap_in_sound [of w b probe m] by (simp_all add: n_def)
  have "n \<le> length a \<and> n \<le> length b \<and> drop (length a - n) a = take n b"
  proof (cases "length a > scan")
    case True
    then show ?thesis using n overlap_window [of scan n a "take n b"] by (simp add: w_def)
  qed (use n in \<open>simp add: w_def\<close>)
  then show ?thesis using False by (simp add: overlap_def n_def w_def)
qed (auto simp: overlap_def)

text \<open>
  Overlap is never wrong, however it is cut short. For every scan window, probe length and
  candidate budget the returned length \<open>n\<close> is one for which the last \<open>n\<close> characters of the first
  string are the first \<open>n\<close> of the second.
\<close>

lemma overlap_sound:
  "overlap a b scan probe m \<le> length a \<and> overlap a b scan probe m \<le> length b \<and>
   drop (length a - overlap a b scan probe m) a = take (overlap a b scan probe m) b"
  by (rule overlap_holds)

subsection \<open>Batches\<close>

text \<open>The operations of a batch of boundary data, if all are valid.\<close>

definition read_batch :: "json list \<Rightarrow> op list option" where
  "read_batch raws = those (map (\<lambda>raw. ok_value (assertValidOp raw)) raws)"

lemma read_batch_simps [simp]:
  "read_batch [] = Some []"
  "read_batch (raw # raws) =
     (case assertValidOp raw of
        Inl e \<Rightarrow> None | Inr w \<Rightarrow> map_option ((#) w) (read_batch raws))"
  by (simp_all add: read_batch_def split: sum.split)

lemma read_batch_values: "list_all op_ok ws \<Longrightarrow> read_batch (map op_value ws) = Some ws"
  by (induction ws) (simp_all add: assertValidOp_complete)

lemma applyOps_tree:
  "map_option (map_option tree_of) (ok_value (applyOps (Some v) raws)) =
     Option.bind (read_batch raws) (\<lambda>ws. map_option Some (tree_ops (tree_of v) ws))"
proof (induction raws arbitrary: v)
  case (Cons raw raws)
  show ?case
  proof (cases "assertValidOp raw")
    case (Inr w)
    then have run: "json_result (run_op v w) = tree_op (tree_of v) w"
      by (intro run_op_tree op_ok_order assertValidOp_sound)
    show ?thesis
    proof (cases "run_op v w")
      case (Inl e)
      with run [symmetric] \<open>assertValidOp raw = Inr w\<close> show ?thesis
        by (cases "read_batch raws") simp_all
    next
      case u: (Inr u)
      with run [symmetric] Inr Cons [of u] show ?thesis
        by (cases "read_batch raws") simp_all
    qed
  qed simp
qed simp

text \<open>
  C17. \<open>apply\<close> implements the specification. On any document and any batch of boundary data, what
  \<open>apply\<close> returns, read as a tree, is what the batch's operations mean on trees; it throws exactly
  when some element is not a valid operation or some operation is undefined on the tree it meets.
  Addresses and key order never matter, and inserting in chunks of ten thousand is a splice.
\<close>

theorem apply_refines_trees:
  "map_option (map_option tree_of) (ok_value (applyOps (Some v) raws)) =
     (case read_batch raws of
        None \<Rightarrow> None
      | Some ws \<Rightarrow> map_option Some (tree_ops (tree_of v) ws))"
  unfolding applyOps_tree by (cases "read_batch raws") simp_all

text \<open>Boundary data whose path has a segment that reaches the prototype chain.\<close>

definition reaches_prototype :: "json \<Rightarrow> bool" where
  "reaches_prototype raw \<longleftrightarrow>
     (\<exists>a verb b segs args. raw = JArr a (JStr verb # JArr b segs # args) \<and> verb \<noteq> ''r'' \<and>
        list_ex (\<lambda>k. JStr k \<in> set segs) RESERVED_SEGMENTS)"

lemma reserved_path_rejected:
  "k \<in> set RESERVED_SEGMENTS \<Longrightarrow> JStr k \<in> set segs \<Longrightarrow> \<exists>e. assertSafePath segs = Inl e"
proof (induction segs)
  case (Cons s segs)
  show ?case
  proof (cases "s = JStr k")
    case False
    with Cons obtain e where "assertSafePath segs = Inl e" by auto
    then show ?thesis by (auto split: json.split js_number.split)
  qed (use Cons in simp)
qed simp

lemma reserved_arg_rejected:
  assumes "k \<in> set RESERVED_SEGMENTS" "JStr k \<in> set segs"
  shows "\<exists>e. assertPathArg (JArr b segs) n = Inl e"
  using reserved_path_rejected [OF assms] by (auto simp: assertPathArg_def)

lemma reserved_op_rejected:
  assumes "reaches_prototype raw"
  shows "\<exists>e. assertValidOp raw = Inl e"
proof (rule ccontr)
  assume "\<nexists>e. assertValidOp raw = Inl e"
  then obtain w where w: "assertValidOp raw = Inr w" by (cases "assertValidOp raw") auto
  from assms obtain a verb b segs args k where raw: "raw = JArr a (JStr verb # JArr b segs # args)"
    and v: "verb \<noteq> ''r''" and k: "k \<in> set RESERVED_SEGMENTS" "JStr k \<in> set segs"
    by (auto simp: reaches_prototype_def list_ex_iff)
  have bad: "assertPathArg (JArr b segs) n \<noteq> Inr p" for n p
    using reserved_arg_rejected [OF k, of b n] by auto
  from assertValidOp_tuple [OF w] v raw
  consider "verb = ''s''" | "verb = ''d''" | "verb = ''a''" | "verb = ''t''" | "verb = ''p''" | "verb = ''m''"
    by blast
  then show False
    using w [unfolded raw assertValidOp_def] bad
    by cases (auto simp: err_bind_Inr split: list.splits option.splits)
qed

text \<open>
  No operation reaches the prototype chain. A batch in which any operation but a replacement has
  \<open>__proto__\<close>, \<open>constructor\<close> or \<open>prototype\<close> anywhere on its path never applies: \<open>apply\<close> throws,
  whatever the document and whatever surrounds that operation.
\<close>

lemma prototype_never_reached:
  assumes "raw \<in> set raws" and "reaches_prototype raw"
  shows "\<exists>e. applyOps target raws = Inl e"
  using assms(1)
proof (induction raws arbitrary: target)
  case (Cons r raws)
  show ?case
  proof (cases "raw = r")
    case True
    with reserved_op_rejected [OF assms(2)] show ?thesis by auto
  next
    case False
    with Cons have ih: "\<exists>e. applyOps t raws = Inl e" for t by simp
    show ?thesis
    proof (cases "assertValidOp r")
      case (Inr w)
      with ih show ?thesis by (cases "run_target target w") auto
    qed simp
  qed
qed simp

end
