(* ===== verification/Delta_Codec.thy ===== *)
theory Delta_Codec
  imports Delta
begin

text \<open>
  The wire codec of operation batches (\<open>packages/chord/src/delta/index.ts\<close>, from \<open>pathKey\<close> on, and
  \<open>assertValidWireOp\<close>). The encoder writes a path inline on its first use, defines an id on its
  second, refers to the id afterwards and leaves the path out when it repeats the previous one; a
  replacement clears the dictionary. The decoder is given untyped data and validates it. The state of
  an encoder or decoder is a record that the calls pass along; a decoder that throws keeps what it
  had learnt, so its state is returned with every outcome.
\<close>

subsection \<open>Path keys identify paths\<close>

text \<open>Reading one escaped character back.\<close>

fun unescape :: "string \<Rightarrow> (char \<times> string) option" where
  "unescape [] = None"
| "unescape (c # x) =
     (if c \<noteq> backslash then Some (c, x)
      else case x of
        [] \<Rightarrow> None
      | e # y \<Rightarrow>
          if e = CHR ''b'' then Some (CHR 0x08, y)
          else if e = CHR ''f'' then Some (CHR 0x0C, y)
          else if e = CHR ''n'' then Some (CHR 0x0A, y)
          else if e = CHR ''r'' then Some (CHR 0x0D, y)
          else if e = CHR ''t'' then Some (CHR 0x09, y)
          else if e = CHR ''u'' then Some (char_of (digit_val (y ! 2) * 16 + digit_val (y ! 3)), drop 4 y)
          else Some (e, y))"

lemma unescape_escape: "unescape (escape_char c @ x) = Some (c, x)"
proof -
  have "char_of (of_char c div 16 * 16 + of_char c mod 16 :: nat) = c" by simp
  moreover have "(of_char c :: nat) div 16 < 16" if "(of_char c :: nat) < 32" using that by simp
  ultimately show ?thesis by (simp add: escape_char_def)
qed

lemma escape_not_quote [simp]: "escape_char c @ z \<noteq> dquote # x" "dquote # x \<noteq> escape_char c @ z"
  by (auto simp: escape_char_def)

lemma escaped_text_unique:
  "concat (map escape_char s) @ dquote # x = concat (map escape_char t) @ dquote # y \<Longrightarrow> s = t \<and> x = y"
proof (induction s arbitrary: t)
  case Nil
  then show ?case by (cases t) simp_all
next
  case (Cons c s)
  then obtain d t' where t: "t = d # t'" by (cases t) simp_all
  with Cons.prems have eq: "escape_char c @ concat (map escape_char s) @ dquote # x =
      escape_char d @ concat (map escape_char t') @ dquote # y" by simp
  from arg_cong [OF eq, of unescape] have "c = d"
    "concat (map escape_char s) @ dquote # x = concat (map escape_char t') @ dquote # y"
    by (simp_all only: unescape_escape option.inject prod.inject)
  with Cons.IH [of t'] t show ?case by simp
qed

lemma quote_unique: "quote_string s @ x = quote_string t @ y \<Longrightarrow> s = t \<and> x = y"
  by (auto simp: quote_string_def dest: escaped_text_unique)

definition after_seg :: "string \<Rightarrow> bool" where
  "after_seg x \<longleftrightarrow> x \<noteq> [] \<and> \<not> is_digit (hd x)"

lemma digits_unique:
  assumes "list_all is_digit s" "list_all is_digit t" "after_seg x" "after_seg y" "s @ x = t @ y"
  shows "s = t \<and> x = y"
proof -
  have "takeWhile is_digit (s @ x) = s"
    using assms(1,3) by (cases x) (auto simp: after_seg_def list_all_iff takeWhile_append)
  moreover have "takeWhile is_digit (t @ y) = t"
    using assms(2,4) by (cases y) (auto simp: after_seg_def list_all_iff takeWhile_append)
  ultimately show ?thesis using assms(5) by simp
qed

lemma seg_json_unique:
  assumes "after_seg x" "after_seg y" "seg_json a @ x = seg_json b @ y"
  shows "a = b \<and> x = y"
proof -
  have clash: "quote_string s @ u \<noteq> dec_string n @ v" for s u n v
    using dec_string_digits [of n] dec_string_nonempty [of n]
    by (cases "dec_string n") (auto simp: quote_string_def is_digit_def digits10_def)
  show ?thesis
  proof (cases a; cases b)
    fix s t assume "a = SKey s" "b = SKey t"
    with assms(3) quote_unique [of s x t y] show ?thesis by simp
  next
    fix s n assume "a = SKey s" "b = SIdx n"
    with assms(3) clash show ?thesis by simp
  next
    fix m t assume "a = SIdx m" "b = SKey t"
    with assms(3) clash [of t y m x] show ?thesis by simp
  next
    fix m n assume "a = SIdx m" "b = SIdx n"
    with assms digits_unique [OF dec_string_digits dec_string_digits assms(1,2), of m n]
    show ?thesis by (simp add: dec_string_inj)
  qed
qed

fun segs_tail :: "path \<Rightarrow> string" where
  "segs_tail [] = '']''"
| "segs_tail (a # p) = CHR '','' # seg_json a @ segs_tail p"

lemma segs_tail_after: "after_seg (segs_tail p)"
  by (cases p) (simp_all add: after_seg_def is_digit_def digits10_def)

lemma segs_tail_inj: "segs_tail p = segs_tail q \<Longrightarrow> p = q"
proof (induction p arbitrary: q)
  case Nil
  then show ?case by (cases q) simp_all
next
  case (Cons a p)
  then obtain b q' where "q = b # q'" by (cases q) simp_all
  with Cons seg_json_unique [OF segs_tail_after segs_tail_after, of a p b q'] show ?case by simp
qed

lemma pathKey_tail:
  "pathKey [] = ''[]''" "pathKey (a # p) = CHR ''['' # seg_json a @ segs_tail p"
proof -
  show "pathKey (a # p) = CHR ''['' # seg_json a @ segs_tail p"
  proof (induction p arbitrary: a)
    case (Cons b p)
    then show ?case by (simp add: pathKey_def join_str_Cons)
  qed (simp add: pathKey_def)
qed (simp add: pathKey_def)

lemma seg_json_nonempty: "seg_json a \<noteq> []" "hd (seg_json a) \<noteq> CHR '']''"
proof -
  show "hd (seg_json a) \<noteq> CHR '']''"
  proof (cases a)
    case (SIdx n)
    then show ?thesis using dec_string_digits [of n] dec_string_nonempty [of n]
      by (cases "dec_string n") (auto simp: is_digit_def digits10_def)
  qed (simp add: quote_string_def)
qed (cases a; simp add: quote_string_def)

lemma pathKey_eq: "pathKey p = pathKey q \<longleftrightarrow> p = q"
proof
  assume eq: "pathKey p = pathKey q"
  show "p = q"
  proof (cases p)
    case Nil
    show ?thesis
    proof (cases q)
      case (Cons b q')
      with eq Nil have "seg_json b @ segs_tail q' = '']''" by (simp add: pathKey_tail)
      then show ?thesis using seg_json_nonempty [of b] by (metis hd_append2 list.sel(1))
    qed (use Nil in simp)
  next
    case (Cons a p')
    show ?thesis
    proof (cases q)
      case Nil
      with eq Cons have "seg_json a @ segs_tail p' = '']''" by (simp add: pathKey_tail)
      then show ?thesis using seg_json_nonempty [of a] by (metis hd_append2 list.sel(1))
    next
      case (Cons b q')
      with eq \<open>p = a # p'\<close> have "seg_json a @ segs_tail p' = seg_json b @ segs_tail q'"
        by (simp add: pathKey_tail)
      from seg_json_unique [OF segs_tail_after segs_tail_after this] segs_tail_inj Cons \<open>p = a # p'\<close>
      show ?thesis by simp
    qed
  qed
qed simp

text \<open>
  Path keys identify paths: the encoder's key of a path, its \<open>JSON.stringify\<close> text, is the same for
  two paths only if they are the same path. A key \<open>"1"\<close> and an index \<open>1\<close>, keys with quotes,
  backslashes, control characters, commas or brackets are never confused.
\<close>

lemma pathKey_injective: "pathKey p = pathKey q \<longleftrightarrow> p = q"
  by (rule pathKey_eq)

subsection \<open>Wire operations\<close>

datatype path_ref = Inline path | PathId nat

text \<open>An absent reference is the short form that reuses the previous path.\<close>

datatype wire_op =
    WR json
  | WS "path_ref option" json
  | WD "path_ref option"
  | WA "path_ref option" string
  | WT "path_ref option" nat
  | WP "path_ref option" nat nat "json list"
  | WM "path_ref option" "nat list"
  | WDef nat path

definition okRef :: "json \<Rightarrow> delta_error + path_ref" where
  "okRef r =
     (case r of
        JNum n \<Rightarrow>
          (case nonNegative r of
             None \<Rightarrow> Inl (TypeErr ''bad path id'') | Some i \<Rightarrow> Inr (PathId i))
      | JArr a segs \<Rightarrow> err_bind (assertSafePath segs) (\<lambda>p. Inr (Inline p))
      | _ \<Rightarrow> Inl (TypeErr ''path is not an array''))"

definition string_value :: "json \<Rightarrow> delta_error + string" where
  "string_value v = (case string_arg v of None \<Rightarrow> Inl (TypeErr ''a value'') | Some s \<Rightarrow> Inr s)"

definition count_value :: "json \<Rightarrow> delta_error + nat" where
  "count_value v = (case nonNegative v of None \<Rightarrow> Inl (TypeErr ''t count'') | Some n \<Rightarrow> Inr n)"

definition define_args :: "json \<Rightarrow> json \<Rightarrow> delta_error + wire_op" where
  "define_args i p =
     (case nonNegative i of
        None \<Rightarrow> Inl (TypeErr ''# shape'')
      | Some n \<Rightarrow>
          (case p of
             JArr a segs \<Rightarrow> err_bind (assertSafePath segs) (\<lambda>path. Inr (WDef n path))
           | _ \<Rightarrow> Inl (TypeErr ''# shape'')))"

definition assertValidWireOp :: "json \<Rightarrow> delta_error + wire_op" where
  "assertValidWireOp raw =
     (case raw of
        JArr a (JStr verb # args) \<Rightarrow>
          if verb = ''r'' then
            (case args of [v] \<Rightarrow> Inr (WR v) | _ \<Rightarrow> Inl (TypeErr ''r arity''))
          else if verb = ''s'' then
            (case args of
               [r, v] \<Rightarrow> err_bind (okRef r) (\<lambda>ref. Inr (WS (Some ref) v))
             | [v] \<Rightarrow> Inr (WS None v)
             | _ \<Rightarrow> Inl (TypeErr ''s arity''))
          else if verb = ''d'' then
            (case args of
               [r] \<Rightarrow> err_bind (okRef r) (\<lambda>ref. Inr (WD (Some ref)))
             | [] \<Rightarrow> Inr (WD None)
             | _ \<Rightarrow> Inl (TypeErr ''d arity''))
          else if verb = ''a'' then
            (case args of
               [r, v] \<Rightarrow>
                 err_bind (okRef r) (\<lambda>ref. err_bind (string_value v) (\<lambda>s. Inr (WA (Some ref) s)))
             | [v] \<Rightarrow> err_bind (string_value v) (\<lambda>s. Inr (WA None s))
             | _ \<Rightarrow> Inl (TypeErr ''a arity''))
          else if verb = ''t'' then
            (case args of
               [r, v] \<Rightarrow>
                 err_bind (okRef r) (\<lambda>ref. err_bind (count_value v) (\<lambda>n. Inr (WT (Some ref) n)))
             | [v] \<Rightarrow> err_bind (count_value v) (\<lambda>n. Inr (WT None n))
             | _ \<Rightarrow> Inl (TypeErr ''t arity''))
          else if verb = ''p'' then
            (case args of
               [r, i, n, items] \<Rightarrow>
                 err_bind (okRef r) (\<lambda>ref.
                   err_bind (splice_shape i n items) (\<lambda>(index, remove, xs).
                     Inr (WP (Some ref) index remove xs)))
             | [i, n, items] \<Rightarrow>
                 err_bind (splice_shape i n items) (\<lambda>(index, remove, xs).
                   Inr (WP None index remove xs))
             | _ \<Rightarrow> Inl (TypeErr ''p arity''))
          else if verb = ''m'' then
            (case args of
               [r, perm] \<Rightarrow>
                 err_bind (okRef r) (\<lambda>ref.
                   err_bind (assertPermutation perm) (\<lambda>order. Inr (WM (Some ref) order)))
             | [perm] \<Rightarrow> err_bind (assertPermutation perm) (\<lambda>order. Inr (WM None order))
             | _ \<Rightarrow> Inl (TypeErr ''m arity''))
          else if verb = ''#'' then
            (case args of [i, p] \<Rightarrow> define_args i p | _ \<Rightarrow> Inl (TypeErr ''# shape''))
          else Inl (TypeErr (''unknown op verb: '' @ verb))
      | JArr a (v # args) \<Rightarrow> Inl (TypeErr ''unknown op verb'')
      | _ \<Rightarrow> Inl (TypeErr ''op is not a tuple''))"

fun ref_value :: "path_ref \<Rightarrow> json" where
  "ref_value (Inline p) = path_value p"
| "ref_value (PathId i) = nat_value i"

definition ref_args :: "path_ref option \<Rightarrow> json list" where
  "ref_args r = (case r of None \<Rightarrow> [] | Some ref \<Rightarrow> [ref_value ref])"

fun wire_value :: "wire_op \<Rightarrow> json" where
  "wire_value (WR v) = JArr 0 [JStr ''r'', v]"
| "wire_value (WS r v) = JArr 0 (JStr ''s'' # ref_args r @ [v])"
| "wire_value (WD r) = JArr 0 (JStr ''d'' # ref_args r)"
| "wire_value (WA r s) = JArr 0 (JStr ''a'' # ref_args r @ [JStr s])"
| "wire_value (WT r n) = JArr 0 (JStr ''t'' # ref_args r @ [nat_value n])"
| "wire_value (WP r i n items) =
     JArr 0 (JStr ''p'' # ref_args r @ [nat_value i, nat_value n, JArr 0 items])"
| "wire_value (WM r order) = JArr 0 (JStr ''m'' # ref_args r @ [JArr 0 (map nat_value order)])"
| "wire_value (WDef i p) = JArr 0 [JStr ''#'', nat_value i, path_value p]"

subsection \<open>The encoder\<close>

record encoder_state =
  seen :: "string list"
  ids :: "string \<Rightarrow> nat option"
  nextId :: nat

definition encoder :: encoder_state where
  "encoder = \<lparr>seen = [], ids = (\<lambda>_. None), nextId = 0\<rparr>"

text \<open>The tuple of an operation with its path replaced by a reference, or left out.\<close>

fun with_ref :: "path_ref option \<Rightarrow> op \<Rightarrow> wire_op" where
  "with_ref r (OpR v) = WR v"
| "with_ref r (OpS p v) = WS r v"
| "with_ref r (OpD p) = WD r"
| "with_ref r (OpA p s) = WA r s"
| "with_ref r (OpT p n) = WT r n"
| "with_ref r (OpP p i n items) = WP r i n items"
| "with_ref r (OpM p order) = WM r order"

fun op_path :: "op \<Rightarrow> path" where
  "op_path (OpR v) = []"
| "op_path (OpS p v) = p"
| "op_path (OpD p) = p"
| "op_path (OpA p s) = p"
| "op_path (OpT p n) = p"
| "op_path (OpP p i n items) = p"
| "op_path (OpM p order) = p"

text \<open>The reference of a path that differs from the previous one, and its definition if it is new.\<close>

definition intern :: "encoder_state \<Rightarrow> path \<Rightarrow> encoder_state \<times> wire_op list \<times> path_ref" where
  "intern e p =
     (let key = pathKey p in
      case ids e key of
        Some i \<Rightarrow> (e, [], PathId i)
      | None \<Rightarrow>
          if key \<in> set (seen e) then
            (e\<lparr>ids := (ids e)(key \<mapsto> nextId e), nextId := nextId e + 1\<rparr>, [WDef (nextId e) p],
             PathId (nextId e))
          else (e\<lparr>seen := key # seen e\<rparr>, [], Inline p))"

fun encode_from :: "encoder_state \<Rightarrow> string option \<Rightarrow> op list \<Rightarrow> encoder_state \<times> wire_op list" where
  "encode_from e previous [] = (e, [])"
| "encode_from e previous (w # ws) =
     (if is_replace w then
        (let (e', out) = encode_from encoder None ws in (e', with_ref None w # out))
      else if previous = Some (pathKey (op_path w)) then
        (let (e', out) = encode_from e previous ws in (e', with_ref None w # out))
      else
        (let (e1, def, ref) = intern e (op_path w);
             (e', out) = encode_from e1 (Some (pathKey (op_path w))) ws
         in (e', def @ with_ref (Some ref) w # out)))"

definition encode :: "encoder_state \<Rightarrow> op list \<Rightarrow> encoder_state \<times> wire_op list" where
  "encode e ws = encode_from e None ws"

subsection \<open>The decoder\<close>

type_synonym decoder_state = "nat \<Rightarrow> path option"

definition decoder :: decoder_state where "decoder = (\<lambda>_. None)"

fun wire_ref :: "wire_op \<Rightarrow> path_ref option" where
  "wire_ref (WS r v) = r"
| "wire_ref (WD r) = r"
| "wire_ref (WA r s) = r"
| "wire_ref (WT r n) = r"
| "wire_ref (WP r i n items) = r"
| "wire_ref (WM r order) = r"
| "wire_ref _ = None"

text \<open>The path of a wire operation: the previous one, an id's, or the one written out.\<close>

definition decode_path :: "decoder_state \<Rightarrow> path option \<Rightarrow> path_ref option \<Rightarrow> delta_error + path" where
  "decode_path d previous r =
     (case r of
        None \<Rightarrow> (case previous of None \<Rightarrow> Inl (PathErr []) | Some p \<Rightarrow> Inr p)
      | Some (PathId i) \<Rightarrow> (case d i of None \<Rightarrow> Inl (PathIdErr i) | Some p \<Rightarrow> Inr p)
      | Some (Inline p) \<Rightarrow> Inr p)"

fun with_path :: "path \<Rightarrow> wire_op \<Rightarrow> op" where
  "with_path p (WS r v) = OpS p v"
| "with_path p (WD r) = OpD p"
| "with_path p (WA r s) = OpA p s"
| "with_path p (WT r n) = OpT p n"
| "with_path p (WP r i n items) = OpP p i n items"
| "with_path p (WM r order) = OpM p order"
| "with_path p (WR v) = OpR v"
| "with_path p (WDef i q) = OpR JNull"

fun array_verb :: "wire_op \<Rightarrow> bool" where
  "array_verb (WP r i n items) \<longleftrightarrow> True"
| "array_verb (WM r order) \<longleftrightarrow> True"
| "array_verb _ \<longleftrightarrow> False"

fun decode_from ::
  "decoder_state \<Rightarrow> path option \<Rightarrow> json list \<Rightarrow> decoder_state \<times> (delta_error + op list)" where
  "decode_from d previous [] = (d, Inr [])"
| "decode_from d previous (raw # raws) =
     (case assertValidWireOp raw of
        Inl e \<Rightarrow> (d, Inl e)
      | Inr (WDef i p) \<Rightarrow> decode_from (d(i \<mapsto> p)) previous raws
      | Inr (WR v) \<Rightarrow>
          (let (d', r) = decode_from decoder None raws
           in (d', err_bind r (\<lambda>ws. Inr (OpR v # ws))))
      | Inr w \<Rightarrow>
          (case decode_path d previous (wire_ref w) of
             Inl e \<Rightarrow> (d, Inl e)
           | Inr p \<Rightarrow>
               if \<not> array_verb w \<and> p = [] then (d, Inl (PathErr p))
               else
                 let (d', r) = decode_from d (Some p) raws
                 in (d', err_bind r (\<lambda>ws. Inr (with_path p w # ws)))))"

definition decode :: "decoder_state \<Rightarrow> json list \<Rightarrow> decoder_state \<times> (delta_error + op list)" where
  "decode d raws = decode_from d None raws"

subsection \<open>What the wire validator accepts\<close>

fun ref_ok :: "path_ref option \<Rightarrow> bool" where
  "ref_ok (Some (Inline p)) \<longleftrightarrow> safe_path p"
| "ref_ok r \<longleftrightarrow> True"

fun wire_ok :: "wire_op \<Rightarrow> bool" where
  "wire_ok (WR v) \<longleftrightarrow> True"
| "wire_ok (WS r v) \<longleftrightarrow> ref_ok r"
| "wire_ok (WD r) \<longleftrightarrow> ref_ok r"
| "wire_ok (WA r s) \<longleftrightarrow> ref_ok r"
| "wire_ok (WT r n) \<longleftrightarrow> ref_ok r"
| "wire_ok (WP r i n items) \<longleftrightarrow> ref_ok r"
| "wire_ok (WM r order) \<longleftrightarrow> ref_ok r \<and> distinct order \<and> list_all (\<lambda>i. i < length order) order"
| "wire_ok (WDef i p) \<longleftrightarrow> safe_path p"

lemma okRef_complete: "ref_ok (Some r) \<Longrightarrow> okRef (ref_value r) = Inr r"
  by (cases r) (auto simp: okRef_def path_value_def assertSafePath_complete nat_value_def nonNegative_def)

lemma okRef_sound: "okRef v = Inr r \<Longrightarrow> ref_ok (Some r)"
  by (auto simp: okRef_def err_bind_Inr dest: assertSafePath_sound split: json.splits option.splits)

lemma ref_args_simps [simp]: "ref_args None = []" "ref_args (Some r) = [ref_value r]"
  by (simp_all add: ref_args_def)

lemma assertValidWireOp_complete:
  assumes "wire_ok w"
  shows "assertValidWireOp (wire_value w) = Inr w"
proof (cases w)
  case (WS r v)
  with assms show ?thesis by (cases r) (simp_all add: assertValidWireOp_def okRef_complete)
next
  case (WD r)
  with assms show ?thesis by (cases r) (simp_all add: assertValidWireOp_def okRef_complete)
next
  case (WA r s)
  with assms show ?thesis by (cases r) (simp_all add: assertValidWireOp_def okRef_complete string_value_def)
next
  case (WT r n)
  with assms show ?thesis by (cases r) (simp_all add: assertValidWireOp_def okRef_complete count_value_def)
next
  case (WP r i n items)
  with assms show ?thesis
    by (cases r) (simp_all add: assertValidWireOp_def okRef_complete splice_shape_complete)
next
  case (WM r order)
  with assms show ?thesis
    by (cases r) (simp_all add: assertValidWireOp_def okRef_complete assertPermutation_complete)
next
  case (WDef i p)
  with assms show ?thesis
    by (simp add: assertValidWireOp_def define_args_def path_value_def assertSafePath_complete)
qed (simp add: assertValidWireOp_def)

lemma with_ref_ok: "op_ok w \<Longrightarrow> ref_ok r \<Longrightarrow> wire_ok (with_ref r w)"
  by (cases w) simp_all

lemma op_ok_path: "op_ok w \<Longrightarrow> safe_path (op_path w)"
  by (cases w) simp_all

subsection \<open>Decoding what was encoded\<close>

text \<open>The decoder knows every id the encoder may still refer to.\<close>

definition tracks :: "encoder_state \<Rightarrow> decoder_state \<Rightarrow> bool" where
  "tracks e d \<longleftrightarrow> (\<forall>key i. ids e key = Some i \<longrightarrow>
     i < nextId e \<and> (\<exists>p. pathKey p = key \<and> d i = Some p))"

definition same_previous :: "string option \<Rightarrow> path option \<Rightarrow> bool" where
  "same_previous k p \<longleftrightarrow> (case k of None \<Rightarrow> True | Some key \<Rightarrow> map_option pathKey p = Some key)"

lemma tracks_fresh: "tracks encoder d"
  by (simp add: tracks_def encoder_def)

lemma decode_definition:
  "safe_path p \<Longrightarrow> decode_from d prev (wire_value (WDef i p) # raws) = decode_from (d(i \<mapsto> p)) prev raws"
  using assertValidWireOp_complete [of "WDef i p"] by (simp del: wire_value.simps)

lemma decode_replacement:
  "decode_from d prev (wire_value (WR v) # raws) =
     (let (d', r) = decode_from decoder None raws in (d', err_bind r (\<lambda>ws. Inr (OpR v # ws))))"
  using assertValidWireOp_complete [of "WR v"] by (simp del: wire_value.simps)

declare decode_from.simps(2) [simp del]

lemma decode_operation:
  assumes "op_ok w" "\<not> is_replace w" "ref_ok r" "decode_path d prev r = Inr (op_path w)"
  shows "decode_from d prev (wire_value (with_ref r w) # raws) =
    (let (d', res) = decode_from d (Some (op_path w)) raws
     in (d', err_bind res (\<lambda>ws. Inr (w # ws))))"
proof -
  have v: "assertValidWireOp (wire_value (with_ref r w)) = Inr (with_ref r w)"
    using assms by (intro assertValidWireOp_complete with_ref_ok)
  show ?thesis
    using assms v by (cases w) (simp_all add: decode_from.simps(2) del: wire_value.simps)
qed

lemma intern_tracks:
  assumes "intern e p = (e1, def, ref)" "tracks e d" "safe_path p"
  shows "\<exists>d1. tracks e1 d1 \<and> ref_ok (Some ref) \<and> decode_path d1 prev (Some ref) = Inr p \<and>
    (\<forall>raws. decode_from d prev (map wire_value def @ raws) = decode_from d1 prev raws)"
proof (cases "ids e (pathKey p)")
  case (Some i)
  with assms(1) have i: "e1 = e" "def = []" "ref = PathId i" by (simp_all add: intern_def)
  from assms(2) Some have "d i = Some p" unfolding tracks_def by (metis pathKey_eq)
  with i assms(2) show ?thesis by (intro exI [of _ d]) (simp add: decode_path_def)
next
  case None
  show ?thesis
  proof (cases "pathKey p \<in> set (seen e)")
    case True
    with None assms(1) have i: "e1 = e\<lparr>ids := (ids e)(pathKey p \<mapsto> nextId e), nextId := nextId e + 1\<rparr>"
      "def = [WDef (nextId e) p]" "ref = PathId (nextId e)" by (simp_all add: intern_def)
    have "tracks e1 (d(nextId e \<mapsto> p))"
      using assms(2) by (force simp: tracks_def i)
    with i assms(3) show ?thesis
      by (intro exI [of _ "d(nextId e \<mapsto> p)"]) (simp add: decode_path_def decode_definition del: wire_value.simps)
  next
    case False
    with None assms(1) have i: "e1 = e\<lparr>seen := pathKey p # seen e\<rparr>" "def = []" "ref = Inline p"
      by (simp_all add: intern_def)
    with assms(2,3) show ?thesis by (intro exI [of _ d]) (simp add: decode_path_def tracks_def)
  qed
qed

lemma decode_encode_from:
  assumes "encode_from e prev ws = (e', out)" "list_all op_ok ws" "tracks e d" "same_previous prev dprev"
  shows "\<exists>d' dprev'. tracks e' d' \<and> (\<forall>raws. decode_from d dprev (map wire_value out @ raws) =
    (let (d'', r) = decode_from d' dprev' raws in (d'', err_bind r (\<lambda>vs. Inr (ws @ vs)))))"
  using assms
proof (induction e prev ws arbitrary: e' out d dprev rule: encode_from.induct)
  case (1 e prev)
  have id: "err_bind r Inr = r" for r :: "delta_error + op list" by (cases r) simp_all
  from 1 show ?case by (intro exI [of _ d] exI [of _ dprev]) (simp add: Let_def id case_prod_beta)
next
  case (2 e prev w ws)
  have join: "err_bind (err_bind r (\<lambda>vs. Inr (ws @ vs))) (\<lambda>vs. Inr (w # vs)) =
      err_bind r (\<lambda>vs. Inr ((w # ws) @ vs))" for r :: "delta_error + op list"
    by (cases r) simp_all
  note step = Let_def case_prod_beta join
  have ok: "op_ok w" "list_all op_ok ws" using "2.prems" by simp_all
  consider (replace) "is_replace w"
    | (same) "\<not> is_replace w" "prev = Some (pathKey (op_path w))"
    | (other) "\<not> is_replace w" "prev \<noteq> Some (pathKey (op_path w))" by blast
  then show ?case
  proof cases
    case replace
    then obtain v where v: "w = OpR v" by (cases w) simp_all
    from 2(4) replace obtain out1 where e: "encode_from encoder None ws = (e', out1)"
      "out = with_ref None w # out1" by (auto split: prod.splits)
    from "2.IH"(1) [OF replace e(1) ok(2) tracks_fresh, of None decoder] obtain d' dprev' where
      "tracks e' d'" "\<And>raws. decode_from decoder None (map wire_value out1 @ raws) =
        (let (d'', r) = decode_from d' dprev' raws in (d'', err_bind r (\<lambda>vs. Inr (ws @ vs))))"
      by (auto simp: same_previous_def)
    then show ?thesis
      by (intro exI [of _ d'] exI [of _ dprev'])
        (simp add: e(2) v decode_replacement step join [unfolded v] del: wire_value.simps)
  next
    case same
    from 2(4) same obtain out1 where e: "encode_from e prev ws = (e', out1)"
      "out = with_ref None w # out1" by (auto split: prod.splits)
    from 2(7) same(2) have p: "dprev = Some (op_path w)"
      by (cases dprev) (auto simp: same_previous_def pathKey_eq)
    from "2.IH"(2) [OF same e(1) ok(2) 2(6,7)] obtain d' dprev' where
      "tracks e' d'" "\<And>raws. decode_from d dprev (map wire_value out1 @ raws) =
        (let (d'', r) = decode_from d' dprev' raws in (d'', err_bind r (\<lambda>vs. Inr (ws @ vs))))"
      by blast
    then show ?thesis
      using p ok(1) same(1)
      by (intro exI [of _ d'] exI [of _ dprev'])
        (simp add: e(2) decode_operation decode_path_def step del: wire_value.simps)
  next
    case other
    obtain e1 def ref where i: "intern e (op_path w) = (e1, def, ref)" by (rule prod_cases3)
    from 2(4) other i obtain out1 where e: "encode_from e1 (Some (pathKey (op_path w))) ws = (e', out1)"
      "out = def @ with_ref (Some ref) w # out1" by (auto split: prod.splits)
    from intern_tracks [OF i 2(6) op_ok_path [OF ok(1)], of dprev] obtain d1 where
      d1: "tracks e1 d1" "ref_ok (Some ref)" "decode_path d1 dprev (Some ref) = Inr (op_path w)"
      "\<And>raws. decode_from d dprev (map wire_value def @ raws) = decode_from d1 dprev raws" by blast
    from "2.IH"(3) [OF other i [symmetric] refl refl e(1) ok(2) d1(1), of "Some (op_path w)"]
    obtain d' dprev' where
      "tracks e' d'" "\<And>raws. decode_from d1 (Some (op_path w)) (map wire_value out1 @ raws) =
        (let (d'', r) = decode_from d' dprev' raws in (d'', err_bind r (\<lambda>vs. Inr (ws @ vs))))"
      by (auto simp: same_previous_def)
    then show ?thesis
      using ok(1) other(1) d1
      by (intro exI [of _ d'] exI [of _ dprev'])
        (simp add: e(2) decode_operation step del: wire_value.simps)
  qed
qed

subsection \<open>Streams of batches\<close>

text \<open>A batch as it crosses the boundary.\<close>

definition send :: "encoder_state \<Rightarrow> op list \<Rightarrow> encoder_state \<times> json list" where
  "send e ws = (let (e', out) = encode e ws in (e', map wire_value out))"

fun encode_all :: "('e \<Rightarrow> 'b \<Rightarrow> 'e \<times> 'w) \<Rightarrow> 'e \<Rightarrow> 'b list \<Rightarrow> 'w list" where
  "encode_all enc e [] = []"
| "encode_all enc e (b # bs) = (let (e', w) = enc e b in w # encode_all enc e' bs)"

fun decode_all :: "('d \<Rightarrow> 'w \<Rightarrow> 'd \<times> ('x + 'b)) \<Rightarrow> 'd \<Rightarrow> 'w list \<Rightarrow> 'x + 'b list" where
  "decode_all dec d [] = Inr []"
| "decode_all dec d (w # ws) =
     (let (d', r) = dec d w in err_bind r (\<lambda>b. err_bind (decode_all dec d' ws) (\<lambda>bs. Inr (b # bs))))"

text \<open>
  What a stream needs of its codec: states that track each other decode what was encoded and keep
  tracking, and a base can be read from any state.
\<close>

locale stream_codec =
  fixes enc :: "'e \<Rightarrow> 'b \<Rightarrow> 'e \<times> 'w"
    and dec :: "'d \<Rightarrow> 'w \<Rightarrow> 'd \<times> ('x + 'b)"
    and follows :: "'e \<Rightarrow> 'd \<Rightarrow> bool"
    and valid :: "'b \<Rightarrow> bool"
    and base :: "'b \<Rightarrow> bool"
  assumes decodes: "follows e d \<or> base b \<Longrightarrow> valid b \<Longrightarrow> enc e b = (e', w) \<Longrightarrow>
      \<exists>d'. dec d w = (d', Inr b) \<and> follows e' d'"
begin

lemma stream_round_trip:
  "follows e d \<Longrightarrow> list_all valid bs \<Longrightarrow> decode_all dec d (encode_all enc e bs) = Inr bs"
proof (induction bs arbitrary: e d)
  case (Cons b bs)
  obtain e' w where e: "enc e b = (e', w)" by fastforce
  with decodes [of e d b e' w] Cons.prems obtain d' where "dec d w = (d', Inr b)" "follows e' d'"
    by auto
  with Cons e show ?case by simp
qed simp

lemma recovery:
  assumes "base b" "valid b" "list_all valid bs"
  shows "decode_all dec d (encode_all enc e (b # bs)) = Inr (b # bs)"
proof -
  obtain e' w where e: "enc e b = (e', w)" by fastforce
  with decodes [of e d b e' w] assms obtain d' where "dec d w = (d', Inr b)" "follows e' d'"
    by auto
  with e stream_round_trip [of e' d' bs] assms(3) show ?thesis by simp
qed

end

lemma decode_tracked:
  assumes "encode_from e None ws = (e', out)" "list_all op_ok ws" "tracks e d"
  shows "\<exists>d'. decode_from d p (map wire_value out) = (d', Inr ws) \<and> tracks e' d'"
proof -
  have "same_previous None p" by (simp add: same_previous_def)
  from decode_encode_from [OF assms this] obtain d' p' where
    "tracks e' d'" "\<And>raws. decode_from d p (map wire_value out @ raws) =
      (let (d'', r) = decode_from d' p' raws in (d'', err_bind r (\<lambda>vs. Inr (ws @ vs))))" by blast
  from this(1) this(2) [of "[]"] show ?thesis by simp
qed

lemma decode_base:
  assumes "isBase ws" "list_all op_ok ws" "encode_from e None ws = (e', out)"
  shows "\<exists>d'. decode_from d p (map wire_value out) = (d', Inr ws) \<and> tracks e' d'"
proof -
  from assms(1) obtain v ws' where ws: "ws = OpR v # ws'"
    unfolding isBase_def by (cases ws; cases "hd ws") auto
  with assms(3) obtain out' where e: "encode_from encoder None ws' = (e', out')" "out = WR v # out'"
    by (auto split: prod.splits)
  from decode_tracked [OF e(1) _ tracks_fresh] assms(2) ws obtain d' where
    "decode_from decoder None (map wire_value out') = (d', Inr ws')" "tracks e' d'" by auto
  then show ?thesis by (simp add: e(2) ws decode_replacement del: wire_value.simps)
qed

interpretation wire: stream_codec send decode tracks "list_all op_ok" isBase
proof unfold_locales
  fix e d ws e' w
  assume *: "tracks e d \<or> isBase ws" "list_all op_ok ws" "send e ws = (e', w)"
  then obtain out where "encode_from e None ws = (e', out)" "w = map wire_value out"
    by (auto simp: send_def encode_def split: prod.splits)
  with * decode_tracked [of e ws e' out d None] decode_base [of ws e e' out d None]
  show "\<exists>d'. decode d w = (d', Inr ws) \<and> tracks e' d'"
    by (auto simp: decode_def)
qed

text \<open>
  C19. The codec is a round trip. Whatever sequence of valid batches an encoder is given, a decoder that
  receives what it sends, batch by batch, accepts every tuple and returns exactly these batches.
\<close>

theorem codec_round_trip:
  assumes "list_all (list_all op_ok) batches"
  shows "decode_all decode decoder (encode_all send encoder batches) = Inr batches"
  using wire.stream_round_trip [OF tracks_fresh assms] by simp

definition sample_batch :: "op list" where
  "sample_batch = [OpS [SKey ''a''] JNull, OpD [SKey ''b''], OpA [SKey ''a''] ''x'']"

lemma sample_batch_ok: "list_all op_ok sample_batch"
  by (simp add: sample_batch_def safe_seg_def RESERVED_SEGMENTS_def)

theorem codec_round_trip_witness:
  "decode_all decode decoder (encode_all send encoder [sample_batch, sample_batch]) =
     Inr [sample_batch, sample_batch]"
  by (rule codec_round_trip) (simp add: sample_batch_ok)

text \<open>
  C36. A base is a recovery point. From a batch that begins with a replacement on, any decoder, fresh or
  left over from another stream, decodes everything the encoder sends, whatever the encoder had sent
  before: no path id crosses a base.
\<close>

theorem codec_recovery:
  assumes "isBase batch" and "list_all (list_all op_ok) (batch # batches)"
  shows "decode_all decode d (encode_all send e (batch # batches)) = Inr (batch # batches)"
  using wire.recovery [OF assms(1)] assms(2) by simp

theorem codec_recovery_witness:
  "decode_all decode (\<lambda>_. Some [SKey ''z''])
     (encode_all send \<lparr>seen = [pathKey [SKey ''a'']], ids = (\<lambda>_. Some 7), nextId = 8\<rparr>
       [OpR JNull # sample_batch, sample_batch]) = Inr [OpR JNull # sample_batch, sample_batch]"
  by (rule codec_recovery) (simp_all add: isBase_def sample_batch_ok)

lemma coalesced:
  "list_all (list_all op_ok) batches \<Longrightarrow> tracks e d \<Longrightarrow>
     snd (decode_from d p (concat (encode_all send e batches))) = Inr (concat batches)"
proof (induction batches arbitrary: e d p)
  case (Cons ws batches)
  obtain e' out where e: "encode_from e None ws = (e', out)" by fastforce
  have "list_all op_ok ws" "same_previous None p" using Cons.prems by (simp_all add: same_previous_def)
  from decode_encode_from [OF e this(1) Cons.prems(2) this(2)] obtain d' p' where
    d: "tracks e' d'" "\<And>raws. decode_from d p (map wire_value out @ raws) =
      (let (d'', r) = decode_from d' p' raws in (d'', err_bind r (\<lambda>vs. Inr (ws @ vs))))" by blast
  have s: "send e ws = (e', map wire_value out)" by (simp add: send_def encode_def e)
  from Cons.IH [OF _ d(1), of p'] Cons.prems(1)
  show ?case by (simp add: s d(2) case_prod_beta Let_def)
qed simp

text \<open>
  Waiting batches may be coalesced. Consecutive batches of one encoder, concatenated into one, decode
  to the concatenation of the batches, since every batch starts with an explicit path.
\<close>

lemma codec_coalesces:
  assumes "list_all (list_all op_ok) batches"
  shows "snd (decode decoder (concat (encode_all send encoder batches))) = Inr (concat batches)"
  unfolding decode_def by (rule coalesced [OF assms tracks_fresh])

subsection \<open>What a decoder may return\<close>

lemma assertValidWireOp_tuple:
  "assertValidWireOp raw = Inr w \<Longrightarrow> \<exists>a verb args. raw = JArr a (JStr verb # args) \<and>
     verb \<in> {''r'', ''s'', ''d'', ''a'', ''t'', ''p'', ''m'', ''#''}"
  unfolding assertValidWireOp_def
  by (cases raw) (simp_all split: list.splits json.splits if_splits)

lemma assertValidWireOp_sound:
  assumes "assertValidWireOp raw = Inr w"
  shows "wire_ok w"
proof -
  obtain a verb args where raw: "raw = JArr a (JStr verb # args)"
    and v: "verb \<in> {''r'', ''s'', ''d'', ''a'', ''t'', ''p'', ''m'', ''#''}"
    using assertValidWireOp_tuple [OF assms] by blast
  note facts = assms [unfolded raw assertValidWireOp_def]
  from v consider "verb = ''r''" | "verb = ''s''" | "verb = ''d''" | "verb = ''a''" | "verb = ''t''"
    | "verb = ''p''" | "verb = ''m''" | "verb = ''#''" by blast
  then show ?thesis
  proof cases
    case 1 with facts show ?thesis by (auto split: list.splits)
  next
    case 2 with facts show ?thesis by (auto simp: err_bind_Inr dest: okRef_sound split: list.splits)
  next
    case 3 with facts show ?thesis by (auto simp: err_bind_Inr dest: okRef_sound split: list.splits)
  next
    case 4 with facts show ?thesis by (auto simp: err_bind_Inr dest: okRef_sound split: list.splits)
  next
    case 5 with facts show ?thesis by (auto simp: err_bind_Inr dest: okRef_sound split: list.splits)
  next
    case 6 with facts show ?thesis by (auto simp: err_bind_Inr dest: okRef_sound split: list.splits)
  next
    case 7 with facts show ?thesis
      by (auto simp: err_bind_Inr dest: okRef_sound assertPermutation_sound split: list.splits)
  next
    case 8 with facts show ?thesis
      by (auto simp: err_bind_Inr define_args_def dest: assertSafePath_sound
          split: list.splits option.splits json.splits)
  qed
qed

definition known_paths_safe :: "decoder_state \<Rightarrow> bool" where
  "known_paths_safe d \<longleftrightarrow> (\<forall>i p. d i = Some p \<longrightarrow> safe_path p)"

lemma decode_path_safe:
  "decode_path d prev r = Inr p \<Longrightarrow> known_paths_safe d \<Longrightarrow> pred_option safe_path prev \<Longrightarrow> ref_ok r \<Longrightarrow>
     safe_path p"
  by (auto simp: decode_path_def known_paths_safe_def split: option.splits path_ref.splits)

lemma with_path_ok:
  "wire_ok w \<Longrightarrow> safe_path p \<Longrightarrow> array_verb w \<or> p \<noteq> [] \<Longrightarrow> op_ok (with_path p w)"
  by (cases w) auto

lemma wire_ref_ok: "wire_ok w \<Longrightarrow> ref_ok (wire_ref w)"
  by (cases w) auto

fun all_valid :: "'e + op list \<Rightarrow> bool" where
  "all_valid (Inl e) \<longleftrightarrow> True"
| "all_valid (Inr ws) \<longleftrightarrow> list_all op_ok ws"

lemma decode_reference:
  assumes "assertValidWireOp raw = Inr w" "\<And>i p. w \<noteq> WDef i p" "\<And>v. w \<noteq> WR v"
  shows "decode_from d prev (raw # raws) =
    (case decode_path d prev (wire_ref w) of
       Inl e \<Rightarrow> (d, Inl e)
     | Inr p \<Rightarrow>
         if \<not> array_verb w \<and> p = [] then (d, Inl (PathErr p))
         else let (d', r) = decode_from d (Some p) raws
              in (d', err_bind r (\<lambda>ws. Inr (with_path p w # ws))))"
  using assms(2,3) by (cases w; hypsubst; simp add: decode_from.simps(2) assms(1))

lemma all_valid_cons: "op_ok w \<Longrightarrow> all_valid r \<Longrightarrow> all_valid (err_bind r (\<lambda>ws. Inr (w # ws)))"
  by (cases r) simp_all

lemma decode_from_valid:
  "known_paths_safe d \<Longrightarrow> pred_option safe_path prev \<Longrightarrow>
     known_paths_safe (fst (decode_from d prev raws)) \<and> all_valid (snd (decode_from d prev raws))"
proof (induction raws arbitrary: d prev)
  case (Cons raw raws)
  show ?case
  proof (cases "assertValidWireOp raw")
    case (Inl e)
    with Cons.prems show ?thesis by (simp add: decode_from.simps(2))
  next
    case (Inr w)
    then have ok: "wire_ok w" by (rule assertValidWireOp_sound)
    consider (def) i p where "w = WDef i p" | (base) v where "w = WR v"
      | (ref) "\<And>i p. w \<noteq> WDef i p" "\<And>v. w \<noteq> WR v" by blast
    then show ?thesis
    proof cases
      case def
      with ok Cons.prems have "known_paths_safe (d(i \<mapsto> p))" by (auto simp: known_paths_safe_def)
      moreover have "decode_from d prev (raw # raws) = decode_from (d(i \<mapsto> p)) prev raws"
        using Inr def by (simp add: decode_from.simps(2))
      ultimately show ?thesis using Cons.IH Cons.prems(2) by (simp only:)
    next
      case base
      have "known_paths_safe decoder" by (simp add: known_paths_safe_def decoder_def)
      with Cons.IH [OF this, of None] Inr base show ?thesis
        by (simp add: decode_from.simps(2) Let_def case_prod_beta all_valid_cons)
    next
      case ref
      have step: "decode_from d prev (raw # raws) =
          (case decode_path d prev (wire_ref w) of
             Inl e \<Rightarrow> (d, Inl e)
           | Inr p \<Rightarrow>
               if \<not> array_verb w \<and> p = [] then (d, Inl (PathErr p))
               else let (d', r) = decode_from d (Some p) raws
                    in (d', err_bind r (\<lambda>ws. Inr (with_path p w # ws))))"
        by (rule decode_reference [OF Inr ref])
      show ?thesis
      proof (cases "decode_path d prev (wire_ref w)")
        case (Inl e)
        with step Cons.prems(1) show ?thesis by simp
      next
        case (Inr p)
        from decode_path_safe [OF this Cons.prems wire_ref_ok [OF ok]] have p: "safe_path p" .
        show ?thesis
        proof (cases "\<not> array_verb w \<and> p = []")
          case True
          with step Inr Cons.prems(1) show ?thesis by simp
        next
          case False
          with with_path_ok [OF ok p] have "op_ok (with_path p w)" by blast
          with Cons.IH [of d "Some p"] Cons.prems(1) p False step Inr show ?thesis
            by (simp add: Let_def case_prod_beta all_valid_cons)
        qed
      qed
    qed
  qed
qed simp

text \<open>
  C37. What a decoder returns can be applied. Over any sequence of batches of arbitrary data, valid or
  not, a decoder knows only safe paths, and every operation it ever returns is one \<open>apply\<close> accepts:
  no reserved segment, no root target for an operation that forbids it, no broken permutation.
\<close>

theorem decoder_output_valid:
  assumes "known_paths_safe d" and "decode d raws = (d', res)"
  shows "known_paths_safe d' \<and> all_valid res"
  using decode_from_valid [OF assms(1), of None raws] assms(2) by (simp add: decode_def)

theorem decoder_output_valid_witness:
  "known_paths_safe (fst (decode decoder [JNull])) \<and> all_valid (snd (decode decoder [JNull]))"
proof -
  have "known_paths_safe decoder" by (simp add: known_paths_safe_def decoder_def)
  from decoder_output_valid [OF this, of "[JNull]" "fst (decode decoder [JNull])" "snd (decode decoder [JNull])"]
  show ?thesis by simp
qed

end
