(* ===== verification/Delta_Diff.thy ===== *)
theory Delta_Diff
  imports Delta
begin

text \<open>
  The differ (\<open>packages/chord/src/delta/diff.ts\<close>): a batch of operations from two immutable
  revisions. \<open>===\<close> is \<open>strictEq\<close>, a \<open>Map\<close> keyed by values is an association list searched with it,
  and the array of operations with the set of overflowed batches is one record. The recursion of
  \<open>diffValue\<close>, \<open>diffArray\<close>, \<open>diffArrayRegion\<close>, \<open>processArrayMatches\<close> and \<open>diffObject\<close> runs on fuel;
  \<open>None\<close> is running out of it, and \<open>diffRevisions\<close> takes the weight of the old revision, which the
  correctness theory proves to be enough. This theory holds the definitions and the facts about the
  searches for matches.
\<close>

subsection \<open>Batches\<close>

definition DEFAULT_OVERLAP_SCAN :: nat where "DEFAULT_OVERLAP_SCAN = 65536"
definition MAX_DELTA_OPERATIONS :: nat where "MAX_DELTA_OPERATIONS = 4096"

record batch =
  emitted :: "op list"
  overflowed :: bool

definition emitOperation :: "op \<Rightarrow> batch \<Rightarrow> batch" where
  "emitOperation w b =
     (if overflowed b then b
      else if length (emitted b) \<ge> MAX_DELTA_OPERATIONS then b\<lparr>overflowed := True\<rparr>
      else b\<lparr>emitted := emitted b @ [w]\<rparr>)"

definition emitSet :: "path \<Rightarrow> json \<Rightarrow> batch \<Rightarrow> batch" where
  "emitSet p v b = (if p = [] then emitOperation (OpR v) b else emitOperation (OpS p v) b)"

subsection \<open>Equality\<close>

fun equalJson :: "json \<Rightarrow> json \<Rightarrow> bool"
  and equalElements :: "json list \<Rightarrow> json list \<Rightarrow> bool"
  and equalProperties :: "(string \<times> json) list \<Rightarrow> (string \<times> json) list \<Rightarrow> bool" where
  "equalJson (JArr a xs) w =
     (strictEq (JArr a xs) w \<or>
      (case w of JArr b ys \<Rightarrow> length xs = length ys \<and> equalElements xs ys | _ \<Rightarrow> False))"
| "equalJson (JObj a es) w =
     (strictEq (JObj a es) w \<or>
      (case w of JObj b fs \<Rightarrow> length es = length fs \<and> equalProperties es fs | _ \<Rightarrow> False))"
| "equalJson v w = strictEq v w"
| "equalElements (x # xs) (y # ys) = (equalJson x y \<and> equalElements xs ys)"
| "equalElements xs ys = True"
| "equalProperties [] fs = True"
| "equalProperties ((k, v) # es) fs =
     ((case map_of fs k of None \<Rightarrow> False | Some w \<Rightarrow> equalJson v w) \<and> equalProperties es fs)"

definition sameValue :: "json \<Rightarrow> json \<Rightarrow> bool" where
  "sameValue v w \<longleftrightarrow> strictEq v w \<or> equalJson v w"

subsection \<open>Permutations\<close>

text \<open>The positions of a value, in order, and how many of them are used.\<close>

record positions_entry =
  indices :: "nat list"
  used :: nat

fun add_position :: "json \<Rightarrow> nat \<Rightarrow> (json \<times> positions_entry) list \<Rightarrow> (json \<times> positions_entry) list" where
  "add_position v i [] = [(v, \<lparr>indices = [i], used = 0\<rparr>)]"
| "add_position v i ((u, entry) # ps) =
     (if strictEq u v then (u, entry\<lparr>indices := indices entry @ [i]\<rparr>) # ps
      else (u, entry) # add_position v i ps)"

fun take_position ::
  "json \<Rightarrow> (json \<times> positions_entry) list \<Rightarrow> (nat \<times> (json \<times> positions_entry) list) option" where
  "take_position v [] = None"
| "take_position v ((u, entry) # ps) =
     (if strictEq u v then
        (if used entry = length (indices entry) then None
         else Some (indices entry ! used entry, (u, entry\<lparr>used := used entry + 1\<rparr>) # ps))
      else map_option (\<lambda>(i, ps'). (i, (u, entry) # ps')) (take_position v ps))"

fun take_positions :: "json list \<Rightarrow> (json \<times> positions_entry) list \<Rightarrow> nat list option" where
  "take_positions [] ps = Some []"
| "take_positions (v # vs) ps =
     (case take_position v ps of
        None \<Rightarrow> None
      | Some (i, ps') \<Rightarrow> map_option ((#) i) (take_positions vs ps'))"

definition permutation :: "json list \<Rightarrow> json list \<Rightarrow> nat list option" where
  "permutation before after =
     (if length before \<noteq> length after then None
      else take_positions after
        (fold (\<lambda>(i, v). add_position v i) (List.enumerate 0 before) []))"

subsection \<open>Strings\<close>

definition emitString :: "string \<Rightarrow> string \<Rightarrow> path \<Rightarrow> batch \<Rightarrow> batch" where
  "emitString before after p b =
     (if before = after then b
      else if length after > length before \<and> take (length before) after = before
      then emitOperation (OpA p (drop (length before) after)) b
      else
        let shared = overlap before after DEFAULT_OVERLAP_SCAN 64 8 in
        if shared = 0 then emitOperation (OpS p (JStr after)) b
        else
          let b' = emitOperation (OpT p (length before - shared)) b in
          if length after > shared then emitOperation (OpA p (drop shared after)) b' else b')"

subsection \<open>Matches of array elements\<close>

type_synonym array_match = "nat \<times> nat"

definition MAX_IDENTITY_CANDIDATES :: nat where "MAX_IDENTITY_CANDIDATES = 200000"
definition MAX_SEMANTIC_CELLS :: nat where "MAX_SEMANTIC_CELLS = 65536"

text \<open>The longest-common-subsequence table, flat, filled from the last cell to the first.\<close>

fun lcs_row ::
  "(json \<Rightarrow> json \<Rightarrow> bool) \<Rightarrow> json list \<Rightarrow> json list \<Rightarrow> nat \<Rightarrow> nat \<Rightarrow> nat list \<Rightarrow> nat list" where
  "lcs_row equal before after left 0 table = table"
| "lcs_row equal before after left (Suc right) table =
     (let width = length after + 1;
          cell = (if equal (before ! left) (after ! right)
                  then table ! ((left + 1) * width + right + 1) + 1
                  else max (table ! ((left + 1) * width + right)) (table ! (left * width + right + 1)))
      in lcs_row equal before after left right (table[left * width + right := cell]))"

fun lcs_table ::
  "(json \<Rightarrow> json \<Rightarrow> bool) \<Rightarrow> json list \<Rightarrow> json list \<Rightarrow> nat \<Rightarrow> nat list \<Rightarrow> nat list" where
  "lcs_table equal before after 0 table = table"
| "lcs_table equal before after (Suc left) table =
     lcs_table equal before after left (lcs_row equal before after left (length after) table)"

function lcs_walk ::
  "(json \<Rightarrow> json \<Rightarrow> bool) \<Rightarrow> json list \<Rightarrow> json list \<Rightarrow> nat list \<Rightarrow> nat \<Rightarrow> nat \<Rightarrow> array_match list" where
  "lcs_walk equal before after table left right =
     (if left < length before \<and> right < length after then
        let width = length after + 1 in
        if equal (before ! left) (after ! right) \<and>
           table ! (left * width + right) = table ! ((left + 1) * width + right + 1) + 1
        then (left, right) # lcs_walk equal before after table (left + 1) (right + 1)
        else if table ! ((left + 1) * width + right) \<ge> table ! (left * width + right + 1)
        then lcs_walk equal before after table (left + 1) right
        else lcs_walk equal before after table left (right + 1)
      else [])"
  by pat_completeness auto
termination
  by (relation "measure (\<lambda>(equal, before, after, table, left, right).
      (length before - left) + (length after - right))") auto

declare lcs_walk.simps [simp del]

definition lcsMatches ::
  "json list \<Rightarrow> json list \<Rightarrow> (json \<Rightarrow> json \<Rightarrow> bool) \<Rightarrow> nat \<Rightarrow> array_match list option" where
  "lcsMatches before after equal maxCells =
     (if before = [] \<or> after = [] then Some []
      else if length before * length after > maxCells then None
      else
        let table = lcs_table equal before after (length before)
              (replicate ((length before + 1) * (length after + 1)) 0)
        in Some (lcs_walk equal before after table 0 0))"

definition semanticallyAligned :: "json \<Rightarrow> json \<Rightarrow> bool" where
  "semanticallyAligned v w \<longleftrightarrow>
     sameValue v w \<or>
     (case (v, w) of
        (JArr a xs, JArr b ys) \<Rightarrow>
          length xs = length ys \<and> list_ex (\<lambda>(x, y). isObj x \<and> strictEq x y) (zip xs ys)
      | (JObj a es, JObj b fs) \<Rightarrow>
          list_ex (\<lambda>(k, x). isObj x \<and> (case map_of fs k of None \<Rightarrow> False | Some y \<Rightarrow> strictEq x y)) es
      | _ \<Rightarrow> False)"

function lower_bound_in :: "nat list \<Rightarrow> nat \<Rightarrow> nat \<Rightarrow> nat \<Rightarrow> nat" where
  "lower_bound_in vs x low high =
     (if low < high then
        let middle = (low + high) div 2 in
        if vs ! middle < x then lower_bound_in vs x (middle + 1) high
        else lower_bound_in vs x low middle
      else low)"
  by pat_completeness auto
termination
  by (relation "measure (\<lambda>(vs, x, low, high). high - low)") auto

declare lower_bound_in.simps [simp del]

definition lowerBound :: "nat list \<Rightarrow> nat \<Rightarrow> nat" where
  "lowerBound vs x = lower_bound_in vs x 0 (length vs)"

text \<open>The next index below \<open>stop\<close> that holds the value.\<close>

function next_same :: "json list \<Rightarrow> json \<Rightarrow> nat \<Rightarrow> nat \<Rightarrow> nat" where
  "next_same vs v i stop =
     (if i < stop \<and> \<not> strictEq (vs ! i) v then next_same vs v (i + 1) stop else i)"
  by pat_completeness auto
termination
  by (relation "measure (\<lambda>(vs, v, i, stop). stop - i)") auto

declare next_same.simps [simp del]

text \<open>Every value of the shorter list, found in order in the longer one.\<close>

fun embed_by_identity :: "json list \<Rightarrow> nat \<Rightarrow> json list \<Rightarrow> nat \<Rightarrow> nat list \<Rightarrow> (nat \<times> nat) list option" where
  "embed_by_identity long i short stop [] = Some []"
| "embed_by_identity long i short stop (j # js) =
     (let i' = next_same long (short ! j) i stop in
      if i' = stop then None else map_option ((#) (i', j)) (embed_by_identity long (i' + 1) short stop js))"

definition identitySubsequence ::
  "json list \<Rightarrow> nat \<Rightarrow> nat \<Rightarrow> json list \<Rightarrow> nat \<Rightarrow> nat \<Rightarrow> array_match list option" where
  "identitySubsequence before beforeStart beforeEnd after afterStart afterEnd =
     (let beforeCount = beforeEnd - beforeStart; afterCount = afterEnd - afterStart in
      if afterCount < beforeCount then
        embed_by_identity before beforeStart after beforeEnd [afterStart..<afterEnd]
      else if beforeCount < afterCount then
        map_option (map prod.swap) (embed_by_identity after afterStart before afterEnd [beforeStart..<beforeEnd])
      else None)"

text \<open>The positions of the old values, by identity.\<close>

fun add_index :: "json \<Rightarrow> nat \<Rightarrow> (json \<times> nat list) list \<Rightarrow> (json \<times> nat list) list" where
  "add_index v i [] = [(v, [i])]"
| "add_index v i ((u, is) # ps) =
     (if strictEq u v then (u, is @ [i]) # ps else (u, is) # add_index v i ps)"

fun indices_of :: "(json \<times> nat list) list \<Rightarrow> json \<Rightarrow> nat list option" where
  "indices_of [] v = None"
| "indices_of ((u, is) # ps) v = (if strictEq u v then Some is else indices_of ps v)"

definition positions_in :: "json list \<Rightarrow> nat \<Rightarrow> nat \<Rightarrow> (json \<times> nat list) list" where
  "positions_in before start stop = fold (\<lambda>i. add_index (before ! i) i) [start..<stop] []"

text \<open>\<open>next\<close> is one more than the code's \<open>previous\<close>.\<close>

fun greedyIdentityAnchors ::
  "(json \<times> nat list) list \<Rightarrow> json list \<Rightarrow> nat \<Rightarrow> nat list \<Rightarrow> array_match list" where
  "greedyIdentityAnchors ps after next_free [] = []"
| "greedyIdentityAnchors ps after next_free (j # js) =
     (case indices_of ps (after ! j) of
        None \<Rightarrow> greedyIdentityAnchors ps after next_free js
      | Some candidates \<Rightarrow>
          let at_index = lowerBound candidates next_free in
          if at_index < length candidates
          then (candidates ! at_index, j) #
               greedyIdentityAnchors ps after (candidates ! at_index + 1) js
          else greedyIdentityAnchors ps after next_free js)"

record match_candidate =
  cand_before :: nat
  cand_after :: nat
  cand_previous :: "nat option"

record patience =
  candidates :: "match_candidate list"
  tails :: "nat list"
  tailValues :: "nat list"

text \<open>Assignment at an index that exists or is one past the end.\<close>

definition assign_at :: "nat list \<Rightarrow> nat \<Rightarrow> nat \<Rightarrow> nat list" where
  "assign_at xs i x = (if i < length xs then xs[i := x] else xs @ [x])"

definition place_candidate :: "nat \<Rightarrow> nat \<Rightarrow> patience \<Rightarrow> patience" where
  "place_candidate j i s =
     (let at_index = lowerBound (tailValues s) i;
          candidateIndex = length (candidates s)
      in s\<lparr>candidates := candidates s @
             [\<lparr>cand_before = i, cand_after = j,
               cand_previous = (if at_index = 0 then None else Some (tails s ! (at_index - 1)))\<rparr>],
           tails := assign_at (tails s) at_index candidateIndex,
           tailValues := assign_at (tailValues s) at_index i\<rparr>)"

fun place_candidates :: "(json \<times> nat list) list \<Rightarrow> json list \<Rightarrow> nat list \<Rightarrow> patience \<Rightarrow> patience" where
  "place_candidates ps after [] s = s"
| "place_candidates ps after (j # js) s =
     (case indices_of ps (after ! j) of
        None \<Rightarrow> place_candidates ps after js s
      | Some is \<Rightarrow> place_candidates ps after js (fold (place_candidate j) (rev is) s))"

text \<open>The chain of a candidate, last match first; previous candidates have smaller indices.\<close>

fun candidate_chain :: "nat \<Rightarrow> match_candidate list \<Rightarrow> nat option \<Rightarrow> array_match list" where
  "candidate_chain 0 cs i = []"
| "candidate_chain (Suc fuel) cs None = []"
| "candidate_chain (Suc fuel) cs (Some i) =
     (cand_before (cs ! i), cand_after (cs ! i)) # candidate_chain fuel cs (cand_previous (cs ! i))"

fun count_candidates :: "(json \<times> nat list) list \<Rightarrow> json list \<Rightarrow> nat list \<Rightarrow> nat \<Rightarrow> nat option" where
  "count_candidates ps after [] n = Some n"
| "count_candidates ps after (j # js) n =
     (let n' = n + (case indices_of ps (after ! j) of None \<Rightarrow> 0 | Some is \<Rightarrow> length is) in
      if n' > MAX_IDENTITY_CANDIDATES then None else count_candidates ps after js n')"

definition identityAnchors ::
  "json list \<Rightarrow> nat \<Rightarrow> nat \<Rightarrow> json list \<Rightarrow> nat \<Rightarrow> nat \<Rightarrow> array_match list" where
  "identityAnchors before beforeStart beforeEnd after afterStart afterEnd =
     (let ps = positions_in before beforeStart beforeEnd; js = [afterStart..<afterEnd] in
      case count_candidates ps after js 0 of
        None \<Rightarrow> greedyIdentityAnchors ps after 0 js
      | Some n \<Rightarrow>
          if n = 0 then []
          else
            let s = place_candidates ps after js \<lparr>candidates = [], tails = [], tailValues = []\<rparr> in
            rev (candidate_chain (length (candidates s)) (candidates s)
              (if tails s = [] then None else Some (last (tails s)))))"

subsection \<open>The differ\<close>

definition slice :: "'a list \<Rightarrow> nat \<Rightarrow> nat \<Rightarrow> 'a list" where
  "slice xs i j = take (j - i) (drop i xs)"

function trim_front :: "json list \<Rightarrow> json list \<Rightarrow> nat \<Rightarrow> nat \<Rightarrow> nat \<Rightarrow> nat \<Rightarrow> nat" where
  "trim_front before after bs be as ae =
     (if bs < be \<and> as < ae \<and> sameValue (before ! bs) (after ! as)
      then Suc (trim_front before after (bs + 1) be (as + 1) ae) else 0)"
  by pat_completeness auto
termination
  by (relation "measure (\<lambda>(before, after, bs, be, as, ae). be - bs)") auto

function trim_back :: "json list \<Rightarrow> json list \<Rightarrow> nat \<Rightarrow> nat \<Rightarrow> nat \<Rightarrow> nat \<Rightarrow> nat" where
  "trim_back before after bs be as ae =
     (if bs < be \<and> as < ae \<and> sameValue (before ! (be - 1)) (after ! (ae - 1))
      then Suc (trim_back before after bs (be - 1) as (ae - 1)) else 0)"
  by pat_completeness auto
termination
  by (relation "measure (\<lambda>(before, after, bs, be, as, ae). be - bs)") auto

declare trim_front.simps [simp del] trim_back.simps [simp del]

definition positional_matches :: "json list \<Rightarrow> json list \<Rightarrow> nat \<Rightarrow> nat \<Rightarrow> nat \<Rightarrow> array_match list" where
  "positional_matches before after bs as count =
     map (\<lambda>i. (bs + i, as + i))
       (filter (\<lambda>i. sameValue (before ! (bs + i)) (after ! (as + i))) [0..<count])"

text \<open>
  The matches a trimmed region is split at: values equal at the same offset, an embedding of the
  shorter side by identity, a longest chain of kept values, or containers that share a child.
\<close>

definition region_matches ::
  "json list \<Rightarrow> json list \<Rightarrow> nat \<Rightarrow> nat \<Rightarrow> nat \<Rightarrow> nat \<Rightarrow> array_match list" where
  "region_matches before after bs be as ae =
     (let positional = (if be - bs = ae - as then positional_matches before after bs as (be - bs) else []) in
      if positional \<noteq> [] then positional
      else
        let subsequence = (case identitySubsequence before bs be after as ae of
              None \<Rightarrow> [] | Some ms \<Rightarrow> ms) in
        if subsequence \<noteq> [] then subsequence
        else
          let identity = identityAnchors before bs be after as ae in
          if identity \<noteq> [] then identity
          else
            (case lcsMatches (slice before bs be) (slice after as ae) semanticallyAligned MAX_SEMANTIC_CELLS of
               None \<Rightarrow> []
             | Some ms \<Rightarrow> map (\<lambda>(i, j). (bs + i, as + j)) ms))"

definition has_reserved_key :: "(string \<times> json) list \<Rightarrow> bool" where
  "has_reserved_key es \<longleftrightarrow> list_ex (\<lambda>(k, v). k \<in> set RESERVED_SEGMENTS) es"

fun delete_missing :: "(string \<times> json) list \<Rightarrow> (string \<times> json) list \<Rightarrow> path \<Rightarrow> batch \<Rightarrow> batch" where
  "delete_missing [] fs p b = b"
| "delete_missing ((k, v) # es) fs p b =
     (if overflowed b then b
      else delete_missing es fs p
        (if map_of fs k = None then emitOperation (OpD (p @ [SKey k])) b else b))"

function (sequential) diffValue :: "nat \<Rightarrow> json \<Rightarrow> json \<Rightarrow> path \<Rightarrow> batch \<Rightarrow> batch option"
  and diffArray :: "nat \<Rightarrow> json \<Rightarrow> json \<Rightarrow> path \<Rightarrow> batch \<Rightarrow> batch option"
  and diffArrayRegion ::
    "nat \<Rightarrow> json list \<Rightarrow> json list \<Rightarrow> path \<Rightarrow> nat \<Rightarrow> nat \<Rightarrow> nat \<Rightarrow> nat \<Rightarrow> nat \<Rightarrow> batch \<Rightarrow> batch option"
  and processArrayMatches ::
    "nat \<Rightarrow> json list \<Rightarrow> json list \<Rightarrow> path \<Rightarrow> nat \<Rightarrow> nat \<Rightarrow> nat \<Rightarrow> nat \<Rightarrow> nat \<Rightarrow> array_match list \<Rightarrow>
     batch \<Rightarrow> batch option"
  and diffProperties ::
    "nat \<Rightarrow> (string \<times> json) list \<Rightarrow> (string \<times> json) list \<Rightarrow> path \<Rightarrow> batch \<Rightarrow> batch option"
  and diffObject :: "nat \<Rightarrow> json \<Rightarrow> json \<Rightarrow> path \<Rightarrow> batch \<Rightarrow> batch option" where
  "diffValue 0 before after p b = None"
| "diffValue (Suc n) before after p b =
     (if strictEq before after \<or> overflowed b then Some b
      else
        case (before, after) of
          (JStr s, JStr t) \<Rightarrow> Some (if p \<noteq> [] then emitString s t p b else emitSet p after b)
        | (JArr a xs, JArr c ys) \<Rightarrow> diffArray n before after p b
        | (JObj a es, JObj c fs) \<Rightarrow> diffObject n before after p b
        | _ \<Rightarrow> Some (emitSet p after b))"
| "diffArray n (JArr a xs) (JArr c ys) p b =
     (if strictEq (JArr a xs) (JArr c ys) \<or> equalJson (JArr a xs) (JArr c ys) then Some b
      else
        let order =
          (if length xs = length ys \<and> length xs > 1 \<and> \<not> sameValue (hd xs) (hd ys) \<and>
              \<not> sameValue (last xs) (last ys) then permutation xs ys else None)
        in case order of
             Some is \<Rightarrow> Some (emitOperation (OpM p is) b)
           | None \<Rightarrow> diffArrayRegion n xs ys p 0 (length xs) 0 (length ys) 0 b)"
| "diffArray n v w p b = Some b"
| "diffArrayRegion 0 xs ys p bs be as ae out b = None"
| "diffArrayRegion (Suc n) xs ys p bs be as ae out b =
     (if overflowed b then Some b
      else
        let f = trim_front xs ys bs be as ae;
            bs' = bs + f; as' = as + f; out' = out + f;
            k = trim_back xs ys bs' be as' ae;
            be' = be - k; ae' = ae - k
        in
        if be' - bs' = 0 \<and> ae' - as' = 0 then Some b
        else if be' - bs' = 0 \<or> ae' - as' = 0
        then Some (emitOperation (OpP p out' (be' - bs') (slice ys as' ae')) b)
        else
          let ms = region_matches xs ys bs' be' as' ae' in
          if ms \<noteq> [] then processArrayMatches n xs ys p bs' be' as' ae' out' ms b
          else if be' - bs' = 1 \<and> ae' - as' = 1
          then diffValue n (xs ! bs') (ys ! as') (p @ [SIdx out']) b
          else Some (emitOperation (OpP p out' (be' - bs') (slice ys as' ae')) b))"
| "processArrayMatches n xs ys p bs be as ae out [] b =
     (if overflowed b then Some b else diffArrayRegion n xs ys p bs be as ae out b)"
| "processArrayMatches n xs ys p bs be as ae out ((i, j) # ms) b =
     (if overflowed b then Some b
      else
        Option.bind (diffArrayRegion n xs ys p bs i as j out b) (\<lambda>b1.
          let out' = out + (j - as) in
          Option.bind
            (if sameValue (xs ! i) (ys ! j) then Some b1
             else diffValue n (xs ! i) (ys ! j) (p @ [SIdx out']) b1) (\<lambda>b2.
            processArrayMatches n xs ys p (i + 1) be (j + 1) ae (out' + 1) ms b2)))"
| "diffProperties n es [] p b = Some b"
| "diffProperties n es ((k, w) # fs) p b =
     (if overflowed b then Some b
      else
        Option.bind
          (case map_of es k of
             Some v \<Rightarrow> diffValue n v w (p @ [SKey k]) b
           | None \<Rightarrow> Some (emitSet (p @ [SKey k]) w b)) (\<lambda>b1.
          diffProperties n es fs p b1))"
| "diffObject n (JObj a es) (JObj c fs) p b =
     (if has_reserved_key es \<or> has_reserved_key fs
      then Some (if equalJson (JObj a es) (JObj c fs) then b else emitSet p (JObj c fs) b)
      else Option.bind (diffProperties n es fs p b) (\<lambda>b1. Some (delete_missing es fs p b1)))"
| "diffObject n v w p b = Some b"
  by pat_completeness auto

termination
  by (relation "measures
      [case_sum
         (case_sum (\<lambda>(n, _). n) (case_sum (\<lambda>(n, _). n) (\<lambda>(n, _). n)))
         (case_sum (\<lambda>(n, _). n) (case_sum (\<lambda>(n, _). n) (\<lambda>(n, _). n))),
       case_sum
         (case_sum (\<lambda>_. 0) (case_sum (\<lambda>_. 1) (\<lambda>_. 0)))
         (case_sum (\<lambda>_. 1) (case_sum (\<lambda>_. 1) (\<lambda>_. 2))),
       case_sum (\<lambda>_. 0)
         (case_sum (\<lambda>(n, xs, ys, p, bs, be, as, ae, out, ms, b). length ms)
           (case_sum (\<lambda>(n, es, fs, p, b). length fs) (\<lambda>_. 0)))]") simp_all

declare diffValue.simps [simp del] diffArray.simps [simp del] diffArrayRegion.simps [simp del]
  processArrayMatches.simps [simp del] diffProperties.simps [simp del] diffObject.simps [simp del]

subsection \<open>Costs\<close>

fun number_text :: "js_number \<Rightarrow> string" where
  "number_text (Whole i) = (if i < 0 then CHR ''-'' # dec_string (nat (- i)) else dec_string (nat i))"
| "number_text (Fractional s) = s"

fun jsonCost :: "json \<Rightarrow> nat"
  and elementsCost :: "json list \<Rightarrow> nat"
  and propertiesCost :: "(string \<times> json) list \<Rightarrow> nat" where
  "jsonCost JNull = 4"
| "jsonCost (JStr s) = length s + 2"
| "jsonCost (JNum n) = length (number_text n)"
| "jsonCost (JBool b) = (if b then 4 else 5)"
| "jsonCost (JArr a xs) = 2 + elementsCost xs + (length xs - 1)"
| "jsonCost (JObj a es) = 2 + propertiesCost es + (length es - 1)"
| "elementsCost [] = 0"
| "elementsCost (x # xs) = jsonCost x + elementsCost xs"
| "propertiesCost [] = 0"
| "propertiesCost ((k, v) # es) = length k + 3 + jsonCost v + propertiesCost es"

definition segCost :: "seg \<Rightarrow> nat" where
  "segCost seg = (case seg of SKey k \<Rightarrow> length k + 2 | SIdx i \<Rightarrow> length (dec_string i))"

definition pathCost :: "path \<Rightarrow> nat" where
  "pathCost p = 2 + sum_list (map segCost p) + (length p - 1)"

fun operationCost :: "op \<Rightarrow> nat" where
  "operationCost (OpR v) = 6 + jsonCost v"
| "operationCost (OpS p v) = 7 + pathCost p + jsonCost v"
| "operationCost (OpD p) = 6 + pathCost p"
| "operationCost (OpA p s) = 7 + pathCost p + length s + 2"
| "operationCost (OpT p n) = 7 + pathCost p + length (dec_string n)"
| "operationCost (OpP p i r items) =
     10 + pathCost p + length (dec_string i) + length (dec_string r) + jsonCost (JArr 0 items)"
| "operationCost (OpM p order) =
     7 + pathCost p + jsonCost (JArr 0 (map nat_value order))"

subsection \<open>The entry point\<close>

text \<open>The fuel a revision needs, proved enough in the correctness theory.\<close>

fun weight :: "json \<Rightarrow> nat" where
  "weight (JArr a xs) = 2 + sum_list (map weight xs)"
| "weight (JObj a es) = 2 + sum_list (map (\<lambda>(k, v). weight v) es)"
| "weight v = 1"

definition diffRevisions :: "json \<Rightarrow> json \<Rightarrow> op list option" where
  "diffRevisions before after =
     map_option
       (\<lambda>b.
         let ws = emitted b in
         if overflowed b then [OpR after]
         else if ws = [] \<or> is_replace (hd ws) then ws
         else
           let deltaCost = 2 + sum_list (map (\<lambda>w. operationCost w + 1) ws) in
           if deltaCost < 65536 then ws
           else if deltaCost \<ge> jsonCost after + 6 then [OpR after] else ws)
       (diffValue (weight before) before after [] \<lparr>emitted = [], overflowed = False\<rparr>)"

subsection \<open>Equality means equal trees\<close>

lemma equal_tree:
  "equalJson v w \<Longrightarrow> coherent v w \<Longrightarrow> wf_json v \<Longrightarrow> wf_json w \<Longrightarrow> tree_of v = tree_of w"
  "equalElements xs ys \<Longrightarrow> length xs = length ys \<Longrightarrow> list_all2 coherent xs ys \<Longrightarrow>
     list_all wf_json xs \<Longrightarrow> list_all wf_json ys \<Longrightarrow> map tree_of xs = map tree_of ys"
  "equalProperties es fs \<Longrightarrow> list_all (\<lambda>(k, v). wf_json v) es \<Longrightarrow>
     (\<And>k v w. (k, v) \<in> set es \<Longrightarrow> map_of fs k = Some w \<Longrightarrow> coherent v w \<and> wf_json w) \<Longrightarrow>
     distinct (map fst es) \<Longrightarrow>
     (\<forall>k \<in> fst ` set es. map_option tree_of (map_of fs k) = map_option tree_of (map_of es k))"
proof (induction v w and xs ys and es fs rule: equalJson_equalElements_equalProperties.induct)
  case (1 a xs w)
  show ?case
  proof (cases "strictEq (JArr a xs) w")
    case True
    with 1 show ?thesis using coherent_same by blast
  next
    case False
    with "1.prems"(1) obtain b ys where w: "w = JArr b ys" "length xs = length ys" "equalElements xs ys"
      by (auto split: json.splits)
    have "list_all2 coherent xs ys"
      using "1.prems"(2) w(1,2) coherent_elem by (auto simp: list_all2_conv_all_nth)
    with "1.IH" [OF w(1,3,2)] "1.prems" w show ?thesis by simp
  qed
next
  case (2 a es w)
  show ?case
  proof (cases "strictEq (JObj a es) w")
    case True
    with 2 show ?thesis using coherent_same by blast
  next
    case False
    with "2.prems"(1) obtain b fs where w: "w = JObj b fs" "length es = length fs" "equalProperties es fs"
      by (auto split: json.splits)
    have d: "distinct (map fst es)" "distinct (map fst fs)" using "2.prems" w by simp_all
    have "coherent v u \<and> wf_json u" if "(k, v) \<in> set es" "map_of fs k = Some u" for k v u
      using that "2.prems" w coherent_prop [of a es b fs k v k u] map_of_SomeD [OF that(2)]
      by (auto simp: list_all_iff)
    with "2.IH" [OF w(1,3)] "2.prems" w d(1)
    have eq: "\<forall>k \<in> fst ` set es. map_option tree_of (map_of fs k) = map_option tree_of (map_of es k)"
      by simp
    have "fst ` set es \<subseteq> fst ` set fs"
    proof
      fix k assume k: "k \<in> fst ` set es"
      then obtain v where "map_of es k = Some v" by (metis map_of_eq_None_iff not_None_eq)
      with eq k show "k \<in> fst ` set fs" by (metis map_of_eq_None_iff option.map_disc_iff option.distinct(1))
    qed
    moreover have "card (fst ` set es) = card (fst ` set fs)"
      using d w(2) by (metis distinct_card length_map list.set_map)
    ultimately have keys: "fst ` set es = fst ` set fs"
      by (simp add: card_subset_eq)
    have "map_option tree_of (map_of fs k) = map_option tree_of (map_of es k)" for k
      using eq keys by (cases "k \<in> fst ` set es") (auto simp: map_of_eq_None_iff [THEN iffD2])
    then show ?thesis by (simp add: w(1) fun_eq_iff)
  qed
next
  case (7 k v es fs)
  from "7.prems"(1) obtain w where w: "map_of fs k = Some w" "equalJson v w" "equalProperties es fs"
    by (auto split: option.splits)
  from "7.prems"(3) [of k v w] w(1) have "coherent v w" "wf_json w" by simp_all
  with "7.IH"(1) [OF w(1,2)] "7.prems"(2) have eq: "tree_of v = tree_of w" by simp
  have "\<forall>x \<in> fst ` set es. map_option tree_of (map_of fs x) = map_option tree_of (map_of es x)"
    using "7.prems" by (intro "7.IH"(2) [OF w(3)]) (simp_all, blast)
  moreover have "k \<notin> fst ` set es" using "7.prems"(4) by simp
  ultimately show ?case using w(1) eq by auto
qed auto

lemma same_tree:
  "sameValue v w \<Longrightarrow> coherent v w \<Longrightarrow> wf_json v \<Longrightarrow> wf_json w \<Longrightarrow> tree_of v = tree_of w"
  by (auto simp: sameValue_def dest: coherent_same equal_tree(1))

lemma sameValue_refl: "strictEq v w \<Longrightarrow> sameValue v w"
  by (simp add: sameValue_def)

end
