(* ===== verification/Delta_Matches.thy ===== *)
theory Delta_Matches
  imports Delta_Diff "HOL-Library.Multiset"
begin

text \<open>
  What the differ's searches guarantee: every list of matches it splits an array region at is
  strictly increasing on both sides and stays inside the region, however the matches were found, and
  a permutation it reports takes every old element exactly once to a place that holds the same
  value. Nothing here needs the matches to be longest.
\<close>

subsection \<open>Increasing matches\<close>

fun increasing :: "nat \<Rightarrow> nat \<Rightarrow> nat \<Rightarrow> nat \<Rightarrow> array_match list \<Rightarrow> bool" where
  "increasing bs be as ae [] \<longleftrightarrow> bs \<le> be \<and> as \<le> ae"
| "increasing bs be as ae ((i, j) # ms) \<longleftrightarrow>
     bs \<le> i \<and> i < be \<and> as \<le> j \<and> j < ae \<and> increasing (i + 1) be (j + 1) ae ms"

lemma increasing_bounds: "increasing bs be as ae ms \<Longrightarrow> bs \<le> be \<and> as \<le> ae"
  by (induction ms arbitrary: bs as) fastforce+

lemma increasing_weaken:
  "increasing bs be as ae ms \<Longrightarrow> bs' \<le> bs \<Longrightarrow> be \<le> be' \<Longrightarrow> as' \<le> as \<Longrightarrow> ae \<le> ae' \<Longrightarrow>
     increasing bs' be' as' ae' ms"
  by (induction ms arbitrary: bs as bs' as') fastforce+

lemma increasing_snoc:
  "increasing bs i as j ms \<Longrightarrow> increasing bs (i + 1) as (j + 1) (ms @ [(i, j)])"
proof (induction ms arbitrary: bs as)
  case (Cons m ms)
  then show ?case by (cases m) simp
qed simp

lemma increasing_swap:
  "increasing as ae bs be (map prod.swap ms) \<longleftrightarrow> increasing bs be as ae ms"
  by (induction ms arbitrary: bs as) auto

lemma increasing_shift:
  "increasing l be r ae ms \<Longrightarrow>
     increasing (bs + l) (bs + be) (as + r) (as + ae) (map (\<lambda>(i, j). (bs + i, as + j)) ms)"
  by (induction ms arbitrary: l r) (auto, metis Suc_eq_plus1 add_Suc_right)

lemma positional_increasing:
  "sorted_wrt (<) js \<Longrightarrow> \<forall>i \<in> set js. k \<le> i \<and> i < c \<Longrightarrow> k \<le> c \<Longrightarrow>
     increasing (bs + k) (bs + c) (as + k) (as + c) (map (\<lambda>i. (bs + i, as + i)) js)"
proof (induction js arbitrary: k)
  case (Cons i js)
  have "\<forall>k \<in> set js. i + 1 \<le> k \<and> k < c" "i + 1 \<le> c" "sorted_wrt (<) js"
    using Cons.prems(1,2) by auto
  from Cons.IH [OF this(3,1,2)]
  have "increasing (bs + (i + 1)) (bs + c) (as + (i + 1)) (as + c) (map (\<lambda>i. (bs + i, as + i)) js)" .
  with Cons.prems show ?case by simp
qed simp

lemma positional_matches_increasing:
  assumes "bs + c = be" "as + c = ae"
  shows "increasing bs be as ae (positional_matches xs ys bs as c)"
proof -
  have "increasing (bs + 0) (bs + c) (as + 0) (as + c) (positional_matches xs ys bs as c)"
    unfolding positional_matches_def
  proof (rule positional_increasing)
    show "sorted_wrt (<) (filter (\<lambda>i. sameValue (xs ! (bs + i)) (ys ! (as + i))) [0..<c])"
      by (rule sorted_wrt_filter) simp
  qed simp_all
  then show ?thesis unfolding assms by simp
qed

lemma next_same_bounds: "i \<le> stop \<Longrightarrow> i \<le> next_same vs v i stop \<and> next_same vs v i stop \<le> stop"
proof (induction vs v i stop rule: next_same.induct)
  case (1 vs v i stop)
  show ?case
    using 1 by (cases "i < stop \<and> \<not> strictEq (vs ! i) v") (auto simp: next_same.simps [of vs v i stop])
qed

lemma embed_increasing:
  "embed_by_identity long i short stop [s..<e] = Some ms \<Longrightarrow> i \<le> stop \<Longrightarrow> s \<le> e \<Longrightarrow>
     increasing i stop s e ms"
proof (induction "e - s" arbitrary: i s ms)
  case 0
  then have "s = e" by simp
  with 0 show ?case by auto
next
  case (Suc d)
  then have js: "[s..<e] = s # [s + 1..<e]" "d = e - (s + 1)" "s < e" by (simp_all add: upt_conv_Cons)
  let ?i = "next_same long (short ! s) i stop"
  have i: "i \<le> ?i" "?i \<le> stop" using next_same_bounds [OF Suc.prems(2)] by blast+
  from Suc.prems(1) obtain ms' where ms: "?i \<noteq> stop"
    "embed_by_identity long (?i + 1) short stop [s + 1..<e] = Some ms'" "ms = (?i, s) # ms'"
    unfolding js(1) by (auto simp: Let_def split: if_splits)
  with i Suc.hyps(1) [OF js(2) ms(2)] js(3) show ?case by simp
qed

lemma identitySubsequence_increasing:
  assumes "identitySubsequence xs bs be ys as ae = Some ms" "bs \<le> be" "as \<le> ae"
  shows "increasing bs be as ae ms"
  using assms embed_increasing
  by (auto simp: identitySubsequence_def Let_def increasing_swap split: if_splits)

lemma lcs_walk_increasing:
  "l \<le> length xs \<Longrightarrow> r \<le> length ys \<Longrightarrow>
     increasing l (length xs) r (length ys) (lcs_walk equal xs ys table l r)"
proof (induction equal xs ys table l r rule: lcs_walk.induct)
  case (1 equal xs ys table l r)
  note unf = lcs_walk.simps [of equal xs ys table l r]
  show ?case
  proof (cases "l < length xs \<and> r < length ys")
    case True
    let ?w = "length ys + 1"
    note IH = "1.IH" [OF True refl]
    consider (a) "equal (xs ! l) (ys ! r) \<and> table ! (l * ?w + r) = table ! ((l + 1) * ?w + r + 1) + 1"
      | (b) "\<not> (equal (xs ! l) (ys ! r) \<and> table ! (l * ?w + r) = table ! ((l + 1) * ?w + r + 1) + 1)"
        "table ! ((l + 1) * ?w + r) \<ge> table ! (l * ?w + r + 1)"
      | (c) "\<not> (equal (xs ! l) (ys ! r) \<and> table ! (l * ?w + r) = table ! ((l + 1) * ?w + r + 1) + 1)"
        "\<not> table ! ((l + 1) * ?w + r) \<ge> table ! (l * ?w + r + 1)" by blast
    then show ?thesis
    proof cases
      case a
      then have "lcs_walk equal xs ys table l r = (l, r) # lcs_walk equal xs ys table (l + 1) (r + 1)"
        using True unf by (simp only: Let_def if_True simp_thms)
      with IH(1) [OF a] True show ?thesis by simp
    next
      case b
      then have "lcs_walk equal xs ys table l r = lcs_walk equal xs ys table (l + 1) r"
        using True unf by (simp only: Let_def if_True if_False simp_thms)
      with IH(2) [OF b] True show ?thesis by (auto intro: increasing_weaken)
    next
      case c
      then have "lcs_walk equal xs ys table l r = lcs_walk equal xs ys table l (r + 1)"
        using True unf by (simp only: Let_def if_True if_False simp_thms)
      with IH(3) [OF c] True show ?thesis by (auto intro: increasing_weaken)
    qed
  qed (use 1 unf in auto)
qed

lemma lcsMatches_increasing:
  "lcsMatches xs ys equal m = Some ms \<Longrightarrow> increasing 0 (length xs) 0 (length ys) ms"
  by (auto simp: lcsMatches_def Let_def intro: lcs_walk_increasing split: if_splits)

subsection \<open>Lower bounds and positions\<close>

lemma lower_bound_in_spec:
  assumes "low \<le> high" "high \<le> length vs" "low = 0 \<or> vs ! (low - 1) < x" "high = length vs \<or> \<not> vs ! high < x"
    "lower_bound_in vs x low high = r"
  shows "r \<le> length vs \<and> (r = 0 \<or> vs ! (r - 1) < x) \<and> (r = length vs \<or> \<not> vs ! r < x)"
  using assms
proof (induction vs x low high rule: lower_bound_in.induct)
  case (1 vs x low high)
  note unf = lower_bound_in.simps [of vs x low high]
  show ?case
  proof (cases "low < high")
    case True
    let ?m = "(low + high) div 2"
    have m: "low \<le> ?m" "?m < high" using True by simp_all
    show ?thesis
    proof (cases "vs ! ?m < x")
      case True
      with m "1.prems" unf show ?thesis
        by (intro "1.IH"(1) [OF \<open>low < high\<close> refl]) (simp_all add: Let_def)
    next
      case False
      with m "1.prems" unf show ?thesis
        by (intro "1.IH"(2) [OF \<open>low < high\<close> refl]) (simp_all add: Let_def)
    qed
  next
    case False
    with "1.prems" unf show ?thesis by auto
  qed
qed

text \<open>The bound is correct at its edges for every list, and so the least one on a sorted list.\<close>

lemma lowerBound_spec:
  "lowerBound vs x \<le> length vs"
  "lowerBound vs x = 0 \<or> vs ! (lowerBound vs x - 1) < x"
  "lowerBound vs x < length vs \<Longrightarrow> x \<le> vs ! lowerBound vs x"
  using lower_bound_in_spec [of 0 "length vs" vs x "lowerBound vs x"]
  by (auto simp: lowerBound_def)

definition positions_ok :: "nat \<Rightarrow> nat \<Rightarrow> (json \<times> nat list) list \<Rightarrow> bool" where
  "positions_ok start stop ps \<longleftrightarrow>
     (\<forall>(u, is) \<in> set ps. sorted_wrt (<) is \<and> (\<forall>i \<in> set is. start \<le> i \<and> i < stop))"

lemma add_index_ok:
  "positions_ok start i ps \<Longrightarrow> start \<le> i \<Longrightarrow> positions_ok start (Suc i) (add_index v i ps)"
proof (induction v i ps rule: add_index.induct)
  case (2 v i u "is" ps)
  then show ?case
    by (fastforce simp: positions_ok_def sorted_wrt_append)
qed (simp add: positions_ok_def)

lemma positions_in_ok: "start \<le> stop \<Longrightarrow> positions_ok start stop (positions_in xs start stop)"
  unfolding positions_in_def
proof (induction rule: dec_induct)
  case base
  then show ?case by (simp add: positions_ok_def)
next
  case (step n)
  then show ?case by (simp add: add_index_ok)
qed

lemma indices_of_ok:
  "indices_of ps v = Some is \<Longrightarrow> positions_ok start stop ps \<Longrightarrow>
     sorted_wrt (<) is \<and> (\<forall>i \<in> set is. start \<le> i \<and> i < stop)"
  by (induction ps v rule: indices_of.induct) (auto simp: positions_ok_def split: if_splits)

lemma greedy_increasing:
  "positions_ok bs be ps \<Longrightarrow> bs \<le> be \<Longrightarrow> next_free \<le> be \<Longrightarrow> s \<le> e \<Longrightarrow>
     increasing (max bs next_free) be s e (greedyIdentityAnchors ps ys next_free [s..<e])"
proof (induction "e - s" arbitrary: next_free s)
  case 0
  then have "s = e" by simp
  with 0 show ?case by simp
next
  case (Suc d)
  then have js: "[s..<e] = s # [s + 1..<e]" and j: "d = e - (s + 1)" "s < e" by (simp_all add: upt_conv_Cons)
  have skip: "increasing (max bs next_free) be s e (greedyIdentityAnchors ps ys next_free [s + 1..<e])"
    using increasing_weaken [OF Suc.hyps(1) [OF j(1)], of next_free "max bs next_free" be s e]
      Suc.prems j by simp
  show ?case
  proof (cases "indices_of ps (ys ! s)")
    case None
    with skip show ?thesis unfolding js by simp
  next
    case (Some "is")
    let ?a = "lowerBound is next_free"
    show ?thesis
    proof (cases "?a < length is")
      case True
      then have i: "is ! ?a \<in> set is" "next_free \<le> is ! ?a" by (simp_all add: lowerBound_spec(3))
      with indices_of_ok [OF Some Suc.prems(1)] have r: "bs \<le> is ! ?a" "is ! ?a < be" by blast+
      with Suc.hyps(1) [OF j(1), of "is ! ?a + 1"] Suc.prems j
      have "increasing (is ! ?a + 1) be (s + 1) e (greedyIdentityAnchors ps ys (is ! ?a + 1) [s + 1..<e])"
        by (simp add: max_absorb2)
      with True r i Some j show ?thesis unfolding js by (simp add: Let_def)
    qed (use skip Some in \<open>simp add: js Let_def\<close>)
  qed
qed

subsection \<open>The longest chain\<close>

text \<open>
  The state of the search when old positions below \<open>limit\<close> are still to be placed for the new
  position \<open>j\<close>: a candidate follows its predecessor on both sides, and the tails name the
  candidates whose old positions they hold.
\<close>

definition patience_ok :: "nat \<Rightarrow> nat \<Rightarrow> nat \<Rightarrow> nat \<Rightarrow> nat \<Rightarrow> nat \<Rightarrow> patience \<Rightarrow> bool" where
  "patience_ok bs be as ae j limit s \<longleftrightarrow>
     (\<forall>i < length (candidates s).
        let c = candidates s ! i in
        bs \<le> cand_before c \<and> cand_before c < be \<and> as \<le> cand_after c \<and> cand_after c < ae \<and>
        (cand_after c < j \<or> cand_after c = j \<and> limit \<le> cand_before c) \<and>
        (\<forall>p. cand_previous c = Some p \<longrightarrow> p < i \<and>
          cand_before (candidates s ! p) < cand_before c \<and> cand_after (candidates s ! p) < cand_after c)) \<and>
     length (tails s) = length (tailValues s) \<and>
     (\<forall>k < length (tails s). tails s ! k < length (candidates s) \<and>
        cand_before (candidates s ! (tails s ! k)) = tailValues s ! k)"

lemma assign_at_nth:
  "i \<le> length xs \<Longrightarrow> k < length (assign_at xs i x) \<Longrightarrow>
     assign_at xs i x ! k = (if k = i then x else xs ! k) \<and> (k = i \<or> k < length xs)"
  by (auto simp: assign_at_def nth_append split: if_splits)

lemma assign_at_length: "length (assign_at xs i x) = (if i < length xs then length xs else Suc (length xs))"
  by (simp add: assign_at_def)

lemma place_candidate_ok:
  assumes ok: "patience_ok bs be as ae j limit s"
    and i: "i < limit" "bs \<le> i" "i < be" "as \<le> j" "j < ae"
  shows "patience_ok bs be as ae j i (place_candidate j i s)"
proof -
  let ?a = "lowerBound (tailValues s) i" and ?n = "length (candidates s)"
  let ?prev = "if ?a = 0 then None else Some (tails s ! (?a - 1))"
  let ?c = "\<lparr>cand_before = i, cand_after = j, cand_previous = ?prev\<rparr>"
  let ?s = "place_candidate j i s"
  have s: "candidates ?s = candidates s @ [?c]" "tails ?s = assign_at (tails s) ?a ?n"
    "tailValues ?s = assign_at (tailValues s) ?a i"
    by (simp_all add: place_candidate_def Let_def)
  have len: "length (tails s) = length (tailValues s)" "?a \<le> length (tails s)"
    using ok lowerBound_spec(1) [of "tailValues s" i] by (simp_all add: patience_ok_def)
  have prev: "p < ?n \<and> cand_before (candidates s ! p) < i \<and> cand_after (candidates s ! p) < j"
    if "?prev = Some p" for p
  proof -
    from that have a: "?a \<noteq> 0" "p = tails s ! (?a - 1)" by (simp_all split: if_splits)
    then have k: "?a - 1 < length (tails s)" using len by simp
    with ok a have p: "p < ?n" "cand_before (candidates s ! p) = tailValues s ! (?a - 1)"
      by (simp_all add: patience_ok_def)
    then have b: "cand_before (candidates s ! p) < i" using lowerBound_spec(2) [of "tailValues s" i] a by simp
    from ok p(1) have "cand_after (candidates s ! p) < j \<or>
        cand_after (candidates s ! p) = j \<and> limit \<le> cand_before (candidates s ! p)"
      by (simp add: patience_ok_def Let_def)
    with b i(1) p(1) show ?thesis by linarith
  qed
  have old: "bs \<le> cand_before (candidates s ! m) \<and> cand_before (candidates s ! m) < be \<and>
      as \<le> cand_after (candidates s ! m) \<and> cand_after (candidates s ! m) < ae \<and>
      (cand_after (candidates s ! m) < j \<or>
       cand_after (candidates s ! m) = j \<and> limit \<le> cand_before (candidates s ! m)) \<and>
      (\<forall>p. cand_previous (candidates s ! m) = Some p \<longrightarrow> p < m \<and>
        cand_before (candidates s ! p) < cand_before (candidates s ! m) \<and>
        cand_after (candidates s ! p) < cand_after (candidates s ! m))"
    if "m < ?n" for m
    using ok that by (simp add: patience_ok_def Let_def)
  have cands: "bs \<le> cand_before (candidates ?s ! m) \<and> cand_before (candidates ?s ! m) < be \<and>
      as \<le> cand_after (candidates ?s ! m) \<and> cand_after (candidates ?s ! m) < ae \<and>
      (cand_after (candidates ?s ! m) < j \<or>
       cand_after (candidates ?s ! m) = j \<and> i \<le> cand_before (candidates ?s ! m)) \<and>
      (\<forall>p. cand_previous (candidates ?s ! m) = Some p \<longrightarrow> p < m \<and>
        cand_before (candidates ?s ! p) < cand_before (candidates ?s ! m) \<and>
        cand_after (candidates ?s ! p) < cand_after (candidates ?s ! m))"
    if m: "m < length (candidates ?s)" for m
  proof (cases "m < ?n")
    case True
    from old [OF True] i(1) True show ?thesis unfolding s(1) by (auto simp: nth_append)
  next
    case False
    with m have "m = ?n" by (simp add: s(1))
    then show ?thesis using i prev unfolding s(1) by (auto simp: nth_append)
  qed
  have "tails ?s ! k < length (candidates ?s) \<and>
      cand_before (candidates ?s ! (tails ?s ! k)) = tailValues ?s ! k" if k: "k < length (tails ?s)" for k
  proof -
    have k': "k < length (tailValues ?s)" using k len(1) by (simp add: s assign_at_length split: if_splits)
    note t = assign_at_nth [OF len(2) k [unfolded s]]
    note v = assign_at_nth [OF len(2) [unfolded len(1)] k' [unfolded s]]
    show ?thesis
    proof (cases "k = ?a")
      case False
      with t have "k < length (tails s)" by blast
      with ok have "tails s ! k < ?n" "cand_before (candidates s ! (tails s ! k)) = tailValues s ! k"
        by (simp_all add: patience_ok_def)
      with False t v show ?thesis by (simp add: s nth_append)
    qed (use t v in \<open>simp add: s\<close>)
  qed
  with cands len(1) show ?thesis
    unfolding patience_ok_def Let_def by (simp add: s(2,3) assign_at_length)
qed

lemma patience_ok_mono:
  "patience_ok bs be as ae j limit s \<Longrightarrow> j < j' \<Longrightarrow> patience_ok bs be as ae j' limit' s"
  unfolding patience_ok_def Let_def by fastforce

lemma place_all_ok:
  "patience_ok bs be as ae j limit s \<Longrightarrow> sorted_wrt (>) ds \<Longrightarrow>
     \<forall>i \<in> set ds. i < limit \<and> bs \<le> i \<and> i < be \<Longrightarrow> as \<le> j \<Longrightarrow> j < ae \<Longrightarrow>
     \<exists>l. patience_ok bs be as ae j l (fold (place_candidate j) ds s)"
proof (induction ds arbitrary: s limit)
  case (Cons i ds)
  have "patience_ok bs be as ae j i (place_candidate j i s)"
    using Cons.prems by (intro place_candidate_ok) auto
  from Cons.IH [OF this] Cons.prems show ?case by auto
qed auto

lemma place_candidates_ok:
  assumes "positions_ok bs be ps" and "as \<le> s0"
  shows "patience_ok bs be as ae s0 be s \<Longrightarrow> s0 \<le> ae \<Longrightarrow>
    patience_ok bs be as ae ae be (place_candidates ps ys [s0..<ae] s)"
  using assms(2)
proof (induction "ae - s0" arbitrary: s0 s)
  case 0
  then have "s0 = ae" by simp
  with 0 show ?case by simp
next
  case (Suc d)
  then have js: "[s0..<ae] = s0 # [s0 + 1..<ae]" "d = ae - (s0 + 1)" "s0 < ae"
    by (simp_all add: upt_conv_Cons)
  show ?case
  proof (cases "indices_of ps (ys ! s0)")
    case None
    have "patience_ok bs be as ae (s0 + 1) be s" by (rule patience_ok_mono [OF Suc.prems(1)]) simp
    from Suc.hyps(1) [OF js(2) this] None js(3) Suc.prems(3) show ?thesis unfolding js(1) by simp
  next
    case (Some "is")
    have "sorted_wrt (>) (rev is)" "\<forall>i \<in> set (rev is). i < be \<and> bs \<le> i \<and> i < be"
      using indices_of_ok [OF Some assms(1)] by (simp_all add: sorted_wrt_rev)
    from place_all_ok [OF Suc.prems(1) this Suc.prems(3) js(3)] obtain l
      where "patience_ok bs be as ae s0 l (fold (place_candidate s0) (rev is) s)" by blast
    then have "patience_ok bs be as ae (s0 + 1) be (fold (place_candidate s0) (rev is) s)"
      by (rule patience_ok_mono) simp
    from Suc.hyps(1) [OF js(2) this] Some js(3) Suc.prems(3) show ?thesis unfolding js(1) by simp
  qed
qed

lemma candidate_chain_increasing:
  assumes "patience_ok bs be as ae j limit s"
  shows "i < length (candidates s) \<Longrightarrow>
    increasing bs (cand_before (candidates s ! i) + 1) as (cand_after (candidates s ! i) + 1)
      (rev (candidate_chain fuel (candidates s) (Some i)))"
proof (induction fuel arbitrary: i)
  case 0
  then have "bs \<le> cand_before (candidates s ! i)" "as \<le> cand_after (candidates s ! i)"
    using assms by (simp_all add: patience_ok_def Let_def)
  then show ?case by simp
next
  case (Suc fuel)
  let ?c = "candidates s ! i"
  from assms Suc.prems have c: "bs \<le> cand_before ?c" "as \<le> cand_after ?c"
    "\<And>p. cand_previous ?c = Some p \<Longrightarrow> p < i \<and>
      cand_before (candidates s ! p) < cand_before ?c \<and> cand_after (candidates s ! p) < cand_after ?c"
    by (simp_all add: patience_ok_def Let_def)
  have "increasing bs (cand_before ?c) as (cand_after ?c)
      (rev (candidate_chain fuel (candidates s) (cand_previous ?c)))"
  proof (cases "cand_previous ?c")
    case None
    then show ?thesis using c(1,2) by (cases fuel) simp_all
  next
    case (Some p)
    from c(3) [OF this] Suc.prems have p: "p < length (candidates s)" "p < i"
      "cand_before (candidates s ! p) + 1 \<le> cand_before ?c"
      "cand_after (candidates s ! p) + 1 \<le> cand_after ?c" by simp_all
    show ?thesis
      using increasing_weaken [OF Suc.IH [OF p(1)] order_refl p(3) order_refl p(4)] Some by simp
  qed
  then show ?case using increasing_snoc by simp
qed

text \<open>The fuel of the chain is enough: more of it changes nothing.\<close>

lemma candidate_chain_fuel:
  assumes "patience_ok bs be as ae j limit s"
  shows "i < length (candidates s) \<Longrightarrow> i < n \<Longrightarrow> i < m \<Longrightarrow>
    candidate_chain n (candidates s) (Some i) = candidate_chain m (candidates s) (Some i)"
proof (induction n arbitrary: i m)
  case (Suc n)
  then obtain m' where m: "m = Suc m'" by (cases m) simp_all
  have prev: "\<And>p. cand_previous (candidates s ! i) = Some p \<Longrightarrow> p < i"
    using assms Suc.prems(1) by (simp add: patience_ok_def Let_def)
  show ?case
  proof (cases "cand_previous (candidates s ! i)")
    case None
    then show ?thesis unfolding m by (cases n; cases m') simp_all
  next
    case (Some p)
    with prev [OF Some] Suc.prems m Suc.IH [of p m'] show ?thesis unfolding m by simp
  qed
qed simp

lemma patience_tail:
  "patience_ok bs be as ae j l s \<Longrightarrow> k < length (tails s) \<Longrightarrow> tails s ! k < length (candidates s)"
  by (simp add: patience_ok_def)

lemma patience_bounds:
  "patience_ok bs be as ae j l s \<Longrightarrow> i < length (candidates s) \<Longrightarrow>
     cand_before (candidates s ! i) < be \<and> cand_after (candidates s ! i) < ae"
  by (simp add: patience_ok_def Let_def)

lemma identityAnchors_increasing:
  assumes "bs \<le> be" "as \<le> ae"
  shows "increasing bs be as ae (identityAnchors xs bs be ys as ae)"
proof -
  let ?ps = "positions_in xs bs be"
  let ?init = "\<lparr>candidates = [], tails = [], tailValues = []\<rparr>"
  let ?final = "place_candidates ?ps ys [as..<ae] ?init"
  note ps = positions_in_ok [OF assms(1), of xs]
  have "patience_ok bs be as ae as be ?init" by (simp add: patience_ok_def)
  from place_candidates_ok [OF ps order_refl this assms(2)] have ok: "patience_ok bs be as ae ae be ?final" .
  have chain: "increasing bs be as ae (rev (candidate_chain (length (candidates ?final)) (candidates ?final) (Some (last (tails ?final)))))"
    if "tails ?final \<noteq> []"
  proof -
    have "last (tails ?final) = tails ?final ! (length (tails ?final) - 1)" using that by (rule last_conv_nth)
    moreover have "length (tails ?final) - 1 < length (tails ?final)" using that by simp
    ultimately have i: "last (tails ?final) < length (candidates ?final)"
      using patience_tail [OF ok] by simp
    then have "cand_before (candidates ?final ! last (tails ?final)) + 1 \<le> be"
      "cand_after (candidates ?final ! last (tails ?final)) + 1 \<le> ae"
      using patience_bounds [OF ok i] by simp_all
    from increasing_weaken [OF candidate_chain_increasing [OF ok i] order_refl this(1) order_refl this(2)]
    show ?thesis .
  qed
  have empty: "increasing bs be as ae (rev (candidate_chain n cs None))" for n cs
    using assms by (cases n) simp_all
  have greedy: "increasing bs be as ae (greedyIdentityAnchors ?ps ys 0 [as..<ae])"
    using greedy_increasing [OF ps assms(1) _ assms(2), of 0] by simp
  show ?thesis
    using chain empty greedy assms
    by (simp add: identityAnchors_def Let_def split: option.split)
qed

subsection \<open>The matches of a region\<close>

lemma region_matches_increasing:
  assumes "bs \<le> be" "be \<le> length xs" "as \<le> ae" "ae \<le> length ys"
  shows "increasing bs be as ae (region_matches xs ys bs be as ae)"
proof -
  have pos: "increasing bs be as ae (positional_matches xs ys bs as (be - bs))" if "be - bs = ae - as"
    using positional_matches_increasing [of bs "be - bs" be as ae xs ys] that assms by simp
  have sub: "increasing bs be as ae ms" if "identitySubsequence xs bs be ys as ae = Some ms" for ms
    using identitySubsequence_increasing [OF that] assms by blast
  have len: "length (slice xs bs be) = be - bs" "length (slice ys as ae) = ae - as"
    using assms by (simp_all add: slice_def)
  have lcs: "increasing bs be as ae (map (\<lambda>(i, j). (bs + i, as + j)) ms)"
    if "lcsMatches (slice xs bs be) (slice ys as ae) semanticallyAligned MAX_SEMANTIC_CELLS = Some ms" for ms
    using increasing_shift [OF lcsMatches_increasing [OF that], of bs as] assms by (simp add: len)
  show ?thesis
    using pos sub lcs identityAnchors_increasing [of bs be as ae xs ys] assms
    unfolding region_matches_def by (simp add: Let_def split: option.split if_split)
qed

subsection \<open>Permutations\<close>

definition available :: "(json \<times> positions_entry) list \<Rightarrow> nat multiset" where
  "available ps = (\<Sum>(u, e) \<leftarrow> ps. mset (drop (used e) (indices e)))"

lemma available_simps [simp]:
  "available [] = {#}" "available ((u, e) # ps) = mset (drop (used e) (indices e)) + available ps"
  by (simp_all add: available_def)

definition entries_ok :: "json list \<Rightarrow> (json \<times> positions_entry) list \<Rightarrow> bool" where
  "entries_ok xs ps \<longleftrightarrow> (\<forall>(u, e) \<in> set ps. used e \<le> length (indices e) \<and>
     (\<forall>i \<in> set (indices e). i < length xs \<and> strictEq u (xs ! i)))"

lemma add_position_ok:
  "entries_ok xs ps \<Longrightarrow> i < length xs \<Longrightarrow> v = xs ! i \<Longrightarrow>
     entries_ok xs (add_position v i ps) \<and> available (add_position v i ps) = add_mset i (available ps)"
proof (induction v i ps rule: add_position.induct)
  case (2 v i u e ps)
  then show ?case by (auto simp: entries_ok_def)
qed (simp add: entries_ok_def)

lemma add_positions_ok:
  "entries_ok xs ps \<Longrightarrow> \<forall>(i, v) \<in> set L. i < length xs \<and> v = xs ! i \<Longrightarrow>
     entries_ok xs (fold (\<lambda>(i, v). add_position v i) L ps) \<and>
     available (fold (\<lambda>(i, v). add_position v i) L ps) = mset (map fst L) + available ps"
proof (induction L arbitrary: ps)
  case (Cons e L)
  obtain i v where e: "e = (i, v)" by fastforce
  with Cons.prems add_position_ok [of xs ps i v]
  have "entries_ok xs (add_position v i ps)" "available (add_position v i ps) = add_mset i (available ps)"
    by simp_all
  with Cons.IH [OF this(1)] Cons.prems(2) e show ?case by simp
qed simp

lemma take_position_ok:
  "take_position v ps = Some (i, ps') \<Longrightarrow> entries_ok xs ps \<Longrightarrow>
     entries_ok xs ps' \<and> available ps = add_mset i (available ps') \<and> i < length xs \<and> strictEq (xs ! i) v"
proof (induction v ps arbitrary: i ps' rule: take_position.induct)
  case (2 v u e ps)
  show ?case
  proof (cases "strictEq u v")
    case True
    with "2.prems" have u: "used e < length (indices e)" "i = indices e ! used e"
      "ps' = (u, e\<lparr>used := used e + 1\<rparr>) # ps"
      by (auto simp: entries_ok_def split: if_splits)
    then have "i \<in> set (indices e)" by simp
    with "2.prems"(2) have i: "i < length xs" "strictEq u (xs ! i)" by (auto simp: entries_ok_def)
    with True have "strictEq (xs ! i) v" using strictEq_sym strictEq_trans by blast
    with u i "2.prems"(2) show ?thesis
      by (auto simp: entries_ok_def Cons_nth_drop_Suc [symmetric])
  next
    case False
    with "2.prems"(1) obtain qs where t: "take_position v ps = Some (i, qs)" "ps' = (u, e) # qs"
      by auto
    with "2.IH" [OF False t(1)] "2.prems"(2) show ?thesis by (auto simp: entries_ok_def)
  qed
qed simp

lemma take_positions_ok:
  "take_positions vs ps = Some order \<Longrightarrow> entries_ok xs ps \<Longrightarrow>
     mset order \<subseteq># available ps \<and> list_all2 (\<lambda>i v. i < length xs \<and> strictEq (xs ! i) v) order vs"
proof (induction vs arbitrary: ps order)
  case (Cons v vs)
  then obtain i qs rest where t: "take_position v ps = Some (i, qs)" "take_positions vs qs = Some rest"
    "order = i # rest" by (auto split: option.splits)
  from take_position_ok [OF t(1) Cons.prems(2)] Cons.IH [OF t(2)] t(3) show ?case by simp
qed simp

lemma permutation_correct:
  assumes "permutation xs ys = Some order"
  shows "distinct order \<and> length order = length xs \<and> length xs = length ys \<and>
    (\<forall>k < length ys. order ! k < length xs \<and> strictEq (xs ! (order ! k)) (ys ! k))"
proof -
  let ?L = "List.enumerate 0 xs"
  have len: "length xs = length ys" using assms by (auto simp: permutation_def split: if_splits)
  have "\<forall>(i, v) \<in> set ?L. i < length xs \<and> v = xs ! i" by (auto simp: in_set_enumerate_eq)
  from add_positions_ok [OF _ this, of "[]"] have
    ok: "entries_ok xs (fold (\<lambda>(i, v). add_position v i) ?L [])"
    "available (fold (\<lambda>(i, v). add_position v i) ?L []) = mset [0..<length xs]"
    by (simp_all add: entries_ok_def)
  from assms len have "take_positions ys (fold (\<lambda>(i, v). add_position v i) ?L []) = Some order"
    by (simp add: permutation_def)
  from take_positions_ok [OF this ok(1)] ok(2) have o: "mset order \<subseteq># mset [0..<length xs]"
    "list_all2 (\<lambda>i v. i < length xs \<and> strictEq (xs ! i) v) order ys" by simp_all
  from o(1) have "distinct order"
    by (metis distinct_upt mset_subset_eqD mset_subset_eq_exists_conv distinct_append mset_append ex_mset
        mset_eq_imp_distinct_iff)
  with o(2) len show ?thesis by (auto simp: list_all2_conv_all_nth)
qed

end
