(* ===== verification/Delta_Correct.thy ===== *)
theory Delta_Correct
  imports Delta_Matches
begin

text \<open>
  The differ is correct: applied to the old revision, the operations of \<open>diffRevisions\<close> give the new
  one, for any two coherent revisions, at any size. The proof follows the recursion of the differ
  once, on the fuel: each of its functions extends a batch by operations that turn the part of the
  document it was called for into the part it should become, wherever that part sits.
\<close>

subsection \<open>Parts of a tree\<close>

fun tree_at :: "tree \<Rightarrow> path \<Rightarrow> tree option" where
  "tree_at t [] = Some t"
| "tree_at t (seg # p) = (case tree_get t seg of None \<Rightarrow> None | Some c \<Rightarrow> tree_at c p)"

fun tree_set :: "tree \<Rightarrow> path \<Rightarrow> tree \<Rightarrow> tree" where
  "tree_set t [] u = u"
| "tree_set t (seg # p) u =
     (case tree_get t seg of None \<Rightarrow> t | Some c \<Rightarrow> tree_put t seg (tree_set c p u))"

lemma tree_get_put: "tree_get t seg \<noteq> None \<Longrightarrow> tree_get (tree_put t seg u) seg = Some u"
  by (cases t; cases seg) (auto split: if_splits)

lemma tree_put_put: "tree_get t seg \<noteq> None \<Longrightarrow> tree_put (tree_put t seg u) seg w = tree_put t seg w"
  by (cases t; cases seg) (auto split: if_splits)

lemma tree_put_same: "tree_get t seg = Some u \<Longrightarrow> tree_put t seg u = t"
  by (cases t; cases seg) (auto split: if_splits simp: fun_upd_idem)

lemma tree_at_set: "tree_at t p = Some c \<Longrightarrow> tree_at (tree_set t p u) p = Some u"
  by (induction t p arbitrary: c rule: tree_at.induct) (auto simp: tree_get_put split: option.splits)

lemma tree_set_set: "tree_at t p = Some c \<Longrightarrow> tree_set (tree_set t p u) p w = tree_set t p w"
  by (induction t p arbitrary: c rule: tree_at.induct)
    (auto simp: tree_get_put tree_put_put split: option.splits)

lemma tree_set_same: "tree_at t p = Some c \<Longrightarrow> tree_set t p c = t"
  by (induction t p arbitrary: c rule: tree_at.induct) (auto simp: tree_put_same split: option.splits)

lemma tree_at_snoc: "tree_at t (p @ [seg]) = Option.bind (tree_at t p) (\<lambda>c. tree_get c seg)"
  by (induction t p rule: tree_at.induct) (auto split: option.split)

lemma tree_set_snoc:
  "tree_at t p = Some c \<Longrightarrow> tree_get c seg \<noteq> None \<Longrightarrow>
     tree_set t (p @ [seg]) u = tree_set t p (tree_put c seg u)"
  by (induction t p arbitrary: c rule: tree_at.induct) (auto split: option.splits)

lemma tree_edit_at:
  "tree_at t p = Some c \<Longrightarrow> tree_node c \<Longrightarrow> tree_edit t p f = map_option (tree_set t p) (f c)"
proof (induction t p arbitrary: c rule: tree_at.induct)
  case (2 t seg p)
  then obtain d where "tree_get t seg = Some d" "tree_at d p = Some c"
    by (auto split: option.splits)
  with 2 show ?case by (simp add: option.map_comp comp_def)
qed (simp add: option.map_id [unfolded id_def] tree_set.simps(1) [abs_def])

text \<open>A named child: of an object by key, of an array by index.\<close>

lemma tree_get_node: "tree_get t seg = Some c \<Longrightarrow> tree_node t \<and> tree_key_ok seg t"
  by (cases t; cases seg) (auto split: if_splits)

lemma tree_parent_child:
  assumes "tree_at t (p @ [seg]) = Some c"
  shows "\<exists>u. tree_at t p = Some u \<and> tree_get u seg = Some c \<and>
    (\<forall>f. tree_parent t (p @ [seg]) f = map_option (tree_set t p) (f seg u))"
proof -
  from assms obtain u where u: "tree_at t p = Some u" "tree_get u seg = Some c"
    by (auto simp: tree_at_snoc bind_eq_Some_conv)
  with tree_get_node [OF u(2)] tree_edit_at [OF u(1)] show ?thesis
    by (auto simp: tree_parent_def)
qed

lemma tree_set_child:
  assumes "tree_at t (p @ [seg]) = Some c"
  shows "tree_op t (OpS (p @ [seg]) v) = Some (tree_set t (p @ [seg]) (tree_of v))"
proof -
  obtain u where u: "tree_at t p = Some u" "tree_get u seg = Some c"
    "\<And>f. tree_parent t (p @ [seg]) f = map_option (tree_set t p) (f seg u)"
    using tree_parent_child [OF assms] by blast
  then show ?thesis by (simp add: tree_set_snoc)
qed

lemma tree_rewrite_child:
  assumes "tree_at t (p @ [seg]) = Some (TStr s)"
  shows "tree_op t (OpA (p @ [seg]) x) = Some (tree_set t (p @ [seg]) (TStr (s @ x)))"
    "tree_op t (OpT (p @ [seg]) n) = Some (tree_set t (p @ [seg]) (TStr (drop n s)))"
proof -
  obtain u where u: "tree_at t p = Some u" "tree_get u seg = Some (TStr s)"
    "\<And>f. tree_parent t (p @ [seg]) f = map_option (tree_set t p) (f seg u)"
    using tree_parent_child [OF assms] by blast
  then show "tree_op t (OpA (p @ [seg]) x) = Some (tree_set t (p @ [seg]) (TStr (s @ x)))"
    "tree_op t (OpT (p @ [seg]) n) = Some (tree_set t (p @ [seg]) (TStr (drop n s)))"
    by (simp_all add: tree_set_snoc tree_rewrite_def)
qed

subsection \<open>Extending a batch\<close>

text \<open>
  \<open>emits b b' G\<close>: the batch is given up, or operations were added that take every document to the
  one \<open>G\<close> relates it to.
\<close>

definition emits :: "batch \<Rightarrow> batch \<Rightarrow> (tree \<Rightarrow> tree \<Rightarrow> bool) \<Rightarrow> bool" where
  "emits b b' G \<longleftrightarrow>
     (length (emitted b) \<le> MAX_DELTA_OPERATIONS \<longrightarrow> length (emitted b') \<le> MAX_DELTA_OPERATIONS) \<and>
     (overflowed b' \<or>
      (\<not> overflowed b \<and> (\<exists>ws. emitted b' = emitted b @ ws \<and> list_all op_ok ws \<and>
         (\<forall>d d'. G d d' \<longrightarrow> tree_ops d ws = Some d'))))"

lemma emits_none: "(\<And>d d'. G d d' \<Longrightarrow> d = d') \<Longrightarrow> emits b b G"
  by (auto simp: emits_def intro: exI [of _ "[]"])

lemma emits_overflowed: "overflowed b \<Longrightarrow> emits b b G"
  by (simp add: emits_def)

lemma emits_one:
  assumes "op_ok w" "\<And>d d'. G d d' \<Longrightarrow> tree_op d w = Some d'"
  shows "emits b (emitOperation w b) G"
proof (cases "overflowed (emitOperation w b)")
  case False
  then have "emitted (emitOperation w b) = emitted b @ [w]" "\<not> overflowed b"
    "length (emitted b) < MAX_DELTA_OPERATIONS"
    by (auto simp: emitOperation_def split: if_splits)
  with assms show ?thesis
    unfolding emits_def by (intro conjI impI disjI2 exI [of _ "[w]"]) auto
qed (auto simp: emits_def emitOperation_def)

lemma emits_trans:
  assumes "emits b b1 G1" "emits b1 b2 G2" "\<And>d d''. G d d'' \<Longrightarrow> \<exists>d'. G1 d d' \<and> G2 d' d''"
  shows "emits b b2 G"
proof -
  have len: "length (emitted b) \<le> MAX_DELTA_OPERATIONS \<longrightarrow> length (emitted b2) \<le> MAX_DELTA_OPERATIONS"
    using assms(1,2) by (simp add: emits_def)
  show ?thesis
  proof (cases "overflowed b2")
    case False
    with assms(2) obtain ws2 where 2: "\<not> overflowed b1" "emitted b2 = emitted b1 @ ws2" "list_all op_ok ws2"
      "\<And>d d'. G2 d d' \<Longrightarrow> tree_ops d ws2 = Some d'" by (auto simp: emits_def)
    with assms(1) obtain ws1 where 1: "\<not> overflowed b" "emitted b1 = emitted b @ ws1" "list_all op_ok ws1"
      "\<And>d d'. G1 d d' \<Longrightarrow> tree_ops d ws1 = Some d'" by (auto simp: emits_def)
    have "tree_ops d (ws1 @ ws2) = Some d''" if "G d d''" for d d''
      using assms(3) [OF that] 1(4) 2(4) by (auto simp: tree_ops_append)
    with 1 2 len show ?thesis
      unfolding emits_def by (intro conjI disjI2 exI [of _ "ws1 @ ws2"]) auto
  qed (use len in \<open>simp add: emits_def\<close>)
qed

lemma emits_mono: "emits b b' G' \<Longrightarrow> (\<And>d d'. G d d' \<Longrightarrow> G' d d') \<Longrightarrow> emits b b' G"
  unfolding emits_def by blast

text \<open>The part at a path changes from one tree to another.\<close>

definition replaces :: "path \<Rightarrow> tree \<Rightarrow> tree \<Rightarrow> tree \<Rightarrow> tree \<Rightarrow> bool" where
  "replaces p t t' d d' \<longleftrightarrow> tree_at d p = Some t \<and> d' = tree_set d p t'"

text \<open>A run of elements of the array at a path, from a given index on, changes.\<close>

definition replaces_run :: "path \<Rightarrow> nat \<Rightarrow> tree list \<Rightarrow> tree list \<Rightarrow> tree \<Rightarrow> tree \<Rightarrow> bool" where
  "replaces_run p n ts ts' d d' \<longleftrightarrow>
     (\<exists>pre suf. length pre = n \<and> tree_at d p = Some (TArr (pre @ ts @ suf)) \<and>
        d' = tree_set d p (TArr (pre @ ts' @ suf)))"

lemma replaces_same: "replaces p t t d d' \<Longrightarrow> d = d'"
  by (auto simp: replaces_def tree_set_same)

lemma replaces_trans: "replaces p t t'' d d'' \<Longrightarrow> \<exists>d'. replaces p t t' d d' \<and> replaces p t' t'' d' d''"
  by (auto simp: replaces_def tree_at_set tree_set_set)

lemma replaces_run_same: "replaces_run p n ts ts d d' \<Longrightarrow> d = d'"
  by (auto simp: replaces_run_def tree_set_same)

lemma replaces_array: "replaces p (TArr ts) (TArr ts') d d' \<Longrightarrow> replaces_run p 0 ts ts' d d'"
  by (auto simp: replaces_def replaces_run_def)

lemma replaces_run_append:
  assumes "replaces_run p n (ts1 @ ts2) (ts1' @ ts2') d d'" "m = n + length ts1'"
  shows "\<exists>d1. replaces_run p n ts1 ts1' d d1 \<and> replaces_run p m ts2 ts2' d1 d'"
proof -
  from assms obtain pre suf where d: "length pre = n"
    "tree_at d p = Some (TArr (pre @ ts1 @ ts2 @ suf))" "d' = tree_set d p (TArr (pre @ ts1' @ ts2' @ suf))"
    by (auto simp: replaces_run_def)
  let ?d = "tree_set d p (TArr (pre @ ts1' @ ts2 @ suf))"
  have "replaces_run p n ts1 ts1' d ?d"
    unfolding replaces_run_def using d by (intro exI [of _ pre] exI [of _ "ts2 @ suf"]) simp
  moreover have "replaces_run p m ts2 ts2' ?d d'"
    unfolding replaces_run_def using d assms(2)
    by (intro exI [of _ "pre @ ts1'"] exI [of _ suf]) (simp add: tree_at_set [OF d(2)] tree_set_set [OF d(2)])
  ultimately show ?thesis by blast
qed

lemma replaces_run_inner:
  assumes "replaces_run p n (c @ ts @ e) (c @ ts' @ e) d d'"
  shows "replaces_run p (n + length c) ts ts' d d'"
proof -
  from assms obtain pre suf where d: "length pre = n"
    "tree_at d p = Some (TArr (pre @ c @ ts @ e @ suf))" "d' = tree_set d p (TArr (pre @ c @ ts' @ e @ suf))"
    by (auto simp: replaces_run_def)
  then show ?thesis
    unfolding replaces_run_def by (intro exI [of _ "pre @ c"] exI [of _ "e @ suf"]) simp
qed

lemma replaces_run_one:
  assumes "replaces_run p n [t] [t'] d d'"
  shows "replaces (p @ [SIdx n]) t t' d d'"
proof -
  from assms obtain pre suf where d: "length pre = n" "tree_at d p = Some (TArr (pre @ t # suf))"
    "d' = tree_set d p (TArr (pre @ t' # suf))"
    by (auto simp: replaces_run_def)
  moreover have "(pre @ t # suf) ! n = t" using d(1) by (metis nth_append_length)
  ultimately show ?thesis
    by (simp add: replaces_def tree_at_snoc tree_set_snoc list_update_append)
qed

lemma emits_splice:
  assumes "safe_path p" "r = length ts" "ts' = map tree_of items"
  shows "emits b (emitOperation (OpP p n r items) b) (replaces_run p n ts ts')"
proof (rule emits_one)
  fix d d' assume "replaces_run p n ts ts' d d'"
  then obtain pre suf where d: "length pre = n" "tree_at d p = Some (TArr (pre @ ts @ suf))"
    "d' = tree_set d p (TArr (pre @ ts' @ suf))" by (auto simp: replaces_run_def)
  from tree_edit_at [OF d(2)] d assms show "tree_op d (OpP p n r items) = Some d'"
    by (simp add: splice_def)
qed (use assms in simp)

lemma emits_set:
  assumes "safe_path p"
  shows "emits b (emitSet p v b) (replaces p t (tree_of v))"
proof (cases p rule: rev_cases)
  case Nil
  then show ?thesis
    by (auto simp: emitSet_def replaces_def intro!: emits_one)
next
  case (snoc q seg)
  then have "emitSet p v b = emitOperation (OpS p v) b" by (simp add: emitSet_def)
  moreover have "emits b (emitOperation (OpS p v) b) (replaces p t (tree_of v))"
    using assms snoc tree_set_child by (intro emits_one) (auto simp: replaces_def)
  ultimately show ?thesis by simp
qed

lemma emits_string:
  assumes "safe_path p" "p \<noteq> []"
  shows "emits b (emitString s t p b) (replaces p (TStr s) (TStr t))"
proof -
  obtain q seg where p: "p = q @ [seg]" using assms(2) by (cases p rule: rev_cases) auto
  have append: "emits b (emitOperation (OpA p x) b) (replaces p (TStr u) (TStr (u @ x)))" for b u x
    using assms p tree_rewrite_child(1) by (intro emits_one) (auto simp: replaces_def)
  have truncate: "emits b (emitOperation (OpT p n) b) (replaces p (TStr u) (TStr (drop n u)))" for b u n
    using assms p tree_rewrite_child(2) by (intro emits_one) (auto simp: replaces_def)
  have set: "emits b (emitOperation (OpS p (JStr t)) b) (replaces p (TStr s) (TStr t))"
    using emits_set [OF assms(1), of b "JStr t" "TStr s"] assms(2) by (simp add: emitSet_def)
  let ?n = "overlap s t DEFAULT_OVERLAP_SCAN 64 8"
  consider "s = t" | "s \<noteq> t" "length t > length s \<and> take (length s) t = s"
    | "s \<noteq> t" "\<not> (length t > length s \<and> take (length s) t = s)" "?n = 0"
    | "s \<noteq> t" "\<not> (length t > length s \<and> take (length s) t = s)" "?n \<noteq> 0" by blast
  then show ?thesis
  proof cases
    case 1
    then show ?thesis by (auto simp: emitString_def dest: replaces_same intro: emits_none)
  next
    case 2
    have "s @ drop (length s) t = t" using 2(2) by (metis append_take_drop_id)
    with append [of b "drop (length s) t" s] 2 show ?thesis by (simp add: emitString_def)
  next
    case 3
    then have "emitString s t p b = emitOperation (OpS p (JStr t)) b"
      by (simp only: emitString_def Let_def if_False if_True simp_thms)
    with set show ?thesis by simp
  next
    case 4
    have o: "drop (length s - ?n) s = take ?n t" using overlap_holds by blast
    let ?b = "emitOperation (OpT p (length s - ?n)) b"
    have t: "emits b ?b (replaces p (TStr s) (TStr (take ?n t)))"
      using truncate [of b "length s - ?n" s] o by simp
    show ?thesis
    proof (cases "length t > ?n")
      case True
      have "emits ?b (emitOperation (OpA p (drop ?n t)) ?b) (replaces p (TStr (take ?n t)) (TStr t))"
        using append [of ?b "drop ?n t" "take ?n t"] by simp
      from emits_trans [OF t this replaces_trans]
      have "emits b (emitOperation (OpA p (drop ?n t)) ?b) (replaces p (TStr s) (TStr t))" .
      moreover have "emitString s t p b = emitOperation (OpA p (drop ?n t)) ?b"
        using 4 True by (simp only: emitString_def Let_def if_False if_True simp_thms)
      ultimately show ?thesis by simp
    next
      case False
      then have "emitString s t p b = ?b"
        using 4 by (simp only: emitString_def Let_def if_False if_True simp_thms)
      with t False show ?thesis by simp
    qed
  qed
qed

lemma emits_order:
  assumes "safe_path p" "permutation xs ys = Some order" "list_all2 (\<lambda>i y. tree_of (xs ! i) = tree_of y) order ys"
  shows "emits b (emitOperation (OpM p order) b) (replaces p (TArr (map tree_of xs)) (TArr (map tree_of ys)))"
proof (rule emits_one)
  note o = permutation_correct [OF assms(2)]
  then show "op_ok (OpM p order)" using assms(1) by (auto simp: list_all_length)
  fix d d' assume r: "replaces p (TArr (map tree_of xs)) (TArr (map tree_of ys)) d d'"
  have "map ((!) (map tree_of xs)) order = map tree_of ys"
    using o assms(3) by (auto simp: list_all2_conv_all_nth intro!: nth_equalityI)
  with r o show "tree_op d (OpM p order) = Some d'"
    by (auto simp: replaces_def tree_edit_at)
qed

subsection \<open>Slices and weights\<close>

lemma slice_split: "i \<le> k \<Longrightarrow> k \<le> j \<Longrightarrow> slice xs i j = slice xs i k @ slice xs k j"
proof -
  assume "i \<le> k" "k \<le> j"
  then have "j - i = (k - i) + (j - k)" "drop (k - i) (drop i xs) = drop k xs" by simp_all
  then show ?thesis by (simp add: slice_def take_add)
qed

lemma slice_Cons: "k < j \<Longrightarrow> k < length xs \<Longrightarrow> slice xs k j = xs ! k # slice xs (k + 1) j"
proof -
  assume "k < j" "k < length xs"
  then have "drop k xs = xs ! k # drop (Suc k) xs" "j - k = Suc (j - (k + 1))"
    by (simp_all add: Cons_nth_drop_Suc)
  then show ?thesis by (simp add: slice_def)
qed

lemma slice_snoc: "i < j \<Longrightarrow> j \<le> length xs \<Longrightarrow> slice xs i j = slice xs i (j - 1) @ [xs ! (j - 1)]"
  using slice_split [of i "j - 1" j xs] slice_Cons [of "j - 1" j xs] by (simp add: slice_def)

lemma slice_at: "i \<le> k \<Longrightarrow> k < j \<Longrightarrow> j \<le> length xs \<Longrightarrow> slice xs i j = slice xs i k @ xs ! k # slice xs (k + 1) j"
  using slice_split [of i k j xs] slice_Cons [of k j xs] by simp

lemma slice_empty [simp]: "slice xs i i = []"
  by (simp add: slice_def)

lemma slice_all [simp]: "slice xs 0 (length xs) = xs"
  by (simp add: slice_def)

lemma slice_length: "j \<le> length xs \<Longrightarrow> length (slice xs i j) = j - i"
  by (simp add: slice_def)

definition run_weight :: "json list \<Rightarrow> nat \<Rightarrow> nat \<Rightarrow> nat" where
  "run_weight xs i j = sum_list (map weight (slice xs i j))"

lemma weight_pos: "0 < weight v"
  by (cases v) simp_all

lemma weight_nonzero: "weight v \<noteq> 0"
  using weight_pos [of v] by simp

lemma run_weight_split: "i \<le> k \<Longrightarrow> k \<le> j \<Longrightarrow> run_weight xs i j = run_weight xs i k + run_weight xs k j"
  by (simp add: run_weight_def slice_split [of i k j])

lemma run_weight_at:
  "i \<le> k \<Longrightarrow> k < j \<Longrightarrow> j \<le> length xs \<Longrightarrow>
     run_weight xs i j = run_weight xs i k + weight (xs ! k) + run_weight xs (k + 1) j"
  by (simp add: run_weight_def slice_at)

subsection \<open>The trimmed ends are equal\<close>

definition comparable :: "json list \<Rightarrow> json list \<Rightarrow> bool" where
  "comparable xs ys \<longleftrightarrow>
     (\<forall>x \<in> set xs. \<forall>y \<in> set ys. coherent x y) \<and> list_all wf_json xs \<and> list_all wf_json ys"

lemma comparable_same:
  "comparable xs ys \<Longrightarrow> i < length xs \<Longrightarrow> j < length ys \<Longrightarrow> sameValue (xs ! i) (ys ! j) \<Longrightarrow>
     tree_of (xs ! i) = tree_of (ys ! j)"
  by (rule same_tree) (simp_all add: comparable_def list_all_iff)

lemma trim_front_spec:
  "comparable xs ys \<Longrightarrow> be \<le> length xs \<Longrightarrow> ae \<le> length ys \<Longrightarrow> bs \<le> be \<Longrightarrow> as \<le> ae \<Longrightarrow>
     trim_front xs ys bs be as ae = k \<Longrightarrow>
     bs + k \<le> be \<and> as + k \<le> ae \<and> map tree_of (slice xs bs (bs + k)) = map tree_of (slice ys as (as + k))"
proof (induction xs ys bs be as ae arbitrary: k rule: trim_front.induct)
  case (1 xs ys bs be as ae)
  show ?case
  proof (cases "bs < be \<and> as < ae \<and> sameValue (xs ! bs) (ys ! as)")
    case True
    with 1(7) obtain m where k: "k = Suc m" "trim_front xs ys (bs + 1) be (as + 1) ae = m"
      by (simp add: trim_front.simps [of xs ys bs])
    with "1.IH" [OF True _ _ _ _ _ k(2)] "1.prems" True have m: "bs + 1 + m \<le> be" "as + 1 + m \<le> ae"
      "map tree_of (slice xs (bs + 1) (bs + 1 + m)) = map tree_of (slice ys (as + 1) (as + 1 + m))" by simp_all
    have "tree_of (xs ! bs) = tree_of (ys ! as)" using True "1.prems" by (intro comparable_same) auto
    with m k(1) True "1.prems" show ?thesis by (simp add: slice_Cons)
  next
    case False
    with 1(7) "1.prems" show ?thesis by (auto simp: trim_front.simps [of xs ys bs])
  qed
qed

lemma trim_back_spec:
  "comparable xs ys \<Longrightarrow> be \<le> length xs \<Longrightarrow> ae \<le> length ys \<Longrightarrow> bs \<le> be \<Longrightarrow> as \<le> ae \<Longrightarrow>
     trim_back xs ys bs be as ae = k \<Longrightarrow>
     bs \<le> be - k \<and> k \<le> be \<and> as \<le> ae - k \<and> k \<le> ae \<and>
     map tree_of (slice xs (be - k) be) = map tree_of (slice ys (ae - k) ae)"
proof (induction xs ys bs be as ae arbitrary: k rule: trim_back.induct)
  case (1 xs ys bs be as ae)
  show ?case
  proof (cases "bs < be \<and> as < ae \<and> sameValue (xs ! (be - 1)) (ys ! (ae - 1))")
    case True
    with 1(7) obtain m where k: "k = Suc m" "trim_back xs ys bs (be - 1) as (ae - 1) = m"
      by (simp add: trim_back.simps [of xs ys bs be])
    have le: "be - 1 \<le> length xs" "ae - 1 \<le> length ys" "bs \<le> be - 1" "as \<le> ae - 1"
      using "1.prems" True by linarith+
    from "1.IH" [OF True "1.prems"(1) le k(2)] have
      m: "bs \<le> be - 1 - m" "m \<le> be - 1" "as \<le> ae - 1 - m" "m \<le> ae - 1"
      "map tree_of (slice xs (be - 1 - m) (be - 1)) = map tree_of (slice ys (ae - 1 - m) (ae - 1))" by blast+
    have "tree_of (xs ! (be - 1)) = tree_of (ys ! (ae - 1))"
      using True "1.prems" by (intro comparable_same) auto
    moreover have "be - k < be" "ae - k < ae" "be - k = be - 1 - m" "ae - k = ae - 1 - m"
      using k(1) True by simp_all
    ultimately have "map tree_of (slice xs (be - k) be) = map tree_of (slice ys (ae - k) ae)"
      using slice_snoc [of "be - k" be xs] slice_snoc [of "ae - k" ae ys] m(5) "1.prems" by simp
    moreover have "bs \<le> be - k" "k \<le> be" "as \<le> ae - k" "k \<le> ae"
      using m k(1) True by linarith+
    ultimately show ?thesis by blast
  next
    case False
    with 1(7) "1.prems" show ?thesis by (auto simp: trim_back.simps [of xs ys bs be])
  qed
qed

subsection \<open>The differ\<close>

text \<open>What each function of the differ does with enough fuel.\<close>

definition value_correct :: "nat \<Rightarrow> bool" where
  "value_correct n \<longleftrightarrow>
     (\<forall>v w p b. coherent v w \<longrightarrow> wf_json v \<longrightarrow> wf_json w \<longrightarrow> safe_path p \<longrightarrow> weight v \<le> n \<longrightarrow>
        (\<exists>b'. diffValue n v w p b = Some b' \<and> emits b b' (replaces p (tree_of v) (tree_of w))))"

definition region_correct :: "nat \<Rightarrow> bool" where
  "region_correct n \<longleftrightarrow>
     (\<forall>xs ys p bs be as ae out b. comparable xs ys \<longrightarrow> safe_path p \<longrightarrow>
        bs \<le> be \<longrightarrow> be \<le> length xs \<longrightarrow> as \<le> ae \<longrightarrow> ae \<le> length ys \<longrightarrow> run_weight xs bs be < n \<longrightarrow>
        (\<exists>b'. diffArrayRegion n xs ys p bs be as ae out b = Some b' \<and>
           emits b b' (replaces_run p out (map tree_of (slice xs bs be)) (map tree_of (slice ys as ae)))))"

lemma value_correctD:
  "value_correct n \<Longrightarrow> coherent v w \<Longrightarrow> wf_json v \<Longrightarrow> wf_json w \<Longrightarrow> safe_path p \<Longrightarrow> weight v \<le> n \<Longrightarrow>
     \<exists>b'. diffValue n v w p b = Some b' \<and> emits b b' (replaces p (tree_of v) (tree_of w))"
  by (simp add: value_correct_def)

lemma region_correctD:
  "region_correct n \<Longrightarrow> comparable xs ys \<Longrightarrow> safe_path p \<Longrightarrow>
     bs \<le> be \<Longrightarrow> be \<le> length xs \<Longrightarrow> as \<le> ae \<Longrightarrow> ae \<le> length ys \<Longrightarrow> run_weight xs bs be < n \<Longrightarrow>
     \<exists>b'. diffArrayRegion n xs ys p bs be as ae out b = Some b' \<and>
       emits b b' (replaces_run p out (map tree_of (slice xs bs be)) (map tree_of (slice ys as ae)))"
  by (simp add: region_correct_def)

lemma comparable_nth:
  "comparable xs ys \<Longrightarrow> i < length xs \<Longrightarrow> j < length ys \<Longrightarrow>
     coherent (xs ! i) (ys ! j) \<and> wf_json (xs ! i) \<and> wf_json (ys ! j)"
  by (simp add: comparable_def list_all_iff)

lemma safe_path_snoc: "safe_path p \<Longrightarrow> safe_seg seg \<Longrightarrow> safe_path (p @ [seg])"
  by simp

lemma safe_key: "k \<notin> set RESERVED_SEGMENTS \<Longrightarrow> safe_seg (SKey k)"
  by (simp add: safe_seg_def)

lemma safe_index [simp]: "safe_seg (SIdx i)"
  by (simp add: safe_seg_def)

text \<open>One matched element: nothing to do, or its own differences.\<close>

lemma element_step:
  assumes "value_correct n" "comparable xs ys" "safe_path p" "i < length xs" "j < length ys"
    and "weight (xs ! i) \<le> n"
  shows "\<exists>b'. (if sameValue (xs ! i) (ys ! j) then Some b
      else diffValue n (xs ! i) (ys ! j) (p @ [SIdx out]) b) = Some b' \<and>
    emits b b' (replaces_run p out [tree_of (xs ! i)] [tree_of (ys ! j)])"
proof (cases "sameValue (xs ! i) (ys ! j)")
  case True
  with comparable_same [OF assms(2,4,5)] show ?thesis
    by (auto intro!: emits_none dest: replaces_run_same)
next
  case False
  from value_correctD [OF assms(1), of "xs ! i" "ys ! j" "p @ [SIdx out]" b]
    comparable_nth [OF assms(2,4,5)] assms(3,6) obtain b'
    where "diffValue n (xs ! i) (ys ! j) (p @ [SIdx out]) b = Some b'"
      "emits b b' (replaces (p @ [SIdx out]) (tree_of (xs ! i)) (tree_of (ys ! j)))" by auto
  with False show ?thesis by (auto intro: emits_mono dest: replaces_run_one)
qed

lemma process_correct:
  assumes "value_correct n" "region_correct n" "comparable xs ys" "safe_path p"
    and "be \<le> length xs" "ae \<le> length ys"
  shows "increasing bs be as ae ms \<Longrightarrow> run_weight xs bs be < n \<or> ms \<noteq> [] \<and> run_weight xs bs be \<le> n \<Longrightarrow>
    \<exists>b'. processArrayMatches n xs ys p bs be as ae out ms b = Some b' \<and>
      emits b b' (replaces_run p out (map tree_of (slice xs bs be)) (map tree_of (slice ys as ae)))"
proof (induction ms arbitrary: bs as out b)
  case Nil
  show ?case
  proof (cases "overflowed b")
    case True
    then show ?thesis by (auto simp: processArrayMatches.simps intro: emits_overflowed)
  next
    case False
    with region_correctD [OF assms(2-4), of bs be as ae out b] Nil assms(5,6) show ?thesis
      by (auto simp: processArrayMatches.simps)
  qed
next
  case (Cons m ms)
  obtain i j where m: "m = (i, j)" by fastforce
  with Cons.prems(1) have b: "bs \<le> i" "i < be" "as \<le> j" "j < ae" "increasing (i + 1) be (j + 1) ae ms"
    by simp_all
  have "run_weight xs bs be = run_weight xs bs i + weight (xs ! i) + run_weight xs (i + 1) be"
    using b assms(5) by (intro run_weight_at) simp_all
  then have w: "run_weight xs bs i < n" "weight (xs ! i) \<le> n" "run_weight xs (i + 1) be < n"
    using Cons.prems(2) weight_pos [of "xs ! i"] by linarith+
  show ?case
  proof (cases "overflowed b")
    case True
    then show ?thesis by (auto simp: m processArrayMatches.simps intro: emits_overflowed)
  next
    case False
    have il: "i < length xs" "j < length ys" using b assms(5,6) by simp_all
    let ?out = "out + (j - as)"
    from region_correctD [OF assms(2-4) b(1) _ b(3) _ w(1), of out b] il obtain b1 where
      b1: "diffArrayRegion n xs ys p bs i as j out b = Some b1"
      "emits b b1 (replaces_run p out (map tree_of (slice xs bs i)) (map tree_of (slice ys as j)))"
      using assms(3) by auto
    from element_step [OF assms(1,3,4) il w(2), of b1 ?out] obtain b2 where
      b2: "(if sameValue (xs ! i) (ys ! j) then Some b1
        else diffValue n (xs ! i) (ys ! j) (p @ [SIdx ?out]) b1) = Some b2"
      "emits b1 b2 (replaces_run p ?out [tree_of (xs ! i)] [tree_of (ys ! j)])" by blast
    from Cons.IH [OF b(5), of "?out + 1" b2] w(3) obtain b3 where
      b3: "processArrayMatches n xs ys p (i + 1) be (j + 1) ae (?out + 1) ms b2 = Some b3"
      "emits b2 b3 (replaces_run p (?out + 1) (map tree_of (slice xs (i + 1) be)) (map tree_of (slice ys (j + 1) ae)))"
      by blast
    have run: "processArrayMatches n xs ys p bs be as ae out (m # ms) b = Some b3"
      using False b1(1) b2(1) b3(1) by (simp add: m processArrayMatches.simps Let_def)
    have len: "length (map tree_of (slice ys as j)) = j - as" using il by (simp add: slice_length)
    from emits_trans [OF b2(2) b3(2) replaces_run_append]
    have "emits b1 b3 (replaces_run p ?out (tree_of (xs ! i) # map tree_of (slice xs (i + 1) be))
        (tree_of (ys ! j) # map tree_of (slice ys (j + 1) ae)))" by simp
    from emits_trans [OF b1(2) this replaces_run_append] len
    have "emits b b3 (replaces_run p out
        (map tree_of (slice xs bs i) @ tree_of (xs ! i) # map tree_of (slice xs (i + 1) be))
        (map tree_of (slice ys as j) @ tree_of (ys ! j) # map tree_of (slice ys (j + 1) ae)))" by simp
    then have "emits b b3 (replaces_run p out (map tree_of (slice xs bs be)) (map tree_of (slice ys as ae)))"
      using slice_at [of bs i be xs] slice_at [of as j ae ys] b assms(5,6) by simp
    with run show ?thesis by blast
  qed
qed

lemma region_step:
  assumes "value_correct n" "region_correct n"
  shows "region_correct (Suc n)"
  unfolding region_correct_def
proof (intro allI impI)
  fix xs ys p bs be as ae out b
  assume c: "comparable xs ys" "safe_path p" and bd: "bs \<le> be" "be \<le> length xs" "as \<le> ae" "ae \<le> length ys"
    and w: "run_weight xs bs be < Suc n"
  define f where "f = trim_front xs ys bs be as ae"
  define k where "k = trim_back xs ys (bs + f) be (as + f) ae"
  define bs' where "bs' = bs + f"
  define as' where "as' = as + f"
  define be' where "be' = be - k"
  define ae' where "ae' = ae - k"
  note defs = f_def k_def bs'_def as'_def be'_def ae'_def
  let ?ts = "map tree_of (slice xs bs' be')" and ?us = "map tree_of (slice ys as' ae')"
  from trim_front_spec [OF c(1) bd(2,4,1,3) f_def [symmetric]]
  have f: "bs' \<le> be" "as' \<le> ae" "map tree_of (slice xs bs bs') = map tree_of (slice ys as as')"
    by (simp_all add: bs'_def as'_def)
  from trim_back_spec [OF c(1) bd(2,4) f(1,2)] k_def
  have k: "bs' \<le> be'" "be' \<le> be" "as' \<le> ae'" "ae' \<le> ae"
    "map tree_of (slice xs be' be) = map tree_of (slice ys ae' ae)"
    by (simp_all add: be'_def ae'_def bs'_def as'_def)
  have bd': "be' \<le> length xs" "ae' \<le> length ys" using k bd by simp_all
  have "run_weight xs bs be = run_weight xs bs bs' + run_weight xs bs' be' + run_weight xs be' be"
    using run_weight_split [of bs bs' be xs] run_weight_split [of bs' be' be xs] f k by (simp add: bs'_def)
  then have w': "run_weight xs bs' be' \<le> n" using w by simp
  have parts: "slice xs bs be = slice xs bs bs' @ slice xs bs' be' @ slice xs be' be"
    "slice ys as ae = slice ys as as' @ slice ys as' ae' @ slice ys ae' ae"
    using slice_split [of bs bs' be xs] slice_split [of bs' be' be xs]
      slice_split [of as as' ae ys] slice_split [of as' ae' ae ys] f k by (simp_all add: bs'_def as'_def)
  have f_len: "length (map tree_of (slice xs bs bs')) = f"
    using f(1) bd(2) by (simp add: slice_length bs'_def)
  have inner: "emits b b' (replaces_run p out (map tree_of (slice xs bs be)) (map tree_of (slice ys as ae)))"
    if "emits b b' (replaces_run p (out + f) ?ts ?us)" for b'
    using emits_mono [OF that] replaces_run_inner [of p out "map tree_of (slice xs bs bs')" ?ts
        "map tree_of (slice xs be' be)" ?us] f(3) k(5) f_len
    unfolding parts by simp
  have splice: "emits b (emitOperation (OpP p (out + f) (be' - bs') (slice ys as' ae')) b)
      (replaces_run p (out + f) ?ts ?us)"
    using c(2) bd'(1) by (intro emits_splice) (simp_all add: slice_length)
  have unf: "diffArrayRegion (Suc n) xs ys p bs be as ae out b =
     (if overflowed b then Some b
      else if be' - bs' = 0 \<and> ae' - as' = 0 then Some b
      else if be' - bs' = 0 \<or> ae' - as' = 0
      then Some (emitOperation (OpP p (out + f) (be' - bs') (slice ys as' ae')) b)
      else if region_matches xs ys bs' be' as' ae' \<noteq> []
      then processArrayMatches n xs ys p bs' be' as' ae' (out + f) (region_matches xs ys bs' be' as' ae') b
      else if be' - bs' = 1 \<and> ae' - as' = 1
      then diffValue n (xs ! bs') (ys ! as') (p @ [SIdx (out + f)]) b
      else Some (emitOperation (OpP p (out + f) (be' - bs') (slice ys as' ae')) b))"
    unfolding diffArrayRegion.simps Let_def defs by (rule refl)
  consider (over) "overflowed b" | (none) "\<not> overflowed b" "be' - bs' = 0 \<and> ae' - as' = 0"
    | (some) "\<not> overflowed b" "\<not> (be' - bs' = 0 \<and> ae' - as' = 0)" "be' - bs' = 0 \<or> ae' - as' = 0"
    | (matched) "\<not> overflowed b" "\<not> (be' - bs' = 0 \<or> ae' - as' = 0)"
        "region_matches xs ys bs' be' as' ae' \<noteq> []"
    | (single) "\<not> overflowed b" "\<not> (be' - bs' = 0 \<or> ae' - as' = 0)"
        "region_matches xs ys bs' be' as' ae' = []" "be' - bs' = 1 \<and> ae' - as' = 1"
    | (replace) "\<not> overflowed b" "\<not> (be' - bs' = 0 \<or> ae' - as' = 0)"
        "region_matches xs ys bs' be' as' ae' = []" "\<not> (be' - bs' = 1 \<and> ae' - as' = 1)"
    by argo
  then show "\<exists>b'. diffArrayRegion (Suc n) xs ys p bs be as ae out b = Some b' \<and>
      emits b b' (replaces_run p out (map tree_of (slice xs bs be)) (map tree_of (slice ys as ae)))"
  proof cases
    case over
    then show ?thesis unfolding unf by (auto intro: emits_overflowed)
  next
    case none
    then have "?ts = ?us" using k by (simp add: slice_def)
    then have "emits b b (replaces_run p (out + f) ?ts ?us)"
      by (auto intro!: emits_none dest: replaces_run_same)
    from inner [OF this] none show ?thesis unfolding unf by simp
  next
    case some
    with inner [OF splice] show ?thesis unfolding unf by auto
  next
    case matched
    have "increasing bs' be' as' ae' (region_matches xs ys bs' be' as' ae')"
      using k bd' by (intro region_matches_increasing)
    from process_correct [OF assms c bd' this, of "out + f" b] matched(3) w' obtain b' where
      "processArrayMatches n xs ys p bs' be' as' ae' (out + f) (region_matches xs ys bs' be' as' ae') b = Some b'"
      "emits b b' (replaces_run p (out + f) ?ts ?us)" by blast
    with matched inner show ?thesis unfolding unf by auto
  next
    case single
    then have il: "bs' < length xs" "as' < length ys" "be' = bs' + 1" "ae' = as' + 1" using bd' k by linarith+
    then have one: "slice xs bs' be' = [xs ! bs']" "slice ys as' ae' = [ys ! as']"
      by (simp_all add: slice_Cons)
    then have "weight (xs ! bs') \<le> n" using w' by (simp add: run_weight_def)
    with value_correctD [OF assms(1), of "xs ! bs'" "ys ! as'" "p @ [SIdx (out + f)]" b]
      comparable_nth [OF c(1) il(1,2)] c(2) obtain b' where
      d: "diffValue n (xs ! bs') (ys ! as') (p @ [SIdx (out + f)]) b = Some b'"
      "emits b b' (replaces (p @ [SIdx (out + f)]) (tree_of (xs ! bs')) (tree_of (ys ! as')))" by auto
    from d(2) have "emits b b' (replaces_run p (out + f) ?ts ?us)"
      by (rule emits_mono) (simp add: one replaces_run_one)
    from inner [OF this] d(1) single show ?thesis unfolding unf by auto
  next
    case replace
    then have "diffArrayRegion (Suc n) xs ys p bs be as ae out b =
        Some (emitOperation (OpP p (out + f) (be' - bs') (slice ys as' ae')) b)"
      unfolding unf by auto
    with inner [OF splice] show ?thesis by blast
  qed
qed

text \<open>The property of the object at a path changes, or a property is added.\<close>

definition sets_key :: "path \<Rightarrow> string \<Rightarrow> tree option \<Rightarrow> tree \<Rightarrow> tree \<Rightarrow> tree \<Rightarrow> bool" where
  "sets_key p k old t d d' \<longleftrightarrow>
     (\<exists>m. m k = old \<and> tree_at d p = Some (TObj m) \<and> d' = tree_set d p (TObj (m(k \<mapsto> t))))"

lemma sets_key_replaces:
  "sets_key p k (Some t0) t d d' \<Longrightarrow> replaces (p @ [SKey k]) t0 t d d'"
  by (auto simp: sets_key_def replaces_def tree_at_snoc tree_set_snoc)

lemma emits_set_key:
  assumes "safe_path p" "k \<notin> set RESERVED_SEGMENTS"
  shows "emits b (emitSet (p @ [SKey k]) w b) (sets_key p k old (tree_of w))"
proof -
  have "emits b (emitOperation (OpS (p @ [SKey k]) w) b) (sets_key p k old (tree_of w))"
    using assms by (intro emits_one) (auto simp: sets_key_def safe_key tree_parent_def tree_edit_at)
  then show ?thesis by (simp add: emitSet_def)
qed

definition sets_keys ::
  "path \<Rightarrow> (string \<Rightarrow> tree option) \<Rightarrow> (string \<times> json) list \<Rightarrow> tree \<Rightarrow> tree \<Rightarrow> bool" where
  "sets_keys p old fs d d' \<longleftrightarrow>
     (\<exists>m. (\<forall>k \<in> fst ` set fs. m k = old k) \<and> tree_at d p = Some (TObj m) \<and>
        d' = tree_set d p (TObj (m ++ (map_option tree_of \<circ> map_of fs))))"

lemma sets_keys_step:
  assumes "sets_keys p old ((k, w) # fs) d d''" "k \<notin> fst ` set fs"
  shows "\<exists>d'. sets_key p k (old k) (tree_of w) d d' \<and> sets_keys p old fs d' d''"
proof -
  from assms(1) obtain m where m: "\<forall>k' \<in> insert k (fst ` set fs). m k' = old k'"
    "tree_at d p = Some (TObj m)"
    "d'' = tree_set d p (TObj (m ++ (map_option tree_of \<circ> map_of ((k, w) # fs))))"
    by (auto simp: sets_keys_def)
  let ?d = "tree_set d p (TObj (m(k \<mapsto> tree_of w)))"
  have "map_of fs k = None" using assms(2) by (simp add: map_of_eq_None_iff)
  then have "m ++ (map_option tree_of \<circ> map_of ((k, w) # fs)) =
      m(k \<mapsto> tree_of w) ++ (map_option tree_of \<circ> map_of fs)"
    by (auto simp: fun_eq_iff map_add_def split: option.split)
  then have "sets_keys p old fs ?d d''"
    unfolding sets_keys_def using m assms(2)
    by (intro exI [of _ "m(k \<mapsto> tree_of w)"]) (auto simp: tree_at_set tree_set_set)
  moreover have "sets_key p k (old k) (tree_of w) d ?d"
    unfolding sets_key_def using m by (intro exI [of _ m]) simp
  ultimately show ?thesis by blast
qed

lemma properties_correct:
  assumes "value_correct n" "safe_path p"
    and es: "\<forall>(k, v) \<in> set es. wf_json v \<and> weight v \<le> n"
  shows "distinct (map fst fs) \<Longrightarrow> \<not> has_reserved_key fs \<Longrightarrow> list_all (\<lambda>(k, w). wf_json w) fs \<Longrightarrow>
    \<forall>(k, v) \<in> set es. \<forall>(l, w) \<in> set fs. coherent v w \<Longrightarrow>
    \<exists>b'. diffProperties n es fs p b = Some b' \<and>
      emits b b' (sets_keys p (map_option tree_of \<circ> map_of es) fs)"
proof (induction fs arbitrary: b)
  case Nil
  have "emits b b (sets_keys p old [])" for old
    by (intro emits_none) (auto simp: sets_keys_def tree_set_same comp_def)
  then show ?case unfolding diffProperties.simps by blast
next
  case (Cons f fs)
  obtain k w where f: "f = (k, w)" by fastforce
  have k: "k \<notin> set RESERVED_SEGMENTS" "k \<notin> fst ` set fs" "wf_json w"
    using Cons.prems(1-3) by (auto simp: f has_reserved_key_def)
  show ?case
  proof (cases "overflowed b")
    case True
    then show ?thesis by (auto simp: f diffProperties.simps intro: emits_overflowed)
  next
    case False
    let ?old = "map_option tree_of \<circ> map_of es"
    have "\<exists>b1. (case map_of es k of
          Some v \<Rightarrow> diffValue n v w (p @ [SKey k]) b
        | None \<Rightarrow> Some (emitSet (p @ [SKey k]) w b)) = Some b1 \<and>
        emits b b1 (sets_key p k (?old k) (tree_of w))"
    proof (cases "map_of es k")
      case None
      with emits_set_key [OF assms(2) k(1)] show ?thesis by simp
    next
      case (Some v)
      then have v: "(k, v) \<in> set es" by (rule map_of_SomeD)
      have "coherent v w" using Cons.prems(4) v f by auto
      moreover have "safe_path (p @ [SKey k])" using assms(2) k(1) by (simp add: safe_key)
      ultimately obtain b1 where "diffValue n v w (p @ [SKey k]) b = Some b1"
        "emits b b1 (replaces (p @ [SKey k]) (tree_of v) (tree_of w))"
        using value_correctD [OF assms(1)] es v k(3) by blast
      with Some show ?thesis by (auto intro: emits_mono dest: sets_key_replaces)
    qed
    then obtain b1 where b1: "(case map_of es k of
          Some v \<Rightarrow> diffValue n v w (p @ [SKey k]) b
        | None \<Rightarrow> Some (emitSet (p @ [SKey k]) w b)) = Some b1"
      "emits b b1 (sets_key p k (?old k) (tree_of w))" by blast
    have tail: "distinct (map fst fs)" "\<not> has_reserved_key fs" "list_all (\<lambda>(k, w). wf_json w) fs"
      "\<forall>(k, v) \<in> set es. \<forall>(l, w) \<in> set fs. coherent v w"
      using Cons.prems by (auto simp: has_reserved_key_def)
    from Cons.IH [OF tail, of b1] obtain b2 where
      b2: "diffProperties n es fs p b1 = Some b2" "emits b1 b2 (sets_keys p ?old fs)" by blast
    have "diffProperties n es (f # fs) p b = Some b2"
      using False b1(1) b2(1) by (simp add: f diffProperties.simps)
    moreover have "emits b b2 (sets_keys p ?old (f # fs))"
      unfolding f by (rule emits_trans [OF b1(2) b2(2) sets_keys_step [OF _ k(2)]])
    ultimately show ?thesis by blast
  qed
qed

definition deletes_missing ::
  "path \<Rightarrow> (string \<times> json) list \<Rightarrow> (string \<times> json) list \<Rightarrow> tree \<Rightarrow> tree \<Rightarrow> bool" where
  "deletes_missing p es fs d d' \<longleftrightarrow>
     (\<exists>m. tree_at d p = Some (TObj m) \<and>
        d' = tree_set d p (TObj (\<lambda>k. if k \<in> fst ` set es \<and> map_of fs k = None then None else m k)))"

lemma delete_missing_correct:
  "safe_path p \<Longrightarrow> \<not> has_reserved_key es \<Longrightarrow>
     emits b (delete_missing es fs p b) (deletes_missing p es fs)"
proof (induction es arbitrary: b)
  case Nil
  then show ?case by (auto simp: deletes_missing_def tree_set_same intro!: emits_none)
next
  case (Cons e es)
  obtain k v where e: "e = (k, v)" by fastforce
  have k: "k \<notin> set RESERVED_SEGMENTS" "\<not> has_reserved_key es"
    using Cons.prems(2) by (auto simp: e has_reserved_key_def)
  show ?case
  proof (cases "overflowed b")
    case True
    then show ?thesis by (auto simp: e intro: emits_overflowed)
  next
    case False
    let ?b = "if map_of fs k = None then emitOperation (OpD (p @ [SKey k])) b else b"
    let ?G = "deletes_missing p [e] fs"
    have "emits b ?b ?G"
    proof (cases "map_of fs k = None")
      case True
      then have upd: "(\<lambda>k'. if k' \<in> fst ` set [e] \<and> map_of fs k' = None then None else m k') = m(k := None)" for m
        by (auto simp: e fun_eq_iff)
      have "emits b (emitOperation (OpD (p @ [SKey k])) b) ?G"
      proof (rule emits_one)
        show "op_ok (OpD (p @ [SKey k]))" using Cons.prems(1) k(1) by (simp add: safe_key)
        show "tree_op d (OpD (p @ [SKey k])) = Some d'" if "?G d d'" for d d'
          using that unfolding deletes_missing_def upd by (auto simp: tree_parent_def tree_edit_at)
      qed
      with True show ?thesis by simp
    next
      case False
      then have keep: "(\<lambda>k'. if k' \<in> fst ` set [e] \<and> map_of fs k' = None then None else m k') = m" for m
        by (auto simp: e fun_eq_iff)
      have "d = d'" if "?G d d'" for d d'
        using that unfolding deletes_missing_def keep by (auto simp: tree_set_same)
      then have "emits b b ?G" by (rule emits_none)
      then show ?thesis unfolding if_not_P [OF False] .
    qed
    then have "emits b (delete_missing es fs p ?b) (deletes_missing p (e # es) fs)"
    proof (rule emits_trans [OF _ Cons.IH [OF Cons.prems(1) k(2)]])
      show "\<exists>d'. deletes_missing p [e] fs d d' \<and> deletes_missing p es fs d' d''"
        if d: "deletes_missing p (e # es) fs d d''" for d d''
      proof -
        from d obtain m where m: "tree_at d p = Some (TObj m)"
          "d'' = tree_set d p (TObj (\<lambda>k. if k \<in> fst ` set (e # es) \<and> map_of fs k = None then None else m k))"
          unfolding deletes_missing_def by blast
        let ?m = "\<lambda>k. if k \<in> fst ` set [e] \<and> map_of fs k = None then None else m k"
        have "(\<lambda>k. if k \<in> fst ` set (e # es) \<and> map_of fs k = None then None else m k) =
            (\<lambda>k. if k \<in> fst ` set es \<and> map_of fs k = None then None else ?m k)"
          by (auto simp: fun_eq_iff)
        with m have "deletes_missing p es fs (tree_set d p (TObj ?m)) d''"
          unfolding deletes_missing_def
          by (intro exI [of _ ?m]) (simp add: tree_at_set tree_set_set)
        with m(1) show ?thesis unfolding deletes_missing_def by blast
      qed
    qed
    with False show ?thesis by (simp add: e)
  qed
qed

lemma object_correct:
  assumes "value_correct n" "safe_path p" "coherent (JObj a es) (JObj c fs)"
    and wf: "wf_json (JObj a es)" "wf_json (JObj c fs)" and w: "weight (JObj a es) \<le> n + 2"
  shows "\<exists>b'. diffObject n (JObj a es) (JObj c fs) p b = Some b' \<and>
    emits b b' (replaces p (tree_of (JObj a es)) (tree_of (JObj c fs)))"
proof (cases "has_reserved_key es \<or> has_reserved_key fs")
  case True
  show ?thesis
  proof (cases "equalJson (JObj a es) (JObj c fs)")
    case eq: True
    from equal_tree(1) [OF eq assms(3) wf] have "emits b b (replaces p (tree_of (JObj a es)) (tree_of (JObj c fs)))"
      by (auto intro!: emits_none dest: replaces_same)
    with True eq show ?thesis by (simp add: diffObject.simps)
  next
    case False
    have "diffObject n (JObj a es) (JObj c fs) p b = Some (emitSet p (JObj c fs) b)"
      using True False by (simp only: diffObject.simps if_True if_False)
    with emits_set [OF assms(2)] show ?thesis by blast
  qed
next
  case False
  have "wf_json v \<and> weight v \<le> n" if "(k, v) \<in> set es" for k v
  proof -
    from that have "weight v \<le> sum_list (map (\<lambda>(k, v). weight v) es)"
      using member_le_sum_list [of "weight v" "map (\<lambda>(k, v). weight v) es"] by force
    with that wf(1) w show ?thesis by (auto simp: list_all_iff)
  qed
  then have es: "\<forall>(k, v) \<in> set es. wf_json v \<and> weight v \<le> n" by blast
  have fs: "distinct (map fst fs)" "\<not> has_reserved_key fs" "list_all (\<lambda>(k, w). wf_json w) fs"
    "\<forall>(k, v) \<in> set es. \<forall>(l, w) \<in> set fs. coherent v w"
    using wf(2) False coherent_prop [OF assms(3)] by auto
  from properties_correct [OF assms(1,2) es fs, of b] obtain b1 where
    b1: "diffProperties n es fs p b = Some b1"
    "emits b b1 (sets_keys p (map_option tree_of \<circ> map_of es) fs)" by blast
  have b2: "emits b1 (delete_missing es fs p b1) (deletes_missing p es fs)"
    using assms(2) False by (intro delete_missing_correct) auto
  have "emits b (delete_missing es fs p b1) (replaces p (tree_of (JObj a es)) (tree_of (JObj c fs)))"
  proof (rule emits_trans [OF b1(2) b2])
    fix d d'' assume r: "replaces p (tree_of (JObj a es)) (tree_of (JObj c fs)) d d''"
    let ?E = "map_option tree_of \<circ> map_of es" and ?F = "map_option tree_of \<circ> map_of fs"
    from r have d: "tree_at d p = Some (TObj ?E)" "d'' = tree_set d p (TObj ?F)"
      by (simp_all add: replaces_def)
    have "?F = (\<lambda>k. if k \<in> fst ` set es \<and> map_of fs k = None then None else (?E ++ ?F) k)"
      by (rule ext) (auto simp: map_add_def map_of_eq_None_iff [of es, symmetric] split: option.split)
    with d show "\<exists>d'. sets_keys p ?E fs d d' \<and> deletes_missing p es fs d' d''"
      unfolding sets_keys_def deletes_missing_def
      by (intro exI [of _ "tree_set d p (TObj (?E ++ ?F))"] conjI exI [of _ ?E] exI [of _ "?E ++ ?F"])
        (simp_all add: tree_at_set tree_set_set)
  qed
  with b1(1) False show ?thesis by (simp add: diffObject.simps)
qed

lemma array_correct:
  assumes "region_correct n" "safe_path p" "coherent (JArr a xs) (JArr c ys)"
    and wf: "wf_json (JArr a xs)" "wf_json (JArr c ys)" and w: "weight (JArr a xs) \<le> n + 1"
  shows "\<exists>b'. diffArray n (JArr a xs) (JArr c ys) p b = Some b' \<and>
    emits b b' (replaces p (tree_of (JArr a xs)) (tree_of (JArr c ys)))"
proof (cases "sameValue (JArr a xs) (JArr c ys)")
  case True
  from same_tree [OF True assms(3) wf] have "emits b b (replaces p (tree_of (JArr a xs)) (tree_of (JArr c ys)))"
    by (auto intro!: emits_none dest: replaces_same)
  with True show ?thesis by (auto simp: diffArray.simps sameValue_def)
next
  case False
  let ?order = "if length xs = length ys \<and> length xs > 1 \<and> \<not> sameValue (hd xs) (hd ys) \<and>
      \<not> sameValue (last xs) (last ys) then permutation xs ys else None"
  have comparable: "comparable xs ys"
    using wf coherent_elem [OF assms(3)] by (auto simp: comparable_def)
  have unf: "diffArray n (JArr a xs) (JArr c ys) p b =
    (case ?order of
       Some is \<Rightarrow> Some (emitOperation (OpM p is) b)
     | None \<Rightarrow> diffArrayRegion n xs ys p 0 (length xs) 0 (length ys) 0 b)"
    unfolding diffArray.simps Let_def using False [unfolded sameValue_def] by (simp only: if_False)
  show ?thesis
  proof (cases ?order)
    case (Some "is")
    then have p: "permutation xs ys = Some is" by (simp split: if_splits)
    note ok = permutation_correct [OF p]
    have "list_all2 (\<lambda>i y. tree_of (xs ! i) = tree_of y) is ys"
      using ok comparable_same [OF comparable] sameValue_refl by (auto simp: list_all2_conv_all_nth)
    from emits_order [OF assms(2) p this] Some show ?thesis unfolding unf by simp
  next
    case None
    have "run_weight xs 0 (length xs) < n" using w by (simp add: run_weight_def)
    from region_correctD [OF assms(1) comparable assms(2) _ order_refl _ order_refl this, of 0 0 b]
    obtain b' where "diffArrayRegion n xs ys p 0 (length xs) 0 (length ys) 0 b = Some b'"
      "emits b b' (replaces_run p 0 (map tree_of xs) (map tree_of ys))" by auto
    with None show ?thesis unfolding unf by (auto intro: emits_mono dest: replaces_array)
  qed
qed

lemma value_step:
  assumes "value_correct n" "region_correct n"
  shows "value_correct (Suc n)"
  unfolding value_correct_def
proof (intro allI impI)
  fix v w p b
  assume *: "coherent v w" "wf_json v" "wf_json w" "safe_path p" "weight v \<le> Suc n"
  show "\<exists>b'. diffValue (Suc n) v w p b = Some b' \<and> emits b b' (replaces p (tree_of v) (tree_of w))"
  proof (cases "strictEq v w \<or> overflowed b")
    case True
    then have "emits b b (replaces p (tree_of v) (tree_of w))"
    proof
      assume "strictEq v w"
      then have "v = w" by (rule coherent_same [OF *(1)])
      then have "d = d'" if "replaces p (tree_of v) (tree_of w) d d'" for d d'
        using that replaces_same by simp
      then show ?thesis by (rule emits_none)
    qed (rule emits_overflowed)
    then show ?thesis unfolding diffValue.simps if_P [OF True] by blast
  next
    case False
    note set = emits_set [OF *(4), of b w "tree_of v"]
    note unf = diffValue.simps(2) [of n v w p b, unfolded if_not_P [OF False]]
    consider (string) s t where "v = JStr s" "w = JStr t"
      | (array) a xs c ys where "v = JArr a xs" "w = JArr c ys"
      | (object) a es c fs where "v = JObj a es" "w = JObj c fs"
      | (other) "diffValue (Suc n) v w p b = Some (emitSet p w b)"
      unfolding unf by (cases v; cases w) simp_all
    then show ?thesis
    proof cases
      case string
      with set emits_string [OF *(4), of b s t] show ?thesis
        unfolding unf by (cases "p = []") simp_all
    next
      case array
      with array_correct [OF assms(2) *(4)] * show ?thesis unfolding unf by simp
    next
      case object
      with object_correct [OF assms(1) *(4)] * show ?thesis unfolding unf by simp
    next
      case other
      with set show ?thesis by blast
    qed
  qed
qed

lemma differ_correct: "value_correct n \<and> region_correct n"
proof (induction n)
  case 0
  show ?case
    by (simp add: value_correct_def region_correct_def weight_nonzero)
next
  case (Suc n)
  then show ?case using value_step region_step by blast
qed

subsection \<open>Revisions\<close>

lemma diffRevisions_correct:
  assumes "coherent before after" "wf_json before" "wf_json after"
  shows "\<exists>ws. diffRevisions before after = Some ws \<and> list_all op_ok ws \<and>
    length ws \<le> MAX_DELTA_OPERATIONS \<and> tree_ops (tree_of before) ws = Some (tree_of after)"
proof -
  let ?b = "\<lparr>emitted = [], overflowed = False\<rparr>"
  have "value_correct (weight before)" using differ_correct by blast
  from value_correctD [OF this assms, of "[]" ?b] obtain b' where
    d: "diffValue (weight before) before after [] ?b = Some b'"
      "emits ?b b' (replaces [] (tree_of before) (tree_of after))" by auto
  have after: "list_all op_ok [OpR after]" "length [OpR after] \<le> MAX_DELTA_OPERATIONS"
    "tree_ops (tree_of before) [OpR after] = Some (tree_of after)"
    by (simp_all add: MAX_DELTA_OPERATIONS_def)
  have kept: "list_all op_ok (emitted b')" "length (emitted b') \<le> MAX_DELTA_OPERATIONS"
    "tree_ops (tree_of before) (emitted b') = Some (tree_of after)" if "\<not> overflowed b'"
    using d(2) that by (auto simp: emits_def replaces_def)
  show ?thesis
  proof (cases "overflowed b'")
    case True
    with d(1) after show ?thesis by (auto simp: diffRevisions_def Let_def)
  next
    case False
    from d(1) have "diffRevisions before after = Some (emitted b') \<or>
        diffRevisions before after = Some [OpR after]"
      by (auto simp: diffRevisions_def Let_def)
    with kept [OF False] after show ?thesis by blast
  qed
qed

lemma apply_tree_ops:
  assumes "list_all op_ok ws" "tree_ops (tree_of v) ws = Some t"
  shows "\<exists>w. applyOps (Some v) (map op_value ws) = Inr (Some w) \<and> tree_of w = t"
proof -
  have "map_option (map_option tree_of) (ok_value (applyOps (Some v) (map op_value ws))) = Some (Some t)"
    using assms by (simp add: applyOps_tree read_batch_values)
  then show ?thesis by (cases "applyOps (Some v) (map op_value ws)") auto
qed

text \<open>
  C5. The differ and the applier agree. For any two revisions in which an address is always the same
  container, and any replica that holds the same JSON as the old revision (whatever its addresses and
  key order), applying the operations of \<open>diffRevisions\<close> to the replica never throws and gives the JSON
  of the new revision. This covers every way the differ aligns arrays, rewrites strings and gives up
  on long batches.
\<close>

theorem diff_then_apply:
  assumes "coherent before after" "wf_json before" "wf_json after"
    and "tree_of replica = tree_of before"
  shows "\<exists>ws v. diffRevisions before after = Some ws \<and>
    applyOps (Some replica) (map op_value ws) = Inr (Some v) \<and> tree_of v = tree_of after"
proof -
  obtain ws where "diffRevisions before after = Some ws" "list_all op_ok ws"
    "tree_ops (tree_of replica) ws = Some (tree_of after)"
    using diffRevisions_correct [OF assms(1-3)] assms(4) by auto
  with apply_tree_ops show ?thesis by blast
qed

definition sample_before :: json where
  "sample_before = JObj 1 [(''log'', JStr ''ab''), (''items'', JArr 2 [JNull, JBool True]), (''old'', JNull)]"

definition sample_after :: json where
  "sample_after = JObj 3 [(''log'', JStr ''abc''), (''items'', JArr 4 [JNull, JNull, JBool True])]"

lemma sample_revisions:
  "coherent sample_before sample_after" "wf_json sample_before" "wf_json sample_after"
  by (simp_all add: sample_before_def sample_after_def coherent_def)

theorem diff_then_apply_witness:
  "\<exists>ws v. diffRevisions sample_before sample_after = Some ws \<and>
     applyOps (Some sample_before) (map op_value ws) = Inr (Some v) \<and> tree_of v = tree_of sample_after"
  by (rule diff_then_apply [OF sample_revisions refl])

text \<open>
  C39. The differ always finishes and its batches are bounded. With the weight of the old revision as
  fuel it never runs out, every operation it returns is one the validator accepts, and there are at
  most 4096 of them however large the revisions are.
\<close>

theorem diff_total_bounded:
  assumes "coherent before after" "wf_json before" "wf_json after"
  shows "\<exists>ws. diffRevisions before after = Some ws \<and> list_all op_ok ws \<and> length ws \<le> 4096"
  using diffRevisions_correct [OF assms] by (auto simp: MAX_DELTA_OPERATIONS_def)

theorem diff_total_bounded_witness:
  "\<exists>ws. diffRevisions sample_before sample_after = Some ws \<and> list_all op_ok ws \<and> length ws \<le> 4096"
  by (rule diff_total_bounded [OF sample_revisions])

text \<open>
  An unchanged revision costs nothing: the same object diffed against itself gives no operation.
\<close>

lemma diff_same_empty: "diffRevisions v v = Some []"
proof -
  obtain n where "weight v = Suc n" using weight_pos [of v] gr0_conv_Suc by auto
  then have "diffValue (weight v) v v [] \<lparr>emitted = [], overflowed = False\<rparr> =
      Some \<lparr>emitted = [], overflowed = False\<rparr>"
    by (simp only: diffValue.simps strictEq_refl simp_thms if_True)
  then show ?thesis by (simp add: diffRevisions_def)
qed

text \<open>
  Reordered arrays are told by a permutation that is right. A permutation the differ reports is a
  bijection on the indices, and the old element it puts at a place is the very value the new array
  holds there.
\<close>

lemma permutation_reported:
  assumes "permutation before after = Some order"
  shows "distinct order \<and> length order = length after \<and>
    list_all2 (\<lambda>i v. i < length before \<and> strictEq (before ! i) v) order after"
  using permutation_correct [OF assms] by (auto simp: list_all2_conv_all_nth)

end
