(* ===== verification/Delta_Replica.thy ===== *)
theory Delta_Replica
  imports Delta_Codec Delta_Correct
begin

text \<open>
  A replicated document: the source publishes immutable revisions, its differ and encoder turn them
  into a base and a stream of batches (\<open>diff.ts\<close> and \<open>index.ts\<close> of \<open>packages/chord/src/delta\<close>), and a
  replica that starts with nothing decodes and applies what arrives. What a replica needs is stated
  as an interface over any differ, applier and codec, proved once, and interpreted on the code's.
\<close>

text \<open>Revisions, the batches between them, and a replica that applies batches.\<close>

fun revision_batches :: "('v \<Rightarrow> 'v \<Rightarrow> 'b option) \<Rightarrow> 'v \<Rightarrow> 'v list \<Rightarrow> 'b list option" where
  "revision_batches diff v [] = Some []"
| "revision_batches diff v (w # ws) =
     (case diff v w of
        None \<Rightarrow> None
      | Some b \<Rightarrow> map_option ((#) b) (revision_batches diff w ws))"

fun apply_all :: "('r \<Rightarrow> 'b \<Rightarrow> 'x + 'r) \<Rightarrow> 'r \<Rightarrow> 'b list \<Rightarrow> 'x + 'r" where
  "apply_all app r [] = Inr r"
| "apply_all app r (b # bs) = err_bind (app r b) (\<lambda>r'. apply_all app r' bs)"

fun adjacent :: "('v \<Rightarrow> 'v \<Rightarrow> bool) \<Rightarrow> 'v \<Rightarrow> 'v list \<Rightarrow> bool" where
  "adjacent ok v [] \<longleftrightarrow> True"
| "adjacent ok v (w # ws) \<longleftrightarrow> ok v w \<and> adjacent ok w ws"

text \<open>
  A differ and an applier over a meaning: between related revisions the differ gives a valid batch
  that takes every replica with the old meaning to the new one, and a base sets the meaning outright.
\<close>

locale revision_engine = stream_codec enc dec follows valid base
  for enc :: "'e \<Rightarrow> 'b \<Rightarrow> 'e \<times> 'w" and dec :: "'d \<Rightarrow> 'w \<Rightarrow> 'd \<times> ('x + 'b)"
    and follows :: "'e \<Rightarrow> 'd \<Rightarrow> bool" and valid :: "'b \<Rightarrow> bool" and base :: "'b \<Rightarrow> bool" +
  fixes diff :: "'v \<Rightarrow> 'v \<Rightarrow> 'b option"
    and app :: "'r \<Rightarrow> 'b \<Rightarrow> 'y + 'r"
    and holds :: "'r \<Rightarrow> 'v \<Rightarrow> bool"
    and succeeds :: "'v \<Rightarrow> 'v \<Rightarrow> bool"
    and base_of :: "'v \<Rightarrow> 'b"
  assumes diffs: "succeeds v w \<Longrightarrow> \<exists>b. diff v w = Some b \<and> valid b \<and>
      (\<forall>r. holds r v \<longrightarrow> (\<exists>r'. app r b = Inr r' \<and> holds r' w))"
    and bases: "base (base_of v) \<and> valid (base_of v) \<and> (\<exists>r'. app r (base_of v) = Inr r' \<and> holds r' v)"
begin

lemma batches_apply:
  "adjacent succeeds v ws \<Longrightarrow> \<exists>bs. revision_batches diff v ws = Some bs \<and> list_all valid bs \<and>
     (\<forall>r. holds r v \<longrightarrow> (\<exists>r'. apply_all app r bs = Inr r' \<and> holds r' (last (v # ws))))"
proof (induction ws arbitrary: v)
  case (Cons w ws)
  then have "succeeds v w" "adjacent succeeds w ws" by simp_all
  from diffs [OF this(1)] obtain b where b: "diff v w = Some b" "valid b"
    "\<And>r. holds r v \<Longrightarrow> \<exists>r'. app r b = Inr r' \<and> holds r' w" by blast
  from Cons.IH [OF \<open>adjacent succeeds w ws\<close>] obtain bs where
    bs: "revision_batches diff w ws = Some bs" "list_all valid bs"
    "\<And>r. holds r w \<Longrightarrow> \<exists>r'. apply_all app r bs = Inr r' \<and> holds r' (last (w # ws))" by blast
  have "\<exists>r'. apply_all app r (b # bs) = Inr r' \<and> holds r' (last (v # w # ws))" if "holds r v" for r
    using b(3) [OF that] bs(3) by fastforce
  with b bs show ?case by auto
qed simp

lemma converges:
  assumes "adjacent succeeds v ws"
  shows "\<exists>bs received r'. revision_batches diff v ws = Some bs \<and>
    decode_all dec d (encode_all enc e (base_of v # bs)) = Inr received \<and>
    apply_all app r received = Inr r' \<and> holds r' (last (v # ws))"
proof -
  obtain bs where bs: "revision_batches diff v ws = Some bs" "list_all valid bs"
    "\<And>r. holds r v \<Longrightarrow> \<exists>r'. apply_all app r bs = Inr r' \<and> holds r' (last (v # ws))"
    using batches_apply [OF assms] by blast
  obtain r1 where r1: "app r (base_of v) = Inr r1" "holds r1 v" using bases [of v r] by blast
  from bs(3) [OF r1(2)] obtain r' where "apply_all app r1 bs = Inr r'" "holds r' (last (v # ws))" by blast
  with r1 bs recovery [of "base_of v" bs d e] bases [of v] show ?thesis
    by (intro exI [of _ bs] exI [of _ "base_of v # bs"] exI [of _ r']) simp
qed

end

definition publishes :: "json \<Rightarrow> json \<Rightarrow> bool" where
  "publishes v w \<longleftrightarrow> coherent v w \<and> wf_json v \<and> wf_json w"

definition apply_batch :: "json option \<Rightarrow> op list \<Rightarrow> delta_error + json option" where
  "apply_batch target ws = applyOps target (map op_value ws)"

definition replica_holds :: "json option \<Rightarrow> json \<Rightarrow> bool" where
  "replica_holds r v \<longleftrightarrow> map_option tree_of r = Some (tree_of v)"

definition base_batch :: "json \<Rightarrow> op list" where "base_batch v = [OpR v]"

interpretation document: revision_engine send decode tracks "list_all op_ok" isBase
  diffRevisions apply_batch replica_holds publishes base_batch
proof unfold_locales
  fix v w assume "publishes v w"
  then obtain ws where ws: "diffRevisions v w = Some ws" "list_all op_ok ws"
    "tree_ops (tree_of v) ws = Some (tree_of w)"
    using diffRevisions_correct by (auto simp: publishes_def)
  have "\<exists>r'. apply_batch r ws = Inr r' \<and> replica_holds r' w" if r: "replica_holds r v" for r
  proof -
    from r obtain u where "r = Some u" "tree_of u = tree_of v" by (auto simp: replica_holds_def)
    with apply_tree_ops [OF ws(2), of u] ws(3) show ?thesis
      by (auto simp: apply_batch_def replica_holds_def)
  qed
  with ws show "\<exists>b. diffRevisions v w = Some b \<and> list_all op_ok b \<and>
      (\<forall>r. replica_holds r v \<longrightarrow> (\<exists>r'. apply_batch r b = Inr r' \<and> replica_holds r' w))" by blast
next
  fix v r
  have "assertValidOp (op_value (OpR v)) = Inr (OpR v)" by (rule assertValidOp_complete) simp
  then show "isBase (base_batch v) \<and> list_all op_ok (base_batch v) \<and>
      (\<exists>r'. apply_batch r (base_batch v) = Inr r' \<and> replica_holds r' v)"
    by (cases r) (simp_all add: base_batch_def isBase_def apply_batch_def replica_holds_def)
qed

text \<open>
  C3. Replicas converge. Take any sequence of published revisions, each keeping the addresses of what
  it shares with the one before. The differ gives a batch for every step; the encoder, from any
  state, sends a base and these batches; a decoder in any state reads them all; and a replica in any
  state that applies them ends with the JSON of the last revision, without an error anywhere.
\<close>

theorem replica_converges:
  assumes "adjacent publishes v ws"
  shows "\<exists>batches received r'. revision_batches diffRevisions v ws = Some batches \<and>
    decode_all decode d (encode_all send e ([OpR v] # batches)) = Inr received \<and>
    apply_all apply_batch r received = Inr r' \<and>
    map_option tree_of r' = Some (tree_of (last (v # ws)))"
  using document.converges [OF assms, of d e r] unfolding base_batch_def replica_holds_def .

theorem replica_converges_witness:
  "\<exists>batches received r'. revision_batches diffRevisions sample_before [sample_after] = Some batches \<and>
     decode_all decode decoder (encode_all send encoder ([OpR sample_before] # batches)) = Inr received \<and>
     apply_all apply_batch None received = Inr r' \<and>
     map_option tree_of r' = Some (tree_of (last [sample_before, sample_after]))"
  by (rule replica_converges) (simp add: publishes_def sample_revisions)

end
