(* ===== verification/Delta_Immutable.thy ===== *)
theory Delta_Immutable
  imports Delta_Replica
begin

text \<open>
  The copy-on-write applier (\<open>applyImmutable\<close>, \<open>applyImmutableBatches\<close>, \<open>appendCopy\<close> and
  \<open>copyContainers\<close> of \<open>packages/chord/src/delta/index.ts\<close>). A container that is not owned by the
  replay is copied before it is changed; a copy is a container with a fresh address, which the replay
  owns from then on. The state of a replay is the set of owned addresses and the next free address.
  Changing a container in place is a change at its path, as in \<open>Delta\<close>: the copy that made an owned
  container put it at one place, and no operation duplicates it.
\<close>

subsection \<open>The replay\<close>

type_synonym replay = "nat set \<times> nat"

fun address :: "json \<Rightarrow> nat option" where
  "address (JArr a xs) = Some a"
| "address (JObj a es) = Some a"
| "address v = None"

definition owns :: "nat set \<Rightarrow> json \<Rightarrow> bool" where
  "owns owned v \<longleftrightarrow> (case address v of None \<Rightarrow> False | Some a \<Rightarrow> a \<in> owned)"

fun shallow_copy :: "nat \<Rightarrow> json \<Rightarrow> json" where
  "shallow_copy n (JArr a xs) = JArr n xs"
| "shallow_copy n (JObj a es) = JObj n es"
| "shallow_copy n v = v"

text \<open>A container of its own, copied when the replay does not own it yet.\<close>

definition own_copy :: "json \<Rightarrow> replay \<Rightarrow> json \<times> replay" where
  "own_copy v st =
     (case st of (owned, n) \<Rightarrow> if owns owned v then (v, st) else (shallow_copy n v, (insert n owned, Suc n)))"

text \<open>\<open>Object.hasOwn\<close>; a numeral and \<open>length\<close> are own properties of an array.\<close>

fun has_own :: "json \<Rightarrow> seg \<Rightarrow> bool" where
  "has_own (JArr a xs) (SIdx i) \<longleftrightarrow> i < length xs"
| "has_own (JArr a xs) (SKey k) \<longleftrightarrow>
     k = ''length'' \<or> (case array_index k of None \<Rightarrow> False | Some i \<Rightarrow> i < length xs)"
| "has_own (JObj a es) seg \<longleftrightarrow> seg_text seg \<in> fst ` set es"
| "has_own v seg \<longleftrightarrow> False"

fun copy_from :: "path \<Rightarrow> json \<Rightarrow> path \<Rightarrow> replay \<Rightarrow> delta_error + json \<times> replay" where
  "copy_from whole v [] st = (if isObj v then Inr (own_copy v st) else Inl (PathErr whole))"
| "copy_from whole v (seg # p) st =
     (if \<not> isObj v then Inl (PathErr whole)
      else
        case own_copy v st of (v', st') \<Rightarrow>
          if \<not> has_own v' seg then Inl (PathErr whole)
          else
            case (v', seg) of
              (JArr a xs, SKey k) \<Rightarrow> Inl (UnsafePath (JStr k))
            | _ \<Rightarrow>
                (case own_get v' seg of
                   None \<Rightarrow> Inl (PathErr whole)
                 | Some child \<Rightarrow>
                     err_bind (copy_from whole child p st') (\<lambda>(c, st'').
                       Inr (put_own v' seg c, st''))))"

definition copyContainers :: "json \<Rightarrow> path \<Rightarrow> replay \<Rightarrow> delta_error + json \<times> replay" where
  "copyContainers doc p st = copy_from p doc p st"

text \<open>The plain walk over own properties that an append needs.\<close>

fun append_target :: "json \<Rightarrow> path \<Rightarrow> json option" where
  "append_target v [] = Some v"
| "append_target v (SKey k # p) =
     (case v of
        JObj a es \<Rightarrow>
          if k \<in> set RESERVED_SEGMENTS then None
          else (case map_of es k of None \<Rightarrow> None | Some c \<Rightarrow> append_target c p)
      | _ \<Rightarrow> None)"
| "append_target v (SIdx i # p) =
     (case v of JArr a xs \<Rightarrow> if i < length xs then append_target (xs ! i) p else None | _ \<Rightarrow> None)"

definition appendCopy ::
  "json \<Rightarrow> path \<Rightarrow> nat \<Rightarrow> nat \<Rightarrow> json list \<Rightarrow> replay \<Rightarrow> delta_error + (json \<times> replay) option" where
  "appendCopy doc p i deleteCount items st =
     (if deleteCount \<noteq> 0 then Inr None
      else
        case (append_target doc p, st) of
          (Some (JArr a xs), (owned, n)) \<Rightarrow>
            if a \<in> owned \<or> i \<noteq> length xs then Inr None
            else
              let appended = JArr n (xs @ items); st' = (insert n owned, Suc n) in
              if p = [] then Inr (Some (appended, st'))
              else
                err_bind (copyContainers doc (butlast p) st') (\<lambda>(c, st'').
                  err_bind (mutate_at c (butlast p) (\<lambda>u. Inr (put_own u (last p) appended))) (\<lambda>doc'.
                    Inr (Some (doc', st''))))
        | _ \<Rightarrow> Inr None)"

text \<open>The path whose containers an operation changes.\<close>

fun changed_path :: "op \<Rightarrow> path" where
  "changed_path (OpP p i r items) = p"
| "changed_path (OpM p order) = p"
| "changed_path (OpS p v) = butlast p"
| "changed_path (OpD p) = butlast p"
| "changed_path (OpA p s) = butlast p"
| "changed_path (OpT p n) = butlast p"
| "changed_path (OpR v) = []"

definition try_append :: "json \<Rightarrow> op \<Rightarrow> replay \<Rightarrow> delta_error + (json \<times> replay) option" where
  "try_append doc w st =
     (case w of OpP p i r items \<Rightarrow> appendCopy doc p i r items st | _ \<Rightarrow> Inr None)"

fun immutable_op ::
  "json option \<Rightarrow> json \<Rightarrow> op \<Rightarrow> replay \<Rightarrow> delta_error + json \<times> replay" where
  "immutable_op target raw (OpR v) st = Inr (v, st)"
| "immutable_op None raw w st = Inl (PathErr (changed_path w))"
| "immutable_op (Some doc) raw w st =
     err_bind (try_append doc w st) (\<lambda>appended.
       case appended of
         Some r \<Rightarrow> Inr r
       | None \<Rightarrow>
           err_bind (copyContainers doc (changed_path w) st) (\<lambda>(c, st').
             err_bind (applyOps (Some c) [raw]) (\<lambda>r. Inr (the r, st'))))"

fun immutable_ops :: "json option \<Rightarrow> json list \<Rightarrow> replay \<Rightarrow> delta_error + json option \<times> replay" where
  "immutable_ops target [] st = Inr (target, st)"
| "immutable_ops target (raw # raws) st =
     err_bind (assertValidOp raw) (\<lambda>w.
       err_bind (immutable_op target raw w st) (\<lambda>(doc, st'). immutable_ops (Some doc) raws st'))"

text \<open>\<open>n\<close> is the first address not in use.\<close>

definition applyImmutableBatches :: "nat \<Rightarrow> json option \<Rightarrow> json list list \<Rightarrow> delta_error + json option" where
  "applyImmutableBatches n target batches = map_sum id fst (immutable_ops target (concat batches) ({}, n))"

definition applyImmutable :: "nat \<Rightarrow> json option \<Rightarrow> json list \<Rightarrow> delta_error + json option" where
  "applyImmutable n target raws = applyImmutableBatches n target [raws]"

subsection \<open>The meaning on trees\<close>

lemma own_copy_tree [simp]: "tree_of (fst (own_copy v st)) = tree_of v"
  by (cases st; cases v) (simp_all add: own_copy_def)

lemma own_copy_obj [simp]: "isObj (fst (own_copy v st)) = isObj v"
  by (cases st; cases v) (simp_all add: own_copy_def)

lemma own_copy_get [simp]: "own_get (fst (own_copy v st)) seg = own_get v seg"
  by (cases st; cases v; cases seg) (simp_all add: own_copy_def)

lemma own_copy_has [simp]: "has_own (fst (own_copy v st)) seg = has_own v seg"
  by (cases st; cases v; cases seg) (simp_all add: own_copy_def)

lemma own_get_has: "own_get v seg = Some c \<Longrightarrow> has_own v seg"
  by (cases v; cases seg) (auto simp: own_get.simps split: if_splits dest: map_of_SomeD intro: rev_image_eqI)

text \<open>One step of the copy: either no child is there, or its copy is put back.\<close>

lemma copy_from_cons:
  "ok_value (copy_from whole v (seg # p) st) =
     (if \<not> isObj v then None
      else
        case own_get v seg of
          None \<Rightarrow> None
        | Some child \<Rightarrow>
            map_option (\<lambda>(c, st''). (put_own (fst (own_copy v st)) seg c, st''))
              (ok_value (copy_from whole child p (snd (own_copy v st)))))"
proof (cases "isObj v")
  case True
  obtain v' st' where c: "own_copy v st = (v', st')" by (rule prod.exhaust)
  have g: "own_get v seg = own_get v' seg" using own_copy_get [of v st seg] c by simp
  show ?thesis
  proof (cases "own_get v' seg")
    case None
    then show ?thesis using True g by (auto simp: c split: json.split seg.split)
  next
    case (Some child)
    then have h: "has_own v' seg" by (rule own_get_has)
    have na: "\<not> (\<exists>a xs k. v' = JArr a xs \<and> seg = SKey k)" using Some by auto
    have "copy_from whole v (seg # p) st =
        err_bind (copy_from whole child p st') (\<lambda>(c, st''). Inr (put_own v' seg c, st''))"
      using True h na Some by (auto simp: c split: json.split seg.split)
    then show ?thesis using True g Some
      by (cases "copy_from whole child p st'") (auto simp: c)
  qed
qed simp


lemma copy_from_nil: "ok_value (copy_from whole v [] st) = (if isObj v then Some (own_copy v st) else None)"
  by simp

lemma tree_put_get: "tree_get t seg = Some u \<Longrightarrow> tree_put t seg u = t"
  by (cases t; cases seg) (auto split: if_splits)

lemma copy_tree: "ok_value (copy_from whole v p st) = Some (c, st') \<Longrightarrow> tree_of c = tree_of v"
proof (induction p arbitrary: v st c st')
  case Nil
  then have "c = fst (own_copy v st)" by (simp add: copy_from_nil split: if_splits)
  then show ?case by simp
next
  case (Cons seg p)
  then obtain child d where "own_get v seg = Some child"
    "ok_value (copy_from whole child p (snd (own_copy v st))) = Some (d, st')" "c = put_own (fst (own_copy v st)) seg d"
    unfolding copy_from_cons by (auto split: if_splits option.splits)
  with Cons.IH have "tree_of c = tree_put (tree_of v) seg (tree_of child)" "tree_get (tree_of v) seg = Some (tree_of child)"
    by (simp_all add: tree_put_of tree_get_of)
  then show ?case by (simp add: tree_put_get)
qed

lemma copy_fails: "ok_value (copy_from whole v p st) = None \<Longrightarrow> tree_edit (tree_of v) p g = None"
proof (induction p arbitrary: v st)
  case (Cons seg p)
  show ?case
  proof (cases "own_get v seg")
    case None
    then show ?thesis by (simp add: tree_get_of)
  next
    case (Some child)
    then have "isObj v" by (cases v) simp_all
    with Cons.prems Some have "ok_value (copy_from whole child p (snd (own_copy v st))) = None"
      by (simp only: copy_from_cons if_False simp_thms option.case option.map_disc_iff)
    from Cons.IH [OF this] Some show ?thesis by (simp add: tree_get_of)
  qed
qed (simp add: copy_from_nil split: if_splits)

lemma json_result_ok: "ok_value r = Some v \<Longrightarrow> json_result r = Some (tree_of v)"
  by (simp add: json_result_def)

text \<open>What is at a path, and that an edit there depends on nothing else.\<close>

lemma tree_edit_focus: "tree_at t p = Some u \<Longrightarrow> f u = g u \<Longrightarrow> tree_edit t p f = tree_edit t p g"
  by (induction p arbitrary: t) (auto split: option.splits)

lemma tree_edit_snoc:
  "tree_edit t (q @ [seg]) f =
     tree_edit t q (\<lambda>u. case tree_get u seg of
         None \<Rightarrow> None | Some c \<Rightarrow> map_option (tree_put u seg) (tree_edit c [] f))"
proof (induction q arbitrary: t)
  case Nil
  show ?case by (cases t) auto
qed (auto split: option.split)

lemma append_target_at: "append_target v p = Some c \<Longrightarrow> tree_at (tree_of v) p = Some (tree_of c)"
  by (induction v p rule: append_target.induct)
    (auto simp: map_of_tree split: json.splits if_splits option.splits)

lemma tree_edit_defined: "tree_at t p = Some u \<Longrightarrow> tree_node u \<Longrightarrow> f u = Some w \<Longrightarrow> tree_edit t p f \<noteq> None"
  by (simp add: tree_edit_at)

lemma append_tree:
  assumes "appendCopy v p i r items st = Inr (Some (w, st'))"
  shows "tree_op (tree_of v) (OpP p i r items) = Some (tree_of w)"
proof -
  obtain owned n where st: "st = (owned, n)" by fastforce
  from assms obtain a xs where a: "append_target v p = Some (JArr a xs)" "i = length xs" "r = 0"
    by (auto simp: appendCopy_def st split: if_splits option.splits json.splits)
  let ?new = "JArr n (xs @ items)"
  let ?f = "tree_array (\<lambda>ts. Some (splice ts i r (map tree_of items)))"
  have f: "?f (tree_of (JArr a xs)) = Some (tree_of ?new)"
    by (simp add: a(2,3) splice_def)
  show ?thesis
  proof (cases "p = []")
    case True
    with assms a f show ?thesis by (auto simp: appendCopy_def st split: if_splits)
  next
    case False
    then obtain q seg where p: "p = q @ [seg]" by (metis append_butlast_last_id)
    from assms a(1) False obtain c d where c: "copyContainers v q (insert n owned, Suc n) = Inr (c, d)"
      and m: "mutate_at c q (\<lambda>u. Inr (put_own u seg ?new)) = Inr w"
      by (auto simp: appendCopy_def st p err_bind_Inr Let_def split: if_splits)
    have t: "tree_of c = tree_of v" using c copy_tree [of q v q] by (simp add: copyContainers_def)
    have "Some (tree_of w) = json_result (mutate_at c q (\<lambda>u. Inr (put_own u seg ?new)))" by (simp add: m)
    also have "\<dots> = tree_edit (tree_of v) q (\<lambda>u. Some (tree_put u seg (tree_of ?new)))"
      by (simp add: mutate_at_tree tree_put_of t)
    also have "\<dots> = tree_edit (tree_of v) (q @ [seg]) ?f"
    proof -
      from append_target_at [OF a(1)] obtain u where u: "tree_at (tree_of v) q = Some u"
        "tree_get u seg = Some (tree_of (JArr a xs))"
        unfolding p tree_at_snoc by (auto split: bind_splits)
      have "(case tree_get u seg of None \<Rightarrow> None | Some c \<Rightarrow> map_option (tree_put u seg) (tree_edit c [] ?f)) =
          Some (tree_put u seg (tree_of ?new))"
        using f by (simp add: u(2))
      with u(1) show ?thesis unfolding tree_edit_snoc
        by (intro tree_edit_focus [OF u(1)]) simp
    qed
    finally show ?thesis by (simp add: p)
  qed
qed

lemma append_fails:
  assumes "appendCopy v p i r items st = Inl e"
  shows "tree_op (tree_of v) (OpP p i r items) = None"
proof -
  obtain owned n where st: "st = (owned, n)" by fastforce
  from assms have a0: "p \<noteq> []" by (auto simp: appendCopy_def st Let_def split: if_splits option.splits json.splits)
  from assms obtain a xs where a: "append_target v p = Some (JArr a xs)"
    by (auto simp: appendCopy_def st split: if_splits option.splits json.splits)
  from assms obtain q seg where p: "p = q @ [seg]" by (metis a0 append_butlast_last_id)
  from append_target_at [OF a] obtain u where u: "tree_at (tree_of v) q = Some u" "tree_get u seg \<noteq> None"
    unfolding p tree_at_snoc by (auto split: bind_splits)
  then have n: "tree_node u" by (cases u; cases seg) auto
  have "False"
  proof (cases "copyContainers v q (insert n owned, Suc n)")
    case (Inl x)
    then have "ok_value (copy_from q v q (insert n owned, Suc n)) = None" by (simp add: copyContainers_def)
    from copy_fails [OF this, of Some] tree_edit_defined [OF u(1) n, of Some] show False by simp
  next
    case (Inr cd)
    obtain c d where cd: "cd = (c, d)" by (rule prod.exhaust)
    have t: "tree_of c = tree_of v" using Inr cd copy_tree [of q v q] by (simp add: copyContainers_def)
    have "json_result (mutate_at c q (\<lambda>u. Inr (put_own u seg (JArr n (xs @ items))))) \<noteq> None"
      unfolding mutate_at_tree [where g = "\<lambda>u. Some (tree_put u seg (tree_of (JArr n (xs @ items))))"]
      using tree_edit_defined [OF u(1) n] by (simp add: mutate_at_tree tree_put_of t)
    then show False using assms a Inr cd
      by (auto simp: appendCopy_def st p Let_def json_result_def split: if_splits sum.splits)
  qed
  then show ?thesis ..
qed


lemma tree_op_edit: "\<not> is_replace w \<Longrightarrow> \<exists>g. \<forall>t. tree_op t w = tree_edit t (changed_path w) g"
  by (cases w) (auto simp: tree_parent_def)

lemma immutable_op_tree:
  assumes "assertValidOp raw = Inr w"
  shows "map_option (\<lambda>r. tree_of (fst r)) (ok_value (immutable_op (Some v) raw w st)) = tree_op (tree_of v) w"
proof (cases "is_replace w")
  case True
  then show ?thesis by (cases w) simp_all
next
  case False
  then have step: "immutable_op (Some v) raw w st = err_bind (try_append v w st) (\<lambda>appended.
       case appended of
         Some r \<Rightarrow> Inr r
       | None \<Rightarrow>
           err_bind (copyContainers v (changed_path w) st) (\<lambda>(c, st').
             err_bind (applyOps (Some c) [raw]) (\<lambda>r. Inr (the r, st'))))"
    by (cases w) simp_all
  show ?thesis
  proof (cases "try_append v w st")
    case (Inl e)
    then obtain p i r items where "w = OpP p i r items" "appendCopy v p i r items st = Inl e"
      by (auto simp: try_append_def split: op.splits)
    with append_fails step Inl show ?thesis by simp
  next
    case (Inr appended)
    show ?thesis
    proof (cases appended)
      case (Some q)
      obtain d st' where q: "q = (d, st')" by (rule prod.exhaust)
      from Inr Some q obtain p i r items where "w = OpP p i r items" "appendCopy v p i r items st = Inr (Some (d, st'))"
        by (auto simp: try_append_def split: op.splits)
      with append_tree step Inr Some q show ?thesis by simp
    next
      case None
      show ?thesis
      proof (cases "copyContainers v (changed_path w) st")
        case (Inl e)
        then have "ok_value (copy_from (changed_path w) v (changed_path w) st) = None"
          by (simp add: copyContainers_def)
        moreover obtain g where "tree_op (tree_of v) w = tree_edit (tree_of v) (changed_path w) g"
          using tree_op_edit [OF False] by blast
        ultimately have "tree_op (tree_of v) w = None" using copy_fails by metis
        with step \<open>try_append v w st = Inr appended\<close> None Inl show ?thesis by simp
      next
        case c: (Inr q)
        obtain d st' where q: "q = (d, st')" by (rule prod.exhaust)
        then have t: "tree_of d = tree_of v" using c copy_tree [of "changed_path w" v "changed_path w" st d st']
          by (simp add: copyContainers_def)
        have a: "map_option (map_option tree_of) (ok_value (applyOps (Some d) [raw])) = map_option Some (tree_op (tree_of v) w)"
          unfolding applyOps_tree using assms t by (cases "tree_op (tree_of v) w") simp_all
        show ?thesis
        proof (cases "applyOps (Some d) [raw]")
          case (Inl e)
          with a step \<open>try_append v w st = Inr appended\<close> None c q show ?thesis by simp
        next
          case (Inr x)
          with a obtain y where "x = Some y" "tree_op (tree_of v) w = Some (tree_of y)"
            by (cases x; cases "tree_op (tree_of v) w") simp_all
          with step \<open>try_append v w st = Inr appended\<close> None c q Inr show ?thesis by simp
        qed
      qed
    qed
  qed
qed

lemma immutable_ops_tree:
  "map_option (\<lambda>r. map_option tree_of (fst r)) (ok_value (immutable_ops (Some v) raws st)) =
     Option.bind (read_batch raws) (\<lambda>ws. map_option Some (tree_ops (tree_of v) ws))"
proof (induction raws arbitrary: v st)
  case (Cons raw raws)
  show ?case
  proof (cases "assertValidOp raw")
    case (Inr w)
    note t = immutable_op_tree [OF Inr, of v st]
    show ?thesis
    proof (cases "immutable_op (Some v) raw w st")
      case (Inl e)
      with t [symmetric] Inr show ?thesis by (cases "read_batch raws") simp_all
    next
      case r: (Inr r)
      obtain u st' where "r = (u, st')" by (rule prod.exhaust)
      with t [symmetric] r Inr Cons [of u st'] show ?thesis by (cases "read_batch raws") simp_all
    qed
  qed simp
qed simp

lemma undefined_target:
  "assertValidOp raw = Inr w \<Longrightarrow> \<not> is_replace w \<Longrightarrow>
     (\<exists>e. immutable_op None raw w st = Inl e) \<and> (\<exists>e. run_target None w = Inl e)"
  by (cases w) simp_all

lemma immutable_agrees:
  "map_option (\<lambda>r. map_option tree_of (fst r)) (ok_value (immutable_ops target raws st)) =
     map_option (map_option tree_of) (ok_value (applyOps target raws))"
proof (cases target)
  case (Some v)
  then show ?thesis by (simp add: immutable_ops_tree applyOps_tree)
next
  case None
  show ?thesis
  proof (cases raws)
    case (Cons raw rest)
    show ?thesis
    proof (cases "assertValidOp raw")
      case (Inr w)
      show ?thesis
      proof (cases "is_replace w")
        case True
        then obtain v where "w = OpR v" by (cases w) simp_all
        then show ?thesis using None Cons Inr by (simp add: immutable_ops_tree applyOps_tree)
      next
        case False
        from undefined_target [OF Inr this, of st] obtain d e where
          "immutable_op None raw w st = Inl d" "run_target None w = Inl e" by blast
        then show ?thesis using None Cons Inr by simp
      qed
    qed (simp add: Cons)
  qed (simp add: None)
qed

subsection \<open>Nothing that was there before changes\<close>

text \<open>
  \<open>old\<close> holds the containers that exist before the replay: those of the revision and of the values in
  the operations. A value is kept when each of its containers is owned or is, contents included, one
  of the old ones, and no object has a property twice.
\<close>

fun plain_container :: "json \<Rightarrow> bool" where
  "plain_container (JObj a es) \<longleftrightarrow> distinct (map fst es)"
| "plain_container v \<longleftrightarrow> True"

definition kept :: "json set \<Rightarrow> nat set \<Rightarrow> json \<Rightarrow> bool" where
  "kept old owned v \<longleftrightarrow> (\<forall>u \<in> set (containers v). plain_container u \<and> (owns owned u \<or> u \<in> old))"

definition replay_bounds :: "nat \<Rightarrow> replay \<Rightarrow> bool" where
  "replay_bounds first st \<longleftrightarrow> first \<le> snd st \<and> fst st \<subseteq> {first..<snd st}"

lemma owns_simps [simp]:
  "owns owned (JArr a xs) \<longleftrightarrow> a \<in> owned" "owns owned (JObj a es) \<longleftrightarrow> a \<in> owned"
  by (simp_all add: owns_def)

lemma kept_more: "kept old owned v \<Longrightarrow> owned \<subseteq> owned' \<Longrightarrow> kept old owned' v"
  by (auto simp: kept_def owns_def split: option.splits)

lemma kept_arr:
  "kept old owned (JArr a xs) \<longleftrightarrow> (a \<in> owned \<or> JArr a xs \<in> old) \<and> (\<forall>x \<in> set xs. kept old owned x)"
  by (auto simp: kept_def)

lemma kept_obj:
  "kept old owned (JObj a es) \<longleftrightarrow> distinct (map fst es) \<and> (a \<in> owned \<or> JObj a es \<in> old) \<and> (\<forall>x \<in> snd ` set es. kept old owned x)"
  by (fastforce simp: kept_def)

lemma kept_leaf: "\<not> isObj v \<Longrightarrow> kept old owned v"
  by (cases v) (simp_all add: kept_def)

lemma kept_get: "kept old owned v \<Longrightarrow> own_get v seg = Some c \<Longrightarrow> kept old owned c"
  by (cases v; cases seg) (auto simp: kept_arr kept_obj split: if_splits dest!: map_of_SomeD)

lemma set_define_property: "set (define_property k v es) \<subseteq> insert (k, v) (set es)"
  by (rule insert_property_split [of es k v]) (auto simp: define_property_def split: if_splits)

lemma put_own_kept:
  assumes "owns owned u" "kept old owned u" "kept old owned c"
  shows "kept old owned (put_own u seg c) \<and> owns owned (put_own u seg c)"
proof (cases u)
  case (JArr a xs)
  have sub: "set (if i < length xs then xs[i := c] else xs @ [c]) \<subseteq> insert c (set xs)" for i
    using set_update_subset_insert [of xs i c] by auto
  then have "kept old owned (JArr a (if i < length xs then xs[i := c] else xs @ [c]))" for i
    using assms JArr subsetD [OF sub [of i]] by (simp only: kept_arr owns_simps) blast
  then show ?thesis using assms JArr by (cases seg) simp_all
next
  case (JObj a es)
  have sub: "snd ` set (define_property (seg_text seg) c es) \<subseteq> insert c (snd ` set es)"
    using set_define_property [of "seg_text seg" c es] by force
  then have "kept old owned (JObj a (define_property (seg_text seg) c es))"
    using assms JObj subsetD [OF sub] distinct_define [of es "seg_text seg" c]
    by (simp only: kept_obj owns_simps) blast
  then show ?thesis using assms JObj by simp
qed (use assms in \<open>simp_all add: owns_def\<close>)

lemma own_copy_kept:
  assumes "kept old owned v" "isObj v" "replay_bounds first (owned, n)" "own_copy v (owned, n) = (v', (owned', n'))"
  shows "kept old owned' v' \<and> owns owned' v' \<and> owned \<subseteq> owned' \<and> replay_bounds first (owned', n')"
proof (cases "owns owned v")
  case False
  then have e: "v' = shallow_copy n v" "owned' = insert n owned" "n' = Suc n" using assms(4) by (auto simp: own_copy_def)
  have "kept old owned' v" by (rule kept_more [OF assms(1)]) (simp add: e subset_insertI)
  then have "kept old owned' v' \<and> owns owned' v'" using assms(2) by (cases v) (auto simp: e kept_arr kept_obj)
  then show ?thesis using assms(3) by (auto simp: e replay_bounds_def)
qed (use assms in \<open>auto simp: own_copy_def\<close>)

text \<open>All containers along a path are owned.\<close>

fun path_owned :: "nat set \<Rightarrow> json \<Rightarrow> path \<Rightarrow> bool" where
  "path_owned owned v [] \<longleftrightarrow> owns owned v"
| "path_owned owned v (seg # p) \<longleftrightarrow>
     owns owned v \<and> (case own_get v seg of None \<Rightarrow> False | Some c \<Rightarrow> path_owned owned c p)"

lemma owns_more: "owns owned v \<Longrightarrow> owned \<subseteq> owned' \<Longrightarrow> owns owned' v"
  by (auto simp: owns_def split: option.splits)

lemma own_get_put: "own_get u seg = Some c \<Longrightarrow> own_get (put_own u seg d) seg = Some d"
  by (cases u; cases seg) (auto simp: map_of_define split: if_splits)

lemma copy_from_kept:
  "ok_value (copy_from whole v p (owned, n)) = Some (c, (owned', n')) \<Longrightarrow> kept old owned v \<Longrightarrow>
     replay_bounds first (owned, n) \<Longrightarrow>
     kept old owned' c \<and> path_owned owned' c p \<and> owned \<subseteq> owned' \<and> replay_bounds first (owned', n')"
proof (induction p arbitrary: v owned n c owned' n')
  case Nil
  then have "isObj v" "own_copy v (owned, n) = (c, (owned', n'))" by (simp_all add: copy_from_nil split: if_splits)
  with own_copy_kept [OF Nil.prems(2) _ Nil.prems(3)] show ?case by simp
next
  case (Cons seg p)
  obtain v1 owned1 n1 where o: "own_copy v (owned, n) = (v1, (owned1, n1))" by (metis prod.exhaust)
  from Cons.prems(1) obtain child d where obj: "isObj v" and g: "own_get v seg = Some child"
    and r: "ok_value (copy_from whole child p (owned1, n1)) = Some (d, (owned', n'))"
    and c: "c = put_own v1 seg d"
    unfolding copy_from_cons o by (auto split: if_splits option.splits)
  note k = own_copy_kept [OF Cons.prems(2) obj Cons.prems(3) o]
  have "own_get v1 seg = Some child" using g own_copy_get [of v "(owned, n)" seg] o by simp
  moreover have "kept old owned1 child" using kept_get [OF Cons.prems(2) g] k kept_more by blast
  ultimately have i: "kept old owned' d \<and> path_owned owned' d p \<and> owned1 \<subseteq> owned' \<and> replay_bounds first (owned', n')"
    using Cons.IH [OF r] k by blast
  then have "owns owned' v1" "kept old owned' v1" using k owns_more kept_more by blast+
  from put_own_kept [OF this] i have "kept old owned' c \<and> owns owned' c" by (simp add: c)
  then show ?case using i k \<open>own_get v1 seg = Some child\<close> by (auto simp: c own_get_put)
qed

lemma mutate_from_kept:
  assumes "\<And>u u'. owns owned u \<Longrightarrow> kept old owned u \<Longrightarrow> f u = Inr u' \<Longrightarrow> kept old owned u'"
  shows "path_owned owned v p \<Longrightarrow> kept old owned v \<Longrightarrow> mutate_from whole f v p = Inr w \<Longrightarrow> kept old owned w"
proof (induction p arbitrary: v w)
  case Nil
  then show ?case using assms by (auto split: if_splits)
next
  case (Cons seg p)
  from Cons.prems(3) obtain c d where c: "step_into whole v seg = Inr c" "mutate_from whole f c p = Inr d" "w = put_own v seg d"
    by (auto simp: err_bind_Inr)
  then have g: "own_get v seg = Some c" using step_into_result [of whole v seg] by simp
  then have "kept old owned d" using Cons.IH [OF _ _ c(2)] Cons.prems(1,2) kept_get by auto
  then show ?case using put_own_kept Cons.prems(1,2) c(3) by auto
qed

lemma splice_elems: "set (splice xs i r items) \<subseteq> set xs \<union> set items"
  by (auto simp: splice_def dest: in_set_takeD in_set_dropD)

lemma edit_array_kept:
  assumes "\<forall>x \<in> set items. kept old owned x" "owns owned u" "kept old owned u" "edit_array p i r items u = Inr u'"
  shows "kept old owned u'"
proof (cases u)
  case (JArr a xs)
  with assms(4) have "u' = JArr a (splice xs i r items)" by (simp add: splice_chunks splice_insert)
  then show ?thesis using assms JArr splice_elems [of xs i r items] by (auto simp: kept_arr)
qed (use assms(4) in simp_all)

lemma permute_array_kept:
  assumes "list_all (\<lambda>i. i < length order) order" "owns owned u" "kept old owned u" "permute_array p order u = Inr u'"
  shows "kept old owned u'"
  using assms by (cases u) (auto simp: kept_arr list_all_iff split: if_splits)

lemma delete_own_kept:
  assumes "owns owned u" "kept old owned u" "delete_own p key u = Inr u'"
  shows "kept old owned u'"
proof (cases u)
  case (JArr a xs)
  with assms(3) obtain i where "u' = JArr a (splice xs i 1 [])" by (cases key) (auto split: if_splits)
  then show ?thesis using assms(1,2) splice_elems [of xs i 1 "[]"] by (auto simp: JArr kept_arr)
next
  case (JObj a es)
  with assms(3) have u: "u' = JObj a (delete_property (seg_text key) es)" by (cases key) auto
  have "distinct (map fst es) \<Longrightarrow> distinct (map fst (filter P es))" for P :: "string \<times> json \<Rightarrow> bool"
    by (induction es) auto
  then show ?thesis using assms(1,2) by (auto simp: u JObj kept_obj delete_property_def)
qed (use assms(3) in \<open>cases key; simp\<close>)+

lemma rewrite_string_kept:
  assumes "owns owned u" "kept old owned u" "rewrite_string p key f u = Inr u'"
  shows "kept old owned u'"
  using assms put_own_kept [OF assms(1,2) kept_leaf]
  by (auto simp: rewrite_string_def split: option.splits json.splits)

fun op_values :: "op \<Rightarrow> json list" where
  "op_values (OpR v) = [v]"
| "op_values (OpS p v) = [v]"
| "op_values (OpP p i r items) = items"
| "op_values w = []"

lemma check_key_Inr:
  "(case check_key u key of Some e \<Rightarrow> Inl e | None \<Rightarrow> f) = Inr u' \<Longrightarrow> f = Inr u'"
  by (cases "check_key u key") simp_all

lemma mutate_at_kept:
  assumes "mutate_at v p f = Inr w" "path_owned owned v p" "kept old owned v"
    and "\<And>u u'. owns owned u \<Longrightarrow> kept old owned u \<Longrightarrow> f u = Inr u' \<Longrightarrow> kept old owned u'"
  shows "kept old owned w"
  by (rule mutate_from_kept [OF assms(4) assms(2,3) assms(1) [unfolded mutate_at_def]])

lemma edit_parent_kept:
  assumes "edit_parent v p f = Inr w" "path_owned owned v (butlast p)" "kept old owned v"
    and "\<And>u u'. owns owned u \<Longrightarrow> kept old owned u \<Longrightarrow> f (last p) u = Inr u' \<Longrightarrow> kept old owned u'"
  shows "kept old owned w"
  by (rule mutate_at_kept [OF assms(1) [unfolded edit_parent_def] assms(2,3)]) (auto dest: check_key_Inr assms(4))

lemma run_op_kept:
  assumes "op_ok w" "\<not> is_replace w" "path_owned owned v (changed_path w)" "kept old owned v"
    and "list_all (kept old owned) (op_values w)" "run_op v w = Inr u"
  shows "kept old owned u"
proof (cases w)
  case (OpP p i r items)
  show ?thesis
    by (rule mutate_at_kept [where p = p and f = "edit_array p i r items"])
      (use assms OpP edit_array_kept [where items = items and old = old and owned = owned] in \<open>auto simp: list_all_iff\<close>)
next
  case (OpM p order)
  show ?thesis
    by (rule mutate_at_kept [where p = p and f = "permute_array p order"])
      (use assms OpM permute_array_kept [where order = order and old = old and owned = owned] in auto)
next
  case (OpS p x)
  show ?thesis
    by (rule edit_parent_kept [where p = p and f = "\<lambda>key parent. Inr (put_own parent key x)"])
      (use assms OpS put_own_kept [where old = old and owned = owned and c = x] in auto)
next
  case (OpD p)
  show ?thesis
    by (rule edit_parent_kept [where p = p and f = "delete_own p"])
      (use assms OpD delete_own_kept [where old = old and owned = owned and p = p] in auto)
next
  case (OpA p s)
  show ?thesis
    by (rule edit_parent_kept [where p = p and f = "\<lambda>key. rewrite_string p key (\<lambda>t. t @ s)"])
      (use assms OpA rewrite_string_kept [where old = old and owned = owned and p = p] in auto)
next
  case (OpT p n)
  show ?thesis
    by (rule edit_parent_kept [where p = p and f = "\<lambda>key. rewrite_string p key (drop n)"])
      (use assms OpT rewrite_string_kept [where old = old and owned = owned and p = p] in auto)
qed (use assms(2) in simp)

lemma append_target_kept: "append_target v p = Some c \<Longrightarrow> kept old owned v \<Longrightarrow> kept old owned c"
  by (induction v p rule: append_target.induct)
    (auto simp: kept_arr kept_obj split: json.splits if_splits option.splits dest!: map_of_SomeD)

lemma append_kept:
  assumes "appendCopy v p i r items (owned, n) = Inr (Some (w, (owned', n')))" "kept old owned v"
    and "replay_bounds first (owned, n)" "list_all (kept old owned) items"
  shows "kept old owned' w \<and> owned \<subseteq> owned' \<and> replay_bounds first (owned', n')"
proof -
  from assms(1) obtain a xs where a: "append_target v p = Some (JArr a xs)"
    by (auto simp: appendCopy_def split: if_splits option.splits json.splits)
  let ?new = "JArr n (xs @ items)" and ?o = "insert n owned"
  have elems: "\<forall>x \<in> set (xs @ items). kept old ?o x"
    using append_target_kept [OF a assms(2)] assms(4) kept_more [of old owned _ ?o]
    by (auto simp: kept_arr list_all_iff)
  then have new: "kept old ?o ?new" by (simp only: kept_arr) simp
  have b: "replay_bounds first (?o, Suc n)" using assms(3) by (auto simp: replay_bounds_def)
  show ?thesis
  proof (cases "p = []")
    case True
    with assms(1) a new b show ?thesis by (auto simp: appendCopy_def split: if_splits)
  next
    case False
    with assms(1) a obtain c where
      c: "copyContainers v (butlast p) (?o, Suc n) = Inr (c, (owned', n'))"
      and m: "mutate_at c (butlast p) (\<lambda>u. Inr (put_own u (last p) ?new)) = Inr w"
      by (auto simp: appendCopy_def err_bind_Inr Let_def split: if_splits)
    have "kept old ?o v" by (rule kept_more [OF assms(2)]) (rule subset_insertI)
    then have k: "kept old owned' c \<and> path_owned owned' c (butlast p) \<and> ?o \<subseteq> owned' \<and> replay_bounds first (owned', n')"
      using c copy_from_kept [OF _ _ b, of _ v "butlast p" c owned' n' old] by (simp add: copyContainers_def)
    then have "kept old owned' ?new" using new kept_more by blast
    then have "kept old owned' (put_own u (last p) ?new)" if "owns owned' u" "kept old owned' u" for u
      using put_own_kept that by blast
    then have "kept old owned' w" using mutate_at_kept [OF m] k by blast
    with k show ?thesis by auto
  qed
qed

lemma immutable_op_kept:
  assumes "immutable_op (Some v) raw w (owned, n) = Inr (u, (owned', n'))" "assertValidOp raw = Inr w"
    and "kept old owned v" "replay_bounds first (owned, n)" "list_all (kept old owned) (op_values w)"
  shows "kept old owned' u \<and> owned \<subseteq> owned' \<and> replay_bounds first (owned', n')"
proof (cases "is_replace w")
  case True
  with assms show ?thesis by (cases w) auto
next
  case False
  then have step: "immutable_op (Some v) raw w (owned, n) = err_bind (try_append v w (owned, n)) (\<lambda>appended.
       case appended of
         Some r \<Rightarrow> Inr r
       | None \<Rightarrow>
           err_bind (copyContainers v (changed_path w) (owned, n)) (\<lambda>(c, st').
             err_bind (applyOps (Some c) [raw]) (\<lambda>r. Inr (the r, st'))))"
    by (cases w) simp_all
  with assms(1) obtain appended where a: "try_append v w (owned, n) = Inr appended"
    and r: "(case appended of
         Some r \<Rightarrow> Inr r
       | None \<Rightarrow>
           err_bind (copyContainers v (changed_path w) (owned, n)) (\<lambda>(c, st').
             err_bind (applyOps (Some c) [raw]) (\<lambda>r. Inr (the r, st')))) = Inr (u, (owned', n'))"
    by (auto simp: err_bind_Inr)
  show ?thesis
  proof (cases appended)
    case (Some q)
    with a r obtain p i k items where "w = OpP p i k items" "appendCopy v p i k items (owned, n) = Inr (Some (u, (owned', n')))"
      by (auto simp: try_append_def split: op.splits)
    with append_kept assms(3-5) show ?thesis by simp
  next
    case None
    with r obtain c where c: "copyContainers v (changed_path w) (owned, n) = Inr (c, (owned', n'))"
      and x: "run_op c w = Inr u"
      using assms(2) by (auto simp: err_bind_Inr)
    have k: "kept old owned' c \<and> path_owned owned' c (changed_path w) \<and> owned \<subseteq> owned' \<and> replay_bounds first (owned', n')"
      using c copy_from_kept [OF _ assms(3,4)] by (simp add: copyContainers_def)
    then have "list_all (kept old owned') (op_values w)"
      using assms(5) kept_more [of old owned _ owned'] by (auto simp: list_all_iff)
    with run_op_kept [OF assertValidOp_sound [OF assms(2)] False _ _ _ x] k show ?thesis by blast
  qed
qed

lemma immutable_ops_kept:
  "immutable_ops (Some v) raws (owned, n) = Inr (r, st) \<Longrightarrow> read_batch raws = Some ws \<Longrightarrow> kept old owned v \<Longrightarrow>
     replay_bounds first (owned, n) \<Longrightarrow> \<forall>w \<in> set ws. \<forall>x \<in> set (op_values w). kept old {} x \<Longrightarrow>
     \<exists>u. r = Some u \<and> kept old (fst st) u \<and> replay_bounds first st"
proof (induction raws arbitrary: v owned n ws)
  case (Cons raw raws)
  from Cons.prems(2) obtain w rest where w: "assertValidOp raw = Inr w" "read_batch raws = Some rest" "ws = w # rest"
    by (auto split: sum.splits)
  from Cons.prems(1) w obtain u owned' n' where u: "immutable_op (Some v) raw w (owned, n) = Inr (u, (owned', n'))"
    "immutable_ops (Some u) raws (owned', n') = Inr (r, st)"
    by (auto simp: err_bind_Inr)
  have "list_all (kept old owned) (op_values w)"
    using Cons.prems(5) kept_more [of old "{}" _ owned] by (auto simp: w list_all_iff)
  with immutable_op_kept [OF u(1) w(1) Cons.prems(3,4)] have "kept old owned' u" "replay_bounds first (owned', n')" by blast+
  with Cons.IH [OF u(2) w(2)] Cons.prems(5) show ?case by (simp add: w)
qed auto

subsection \<open>The properties\<close>

lemma kept_wf: "kept old owned v \<Longrightarrow> wf_json v"
  by (induction v) (force simp: kept_arr kept_obj kept_leaf list_all_iff)+

lemma wf_plain: "wf_json v \<Longrightarrow> u \<in> set (containers v) \<Longrightarrow> plain_container u"
  by (induction v) (fastforce simp: list_all_iff)+

lemma wf_kept: "wf_json v \<Longrightarrow> set (containers v) \<subseteq> old \<Longrightarrow> kept old {} v"
  using wf_plain by (auto simp: kept_def)

text \<open>Values that live on one heap, and an address above all of theirs.\<close>

definition all_containers :: "json list \<Rightarrow> json list" where
  "all_containers vs = concat (map containers vs)"

definition one_heap :: "json list \<Rightarrow> bool" where
  "one_heap vs \<longleftrightarrow>
     list_all (\<lambda>u. list_all (\<lambda>w. (u = w) = strictEq u w) (all_containers vs)) (all_containers vs)"

definition unused_from :: "nat \<Rightarrow> json list \<Rightarrow> bool" where
  "unused_from n vs \<longleftrightarrow>
     list_all (\<lambda>u. case address u of None \<Rightarrow> True | Some a \<Rightarrow> a < n) (all_containers vs)"

lemma kept_coherent:
  assumes "one_heap vs" "unused_from n vs" "v \<in> set vs" "replay_bounds n st"
    and "kept (set (all_containers vs)) (fst st) w"
  shows "coherent v w"
proof -
  have "(x = y) = strictEq x y" if x: "x \<in> set (containers v)" and y: "y \<in> set (containers w)" for x y
  proof -
    have xv: "x \<in> set (all_containers vs)" using x assms(3) by (auto simp: all_containers_def)
    show ?thesis
    proof (cases "y \<in> set (all_containers vs)")
      case True
      with xv assms(1) show ?thesis by (simp add: one_heap_def list_all_iff)
    next
      case False
      then have "owns (fst st) y" using assms(5) y by (auto simp: kept_def)
      then obtain b where b: "address y = Some b" "n \<le> b"
        using assms(4) by (auto simp: owns_def replay_bounds_def split: option.splits)
      have "\<not> strictEq x y"
      proof
        assume "strictEq x y"
        with b(1) have "address x = Some b" by (cases x; cases y) auto
        with xv assms(2) b(2) show False by (auto simp: unused_from_def list_all_iff)
      qed
      with strictEq_refl show ?thesis by blast
    qed
  qed
  then show ?thesis by (simp add: coherent_def list_all_iff)
qed

lemma immutable_publishes:
  assumes "applyImmutable n (Some v) raws = Inr r" "read_batch raws = Some ws"
    and "one_heap (v # concat (map op_values ws))" "unused_from n (v # concat (map op_values ws))"
    and "list_all wf_json (v # concat (map op_values ws))"
  shows "\<exists>w. r = Some w \<and> publishes v w"
proof -
  let ?vs = "v # concat (map op_values ws)" and ?old = "set (all_containers (v # concat (map op_values ws)))"
  obtain st where run: "immutable_ops (Some v) raws ({}, n) = Inr (r, st)"
    using assms(1) by (cases "immutable_ops (Some v) raws ({}, n)")
      (auto simp: applyImmutable_def applyImmutableBatches_def)
  have k: "kept ?old {} x" if "x \<in> set ?vs" for x
    by (rule wf_kept) (use that assms(5) in \<open>auto simp: list_all_iff all_containers_def\<close>)
  have "replay_bounds n ({}, n)" by (simp add: replay_bounds_def)
  moreover have "\<forall>w \<in> set ws. \<forall>x \<in> set (op_values w). kept ?old {} x" using k by auto
  ultimately obtain w where w: "r = Some w" "kept ?old (fst st) w" "replay_bounds n st"
    using immutable_ops_kept [OF run assms(2), of ?old n] k by auto
  have "coherent v w" by (rule kept_coherent [OF assms(3,4) _ w(3,2)]) simp
  with w kept_wf assms(5) show ?thesis by (auto simp: publishes_def)
qed

text \<open>
  C24. The copy-on-write applier and the in-place applier mean the same: on any target and any batch of
  boundary data, with any first free address, \<open>applyImmutable\<close> throws exactly when \<open>apply\<close> does, and
  otherwise both return the same JSON.
\<close>

theorem immutable_apply_agrees:
  "map_option (map_option tree_of) (ok_value (applyImmutable n target raws)) =
     map_option (map_option tree_of) (ok_value (applyOps target raws))"
  using immutable_agrees [of target raws "({}, n)"]
  by (cases "immutable_ops target raws ({}, n)") (auto simp: applyImmutable_def applyImmutableBatches_def)

text \<open>
  C25. The copy-on-write applier publishes: what it returns is a well-formed revision that keeps every
  container of the old revision it still holds as it was, so the differ and the next replay may rely
  on identity. The old revision and the values in the batch live on one heap below the first free
  address.
\<close>

theorem immutable_apply_publishes:
  assumes "applyImmutable n (Some v) raws = Inr r" "read_batch raws = Some ws"
    and "one_heap (v # concat (map op_values ws))" "unused_from n (v # concat (map op_values ws))"
    and "list_all wf_json (v # concat (map op_values ws))"
  shows "\<exists>w. r = Some w \<and> publishes v w"
  by (rule immutable_publishes [OF assms])

definition sample_batch :: "op list" where
  "sample_batch = [OpP [SKey ''items''] 1 0 [JStr ''b''], OpS [SKey ''title''] (JObj 7 [])]"

definition sample_document :: json where
  "sample_document = JObj 1 [(''title'', JStr ''t''), (''items'', JArr 2 [JStr ''a'']), (''meta'', JObj 3 [])]"

lemma sample_replay:
  "applyImmutable 8 (Some sample_document) (map op_value sample_batch) =
     Inr (Some (JObj 9 [(''title'', JObj 7 []), (''items'', JArr 8 [JStr ''a'', JStr ''b'']), (''meta'', JObj 3 [])]))"
  by code_simp

theorem immutable_apply_publishes_witness:
  "publishes sample_document
     (JObj 9 [(''title'', JObj 7 []), (''items'', JArr 8 [JStr ''a'', JStr ''b'']), (''meta'', JObj 3 [])])"
proof -
  have r: "read_batch (map op_value sample_batch) = Some sample_batch"
    by (rule read_batch_values) (simp add: sample_batch_def safe_seg_def RESERVED_SEGMENTS_def)
  have "one_heap (sample_document # concat (map op_values sample_batch))"
    "unused_from 8 (sample_document # concat (map op_values sample_batch))"
    "list_all wf_json (sample_document # concat (map op_values sample_batch))"
    by (simp_all add: one_heap_def unused_from_def all_containers_def sample_document_def sample_batch_def)
  from immutable_apply_publishes [OF sample_replay r this] show ?thesis by simp
qed

end
