(* ===== verification/Storage_Scan.thy ===== *)
theory Storage_Scan
  imports Delta_Immutable
begin

text \<open>
  Ordered scans of the in-memory storage (\<open>packages/gibraltar/src/storage/scan.ts\<close>, the id lists and
  \<open>page\<close> of \<open>storage/memory.ts\<close>, \<open>scanAll\<close> of \<open>harness/util.ts\<close>): binary search on sorted lists of
  idl, cursors, pages, and the client loop that reads all pages. Ids are integers; a cursor is the
  JSON object the caller hands back.
\<close>

datatype scan_order = Ascending | Descending

datatype table_name = ConversationTable | EntryTable | TaskTable | SubmissionTable | DocumentTable

text \<open>What the storage throws; the constructor names the message. \<open>EngineTypeError\<close> is a property read of \<open>undefined\<close>.\<close>

datatype storage_error =
    StorageClosed
  | InvalidOrder string
  | InvalidCursor
  | OrderMismatch scan_order string
  | SequenceError int
  | IdBelongs int table_name
  | IdWrittenTwice int
  | IdTwoTypes int
  | ContentTwice int
  | RetiredTwice int
  | UnknownDocument int
  | DocumentExists int
  | DocumentRetired int
  | DeltaWithoutBase int
  | VersionTransition int
  | AddressTaken
  | SourceChanged int
  | SourceUnreadable int
  | SourceMismatch int
  | CopyRejected int storage_error
  | UnresolvedCopy
  | NoHistory int
  | MissingBase int
  | VersionBoundary int
  | ReplayError delta_error
  | UnknownConversation int
  | RootReserved
  | IdsExhausted
  | EntryNotVisible int int
  | ForkAmbiguous string "string option"
  | EngineTypeError

subsection \<open>Sorted id lists\<close>

text \<open>The loop of \<open>lowerBound\<close> and \<open>upperBound\<close>: \<open>below\<close> is \<open>ids[middle] < target\<close> or \<open>ids[middle] <= target\<close>.\<close>

function bisect :: "(int \<Rightarrow> bool) \<Rightarrow> int list \<Rightarrow> nat \<Rightarrow> nat \<Rightarrow> nat" where
  "bisect below idl low high =
     (if low < high then
        let middle = (low + high) div 2 in
        if below (idl ! middle) then bisect below idl (middle + 1) high
        else bisect below idl low middle
      else low)"
  by auto

termination
  by (relation "measure (\<lambda>(below, idl, low, high). high - low)") auto

declare bisect.simps [simp del]

text \<open>A missing target is \<open>-Infinity\<close> for the lower bound and \<open>Infinity\<close> for the upper bound.\<close>

definition under :: "int option \<Rightarrow> int \<Rightarrow> bool" where
  "under target i \<longleftrightarrow> (case target of None \<Rightarrow> False | Some t \<Rightarrow> i < t)"

definition up_to :: "int option \<Rightarrow> int \<Rightarrow> bool" where
  "up_to target i \<longleftrightarrow> (case target of None \<Rightarrow> True | Some t \<Rightarrow> i \<le> t)"

lemma under_simps [simp]: "under None = (\<lambda>i. False)" "under (Some t) = (\<lambda>i. i < t)"
  by (simp_all add: under_def fun_eq_iff)

lemma up_to_simps [simp]: "up_to None = (\<lambda>i. True)" "up_to (Some t) = (\<lambda>i. i \<le> t)"
  by (simp_all add: up_to_def fun_eq_iff)

definition lowerBound :: "int list \<Rightarrow> int option \<Rightarrow> nat" where
  "lowerBound idl target = bisect (under target) idl 0 (length idl)"

definition upperBound :: "int list \<Rightarrow> int option \<Rightarrow> nat" where
  "upperBound idl target = bisect (up_to target) idl 0 (length idl)"

definition insertSorted :: "int list \<Rightarrow> int \<Rightarrow> int list" where
  "insertSorted idl i =
     (if idl = [] \<or> last idl < i then idl @ [i] else splice idl (lowerBound idl (Some i)) 0 [i])"

definition removeSorted :: "int list \<Rightarrow> int \<Rightarrow> int list" where
  "removeSorted idl i =
     (let index = lowerBound idl (Some i) in
      if index < length idl \<and> idl ! index = i then splice idl index 1 [] else idl)"

abbreviation ascending :: "int list \<Rightarrow> bool" where
  "ascending idl \<equiv> sorted_wrt (<) idl"

lemma bisect_splits:
  assumes "\<forall>i j. i < j \<longrightarrow> j < length idl \<longrightarrow> below (idl ! j) \<longrightarrow> below (idl ! i)"
  shows "low \<le> high \<Longrightarrow> high \<le> length idl \<Longrightarrow> \<forall>i < low. below (idl ! i) \<Longrightarrow>
     \<forall>i. high \<le> i \<longrightarrow> i < length idl \<longrightarrow> \<not> below (idl ! i) \<Longrightarrow>
     bisect below idl low high \<le> length idl \<and>
     (\<forall>i < bisect below idl low high. below (idl ! i)) \<and>
     (\<forall>i. bisect below idl low high \<le> i \<longrightarrow> i < length idl \<longrightarrow> \<not> below (idl ! i))"
  using assms
proof (induction below idl low high rule: bisect.induct)
  case (1 below idl low high)
  show ?case
  proof (cases "low < high")
    case True
    let ?m = "(low + high) div 2"
    have m: "low \<le> ?m" "?m < high" using True by auto
    show ?thesis
    proof (cases "below (idl ! ?m)")
      case b: True
      have l: "?m < length idl" using m "1.prems"(2) by simp
      have p: "\<forall>i < ?m + 1. below (idl ! i)"
      proof (intro allI impI)
        fix i assume "i < ?m + 1"
        then have "i = ?m \<or> i < ?m" by (metis Suc_eq_plus1 less_Suc_eq)
        then show "below (idl ! i)" using b l "1.prems"(5) by blast
      qed
      have h: "?m + 1 \<le> high" using m by simp
      have e: "bisect below idl low high = bisect below idl (?m + 1) high"
        using True b by (subst bisect.simps) (simp add: Let_def)
      show ?thesis unfolding e
        by (rule "1.IH"(1) [OF True refl b h "1.prems"(2) p "1.prems"(4,5)])
    next
      case False
      have p: "\<forall>i. ?m \<le> i \<longrightarrow> i < length idl \<longrightarrow> \<not> below (idl ! i)"
      proof (intro allI impI)
        fix i assume "?m \<le> i" "i < length idl"
        then have "i = ?m \<or> ?m < i" "i < length idl" by auto
        then show "\<not> below (idl ! i)" using False "1.prems"(5) by blast
      qed
      have h: "?m \<le> length idl" using m "1.prems"(2) by simp
      have e: "bisect below idl low high = bisect below idl low ?m"
        using True False by (subst bisect.simps) (simp add: Let_def)
      show ?thesis unfolding e
        by (rule "1.IH"(2) [OF True refl False m(1) h "1.prems"(3) p "1.prems"(5)])
    qed
  next
    case False
    then have "bisect below idl low high = low" by (subst bisect.simps) simp
    with "1.prems" False show ?thesis by simp
  qed
qed

lemma filter_prefix:
  assumes "k \<le> length idl" "\<forall>i < k. P (idl ! i)" "\<forall>i. k \<le> i \<longrightarrow> i < length idl \<longrightarrow> \<not> P (idl ! i)"
  shows "filter P idl = take k idl" "filter (\<lambda>i. \<not> P i) idl = drop k idl"
proof -
  have "filter P (take k idl) = take k idl" "filter P (drop k idl) = []"
    "filter (\<lambda>i. \<not> P i) (take k idl) = []" "filter (\<lambda>i. \<not> P i) (drop k idl) = drop k idl"
    using assms by (auto simp: filter_id_conv filter_empty_conv in_set_conv_nth)
  then show "filter P idl = take k idl" "filter (\<lambda>i. \<not> P i) idl = drop k idl"
    by (metis append_Nil2 append_take_drop_id filter_append, metis append_Nil append_take_drop_id filter_append)
qed

lemma bisect_filter:
  assumes "ascending idl" "\<And>i j. i < j \<Longrightarrow> below j \<Longrightarrow> below i"
  shows "take (bisect below idl 0 (length idl)) idl = filter below idl"
    "drop (bisect below idl 0 (length idl)) idl = filter (\<lambda>i. \<not> below i) idl"
    "bisect below idl 0 (length idl) = length (filter below idl)"
proof -
  have m: "\<forall>i j. i < j \<longrightarrow> j < length idl \<longrightarrow> below (idl ! j) \<longrightarrow> below (idl ! i)"
    using assms sorted_wrt_nth_less by blast
  have b: "bisect below idl 0 (length idl) \<le> length idl"
    "\<forall>i < bisect below idl 0 (length idl). below (idl ! i)"
    "\<forall>i. bisect below idl 0 (length idl) \<le> i \<longrightarrow> i < length idl \<longrightarrow> \<not> below (idl ! i)"
    using bisect_splits [OF m, of 0 "length idl"] by auto
  from filter_prefix [OF b] show "take (bisect below idl 0 (length idl)) idl = filter below idl"
    "drop (bisect below idl 0 (length idl)) idl = filter (\<lambda>i. \<not> below i) idl" by simp_all
  then have "length (filter below idl) = min (length idl) (bisect below idl 0 (length idl))" by (metis length_take)
  with b(1) show "bisect below idl 0 (length idl) = length (filter below idl)" by simp
qed

lemma lowerBound_filter:
  assumes "ascending idl"
  shows "take (lowerBound idl t) idl = filter (under t) idl"
    "drop (lowerBound idl t) idl = filter (\<lambda>i. \<not> under t i) idl"
  unfolding lowerBound_def using bisect_filter [OF assms, of "under t"] by (auto simp: under_def split: option.splits)

lemma lowerBound_le: "ascending idl \<Longrightarrow> lowerBound idl t \<le> length idl"
  unfolding lowerBound_def
  using bisect_filter(3) [of idl "under t"] length_filter_le [of "under t" idl]
  by (auto simp: under_def split: option.splits)

lemma upperBound_filter:
  assumes "ascending idl"
  shows "take (upperBound idl t) idl = filter (up_to t) idl"
    "drop (upperBound idl t) idl = filter (\<lambda>i. \<not> up_to t i) idl"
  unfolding upperBound_def using bisect_filter [OF assms, of "up_to t"] by (auto simp: up_to_def split: option.splits)

lemma insertSorted_sound:
  assumes "ascending idl" "i \<notin> set idl"
  shows "ascending (insertSorted idl i)" "set (insertSorted idl i) = insert i (set idl)"
proof -
  have e: "insertSorted idl i = filter (\<lambda>j. j < i) idl @ [i] @ filter (\<lambda>j. i < j) idl"
  proof (cases "idl = [] \<or> last idl < i")
    case True
    have "\<forall>j \<in> set idl. j < i"
    proof
      fix j assume j: "j \<in> set idl"
      with True have l: "last idl < i" "idl \<noteq> []" by auto
      have "sorted_wrt (<) (butlast idl @ [last idl])" using assms(1) l(2) by simp
      then have "j \<in> set (butlast idl) \<Longrightarrow> j < last idl" by (simp only: sorted_wrt_append) auto
      moreover have "j \<in> set (butlast idl) \<or> j = last idl"
        using j l(2) by (metis append_butlast_last_id in_set_conv_decomp Un_iff set_append empty_iff insert_iff list.set)
      ultimately show "j < i" using l(1) by auto
    qed
    then have "filter (\<lambda>j. j < i) idl = idl" "filter (\<lambda>j. i < j) idl = []"
      by (auto simp: filter_id_conv filter_empty_conv)
    with True show ?thesis by (simp add: insertSorted_def)
  next
    case False
    have "filter (\<lambda>j. \<not> j < i) idl = filter (\<lambda>j. i < j) idl"
      using assms(2) by (intro filter_cong) (auto simp: not_less le_less)
    with False lowerBound_filter [OF assms(1), of "Some i"] show ?thesis
      by (simp add: insertSorted_def splice_def)
  qed
  have "sorted_wrt (<) (filter (\<lambda>j. j < i) idl @ [i] @ filter (\<lambda>j. i < j) idl)"
    using assms(1) by (auto simp: sorted_wrt_append sorted_wrt_filter)
  then show "ascending (insertSorted idl i)" by (simp add: e)
  show "set (insertSorted idl i) = insert i (set idl)" using assms(2) by (auto simp: e)
qed

lemma removeSorted_filter:
  assumes "ascending idl"
  shows "removeSorted idl i = filter (\<lambda>j. j \<noteq> i) idl"
proof -
  let ?k = "lowerBound idl (Some i)"
  note l = lowerBound_filter [OF assms, of "Some i"]
  have split: "filter (\<lambda>j. j \<noteq> i) idl = filter (\<lambda>j. j < i) idl @ filter (\<lambda>j. j \<noteq> i) (drop ?k idl)"
  proof -
    have "filter (\<lambda>j. j \<noteq> i) (take ?k idl) = filter (\<lambda>j. j < i) idl"
      unfolding l(1) filter_filter by (rule filter_cong) auto
    then show ?thesis by (metis append_take_drop_id filter_append)
  qed
  show ?thesis
  proof (cases "?k < length idl \<and> idl ! ?k = i")
    case True
    then have d: "drop ?k idl = i # drop (Suc ?k) idl" by (metis Cons_nth_drop_Suc)
    have "sorted_wrt (<) (take ?k idl @ drop ?k idl)" using assms by simp
    then have "\<forall>j \<in> set (drop (Suc ?k) idl). i < j" unfolding sorted_wrt_append d by simp
    then have "filter (\<lambda>j. j \<noteq> i) (drop ?k idl) = drop (Suc ?k) idl"
      unfolding d by (auto simp: filter_id_conv)
    with True split l(1) show ?thesis by (simp add: removeSorted_def Let_def splice_def)
  next
    case False
    have "i \<notin> set idl"
    proof
      assume "i \<in> set idl"
      then have "i \<in> set (drop ?k idl)" unfolding l(2) by simp
      then obtain x xs where x: "drop ?k idl = x # xs" by (cases "drop ?k idl") auto
      then have k: "?k < length idl" by (metis drop_all linorder_not_le list.distinct(1))
      then have xe: "x = idl ! ?k" using x by (metis Cons_nth_drop_Suc list.inject)
      have "sorted_wrt (<) (x # xs)" using assms x sorted_wrt_drop by metis
      moreover have "i \<le> x" using l(2) x by (metis (mono_tags, lifting) filter_eq_ConsD list.set_intros(1) not_less under_simps(2))
      ultimately have "x = i" using \<open>i \<in> set (drop ?k idl)\<close> x by auto
      with False k xe show False by simp
    qed
    then have "filter (\<lambda>j. j \<noteq> i) idl = idl" by (auto simp: filter_id_conv)
    with False show ?thesis by (auto simp: removeSorted_def Let_def)
  qed
qed

subsection \<open>Cursors and pages\<close>

type_synonym cursor = "(string \<times> json) list"

fun order_text :: "scan_order \<Rightarrow> string" where
  "order_text Ascending = ''ascending''"
| "order_text Descending = ''descending''"

definition read_order :: "string \<Rightarrow> scan_order option" where
  "read_order s =
     (if s = ''ascending'' then Some Ascending else if s = ''descending'' then Some Descending else None)"

definition max_safe_integer :: int where "max_safe_integer = 9007199254740991"

definition isSafeInteger :: "int \<Rightarrow> bool" where
  "isSafeInteger i \<longleftrightarrow> - max_safe_integer \<le> i \<and> i \<le> max_safe_integer"

definition scanStart ::
  "string option \<Rightarrow> cursor option \<Rightarrow> scan_order \<Rightarrow> storage_error + scan_order \<times> int option" where
  "scanStart requested cursor fallback =
     err_bind
       (case requested of
          None \<Rightarrow> Inr None
        | Some r \<Rightarrow> (case read_order r of None \<Rightarrow> Inl (InvalidOrder r) | Some ord \<Rightarrow> Inr (Some ord)))
       (\<lambda>wanted.
         case cursor of
           None \<Rightarrow> Inr (case wanted of None \<Rightarrow> fallback | Some ord \<Rightarrow> ord, None)
         | Some c \<Rightarrow>
             (case map_of c ''after'' of
                Some (JNum (Whole after)) \<Rightarrow>
                  if \<not> isSafeInteger after then Inl InvalidCursor
                  else
                    err_bind
                      (case map_of c ''order'' of
                         None \<Rightarrow> Inr fallback
                       | Some (JStr stored) \<Rightarrow>
                           (case read_order stored of None \<Rightarrow> Inl InvalidCursor | Some ord \<Rightarrow> Inr ord)
                       | Some _ \<Rightarrow> Inl InvalidCursor)
                      (\<lambda>ord.
                        case requested of
                          None \<Rightarrow> Inr (ord, Some after)
                        | Some r \<Rightarrow>
                            if wanted \<noteq> Some ord then Inl (OrderMismatch ord r) else Inr (ord, Some after))
              | _ \<Rightarrow> Inl InvalidCursor))"

definition nextCursor :: "int \<Rightarrow> scan_order \<Rightarrow> cursor" where
  "nextCursor i ord = [(''after'', JNum (Whole i)), (''order'', JStr (order_text ord))]"

definition cursorId :: "cursor option \<Rightarrow> storage_error + int option" where
  "cursorId cursor =
     (case cursor of
        None \<Rightarrow> Inr None
      | Some c \<Rightarrow>
          (case map_of c ''after'' of
             None \<Rightarrow> Inr None
           | Some (JNum (Whole after)) \<Rightarrow> if isSafeInteger after then Inr (Some after) else Inl InvalidCursor
           | Some _ \<Rightarrow> Inl InvalidCursor))"

definition scanIndexes :: "int list \<Rightarrow> scan_order \<Rightarrow> int option \<Rightarrow> nat list" where
  "scanIndexes idl ord after =
     (case ord of
        Ascending \<Rightarrow> [(case after of None \<Rightarrow> 0 | Some a \<Rightarrow> upperBound idl (Some a)) ..< length idl]
      | Descending \<Rightarrow> rev [0 ..< (case after of None \<Rightarrow> length idl | Some a \<Rightarrow> lowerBound idl (Some a))])"

text \<open>
  The loop of a scan: what \<open>visit\<close> pushes for each id, until more than \<open>limit\<close> values are held.
  \<open>ident\<close> is the \<open>id\<close> of a value, \<open>None\<close> where the value is \<open>undefined\<close>.
\<close>

fun gather :: "('i \<Rightarrow> storage_error + 'v list) \<Rightarrow> nat \<Rightarrow> 'i list \<Rightarrow> 'v list \<Rightarrow> storage_error + 'v list" where
  "gather visit limit [] held = Inr held"
| "gather visit limit (i # ls) held =
     (if limit < length held then Inr held
      else err_bind (visit i) (\<lambda>pushed. gather visit limit ls (held @ pushed)))"

definition page ::
  "('v \<Rightarrow> int option) \<Rightarrow> 'v list \<Rightarrow> nat \<Rightarrow> scan_order \<Rightarrow> storage_error + 'v list \<times> cursor option" where
  "page ident held limit ord =
     (if length held \<le> limit then Inr (take limit held, None)
      else if take limit held = [] then Inl EngineTypeError
      else
        case ident (last (take limit held)) of
          None \<Rightarrow> Inl EngineTypeError
        | Some i \<Rightarrow> Inr (take limit held, Some (nextCursor i ord)))"

definition indexed_scan ::
  "('v \<Rightarrow> int option) \<Rightarrow> (int \<Rightarrow> storage_error + 'v list) \<Rightarrow> int list \<Rightarrow> string option \<Rightarrow> scan_order \<Rightarrow>
     nat \<Rightarrow> cursor option \<Rightarrow> storage_error + 'v list \<times> cursor option" where
  "indexed_scan ident visit idl requested fallback limit cursor =
     err_bind (scanStart requested cursor fallback) (\<lambda>(ord, after).
       err_bind (gather (\<lambda>index. visit (idl ! index)) limit (scanIndexes idl ord after) []) (\<lambda>held.
         page ident held limit ord))"

text \<open>
  \<open>scanAll\<close> asks for pages until one has no cursor. A scan that does not return, or a loop that never ends,
  is \<open>None\<close>.
\<close>

partial_function (option) scan_loop ::
  "(cursor option \<Rightarrow> (storage_error + 'v list \<times> cursor option) option) \<Rightarrow> 'v list \<Rightarrow> cursor option \<Rightarrow>
     (storage_error + 'v list) option" where
  "scan_loop scan items cursor =
     (case scan cursor of
        None \<Rightarrow> None
      | Some (Inl e) \<Rightarrow> Some (Inl e)
      | Some (Inr (found, following)) \<Rightarrow>
          (case following of
             None \<Rightarrow> Some (Inr (items @ found))
           | Some c \<Rightarrow> scan_loop scan (items @ found) (Some c)))"

declare scan_loop.simps [code]

definition scanAll ::
  "(cursor option \<Rightarrow> (storage_error + 'v list \<times> cursor option) option) \<Rightarrow> (storage_error + 'v list) option" where
  "scanAll scan = scan_loop scan [] None"

subsection \<open>A paged scan returns everything once\<close>

text \<open>The page of a result list: the first \<open>limit\<close> items and how to resume when there are more.\<close>

definition cut :: "nat \<Rightarrow> ('v \<Rightarrow> cursor) \<Rightarrow> 'v list \<Rightarrow> 'v list \<times> cursor option" where
  "cut limit resume vs =
     (take limit vs, if length vs \<le> limit then None else Some (resume (vs ! (limit - 1))))"

text \<open>
  The contract between a scan and its client: the first page is the front of the results, and the
  cursor of an item continues right after it.
\<close>

locale paged_scan =
  fixes valid :: "'s \<Rightarrow> 'q \<Rightarrow> bool"
    and fetch :: "'s \<Rightarrow> 'q \<Rightarrow> nat \<Rightarrow> cursor option \<Rightarrow> (storage_error + 'v list \<times> cursor option) option"
    and results :: "'s \<Rightarrow> 'q \<Rightarrow> 'v list"
    and resume :: "'q \<Rightarrow> 'v \<Rightarrow> cursor"
  assumes front: "valid st q \<Longrightarrow> 0 < limit \<Longrightarrow> fetch st q limit None = Some (Inr (cut limit (resume q) (results st q)))"
    and onward: "valid st q \<Longrightarrow> 0 < limit \<Longrightarrow> results st q = vs @ v # ws \<Longrightarrow>
      fetch st q limit (Some (resume q v)) = Some (Inr (cut limit (resume q) ws))"
begin

lemma loop_returns:
  assumes "valid st q" "0 < limit" "results st q = vs @ ws"
    and "fetch st q limit cursor = Some (Inr (cut limit (resume q) ws))"
  shows "scan_loop (fetch st q limit) vs cursor = Some (Inr (results st q))"
  using assms
proof (induction "length ws" arbitrary: vs ws cursor rule: less_induct)
  case less
  show ?case
  proof (cases "length ws \<le> limit")
    case True
    with less.prems show ?thesis by (subst scan_loop.simps) (simp add: cut_def)
  next
    case False
    let ?v = "ws ! (limit - 1)"
    have "take (Suc (limit - 1)) ws = take (limit - 1) ws @ [?v]"
      by (rule take_Suc_conv_app_nth) (use False less.prems(2) in simp)
    then have w: "take limit ws = take (limit - 1) ws @ [?v]" using less.prems(2) by simp
    have r: "results st q = (vs @ take (limit - 1) ws) @ ?v # drop limit ws"
      using less.prems(3) w by (metis append.assoc append_Cons append_Nil append_take_drop_id)
    have f: "fetch st q limit (Some (resume q ?v)) = Some (Inr (cut limit (resume q) (drop limit ws)))"
      by (rule onward [OF less.prems(1,2) r])
    have "scan_loop (fetch st q limit) (vs @ take limit ws) (Some (resume q ?v)) = Some (Inr (results st q))"
      by (rule less.hyps [OF _ less.prems(1,2) _ f]) (use False less.prems in simp_all)
    with less.prems(4) False show ?thesis by (subst scan_loop.simps) (simp add: cut_def)
  qed
qed

lemma scan_returns_all:
  assumes "valid st q" "0 < limit"
  shows "scanAll (fetch st q limit) = Some (Inr (results st q))"
  unfolding scanAll_def
  by (rule loop_returns [OF assms _ front [OF assms], where vs = "[]", simplified])

end

subsection \<open>Scans of an index\<close>

text \<open>An order a query may ask for, and the order it then gets.\<close>

definition order_wanted :: "string option \<Rightarrow> bool" where
  "order_wanted requested \<longleftrightarrow> (case requested of None \<Rightarrow> True | Some r \<Rightarrow> read_order r \<noteq> None)"

definition wanted_order :: "string option \<Rightarrow> scan_order \<Rightarrow> scan_order" where
  "wanted_order requested fallback =
     (case requested of None \<Rightarrow> fallback | Some r \<Rightarrow> (case read_order r of None \<Rightarrow> fallback | Some ord \<Rightarrow> ord))"

fun in_order :: "scan_order \<Rightarrow> 'i list \<Rightarrow> 'i list" where
  "in_order Ascending ls = ls"
| "in_order Descending ls = rev ls"

fun beyond :: "scan_order \<Rightarrow> int option \<Rightarrow> int \<Rightarrow> bool" where
  "beyond ord None i = True"
| "beyond Ascending (Some a) i = (a < i)"
| "beyond Descending (Some a) i = (i < a)"

lemma beyond_fun [simp]:
  "beyond ord None = (\<lambda>i. True)" "beyond Ascending (Some a) = (\<lambda>i. a < i)"
  "beyond Descending (Some a) = (\<lambda>i. i < a)"
  by (simp_all add: fun_eq_iff)

lemma read_order_text [simp]: "read_order (order_text ord) = Some ord"
  by (cases ord) (simp_all add: read_order_def)

lemma order_text_inj: "order_text a = order_text b \<longleftrightarrow> a = b"
  by (cases a; cases b) simp_all

lemma scanStart_first:
  "order_wanted requested \<Longrightarrow> scanStart requested None fallback = Inr (wanted_order requested fallback, None)"
  by (auto simp: scanStart_def order_wanted_def wanted_order_def split: option.splits)

lemma scanStart_next:
  assumes "order_wanted requested" "isSafeInteger i"
  shows "scanStart requested (Some (nextCursor i (wanted_order requested fallback))) fallback =
     Inr (wanted_order requested fallback, Some i)"
  using assms by (auto simp: scanStart_def order_wanted_def wanted_order_def nextCursor_def split: option.splits)

lemma map_nth_upt: "map ((!) xs) [k ..< length xs] = drop k xs"
  by (rule nth_equalityI) simp_all

lemma scanIndexes_ids:
  assumes "ascending idl"
  shows "map ((!) idl) (scanIndexes idl ord after) = in_order ord (filter (beyond ord after) idl)"
proof (cases ord)
  case Ascending
  have "map ((!) idl) (scanIndexes idl ord after) =
      drop (case after of None \<Rightarrow> 0 | Some a \<Rightarrow> upperBound idl (Some a)) idl"
    using Ascending by (simp add: scanIndexes_def map_nth_upt)
  then show ?thesis using Ascending upperBound_filter(2) [OF assms]
    by (cases after) (simp_all add: not_le)
next
  case Descending
  let ?k = "case after of None \<Rightarrow> length idl | Some a \<Rightarrow> lowerBound idl (Some a)"
  have t: "take ?k idl = filter (beyond ord after) idl"
    using Descending lowerBound_filter(1) [OF assms] by (cases after) simp_all
  have "?k \<le> length idl"
    by (cases after) (simp_all add: lowerBound_le assms)
  then have "map ((!) idl) [0 ..< ?k] = take ?k idl" by (intro nth_equalityI) simp_all
  then show ?thesis using Descending t by (simp only: scanIndexes_def scan_order.case in_order.simps rev_map [symmetric])
qed

text \<open>The loop holds at most one value more than the page: the front of what it would pick.\<close>

lemma gather_picked:
  assumes "\<forall>i \<in> set ls. visit i = Inr (case pick i of None \<Rightarrow> [] | Some v \<Rightarrow> [v])"
    and "length held \<le> Suc limit"
  shows "gather visit limit ls held = Inr (take (Suc limit) (held @ List.map_filter pick ls))"
  using assms
proof (induction ls arbitrary: held)
  case (Cons i ls)
  show ?case
  proof (cases "limit < length held")
    case True
    with Cons.prems(2) have "length held = Suc limit" by simp
    then show ?thesis by simp
  next
    case False
    with Cons show ?thesis by (cases "pick i") (simp_all add: map_filter_simps Suc_diff_le not_less)
  qed
qed (simp add: map_filter_simps)

lemma page_cut:
  assumes "0 < limit" "\<forall>v \<in> set vs. \<exists>i. ident v = Some i"
  shows "page ident (take (Suc limit) vs) limit ord =
     Inr (cut limit (\<lambda>v. nextCursor (the (ident v)) ord) vs)"
proof (cases "length vs \<le> limit")
  case False
  then have n: "take limit vs \<noteq> []" using assms(1) by auto
  with False assms(1) have l: "last (take limit vs) = vs ! (limit - 1)"
    by (subst last_conv_nth) simp_all
  have "vs ! (limit - 1) \<in> set vs" using False assms(1) by (intro nth_mem) simp
  then obtain i where "ident (vs ! (limit - 1)) = Some i" using assms(2) by blast
  with False l n show ?thesis by (simp add: page_def cut_def min_def)
qed (simp add: page_def cut_def)

lemma indexed_scan_cut:
  assumes "ascending idl" "0 < limit" "scanStart requested cursor fallback = Inr (ord, after)"
    and "\<forall>i \<in> set idl. visit i = Inr (case pick i of None \<Rightarrow> [] | Some v \<Rightarrow> [v])"
    and "\<forall>i \<in> set idl. \<forall>v. pick i = Some v \<longrightarrow> ident v = Some i"
  shows "indexed_scan ident visit idl requested fallback limit cursor =
     Inr (cut limit (\<lambda>v. nextCursor (the (ident v)) ord)
       (List.map_filter pick (in_order ord (filter (beyond ord after) idl))))"
proof -
  let ?ls = "in_order ord (filter (beyond ord after) idl)"
  have s: "set ?ls \<subseteq> set idl" by (cases ord) auto
  have g: "gather (\<lambda>index. visit (idl ! index)) limit ls vs = gather visit limit (map ((!) idl) ls) vs" for ls :: "nat list" and vs
    by (induction ls arbitrary: vs) simp_all
  have "gather visit limit ?ls [] = Inr (take (Suc limit) (List.map_filter pick ?ls))"
    by (subst gather_picked [where pick = pick]) (use assms(4) s in auto)
  moreover have "\<forall>v \<in> set (List.map_filter pick ?ls). \<exists>i. ident v = Some i"
    using assms(5) s by (auto simp: map_filter_def)
  ultimately show ?thesis
    by (simp add: indexed_scan_def assms(3) g scanIndexes_ids [OF assms(1)] page_cut [OF assms(2)])
qed

text \<open>Resuming after one of the results yields the results behind it.\<close>

lemma filter_behind:
  assumes "ascending idl" "in_order ord idl = ls @ i # js"
  shows "in_order ord (filter (beyond ord (Some i)) idl) = js"
proof (cases ord)
  case Ascending
  with assms have "sorted_wrt (<) (ls @ i # js)" by simp
  then show ?thesis using Ascending assms(2) by (auto simp: sorted_wrt_append filter_id_conv filter_empty_conv)
next
  case Descending
  with assms(2) have "rev idl = ls @ i # js" by simp
  then have "rev (rev idl) = rev (ls @ i # js)" by simp
  then have r: "idl = rev js @ i # rev ls" by simp
  with assms(1) have "sorted_wrt (<) (rev js @ i # rev ls)" by simp
  then have "filter (\<lambda>j. j < i) idl = rev js"
    unfolding r by (auto simp: sorted_wrt_append filter_id_conv filter_empty_conv)
  with Descending show ?thesis by simp
qed

lemma map_filter_split:
  assumes "List.map_filter pick ls = vs @ v # ws"
  obtains js i ks where "ls = js @ i # ks" "pick i = Some v" "List.map_filter pick ks = ws"
  using assms
proof (induction ls arbitrary: vs thesis)
  case (Cons j ls)
  show ?case
  proof (cases "pick j")
    case None
    with Cons.prems(2) have "List.map_filter pick ls = vs @ v # ws" by (simp add: map_filter_simps)
    then show ?thesis by (rule Cons.IH [rotated]) (metis Cons.prems(1) append_Cons)
  next
    case (Some u)
    show ?thesis
    proof (cases vs)
      case Nil
      with Some Cons.prems(2) have "u = v" "List.map_filter pick ls = ws" by (simp_all add: map_filter_simps)
      with Some show ?thesis by (intro Cons.prems(1) [of "[]" j ls]) simp_all
    next
      case (Cons x xs)
      with Some Cons.prems(2) have "List.map_filter pick ls = xs @ v # ws" by (simp add: map_filter_simps)
      then show ?thesis by (rule Cons.IH [rotated]) (metis Cons.prems(1) append_Cons)
    qed
  qed
qed (simp add: map_filter_simps)

text \<open>The two laws of a paged scan for a scan of an index.\<close>

lemma indexed_scan_pages:
  fixes requested :: "string option" and fallback :: scan_order and idl :: "int list" and pick :: "int \<Rightarrow> 'v option"
  defines "ord \<equiv> wanted_order requested fallback"
  defines "found \<equiv> List.map_filter pick (in_order ord idl)"
  assumes "ascending idl" "0 < limit" "order_wanted requested" "\<forall>i \<in> set idl. isSafeInteger i"
    and visit: "\<forall>i \<in> set idl. visit i = Inr (case pick i of None \<Rightarrow> [] | Some v \<Rightarrow> [v])"
    and ident: "\<forall>i \<in> set idl. \<forall>v. pick i = Some v \<longrightarrow> ident v = Some i"
  shows "indexed_scan ident visit idl requested fallback limit None =
       Inr (cut limit (\<lambda>v. nextCursor (the (ident v)) ord) found)"
    and "found = vs @ v # ws \<Longrightarrow>
       indexed_scan ident visit idl requested fallback limit (Some (nextCursor (the (ident v)) ord)) =
       Inr (cut limit (\<lambda>v. nextCursor (the (ident v)) ord) ws)"
proof -
  show "indexed_scan ident visit idl requested fallback limit None =
       Inr (cut limit (\<lambda>v. nextCursor (the (ident v)) ord) found)"
    using indexed_scan_cut [OF assms(3,4) scanStart_first [OF assms(5)] visit ident]
    by (simp add: found_def ord_def)
  assume f: "found = vs @ v # ws"
  obtain js i ks where s: "in_order ord idl = js @ i # ks" "pick i = Some v" "List.map_filter pick ks = ws"
    using f unfolding found_def by (rule map_filter_split)
  have "i \<in> set (in_order ord idl)" using s(1) by simp
  then have i: "i \<in> set idl" by (cases ord) simp_all
  then have "ident v = Some i" "isSafeInteger i" using ident s(2) assms(6) by auto
  then have n: "scanStart requested (Some (nextCursor (the (ident v)) ord)) fallback = Inr (ord, Some i)"
    using scanStart_next [OF assms(5), of i fallback] by (simp add: ord_def)
  show "indexed_scan ident visit idl requested fallback limit (Some (nextCursor (the (ident v)) ord)) =
       Inr (cut limit (\<lambda>v. nextCursor (the (ident v)) ord) ws)"
    using indexed_scan_cut [OF assms(3,4) n visit ident] filter_behind [OF assms(3) s(1)] s(3) by simp
qed

end
