(* ===== verification/Storage.thy ===== *)
theory Storage
  imports Storage_Scan "HOL-Library.AList"
begin

text \<open>
  The in-memory storage of a session (\<open>MemoryStorage\<close> of \<open>packages/gibraltar/src/storage/memory.ts\<close>):
  its records, its state, the validation and application of a commit, and the explicit lifecycle
  calls. Ids, sequences and clock values are integers; a stored value is a value of \<open>Json\<close>, which
  \<open>clone\<close> and \<open>freeze\<close> leave as it is. The keys of the address and scope maps are the addresses and
  scopes themselves: \<open>scopeKey\<close> and \<open>addressKey\<close> print them as JSON arrays, which is one-to-one. A map that the code
  iterates or asks for its size is a list of pairs in insertion order, every other map a function.
\<close>

subsection \<open>Records\<close>

record conversation_record =
  conv_id :: int
  conv_parent :: "(int \<times> int) option"
  conv_owner :: "(int \<times> int) option"

record conversation_meta =
  meta_title :: string
  meta_cwd :: string
  meta_lane :: string
  meta_createdAt :: int
  meta_updatedAt :: int
  meta_archivedAt :: "int option"

datatype context_edit = OmitEntry int | ReplaceEntry int "json list"

record entry_record =
  entry_id :: int
  entry_conversation :: int
  entry_kind :: string
  entry_model :: "json list option"
  entry_data :: "json option"
  entry_head :: "int option"
  entry_edits :: "context_edit list option"
  entry_byTask :: "int option"

datatype join_policy = FailFast | AllSettled

datatype task_outcome =
    CompletedOutcome json
  | FailedOutcome string "json option" "json option"
  | AbortedOutcome "string option" "json option"
  | OrphanedOutcome string
  | FaultedOutcome string "json option"

datatype task_state =
    PendingTask json
  | RunningTask json
  | WaitingTask json "int list" join_policy
  | CompletingTask task_outcome
  | TerminalTask task_outcome

datatype task_status = SPending | SRunning | SWaiting | SCompleting | STerminal

fun status_of_task :: "task_state \<Rightarrow> task_status" where
  "status_of_task (PendingTask c) = SPending"
| "status_of_task (RunningTask c) = SRunning"
| "status_of_task (WaitingTask c deps p) = SWaiting"
| "status_of_task (CompletingTask r) = SCompleting"
| "status_of_task (TerminalTask r) = STerminal"

record task_record =
  task_id :: int
  task_conversation :: int
  task_kind :: string
  task_version :: int
  task_input :: json
  task_owner :: "int option"
  task_background :: bool
  task_abortRequested :: bool
  task_abortReason :: bool
  task_abandonOnRestart :: bool
  task_startedAt :: "int option"
  task_endedAt :: "int option"
  task_execution :: task_state
  task_memos :: "(string \<times> json) list option"

datatype submission_status = SQueued | SPlaced | SDone | SUnanswered

record submission_record =
  sub_id :: int
  sub_conversation :: int
  sub_requestId :: "string option"
  sub_input :: bool
  sub_status :: submission_status
  sub_entry :: "int option"
  sub_answer :: "int option"
  sub_reason :: "string option"
  sub_detail :: "json option"

datatype doc_scope = SessionScope | ConversationScope int | TaskScope int
datatype doc_history = HistoryLatest | HistoryRewindable
datatype doc_fork = ForkAsOf | ForkCurrent | ForkInitial
datatype doc_point = Current | AtSeq int

record document_create =
  doc_id :: int
  doc_kind :: string
  doc_key :: "string option"
  doc_scope :: doc_scope
  doc_history :: "doc_history option"
  doc_fork :: "doc_fork option"

record document_record = document_create +
  doc_createdAt :: int
  doc_retiredAt :: "int option"

text \<open>A content is of a stored version: a whole value, or a batch of operations as received.\<close>

datatype document_content = BaseContent int json | DeltaContent int "json list"

fun content_version :: "document_content \<Rightarrow> int" where
  "content_version (BaseContent v x) = v"
| "content_version (DeltaContent v ops) = v"

type_synonym document_revision = "document_content \<times> int"

record stored_document_state =
  stored_record :: document_record
  stored_revisions :: "document_revision list"

record stored_document =
  read_record :: document_record
  read_version :: int
  read_value :: json
  read_deltas :: nat

datatype storage_write =
    WConversation conversation_record conversation_meta
  | WEntry entry_record
  | WTask task_record
  | WSubmission submission_record
  | WCreate document_create int json
  | WCopy document_create int doc_point
  | WChange int document_content
  | WRetire int

record document_action =
  action_create :: "document_create option"
  action_content :: "document_content option"
  action_retire :: bool

type_synonym doc_address = "string \<times> doc_scope \<times> string option"

record address_index =
  address_ids :: "int list"
  address_current :: "int option"

record conversation_deletion =
  deleted_conversation :: int
  deleted_at :: int
  deleted_entries :: nat
  deleted_tasks :: nat
  deleted_submissions :: nat
  deleted_documents :: nat

record storage_state =
  recordTypes :: "int \<Rightarrow> table_name option"
  conversations :: "int \<Rightarrow> conversation_record option"
  conversationMeta :: "int \<Rightarrow> conversation_meta option"
  conversationIds :: "int list"
  conversationIdsByOwnerConversation :: "int \<Rightarrow> int list option"
  conversationIdsByOwnerTask :: "int \<Rightarrow> int list option"
  entries :: "int \<Rightarrow> entry_record option"
  entryIds :: "int \<Rightarrow> int list option"
  headEntryIds :: "int \<Rightarrow> int list option"
  entryCommitSeqs :: "int \<Rightarrow> int option"
  tasks :: "int \<Rightarrow> task_record option"
  taskIds :: "int list"
  taskIdsByStatus :: "task_status \<Rightarrow> int list"
  submissions :: "int \<Rightarrow> submission_record option"
  submissionIds :: "int list"
  submissionIdsByStatus :: "submission_status \<Rightarrow> int list"
  submissionIdsByRequest :: "int \<Rightarrow> (string \<times> int) list option"
  documents :: "int \<Rightarrow> stored_document_state option"
  documentAddresses :: "doc_address \<Rightarrow> address_index option"
  documentIdsByScope :: "doc_scope \<Rightarrow> int list option"
  deletions :: "conversation_deletion list"
  nextId :: int
  nextSeq :: int
  storage_closed :: bool

definition ROOT_CONVERSATION_ID :: int where "ROOT_CONVERSATION_ID = 1"

definition empty_storage :: storage_state where
  "empty_storage =
     \<lparr>recordTypes = Map.empty, conversations = Map.empty, conversationMeta = Map.empty, conversationIds = [],
      conversationIdsByOwnerConversation = Map.empty, conversationIdsByOwnerTask = Map.empty,
      entries = Map.empty, entryIds = Map.empty, headEntryIds = Map.empty, entryCommitSeqs = Map.empty,
      tasks = Map.empty, taskIds = [], taskIdsByStatus = (\<lambda>s. []),
      submissions = Map.empty, submissionIds = [], submissionIdsByStatus = (\<lambda>s. []),
      submissionIdsByRequest = Map.empty, documents = Map.empty, documentAddresses = Map.empty,
      documentIdsByScope = Map.empty, deletions = [], nextId = 2, nextSeq = 1, storage_closed = False\<rparr>"

subsection \<open>Indexes and addresses\<close>

definition ids_at :: "('k \<Rightarrow> int list option) \<Rightarrow> 'k \<Rightarrow> int list" where
  "ids_at index key = (case index key of None \<Rightarrow> [] | Some idl \<Rightarrow> idl)"

definition insertMapId :: "('k \<Rightarrow> int list option) \<Rightarrow> 'k \<Rightarrow> int \<Rightarrow> 'k \<Rightarrow> int list option" where
  "insertMapId index key i = index(key \<mapsto> insertSorted (ids_at index key) i)"

definition recordAddressKey :: "'a document_create_scheme \<Rightarrow> doc_address" where
  "recordAddressKey r = (doc_kind r, doc_scope r, doc_key r)"

fun isAliveAt :: "document_record \<Rightarrow> doc_point \<Rightarrow> bool" where
  "isAliveAt r Current \<longleftrightarrow> doc_retiredAt r = None"
| "isAliveAt r (AtSeq s) \<longleftrightarrow>
     doc_createdAt r \<le> s \<and> (case doc_retiredAt r of None \<Rightarrow> True | Some t \<Rightarrow> s < t)"

definition isCurrentOnly :: "'a document_create_scheme \<Rightarrow> bool" where
  "isCurrentOnly r \<longleftrightarrow>
     (case doc_scope r of ConversationScope c \<Rightarrow> doc_history r = Some HistoryLatest | _ \<Rightarrow> True)"

definition tableContaining :: "storage_state \<Rightarrow> int \<Rightarrow> table_name option" where
  "tableContaining st i = recordTypes st i"

definition assertOpen :: "storage_state \<Rightarrow> storage_error + unit" where
  "assertOpen st = (if storage_closed st then Inl StorageClosed else Inr ())"

subsection \<open>Documents at a point\<close>

text \<open>The first address that no container of the values has.\<close>

definition free_address :: "json list \<Rightarrow> nat" where
  "free_address vs = Suc (foldr max (List.map_filter address (concat (map containers vs))) 0)"

text \<open>\<open>documentDeltaBatches\<close>, one batch at a time as the replay asks for it.\<close>

fun replay_deltas ::
  "int \<Rightarrow> int \<Rightarrow> document_revision list \<Rightarrow> json option \<Rightarrow> replay \<Rightarrow> storage_error + json option" where
  "replay_deltas i version [] target rs = Inr target"
| "replay_deltas i version ((BaseContent v x, s) # revisions) target rs = Inl (VersionBoundary i)"
| "replay_deltas i version ((DeltaContent v ops, s) # revisions) target rs =
     (if v \<noteq> version then Inl (VersionBoundary i)
      else
        err_bind (map_sum ReplayError id (immutable_ops target ops rs)) (\<lambda>(target', rs').
          replay_deltas i version revisions target' rs'))"

fun revision_values :: "document_revision \<Rightarrow> json list" where
  "revision_values (BaseContent v x, s) = [x]"
| "revision_values (DeltaContent v ops, s) = ops"

text \<open>The last base among the first \<open>k\<close> revisions.\<close>

fun base_index :: "document_revision list \<Rightarrow> nat \<Rightarrow> nat option" where
  "base_index revisions 0 = None"
| "base_index revisions (Suc k) =
     (case fst (revisions ! k) of BaseContent v x \<Rightarrow> Some k | DeltaContent v ops \<Rightarrow> base_index revisions k)"

definition revisions_at :: "stored_document_state \<Rightarrow> doc_point \<Rightarrow> document_revision list" where
  "revisions_at d pt =
     (case pt of
        Current \<Rightarrow> stored_revisions d
      | AtSeq s \<Rightarrow> filter (\<lambda>(content, seq). seq \<le> s) (stored_revisions d))"

definition materialize_revisions ::
  "int \<Rightarrow> document_record \<Rightarrow> document_revision list \<Rightarrow> storage_error + stored_document" where
  "materialize_revisions i record revisions =
     (case base_index revisions (length revisions) of
        None \<Rightarrow> Inl (MissingBase i)
      | Some k \<Rightarrow>
          (case fst (revisions ! k) of
             DeltaContent v ops \<Rightarrow> Inl (MissingBase i)
           | BaseContent v x \<Rightarrow>
               err_bind
                 (replay_deltas i v (drop (Suc k) revisions) (Some x)
                    ({}, free_address (concat (map revision_values revisions))))
                 (\<lambda>target.
                   case target of
                     None \<Rightarrow> Inl EngineTypeError
                   | Some y \<Rightarrow>
                       Inr \<lparr>read_record = record, read_version = v, read_value = y,
                            read_deltas = length revisions - k - 1\<rparr>)))"

definition materializeDocument ::
  "storage_state \<Rightarrow> int \<Rightarrow> doc_point \<Rightarrow> storage_error + stored_document option" where
  "materializeDocument st i pt =
     (case documents st i of
        None \<Rightarrow> Inr None
      | Some d \<Rightarrow>
          if pt \<noteq> Current \<and> isCurrentOnly (stored_record d) then Inl (NoHistory i)
          else if \<not> isAliveAt (stored_record d) pt then Inr None
          else map_sum id Some (materialize_revisions i (stored_record d) (revisions_at d pt)))"

end
