(* ===== verification/Storage_Commit.thy ===== *)
theory Storage_Commit
  imports Storage
begin

text \<open>
  Commits of the in-memory storage: document copies are resolved, the batch is validated against the
  state, and the prepared batch is applied (\<open>prepareCommit\<close>, \<open>applyPreparedCommit\<close>,
  \<open>applyDocumentActions\<close> of \<open>storage/memory.ts\<close>), and the lifecycle calls beside the commit path.
\<close>

fun fold_err :: "('a \<Rightarrow> 's \<Rightarrow> 'e + 's) \<Rightarrow> 'a list \<Rightarrow> 's \<Rightarrow> 'e + 's" where
  "fold_err f [] s = Inr s"
| "fold_err f (x # xs) s = err_bind (f x s) (fold_err f xs)"

subsection \<open>Resolving copies\<close>

fun is_copy :: "storage_write \<Rightarrow> bool" where
  "is_copy (WCopy r i pt) = True"
| "is_copy w = False"

fun changed_document :: "storage_write \<Rightarrow> int option" where
  "changed_document (WCreate r v x) = Some (doc_id r)"
| "changed_document (WCopy r i pt) = Some (doc_id r)"
| "changed_document (WChange i content) = Some i"
| "changed_document (WRetire i) = Some i"
| "changed_document w = None"

fun is_conversation_scope :: "doc_scope \<Rightarrow> bool" where
  "is_conversation_scope (ConversationScope c) = True"
| "is_conversation_scope s = False"

definition copy_source_matches :: "document_record \<Rightarrow> document_create \<Rightarrow> bool" where
  "copy_source_matches source r \<longleftrightarrow>
     is_conversation_scope (doc_scope source) \<and> is_conversation_scope (doc_scope r) \<and>
     doc_kind source = doc_kind r \<and> doc_key source = doc_key r \<and>
     doc_history source = doc_history r \<and> doc_fork source = doc_fork r"

definition resolve_copy ::
  "storage_state \<Rightarrow> int list \<Rightarrow> document_create \<Rightarrow> int \<Rightarrow> doc_point \<Rightarrow> storage_error + storage_write" where
  "resolve_copy st changed r source pt =
     (if source \<in> set changed then Inl (SourceChanged source)
      else
        err_bind (materializeDocument st source pt) (\<lambda>found.
          case found of
            None \<Rightarrow> Inl (SourceUnreadable source)
          | Some d \<Rightarrow>
              if \<not> copy_source_matches (read_record d) r then Inl (SourceMismatch source)
              else Inr (WCreate r (read_version d) (read_value d))))"

fun resolve_write :: "storage_state \<Rightarrow> int list \<Rightarrow> storage_write \<Rightarrow> storage_error + storage_write" where
  "resolve_write st changed (WCopy r source pt) =
     map_sum (CopyRejected (doc_id r)) id (resolve_copy st changed r source pt)"
| "resolve_write st changed w = Inr w"

definition resolveDocumentCopies ::
  "storage_state \<Rightarrow> storage_write list \<Rightarrow> storage_error + storage_write list" where
  "resolveDocumentCopies st ws =
     (if \<not> list_ex is_copy ws then Inr ws
      else map_err (resolve_write st (List.map_filter changed_document ws)) ws)"

subsection \<open>Validation\<close>

fun claims_id :: "storage_write \<Rightarrow> (table_name \<times> int) option" where
  "claims_id (WConversation r m) = Some (ConversationTable, conv_id r)"
| "claims_id (WEntry r) = Some (EntryTable, entry_id r)"
| "claims_id (WTask r) = Some (TaskTable, task_id r)"
| "claims_id (WSubmission r) = Some (SubmissionTable, sub_id r)"
| "claims_id (WCreate r v x) = Some (DocumentTable, doc_id r)"
| "claims_id (WCopy r i pt) = Some (DocumentTable, doc_id r)"
| "claims_id (WChange i content) = None"
| "claims_id (WRetire i) = None"

definition insert_only :: "table_name \<Rightarrow> bool" where
  "insert_only table \<longleftrightarrow> table = ConversationTable \<or> table = EntryTable \<or> table = DocumentTable"

definition check_claim ::
  "table_name option \<Rightarrow> table_name option \<Rightarrow> table_name \<Rightarrow> int \<Rightarrow> storage_error option" where
  "check_claim existing earlier table i =
     (if insert_only table then
        (case existing of
           Some t \<Rightarrow> Some (IdBelongs i t)
         | None \<Rightarrow> if earlier \<noteq> None then Some (IdWrittenTwice i) else None)
      else
        (case existing of
           Some t \<Rightarrow>
             if t \<noteq> table then Some (IdBelongs i t)
             else if earlier \<noteq> None \<and> earlier \<noteq> Some table then Some (IdTwoTypes i) else None
         | None \<Rightarrow> if earlier \<noteq> None \<and> earlier \<noteq> Some table then Some (IdTwoTypes i) else None))"

fun check_ids ::
  "storage_state \<Rightarrow> storage_write list \<Rightarrow> (int \<Rightarrow> table_name option) \<Rightarrow> storage_error + unit" where
  "check_ids st [] claimed = Inr ()"
| "check_ids st (w # ws) claimed =
     (case claims_id w of
        None \<Rightarrow> check_ids st ws claimed
      | Some (table, i) \<Rightarrow>
          (case check_claim (tableContaining st i) (claimed i) table i of
             Some e \<Rightarrow> Inl e
           | None \<Rightarrow> check_ids st ws (claimed(i \<mapsto> table))))"

definition checkGlobalIds :: "storage_state \<Rightarrow> storage_write list \<Rightarrow> storage_error + unit" where
  "checkGlobalIds st ws = check_ids st ws Map.empty"

type_synonym document_actions = "(int \<times> document_action) list"

definition action_for :: "document_actions \<Rightarrow> int \<Rightarrow> document_action" where
  "action_for actions i =
     (case map_of actions i of
        None \<Rightarrow> \<lparr>action_create = None, action_content = None, action_retire = False\<rparr>
      | Some a \<Rightarrow> a)"

fun prepare_action :: "storage_write \<Rightarrow> document_actions \<Rightarrow> storage_error + document_actions" where
  "prepare_action (WCreate r v x) actions =
     (let a = action_for actions (doc_id r) in
      if action_create a \<noteq> None \<or> action_content a \<noteq> None then Inl (ContentTwice (doc_id r))
      else Inr (AList.update (doc_id r) (a\<lparr>action_create := Some r, action_content := Some (BaseContent v x)\<rparr>) actions))"
| "prepare_action (WChange i content) actions =
     (let a = action_for actions i in
      if action_content a \<noteq> None then Inl (ContentTwice i)
      else Inr (AList.update i (a\<lparr>action_content := Some content\<rparr>) actions))"
| "prepare_action (WRetire i) actions =
     (let a = action_for actions i in
      if action_retire a then Inl (RetiredTwice i)
      else Inr (AList.update i (a\<lparr>action_retire := True\<rparr>) actions))"
| "prepare_action w actions = Inr actions"

definition prepareDocumentActions :: "storage_write list \<Rightarrow> storage_error + document_actions" where
  "prepareDocumentActions ws = fold_err prepare_action ws []"

definition current_at :: "storage_state \<Rightarrow> doc_address \<Rightarrow> int option" where
  "current_at st key = (case documentAddresses st key of None \<Rightarrow> None | Some ix \<Rightarrow> address_current ix)"

definition check_delta :: "int \<Rightarrow> stored_document_state option \<Rightarrow> document_action \<Rightarrow> storage_error + unit" where
  "check_delta i existing a =
     (case action_content a of
        Some (DeltaContent v ops) \<Rightarrow>
          (case existing of
             None \<Rightarrow> Inl (DeltaWithoutBase i)
           | Some d \<Rightarrow>
               if stored_revisions d = [] then Inl (DeltaWithoutBase i)
               else if content_version (fst (last (stored_revisions d))) \<noteq> v then Inl (VersionTransition i)
               else Inr ())
      | _ \<Rightarrow> Inr ())"

definition check_existing :: "int \<Rightarrow> stored_document_state option \<Rightarrow> document_action \<Rightarrow> storage_error + unit" where
  "check_existing i existing a =
     (if action_create a = None \<and> existing = None then Inl (UnknownDocument i)
      else if action_create a \<noteq> None \<and> existing \<noteq> None then Inl (DocumentExists i)
      else
        case existing of
          Some d \<Rightarrow> if doc_retiredAt (stored_record d) \<noteq> None then Inl (DocumentRetired i) else check_delta i existing a
        | None \<Rightarrow> check_delta i existing a)"

definition action_address :: "stored_document_state option \<Rightarrow> document_action \<Rightarrow> doc_address option" where
  "action_address existing a =
     (case action_create a of
        Some r \<Rightarrow> Some (recordAddressKey r)
      | None \<Rightarrow> map_option (\<lambda>d. recordAddressKey (stored_record d)) existing)"

definition count_live :: "int option \<Rightarrow> int \<Rightarrow> document_action \<Rightarrow> int option \<Rightarrow> int" where
  "count_live current i a counted =
     (case counted of Some n \<Rightarrow> n | None \<Rightarrow> if current = None then 0 else 1)
     - (if action_retire a \<and> current = Some i then 1 else 0)
     + (if action_create a \<noteq> None \<and> \<not> action_retire a then 1 else 0)"

fun check_action ::
  "storage_state \<Rightarrow> int \<times> document_action \<Rightarrow> (doc_address \<times> int) list \<Rightarrow>
     storage_error + (doc_address \<times> int) list" where
  "check_action st (i, a) live =
     err_bind (check_existing i (documents st i) a) (\<lambda>_.
       case action_address (documents st i) a of
         None \<Rightarrow> Inl EngineTypeError
       | Some key \<Rightarrow> Inr (AList.update key (count_live (current_at st key) i a (map_of live key)) live))"

definition checkDocumentActions :: "storage_state \<Rightarrow> document_actions \<Rightarrow> storage_error + unit" where
  "checkDocumentActions st actions =
     err_bind (fold_err (check_action st) actions []) (\<lambda>live.
       if list_ex (\<lambda>(key, n). 1 < n) live then Inl AddressTaken else Inr ())"

record prepared_commit =
  prepared_seq :: int
  prepared_writes :: "storage_write list"
  prepared_actions :: document_actions

definition prepareCommit ::
  "storage_write list \<Rightarrow> int \<Rightarrow> storage_state \<Rightarrow> storage_error + prepared_commit" where
  "prepareCommit ws seq st =
     err_bind (assertOpen st) (\<lambda>_.
       if \<not> isSafeInteger seq \<or> seq < nextSeq st then Inl (SequenceError seq)
       else
         err_bind (resolveDocumentCopies st ws) (\<lambda>detached.
           err_bind (checkGlobalIds st detached) (\<lambda>_.
             err_bind (prepareDocumentActions detached) (\<lambda>actions.
               err_bind (checkDocumentActions st actions) (\<lambda>_.
                 Inr \<lparr>prepared_seq = seq, prepared_writes = detached, prepared_actions = actions\<rparr>)))))"

subsection \<open>Application\<close>

definition claim_id :: "int \<Rightarrow> table_name \<Rightarrow> storage_state \<Rightarrow> storage_state" where
  "claim_id i table st = st\<lparr>recordTypes := (recordTypes st)(i \<mapsto> table), nextId := max (nextId st) (i + 1)\<rparr>"

definition apply_conversation :: "conversation_record \<Rightarrow> conversation_meta \<Rightarrow> storage_state \<Rightarrow> storage_state" where
  "apply_conversation r m st =
     (let st1 = (claim_id (conv_id r) ConversationTable st)
            \<lparr>conversations := (conversations st)(conv_id r \<mapsto> r),
             conversationMeta := (conversationMeta st)(conv_id r \<mapsto> m),
             conversationIds := insertSorted (conversationIds st) (conv_id r)\<rparr>
      in
        case conv_owner r of
          None \<Rightarrow> st1
        | Some (owner_conversation, owner_task) \<Rightarrow>
            st1\<lparr>conversationIdsByOwnerConversation :=
                  insertMapId (conversationIdsByOwnerConversation st) owner_conversation (conv_id r),
                conversationIdsByOwnerTask := insertMapId (conversationIdsByOwnerTask st) owner_task (conv_id r)\<rparr>)"

definition apply_entry :: "int \<Rightarrow> entry_record \<Rightarrow> storage_state \<Rightarrow> storage_state" where
  "apply_entry seq r st =
     (claim_id (entry_id r) EntryTable st)
       \<lparr>entries := (entries st)(entry_id r \<mapsto> r),
        entryCommitSeqs := (entryCommitSeqs st)(entry_id r \<mapsto> seq),
        entryIds := insertMapId (entryIds st) (entry_conversation r) (entry_id r),
        headEntryIds :=
          (if entry_head r \<noteq> None then insertMapId (headEntryIds st) (entry_conversation r) (entry_id r)
           else headEntryIds st)\<rparr>"

text \<open>The id list of a status after a record went from one status to another.\<close>

definition reindex :: "('s \<Rightarrow> int list) \<Rightarrow> 's option \<Rightarrow> 's \<Rightarrow> int \<Rightarrow> 's \<Rightarrow> int list" where
  "reindex index previous status i =
     (case previous of
        None \<Rightarrow> index(status := insertSorted (index status) i)
      | Some old \<Rightarrow>
          if old = status then index
          else
            let index' = index(old := removeSorted (index old) i) in
            index'(status := insertSorted (index' status) i))"

definition task_status :: "task_record \<Rightarrow> task_status" where
  "task_status r = status_of_task (task_execution r)"

definition apply_task :: "task_record \<Rightarrow> storage_state \<Rightarrow> storage_state" where
  "apply_task r st =
     (claim_id (task_id r) TaskTable st)
       \<lparr>taskIds := (if tasks st (task_id r) = None then insertSorted (taskIds st) (task_id r) else taskIds st),
        taskIdsByStatus :=
          reindex (taskIdsByStatus st) (map_option task_status (tasks st (task_id r))) (task_status r) (task_id r),
        tasks := (tasks st)(task_id r \<mapsto> r)\<rparr>"

definition drop_request ::
  "submission_record option \<Rightarrow> int \<Rightarrow> (int \<Rightarrow> (string \<times> int) list option) \<Rightarrow> int \<Rightarrow> (string \<times> int) list option" where
  "drop_request previous i requests =
     (case previous of
        None \<Rightarrow> requests
      | Some p \<Rightarrow>
          (case (sub_requestId p, requests (sub_conversation p)) of
             (Some key, Some held) \<Rightarrow>
               if map_of held key \<noteq> Some i then requests
               else
                 let held' = AList.delete key held in
                 if held' = [] then requests(sub_conversation p := None)
                 else requests(sub_conversation p \<mapsto> held')
           | _ \<Rightarrow> requests))"

definition add_request ::
  "submission_record \<Rightarrow> (int \<Rightarrow> (string \<times> int) list option) \<Rightarrow> int \<Rightarrow> (string \<times> int) list option" where
  "add_request r requests =
     (case sub_requestId r of
        None \<Rightarrow> requests
      | Some key \<Rightarrow>
          requests(sub_conversation r \<mapsto>
            AList.update key (sub_id r) (case requests (sub_conversation r) of None \<Rightarrow> [] | Some held \<Rightarrow> held)))"

definition apply_submission :: "submission_record \<Rightarrow> storage_state \<Rightarrow> storage_state" where
  "apply_submission r st =
     (let previous = submissions st (sub_id r) in
      (claim_id (sub_id r) SubmissionTable st)
        \<lparr>submissionIds := (if previous = None then insertSorted (submissionIds st) (sub_id r) else submissionIds st),
         submissionIdsByStatus :=
           reindex (submissionIdsByStatus st) (map_option sub_status previous) (sub_status r) (sub_id r),
         submissions := (submissions st)(sub_id r \<mapsto> r),
         submissionIdsByRequest :=
           add_request r (drop_request previous (sub_id r) (submissionIdsByRequest st))\<rparr>)"

fun apply_write :: "int \<Rightarrow> storage_write \<Rightarrow> storage_state \<Rightarrow> storage_error + storage_state" where
  "apply_write seq (WConversation r m) st = Inr (apply_conversation r m st)"
| "apply_write seq (WEntry r) st = Inr (apply_entry seq r st)"
| "apply_write seq (WTask r) st = Inr (apply_task r st)"
| "apply_write seq (WSubmission r) st = Inr (apply_submission r st)"
| "apply_write seq (WCopy r i pt) st = Inl UnresolvedCopy"
| "apply_write seq w st = Inr st"

definition address_at :: "storage_state \<Rightarrow> doc_address \<Rightarrow> address_index" where
  "address_at st key =
     (case documentAddresses st key of None \<Rightarrow> \<lparr>address_ids = [], address_current = None\<rparr> | Some ix \<Rightarrow> ix)"

definition stamp_record :: "document_create \<Rightarrow> int \<Rightarrow> bool \<Rightarrow> document_record" where
  "stamp_record r seq retired =
     document_create.extend r
       (document_record.fields seq (if retired then Some seq else None))"

text \<open>The stored document an action leaves, before its revisions are dropped.\<close>

definition create_document :: "int \<Rightarrow> document_create \<Rightarrow> document_action \<Rightarrow> int \<Rightarrow> storage_state \<Rightarrow> storage_state" where
  "create_document i r a seq st =
     (let key = recordAddressKey r; ix = address_at st key in
      (claim_id i DocumentTable st)
        \<lparr>documents := (documents st)(i \<mapsto>
           \<lparr>stored_record = stamp_record r seq (action_retire a),
            stored_revisions = (case action_content a of None \<Rightarrow> [] | Some content \<Rightarrow> [(content, seq)])\<rparr>),
         documentAddresses := (documentAddresses st)(key \<mapsto> ix\<lparr>address_ids := insertSorted (address_ids ix) i\<rparr>),
         documentIdsByScope := insertMapId (documentIdsByScope st) (doc_scope r) i\<rparr>)"

definition is_base :: "document_content \<Rightarrow> bool" where
  "is_base content \<longleftrightarrow> (case content of BaseContent v x \<Rightarrow> True | DeltaContent v ops \<Rightarrow> False)"

definition add_revision :: "document_content \<Rightarrow> int \<Rightarrow> stored_document_state \<Rightarrow> stored_document_state" where
  "add_revision content seq d =
     d\<lparr>stored_revisions :=
       (if is_base content \<and> isCurrentOnly (stored_record d) then [(content, seq)]
        else stored_revisions d @ [(content, seq)])\<rparr>"

definition retire_document :: "int \<Rightarrow> bool \<Rightarrow> stored_document_state \<Rightarrow> stored_document_state" where
  "retire_document seq created d =
     (let d' = (if created then d else d\<lparr>stored_record := (stored_record d)\<lparr>doc_retiredAt := Some seq\<rparr>\<rparr>) in
      if isCurrentOnly (stored_record d') then d'\<lparr>stored_revisions := []\<rparr> else d')"

definition move_current :: "int \<Rightarrow> document_action \<Rightarrow> address_index \<Rightarrow> address_index" where
  "move_current i a ix =
     (let ix' = (if action_retire a \<and> address_current ix = Some i then ix\<lparr>address_current := None\<rparr> else ix) in
      if action_create a \<noteq> None \<and> \<not> action_retire a then ix'\<lparr>address_current := Some i\<rparr> else ix')"

fun apply_action :: "int \<Rightarrow> int \<times> document_action \<Rightarrow> storage_state \<Rightarrow> storage_error + storage_state" where
  "apply_action seq (i, a) st =
     err_bind
       (case action_create a of
          Some r \<Rightarrow> Inr (create_document i r a seq st)
        | None \<Rightarrow>
            (case action_content a of
               None \<Rightarrow> Inr st
             | Some content \<Rightarrow>
                 (case documents st i of
                    None \<Rightarrow> Inl EngineTypeError
                  | Some d \<Rightarrow> Inr (st\<lparr>documents := (documents st)(i \<mapsto> add_revision content seq d)\<rparr>))))
       (\<lambda>st1.
         err_bind
           (if \<not> action_retire a then Inr st1
            else
              (case documents st1 i of
                 None \<Rightarrow> Inl EngineTypeError
               | Some d \<Rightarrow>
                   Inr (st1\<lparr>documents := (documents st1)(i \<mapsto> retire_document seq (action_create a \<noteq> None) d)\<rparr>)))
           (\<lambda>st2.
             if action_create a = None \<and> \<not> action_retire a then Inr st2
             else
               case documents st2 i of
                 None \<Rightarrow> Inl EngineTypeError
               | Some d \<Rightarrow>
                   (case documentAddresses st2 (recordAddressKey (stored_record d)) of
                      None \<Rightarrow> Inl EngineTypeError
                    | Some ix \<Rightarrow>
                        Inr (st2\<lparr>documentAddresses :=
                          (documentAddresses st2)(recordAddressKey (stored_record d) \<mapsto> move_current i a ix)\<rparr>))))"

definition applyDocumentActions :: "document_actions \<Rightarrow> int \<Rightarrow> storage_state \<Rightarrow> storage_error + storage_state" where
  "applyDocumentActions actions seq st = fold_err (apply_action seq) actions st"

definition applyPreparedCommit :: "prepared_commit \<Rightarrow> storage_state \<Rightarrow> storage_error + storage_state" where
  "applyPreparedCommit p st =
     err_bind (fold_err (apply_write (prepared_seq p)) (prepared_writes p) st) (\<lambda>st1.
       err_bind (applyDocumentActions (prepared_actions p) (prepared_seq p) st1) (\<lambda>st2.
         Inr (st2\<lparr>nextSeq := prepared_seq p + 1\<rparr>)))"

text \<open>\<open>commitAt\<close> prepares at a sequence the caller chose and applies; \<open>commit\<close> takes the next sequence.\<close>

definition commitAt :: "storage_write list \<Rightarrow> int \<Rightarrow> storage_state \<Rightarrow> storage_error + int \<times> storage_state" where
  "commitAt ws seq st =
     err_bind (prepareCommit ws seq st) (\<lambda>p.
       err_bind (applyPreparedCommit p st) (\<lambda>st'. Inr (prepared_seq p, st')))"

definition commit :: "storage_write list \<Rightarrow> storage_state \<Rightarrow> storage_error + int \<times> storage_state" where
  "commit ws st = commitAt ws (nextSeq st) st"

definition mintId :: "storage_state \<Rightarrow> storage_error + int \<times> storage_state" where
  "mintId st =
     err_bind (assertOpen st) (\<lambda>_.
       if \<not> isSafeInteger (nextId st) then Inl IdsExhausted
       else Inr (nextId st, st\<lparr>nextId := nextId st + 1\<rparr>))"

subsection \<open>Lifecycle calls\<close>

definition delete_entries :: "int \<Rightarrow> storage_state \<Rightarrow> storage_state" where
  "delete_entries c st =
     (let gone = ids_at (entryIds st) c in
      st\<lparr>entries := (\<lambda>i. if i \<in> set gone then None else entries st i),
         entryCommitSeqs := (\<lambda>i. if i \<in> set gone then None else entryCommitSeqs st i),
         entryIds := (entryIds st)(c := None), headEntryIds := (headEntryIds st)(c := None)\<rparr>)"

fun delete_task :: "int \<Rightarrow> storage_state \<Rightarrow> storage_error + storage_state" where
  "delete_task i st =
     (case tasks st i of
        None \<Rightarrow> Inl EngineTypeError
      | Some r \<Rightarrow>
          Inr (st\<lparr>taskIds := removeSorted (taskIds st) i,
                 taskIdsByStatus :=
                   (taskIdsByStatus st)(task_status r := removeSorted (taskIdsByStatus st (task_status r)) i),
                 tasks := (tasks st)(i := None),
                 conversationIdsByOwnerTask := (conversationIdsByOwnerTask st)(i := None)\<rparr>))"

fun delete_submission :: "int \<Rightarrow> storage_state \<Rightarrow> storage_error + storage_state" where
  "delete_submission i st =
     (case submissions st i of
        None \<Rightarrow> Inl EngineTypeError
      | Some r \<Rightarrow>
          Inr (st\<lparr>submissionIds := removeSorted (submissionIds st) i,
                 submissionIdsByStatus :=
                   (submissionIdsByStatus st)(sub_status r := removeSorted (submissionIdsByStatus st (sub_status r)) i),
                 submissions := (submissions st)(i := None)\<rparr>))"

definition drop_address :: "int \<Rightarrow> address_index \<Rightarrow> address_index option" where
  "drop_address i ix =
     (let ix' = ix\<lparr>address_ids := removeSorted (address_ids ix) i,
                   address_current := (if address_current ix = Some i then None else address_current ix)\<rparr> in
      if address_ids ix' = [] \<and> address_current ix' = None then None else Some ix')"

fun delete_document :: "int \<Rightarrow> storage_state \<Rightarrow> storage_error + storage_state" where
  "delete_document i st =
     (case documents st i of
        None \<Rightarrow> Inl EngineTypeError
      | Some d \<Rightarrow>
          (let key = recordAddressKey (stored_record d) in
           Inr (st\<lparr>documentAddresses :=
                    (documentAddresses st)(key := Option.bind (documentAddresses st key) (drop_address i)),
                  documents := (documents st)(i := None)\<rparr>)))"

definition conversation_tasks :: "storage_state \<Rightarrow> int \<Rightarrow> int list" where
  "conversation_tasks st c =
     filter (\<lambda>i. case tasks st i of None \<Rightarrow> False | Some r \<Rightarrow> task_conversation r = c) (taskIds st)"

definition conversation_submissions :: "storage_state \<Rightarrow> int \<Rightarrow> int list" where
  "conversation_submissions st c =
     filter (\<lambda>i. case submissions st i of None \<Rightarrow> False | Some r \<Rightarrow> sub_conversation r = c) (submissionIds st)"

definition conversation_documents :: "storage_state \<Rightarrow> int \<Rightarrow> int list" where
  "conversation_documents st c =
     ids_at (documentIdsByScope st) (ConversationScope c) @
     concat (map (\<lambda>t. ids_at (documentIdsByScope st) (TaskScope t)) (conversation_tasks st c))"

text \<open>The scopes whose document lists go with the conversation, and the row of the conversation itself.\<close>

definition drop_scopes :: "int \<Rightarrow> int list \<Rightarrow> storage_state \<Rightarrow> storage_state" where
  "drop_scopes c ts st =
     st\<lparr>documentIdsByScope :=
       (\<lambda>s. case s of
              ConversationScope d \<Rightarrow> if d = c then None else documentIdsByScope st s
            | TaskScope t \<Rightarrow> if t \<in> set ts then None else documentIdsByScope st s
            | SessionScope \<Rightarrow> documentIdsByScope st s)\<rparr>"

definition drop_conversation :: "int \<Rightarrow> storage_state \<Rightarrow> storage_state" where
  "drop_conversation c st =
     st\<lparr>conversationIds := removeSorted (conversationIds st) c,
        conversations := (conversations st)(c := None),
        conversationMeta := (conversationMeta st)(c := None),
        conversationIdsByOwnerConversation := (conversationIdsByOwnerConversation st)(c := None)\<rparr>"

definition deletion_of :: "storage_state \<Rightarrow> int \<Rightarrow> int \<Rightarrow> conversation_deletion" where
  "deletion_of st c now =
     \<lparr>deleted_conversation = c, deleted_at = now, deleted_entries = length (ids_at (entryIds st) c),
      deleted_tasks = length (conversation_tasks st c), deleted_submissions = length (conversation_submissions st c),
      deleted_documents = length (conversation_documents st c)\<rparr>"

definition remove_conversation :: "int \<Rightarrow> storage_state \<Rightarrow> storage_error + storage_state" where
  "remove_conversation c st =
     err_bind (fold_err delete_task (conversation_tasks st c) (delete_entries c st)) (\<lambda>st1.
       err_bind (fold_err delete_submission (conversation_submissions st c) st1) (\<lambda>st2.
         err_bind
           (fold_err delete_document (conversation_documents st c)
             (st2\<lparr>submissionIdsByRequest := (submissionIdsByRequest st2)(c := None)\<rparr>)) (\<lambda>st3.
           Inr (drop_conversation c (drop_scopes c (conversation_tasks st c) st3)))))"

definition deleteConversation ::
  "int \<Rightarrow> int \<Rightarrow> storage_state \<Rightarrow> storage_error + conversation_deletion option \<times> storage_state" where
  "deleteConversation now c st =
     err_bind (assertOpen st) (\<lambda>_.
       if c = ROOT_CONVERSATION_ID then Inl RootReserved
       else if conversations st c = None then Inr (None, st)
       else
         err_bind (remove_conversation c st) (\<lambda>st'.
           Inr (Some (deletion_of st c now), st'\<lparr>deletions := deletions st' @ [deletion_of st c now]\<rparr>)))"

record meta_update =
  update_title :: "string option"
  update_archived :: "bool option"

definition updateConversationMeta ::
  "int \<Rightarrow> int \<Rightarrow> meta_update \<Rightarrow> storage_state \<Rightarrow> storage_error + conversation_meta option \<times> storage_state" where
  "updateConversationMeta now c u st =
     err_bind (assertOpen st) (\<lambda>_.
       case conversationMeta st c of
         None \<Rightarrow> Inr (None, st)
       | Some m \<Rightarrow>
           (let renewed = m\<lparr>meta_title := (case update_title u of None \<Rightarrow> meta_title m | Some t \<Rightarrow> t),
                         meta_updatedAt := now,
                         meta_archivedAt :=
                           (case update_archived u of
                              None \<Rightarrow> meta_archivedAt m
                            | Some flag \<Rightarrow> if flag then Some now else None)\<rparr> in
            Inr (Some renewed, st\<lparr>conversationMeta := (conversationMeta st)(c \<mapsto> renewed)\<rparr>)))"

definition closeStorage :: "storage_state \<Rightarrow> storage_state" where
  "closeStorage st = st\<lparr>storage_closed := True\<rparr>"

end
