(* ===== verification/Storage_Tables.thy ===== *)
theory Storage_Tables
  imports Storage_Commit
begin

text \<open>
  What the tables and indexes of the in-memory storage mean: every index is the ascending list of the
  ids whose record has its key. One predicate for a table with an id list, one for a table with an
  index, and how insertions, moves and removals keep them; the tables of the storage are instances.
\<close>

named_theorems index_facts \<open>how the index operations act on sets of ids\<close>

definition listed :: "(int \<Rightarrow> 'r option) \<Rightarrow> int list \<Rightarrow> bool" where
  "listed tbl idl \<longleftrightarrow> ascending idl \<and> set idl = dom tbl"

definition having :: "(int \<Rightarrow> 'r option) \<Rightarrow> ('r \<Rightarrow> 'k option) \<Rightarrow> 'k \<Rightarrow> int set" where
  "having tbl key k = {i. \<exists>r. tbl i = Some r \<and> key r = Some k}"

definition indexed :: "(int \<Rightarrow> 'r option) \<Rightarrow> ('r \<Rightarrow> 'k option) \<Rightarrow> ('k \<Rightarrow> int list) \<Rightarrow> bool" where
  "indexed tbl key ix \<longleftrightarrow> (\<forall>k. ascending (ix k) \<and> set (ix k) = having tbl key k)"

lemma ids_at_insert [index_facts]:
  "ids_at (insertMapId index key i) k = (if k = key then insertSorted (ids_at index key) i else ids_at index k)"
  by (simp add: insertMapId_def ids_at_def)

lemma ids_at_upd [index_facts]: "ids_at (index(k := None)) k' = (if k' = k then [] else ids_at index k')"
  by (simp add: ids_at_def)

lemma removeSorted_sound:
  "ascending idl \<Longrightarrow> ascending (removeSorted idl i)"
  "ascending idl \<Longrightarrow> set (removeSorted idl i) = set idl - {i}"
  by (auto simp: removeSorted_filter sorted_wrt_filter)

lemma ascending_distinct: "ascending idl \<Longrightarrow> distinct (idl :: int list)"
  by (induction idl) auto

lemma ascending_unique:
  assumes "ascending xs" "ascending ys" "set xs = set (ys :: int list)"
  shows "xs = ys"
  using assms by (metis ascending_distinct sorted_distinct_set_unique strict_sorted_iff)

lemma ascending_sorted_list: "ascending xs \<Longrightarrow> xs = sorted_list_of_set (set (xs :: int list))"
  by (metis sorted_list_of_set.idem_if_sorted_distinct strict_sorted_iff)

lemma listed_insert:
  "listed tbl idl \<Longrightarrow> tbl i = None \<Longrightarrow> listed (tbl(i \<mapsto> r)) (insertSorted idl i)"
  by (auto simp: listed_def insertSorted_sound domIff)

lemma listed_replace: "listed tbl idl \<Longrightarrow> tbl i \<noteq> None \<Longrightarrow> listed (tbl(i \<mapsto> r)) idl"
  by (auto simp: listed_def)

lemma listed_remove: "listed tbl idl \<Longrightarrow> listed (tbl(i := None)) (removeSorted idl i)"
  by (auto simp: listed_def removeSorted_sound)

lemma having_update:
  "having (tbl(i \<mapsto> r)) key k = (if key r = Some k then insert i (having tbl key k) else having tbl key k - {i})"
  by (auto simp: having_def)

lemma having_remove: "having (tbl(i := None)) key k = having tbl key k - {i}"
  by (auto simp: having_def)

lemma having_fresh: "tbl i = None \<Longrightarrow> i \<notin> having tbl key k"
  by (simp add: having_def)

text \<open>A new record goes into the list of its key.\<close>

lemma indexed_insert:
  assumes "indexed tbl key ix" "tbl i = None"
    and "\<forall>k. ix' k = (if key r = Some k then insertSorted (ix k) i else ix k)"
  shows "indexed (tbl(i \<mapsto> r)) key ix'"
  unfolding indexed_def
proof (intro allI conjI)
  fix k
  have f: "i \<notin> set (ix k)" "ascending (ix k)" "set (ix k) = having tbl key k"
    using assms(1,2) by (simp_all add: indexed_def having_fresh)
  show "ascending (ix' k)" using assms(3) f insertSorted_sound(1) by auto
  show "set (ix' k) = having (tbl(i \<mapsto> r)) key k"
    using assms(3) f insertSorted_sound(2) [of "ix k" i] by (auto simp: having_update)
qed

text \<open>A record that keeps its key leaves the index as it is.\<close>

lemma indexed_replace:
  assumes "indexed tbl key ix" "tbl i = Some old" "key old = key r"
  shows "indexed (tbl(i \<mapsto> r)) key ix"
  using assms by (auto simp: indexed_def having_update) (auto simp: having_def)

lemma indexed_remove:
  assumes "indexed tbl key ix" "\<forall>k. ix' k = (if \<exists>r. tbl i = Some r \<and> key r = Some k then removeSorted (ix k) i else ix k)"
  shows "indexed (tbl(i := None)) key ix'"
  using assms by (auto simp: indexed_def having_remove removeSorted_sound) (auto simp: having_def)

lemma indexed_reindex:
  assumes "indexed tbl (\<lambda>r. Some (f r)) ix"
  shows "indexed (tbl(i \<mapsto> r)) (\<lambda>r. Some (f r)) (reindex ix (map_option f (tbl i)) (f r) i)"
proof (cases "tbl i")
  case None
  then show ?thesis by (intro indexed_insert [OF assms]) (auto simp: reindex_def)
next
  case (Some old)
  show ?thesis
  proof (cases "f old = f r")
    case True
    with Some show ?thesis by (simp add: reindex_def indexed_replace [OF assms])
  next
    case False
    let ?ix = "ix(f old := removeSorted (ix (f old)) i)"
    have "indexed (tbl(i := None)) (\<lambda>r. Some (f r)) ?ix"
      by (rule indexed_remove [OF assms]) (use Some in auto)
    then have "indexed ((tbl(i := None))(i \<mapsto> r)) (\<lambda>r. Some (f r)) (?ix(f r := insertSorted (?ix (f r)) i))"
      by (rule indexed_insert) auto
    with Some False show ?thesis by (simp add: reindex_def Let_def)
  qed
qed

text \<open>The ids of an index are the sorted list of the records with the key.\<close>

lemma indexed_set: "indexed tbl key ix \<Longrightarrow> set (ix k) = having tbl key k"
  by (simp add: indexed_def)

lemma indexed_ascending: "indexed tbl key ix \<Longrightarrow> ascending (ix k)"
  by (simp add: indexed_def)

text \<open>Removing a whole set of records.\<close>

definition without :: "(int \<Rightarrow> 'r option) \<Rightarrow> int set \<Rightarrow> int \<Rightarrow> 'r option" where
  "without tbl gone = (\<lambda>i. if i \<in> gone then None else tbl i)"

lemma without_dom [simp]: "dom (without tbl gone) = dom tbl - gone"
  by (auto simp: without_def split: if_splits)

lemma without_Some [simp]: "without tbl gone i = Some r \<longleftrightarrow> i \<notin> gone \<and> tbl i = Some r"
  by (simp add: without_def)

lemma without_step: "(without tbl gone)(i := None) = without tbl (insert i gone)"
  by (auto simp: without_def)

lemma without_empty [simp]: "without tbl {} = tbl"
  by (simp add: without_def fun_eq_iff)

lemma having_without: "having (without tbl gone) key k = having tbl key k - gone"
  by (auto simp: having_def)

end
