(* ===== verification/Storage_Sound.thy ===== *)
theory Storage_Sound
  imports Storage_Tables
begin

text \<open>
  The invariant of the in-memory storage and its preservation by every call: tables own their ids,
  indexes are exact, every document that can be read has a base, and an address has one live
  incarnation.
\<close>

named_theorems sound_defs \<open>the parts of the invariant\<close>

subsection \<open>The invariant\<close>

definition typed ::
  "table_name \<Rightarrow> ('r \<Rightarrow> int) \<Rightarrow> (int \<Rightarrow> 'r option) \<Rightarrow> (int \<Rightarrow> table_name option) \<Rightarrow> bool" where
  "typed table ident tbl types \<longleftrightarrow> (\<forall>i r. tbl i = Some r \<longrightarrow> ident r = i \<and> types i = Some table)"

definition owner_index :: "(int \<Rightarrow> int list option) \<Rightarrow> (int \<Rightarrow> table_name option) \<Rightarrow> bool" where
  "owner_index ix types \<longleftrightarrow>
     (\<forall>k. ascending (ids_at ix k) \<and> (\<forall>i \<in> set (ids_at ix k). types i = Some ConversationTable))"

definition conversations_sound :: "storage_state \<Rightarrow> bool" where
  "conversations_sound st \<longleftrightarrow>
     typed ConversationTable conv_id (conversations st) (recordTypes st) \<and>
     listed (conversations st) (conversationIds st) \<and>
     dom (conversationMeta st) = dom (conversations st) \<and>
     owner_index (conversationIdsByOwnerConversation st) (recordTypes st) \<and>
     owner_index (conversationIdsByOwnerTask st) (recordTypes st)"

definition head_key :: "entry_record \<Rightarrow> int option" where
  "head_key r = (if entry_head r = None then None else Some (entry_conversation r))"

definition entries_sound :: "int \<Rightarrow> storage_state \<Rightarrow> bool" where
  "entries_sound n st \<longleftrightarrow>
     typed EntryTable entry_id (entries st) (recordTypes st) \<and>
     dom (entryCommitSeqs st) = dom (entries st) \<and>
     (\<forall>i s. entryCommitSeqs st i = Some s \<longrightarrow> s < n) \<and>
     indexed (entries st) (\<lambda>r. Some (entry_conversation r)) (ids_at (entryIds st)) \<and>
     indexed (entries st) head_key (ids_at (headEntryIds st))"

definition tasks_sound :: "storage_state \<Rightarrow> bool" where
  "tasks_sound st \<longleftrightarrow>
     typed TaskTable task_id (tasks st) (recordTypes st) \<and> listed (tasks st) (taskIds st) \<and>
     indexed (tasks st) (\<lambda>r. Some (task_status r)) (taskIdsByStatus st)"

definition requests_sound :: "storage_state \<Rightarrow> bool" where
  "requests_sound st \<longleftrightarrow>
     (\<forall>c held key i. submissionIdsByRequest st c = Some held \<longrightarrow> map_of held key = Some i \<longrightarrow>
       (\<exists>r. submissions st i = Some r \<and> sub_conversation r = c \<and> sub_requestId r = Some key))"

definition submissions_sound :: "storage_state \<Rightarrow> bool" where
  "submissions_sound st \<longleftrightarrow>
     typed SubmissionTable sub_id (submissions st) (recordTypes st) \<and>
     listed (submissions st) (submissionIds st) \<and>
     indexed (submissions st) (\<lambda>r. Some (sub_status r)) (submissionIdsByStatus st) \<and> requests_sound st"

text \<open>Revisions that replay: a base first, and deltas of the version before them.\<close>

fun version_chain :: "int \<Rightarrow> document_revision list \<Rightarrow> bool" where
  "version_chain v [] = True"
| "version_chain v ((BaseContent w x, s) # revisions) = version_chain w revisions"
| "version_chain v ((DeltaContent w ops, s) # revisions) = (w = v \<and> version_chain v revisions)"

definition based :: "document_revision list \<Rightarrow> bool" where
  "based revisions \<longleftrightarrow>
     (case revisions of (BaseContent v x, s) # later \<Rightarrow> version_chain v later | _ \<Rightarrow> False)"

definition retired_by :: "document_record \<Rightarrow> int \<Rightarrow> bool" where
  "retired_by r n \<longleftrightarrow> (case doc_retiredAt r of None \<Rightarrow> True | Some t \<Rightarrow> doc_createdAt r \<le> t \<and> t < n)"

definition document_sound :: "int \<Rightarrow> stored_document_state \<Rightarrow> bool" where
  "document_sound n d \<longleftrightarrow>
     doc_createdAt (stored_record d) < n \<and> retired_by (stored_record d) n \<and>
     sorted_wrt (<) (map snd (stored_revisions d)) \<and>
     (\<forall>p \<in> set (stored_revisions d). doc_createdAt (stored_record d) \<le> snd p \<and> snd p < n) \<and>
     (if doc_retiredAt (stored_record d) \<noteq> None \<and> isCurrentOnly (stored_record d) then stored_revisions d = []
      else based (stored_revisions d) \<and>
        (\<not> isCurrentOnly (stored_record d) \<longrightarrow>
          snd (hd (stored_revisions d)) = doc_createdAt (stored_record d)))"

definition stored_address :: "stored_document_state \<Rightarrow> doc_address" where
  "stored_address d = recordAddressKey (stored_record d)"

definition stored_scope :: "stored_document_state \<Rightarrow> doc_scope" where
  "stored_scope d = doc_scope (stored_record d)"

definition documents_kept :: "int \<Rightarrow> storage_state \<Rightarrow> bool" where
  "documents_kept n st \<longleftrightarrow>
     typed DocumentTable (\<lambda>d. doc_id (stored_record d)) (documents st) (recordTypes st) \<and>
     (\<forall>i d. documents st i = Some d \<longrightarrow> document_sound n d) \<and>
     indexed (documents st) (\<lambda>d. Some (stored_scope d)) (ids_at (documentIdsByScope st)) \<and>
     indexed (documents st) (\<lambda>d. Some (stored_address d)) (\<lambda>key. address_ids (address_at st key))"

definition live_at :: "storage_state \<Rightarrow> doc_address \<Rightarrow> int set" where
  "live_at st key =
     {i. \<exists>d. documents st i = Some d \<and> stored_address d = key \<and> doc_retiredAt (stored_record d) = None}"

definition current_exact :: "storage_state \<Rightarrow> bool" where
  "current_exact st \<longleftrightarrow> (\<forall>key i. current_at st key = Some i \<longleftrightarrow> i \<in> live_at st key)"

definition ids_below :: "storage_state \<Rightarrow> bool" where
  "ids_below st \<longleftrightarrow> (\<forall>i. recordTypes st i \<noteq> None \<longrightarrow> i < nextId st)"

text \<open>What every step of an application keeps, and what holds between calls.\<close>

definition tables_sound :: "int \<Rightarrow> storage_state \<Rightarrow> bool" where
  "tables_sound n st \<longleftrightarrow>
     conversations_sound st \<and> entries_sound n st \<and> tasks_sound st \<and> submissions_sound st \<and>
     documents_kept n st \<and> ids_below st"

definition consistent :: "storage_state \<Rightarrow> bool" where
  "consistent st \<longleftrightarrow> tables_sound (nextSeq st) st \<and> current_exact st"

lemmas [sound_defs] = conversations_sound_def entries_sound_def tasks_sound_def submissions_sound_def
  documents_kept_def ids_below_def

lemma consistent_empty: "consistent empty_storage"
  by (simp add: consistent_def tables_sound_def sound_defs empty_storage_def typed_def listed_def indexed_def
      having_def owner_index_def requests_sound_def ids_at_def address_at_def current_exact_def current_at_def
      live_at_def)

subsection \<open>A later sequence\<close>

lemma document_sound_mono: "document_sound m d \<Longrightarrow> m \<le> n \<Longrightarrow> document_sound n d"
  by (force simp: document_sound_def retired_by_def split: option.splits)

lemma tables_sound_mono: "tables_sound m st \<Longrightarrow> m \<le> n \<Longrightarrow> tables_sound n st"
  unfolding tables_sound_def sound_defs by (meson document_sound_mono order_less_le_trans)

subsection \<open>Claiming an id\<close>

lemma typed_other:
  "typed table ident tbl types \<Longrightarrow> types i \<noteq> Some table \<Longrightarrow> typed table ident tbl (types(i \<mapsto> other))"
  by (auto simp: typed_def)

lemma typed_own:
  "typed table ident tbl types \<Longrightarrow> ident r = i \<Longrightarrow> typed table ident (tbl(i \<mapsto> r)) (types(i \<mapsto> table))"
  by (auto simp: typed_def)

lemma typed_fresh: "typed table ident tbl types \<Longrightarrow> types i \<noteq> Some table \<Longrightarrow> tbl i = None"
  by (cases "tbl i") (auto simp: typed_def)

lemma typed_without: "typed table ident tbl types \<Longrightarrow> typed table ident (without tbl gone) types"
  by (auto simp: typed_def)

lemma owner_index_claim:
  "owner_index ix types \<Longrightarrow> types i = None \<or> table = ConversationTable \<or> types i = Some table \<and> table \<noteq> ConversationTable \<Longrightarrow>
   owner_index ix (types(i \<mapsto> table))"
  by (auto simp: owner_index_def)

lemma owner_index_insert:
  assumes "owner_index ix types" "types i = None"
  shows "owner_index (insertMapId ix k i) (types(i \<mapsto> ConversationTable))"
proof -
  have "i \<notin> set (ids_at ix k)" "ascending (ids_at ix k)" using assms by (auto simp: owner_index_def)
  then show ?thesis using assms insertSorted_sound [of "ids_at ix k" i]
    by (auto simp: owner_index_def index_facts)
qed

text \<open>What a claim of an id does to the tables of other kinds.\<close>

lemma claim_id_frame:
  assumes "tables_sound n st" "recordTypes st i = None \<or> recordTypes st i = Some table"
  shows "table \<noteq> ConversationTable \<Longrightarrow> conversations_sound (claim_id i table st)"
    "table \<noteq> EntryTable \<Longrightarrow> entries_sound n (claim_id i table st)"
    "table \<noteq> TaskTable \<Longrightarrow> tasks_sound (claim_id i table st)"
    "table \<noteq> SubmissionTable \<Longrightarrow> submissions_sound (claim_id i table st)"
    "table \<noteq> DocumentTable \<Longrightarrow> documents_kept n (claim_id i table st)"
    "ids_below (claim_id i table st)"
proof -
  show "table \<noteq> ConversationTable \<Longrightarrow> conversations_sound (claim_id i table st)"
    using assms by (auto simp: tables_sound_def conversations_sound_def claim_id_def intro!: typed_other owner_index_claim)
  show "table \<noteq> EntryTable \<Longrightarrow> entries_sound n (claim_id i table st)"
    using assms by (auto simp: tables_sound_def entries_sound_def claim_id_def intro!: typed_other)
  show "table \<noteq> TaskTable \<Longrightarrow> tasks_sound (claim_id i table st)"
    using assms by (auto simp: tables_sound_def tasks_sound_def claim_id_def intro!: typed_other)
  show "table \<noteq> SubmissionTable \<Longrightarrow> submissions_sound (claim_id i table st)"
    using assms by (auto simp: tables_sound_def submissions_sound_def requests_sound_def claim_id_def intro!: typed_other)
  show "table \<noteq> DocumentTable \<Longrightarrow> documents_kept n (claim_id i table st)"
    using assms by (auto simp: tables_sound_def documents_kept_def claim_id_def address_at_def intro!: typed_other)
  show "ids_below (claim_id i table st)"
    using assms(1) by (force simp: tables_sound_def ids_below_def claim_id_def)
qed

subsection \<open>Writing one record\<close>

lemma apply_conversation_sound:
  assumes "tables_sound n st" "recordTypes st (conv_id r) = None"
  shows "tables_sound n (apply_conversation r m st)"
proof -
  let ?i = "conv_id r"
  note c = claim_id_frame [OF assms(1), of ?i ConversationTable]
  have cs: "conversations_sound st" using assms(1) by (simp add: tables_sound_def)
  then have f: "conversations st ?i = None"
    using assms(2) typed_fresh unfolding conversations_sound_def by fastforce
  have a: "typed ConversationTable conv_id ((conversations st)(?i \<mapsto> r)) ((recordTypes st)(?i \<mapsto> ConversationTable))"
    "listed ((conversations st)(?i \<mapsto> r)) (insertSorted (conversationIds st) ?i)"
    "dom ((conversationMeta st)(?i \<mapsto> m)) = dom ((conversations st)(?i \<mapsto> r))"
    using cs f by (auto simp: conversations_sound_def intro: typed_own listed_insert)
  have o: "owner_index (conversationIdsByOwnerConversation st) ((recordTypes st)(?i \<mapsto> ConversationTable))"
    "owner_index (conversationIdsByOwnerTask st) ((recordTypes st)(?i \<mapsto> ConversationTable))"
    "owner_index (insertMapId (conversationIdsByOwnerConversation st) k ?i) ((recordTypes st)(?i \<mapsto> ConversationTable))"
    "owner_index (insertMapId (conversationIdsByOwnerTask st) k ?i) ((recordTypes st)(?i \<mapsto> ConversationTable))" for k
    using cs assms(2) by (simp_all add: conversations_sound_def owner_index_claim owner_index_insert)
  have "conversations_sound (apply_conversation r m st)"
    using a o by (cases "conv_owner r")
      (auto simp: apply_conversation_def Let_def claim_id_def conversations_sound_def split: prod.split)
  moreover have "entries_sound n (apply_conversation r m st)" "tasks_sound (apply_conversation r m st)"
    "submissions_sound (apply_conversation r m st)" "documents_kept n (apply_conversation r m st)"
    "ids_below (apply_conversation r m st)"
    using c assms(2) by (cases "conv_owner r"; simp add: apply_conversation_def Let_def sound_defs requests_sound_def
        address_at_def claim_id_def split: prod.split)+
  ultimately show ?thesis by (simp add: tables_sound_def)
qed

lemma apply_entry_sound:
  assumes "tables_sound n st" "recordTypes st (entry_id r) = None" "s < n"
  shows "tables_sound n (apply_entry s r st)"
proof -
  let ?i = "entry_id r"
  note c = claim_id_frame [OF assms(1), of ?i EntryTable]
  have es: "entries_sound n st" using assms(1) by (simp add: tables_sound_def)
  then have f: "entries st ?i = None" using assms(2) typed_fresh unfolding entries_sound_def by fastforce
  have ix: "indexed (entries st) (\<lambda>r. Some (entry_conversation r)) (ids_at (entryIds st))"
    "indexed (entries st) head_key (ids_at (headEntryIds st))" using es by (simp_all add: entries_sound_def)
  have "indexed ((entries st)(?i \<mapsto> r)) (\<lambda>r. Some (entry_conversation r))
      (ids_at (insertMapId (entryIds st) (entry_conversation r) ?i))"
    "indexed ((entries st)(?i \<mapsto> r)) head_key
      (ids_at (if entry_head r \<noteq> None then insertMapId (headEntryIds st) (entry_conversation r) ?i else headEntryIds st))"
    by (rule indexed_insert [OF ix(1) f], simp add: index_facts)
      (rule indexed_insert [OF ix(2) f], simp add: index_facts head_key_def)
  moreover have "typed EntryTable entry_id ((entries st)(?i \<mapsto> r)) ((recordTypes st)(?i \<mapsto> EntryTable))"
    using es by (auto simp: entries_sound_def intro: typed_own)
  ultimately have "entries_sound n (apply_entry s r st)"
    using es assms(3) by (simp add: apply_entry_def claim_id_def entries_sound_def)
  moreover have "conversations_sound (apply_entry s r st)" "tasks_sound (apply_entry s r st)"
    "submissions_sound (apply_entry s r st)" "documents_kept n (apply_entry s r st)" "ids_below (apply_entry s r st)"
    using c assms(2) by (simp_all add: apply_entry_def sound_defs requests_sound_def address_at_def claim_id_def)
  ultimately show ?thesis by (simp add: tables_sound_def)
qed

lemma apply_task_sound:
  assumes "tables_sound n st" "recordTypes st (task_id r) = None \<or> recordTypes st (task_id r) = Some TaskTable"
  shows "tables_sound n (apply_task r st)"
proof -
  let ?i = "task_id r"
  note c = claim_id_frame [OF assms]
  have ts: "tasks_sound st" using assms(1) by (simp add: tables_sound_def)
  then have "indexed ((tasks st)(?i \<mapsto> r)) (\<lambda>r. Some (task_status r))
      (reindex (taskIdsByStatus st) (map_option task_status (tasks st ?i)) (task_status r) ?i)"
    by (intro indexed_reindex) (simp add: tasks_sound_def)
  moreover have "listed ((tasks st)(?i \<mapsto> r)) (if tasks st ?i = None then insertSorted (taskIds st) ?i else taskIds st)"
    using ts by (auto simp: tasks_sound_def intro: listed_insert listed_replace)
  ultimately have "tasks_sound (apply_task r st)"
    using ts by (simp add: apply_task_def claim_id_def tasks_sound_def typed_own)
  moreover have "conversations_sound (apply_task r st)" "entries_sound n (apply_task r st)"
    "submissions_sound (apply_task r st)" "documents_kept n (apply_task r st)" "ids_below (apply_task r st)"
    using c by (simp_all add: apply_task_def sound_defs requests_sound_def address_at_def claim_id_def)
  ultimately show ?thesis by (simp add: tables_sound_def)
qed

definition requests_of :: "(int \<Rightarrow> (string \<times> int) list option) \<Rightarrow> int \<Rightarrow> string \<Rightarrow> int option" where
  "requests_of requests c key = Option.bind (requests c) (\<lambda>held. map_of held key)"

lemma drop_request_of:
  "requests_of (drop_request previous i requests) c key =
     (case previous of
        None \<Rightarrow> requests_of requests c key
      | Some p \<Rightarrow>
          if sub_conversation p = c \<and> sub_requestId p = Some key \<and> requests_of requests c key = Some i then None
          else requests_of requests c key)"
proof (cases previous)
  case (Some p)
  have "map_of (AList.delete k held) key = None" if "AList.delete k held = []" for k :: string and held :: "(string \<times> int) list"
    using that by simp
  then have e: "AList.delete k held = [] \<Longrightarrow> key = k \<or> map_of held key = None" for k and held :: "(string \<times> int) list"
    by (metis delete_conv' fun_upd_other)
  show ?thesis
    using Some by (auto simp: drop_request_def requests_of_def Let_def delete_conv' split: option.splits)
      (metis e)
qed (simp add: drop_request_def)

lemma add_request_of:
  "requests_of (add_request r requests) c key =
     (if sub_conversation r = c \<and> sub_requestId r = Some key then Some (sub_id r) else requests_of requests c key)"
  by (auto simp: add_request_def requests_of_def update_conv' split: option.splits)

lemma requests_sound_of:
  "requests_sound st \<longleftrightarrow>
     (\<forall>c key i. requests_of (submissionIdsByRequest st) c key = Some i \<longrightarrow>
       (\<exists>r. submissions st i = Some r \<and> sub_conversation r = c \<and> sub_requestId r = Some key))"
  unfolding requests_sound_def requests_of_def by (auto simp: bind_eq_Some_conv)

lemma apply_submission_sound:
  assumes "tables_sound n st" "recordTypes st (sub_id r) = None \<or> recordTypes st (sub_id r) = Some SubmissionTable"
  shows "tables_sound n (apply_submission r st)"
proof -
  let ?i = "sub_id r"
  note c = claim_id_frame [OF assms]
  have ss: "submissions_sound st" using assms(1) by (simp add: tables_sound_def)
  then have "indexed ((submissions st)(?i \<mapsto> r)) (\<lambda>r. Some (sub_status r))
      (reindex (submissionIdsByStatus st) (map_option sub_status (submissions st ?i)) (sub_status r) ?i)"
    by (intro indexed_reindex) (simp add: submissions_sound_def)
  moreover have "listed ((submissions st)(?i \<mapsto> r))
      (if submissions st ?i = None then insertSorted (submissionIds st) ?i else submissionIds st)"
    using ss by (auto simp: submissions_sound_def intro: listed_insert listed_replace)
  moreover have "requests_sound (apply_submission r st)"
    unfolding requests_sound_of
  proof (intro allI impI)
    fix k key j
    assume "requests_of (submissionIdsByRequest (apply_submission r st)) k key = Some j"
    then have "sub_conversation r = k \<and> sub_requestId r = Some key \<and> j = ?i \<or>
        requests_of (drop_request (submissions st ?i) ?i (submissionIdsByRequest st)) k key = Some j"
      by (auto simp: apply_submission_def Let_def claim_id_def add_request_of split: if_splits)
    then show "\<exists>q. submissions (apply_submission r st) j = Some q \<and> sub_conversation q = k \<and> sub_requestId q = Some key"
    proof
      assume d: "requests_of (drop_request (submissions st ?i) ?i (submissionIdsByRequest st)) k key = Some j"
      then have "requests_of (submissionIdsByRequest st) k key = Some j"
        by (auto simp: drop_request_of split: option.splits if_splits)
      then obtain q where q: "submissions st j = Some q" "sub_conversation q = k" "sub_requestId q = Some key"
        using ss unfolding submissions_sound_def requests_sound_of by blast
      have "j \<noteq> ?i" using d q by (auto simp: drop_request_of split: if_splits)
      with q show ?thesis by (simp add: apply_submission_def Let_def claim_id_def)
    qed (simp add: apply_submission_def Let_def claim_id_def)
  qed
  ultimately have "submissions_sound (apply_submission r st)"
    using ss by (simp add: apply_submission_def Let_def claim_id_def submissions_sound_def typed_own)
  moreover have "conversations_sound (apply_submission r st)" "entries_sound n (apply_submission r st)"
    "tasks_sound (apply_submission r st)" "documents_kept n (apply_submission r st)" "ids_below (apply_submission r st)"
    using c by (simp_all add: apply_submission_def Let_def sound_defs address_at_def claim_id_def)
  ultimately show ?thesis by (simp add: tables_sound_def)
qed

subsection \<open>Writing a validated batch\<close>

text \<open>The table a write of a record inserts into during application; documents are written by their actions.\<close>

definition record_claim :: "storage_write \<Rightarrow> (table_name \<times> int) option" where
  "record_claim w =
     (case claims_id w of Some (table, i) \<Rightarrow> if table = DocumentTable then None else Some (table, i) | None \<Rightarrow> None)"

lemma record_claim_simps [simp]:
  "record_claim (WConversation r m) = Some (ConversationTable, conv_id r)"
  "record_claim (WEntry e) = Some (EntryTable, entry_id e)"
  "record_claim (WTask t) = Some (TaskTable, task_id t)"
  "record_claim (WSubmission u) = Some (SubmissionTable, sub_id u)"
  "record_claim (WCreate c v x) = None" "record_claim (WCopy c j pt) = None"
  "record_claim (WChange j content) = None" "record_claim (WRetire j) = None"
  by (simp_all add: record_claim_def)

definition writable :: "storage_state \<Rightarrow> storage_write \<Rightarrow> bool" where
  "writable st w \<longleftrightarrow>
     (case record_claim w of
        None \<Rightarrow> True
      | Some (table, i) \<Rightarrow>
          recordTypes st i = None \<or> \<not> insert_only table \<and> recordTypes st i = Some table)"

lemma apply_write_sound:
  assumes "tables_sound n st" "writable st w" "\<not> is_copy w" "s < n"
  obtains st' where "apply_write s w st = Inr st'" "tables_sound n st'"
    "recordTypes st' = (case record_claim w of None \<Rightarrow> recordTypes st | Some (table, i) \<Rightarrow> (recordTypes st)(i \<mapsto> table))"
    "documents st' = documents st" "documentAddresses st' = documentAddresses st" "nextSeq st' = nextSeq st"
proof (cases w)
  case (WConversation r m)
  with assms have "tables_sound n (apply_conversation r m st)"
    by (intro apply_conversation_sound) (simp_all add: writable_def insert_only_def)
  then show ?thesis using WConversation
    by (intro that [of "apply_conversation r m st"])
      (simp_all add: apply_conversation_def Let_def claim_id_def split: option.split prod.split)
next
  case (WEntry r)
  with assms have "tables_sound n (apply_entry s r st)"
    by (intro apply_entry_sound) (simp_all add: writable_def insert_only_def)
  then show ?thesis using WEntry by (intro that [of "apply_entry s r st"]) (simp_all add: apply_entry_def claim_id_def)
next
  case (WTask r)
  with assms have "tables_sound n (apply_task r st)"
    by (intro apply_task_sound) (simp_all add: writable_def insert_only_def)
  then show ?thesis using WTask by (intro that [of "apply_task r st"]) (simp_all add: apply_task_def claim_id_def)
next
  case (WSubmission r)
  with assms have "tables_sound n (apply_submission r st)"
    by (intro apply_submission_sound) (simp_all add: writable_def insert_only_def)
  then show ?thesis using WSubmission
    by (intro that [of "apply_submission r st"]) (simp_all add: apply_submission_def Let_def claim_id_def)
qed (use assms in \<open>auto intro: that\<close>)

text \<open>The types of the records written so far, on top of those of the state the batch was checked against.\<close>

definition claimed_over ::
  "(int \<Rightarrow> table_name option) \<Rightarrow> (int \<Rightarrow> table_name option) \<Rightarrow> int \<Rightarrow> table_name option" where
  "claimed_over types claimed = (\<lambda>i.
     case claimed i of Some t \<Rightarrow> if t = DocumentTable then types i else Some t | None \<Rightarrow> types i)"

lemma check_claim_writable:
  assumes "check_claim (types i) (claimed i) table i = None" "table \<noteq> DocumentTable"
  shows "claimed_over types claimed i = None \<or> \<not> insert_only table \<and> claimed_over types claimed i = Some table"
  using assms by (auto simp: check_claim_def claimed_over_def insert_only_def split: option.splits if_splits)

lemma check_claim_over:
  assumes "check_claim (types i) (claimed i) table i = None"
  shows "claimed_over types (claimed(i \<mapsto> table)) =
     (if table = DocumentTable then claimed_over types claimed else (claimed_over types claimed)(i \<mapsto> table))"
  using assms by (auto simp: check_claim_def claimed_over_def insert_only_def fun_eq_iff split: option.splits if_splits)

fun claimed_by :: "storage_write list \<Rightarrow> (int \<Rightarrow> table_name option) \<Rightarrow> int \<Rightarrow> table_name option" where
  "claimed_by [] claimed = claimed"
| "claimed_by (w # ws) claimed =
     claimed_by ws (case claims_id w of None \<Rightarrow> claimed | Some (table, i) \<Rightarrow> claimed(i \<mapsto> table))"

text \<open>One write of a validated batch; the batch is a sequence of them.\<close>

definition write_step :: "int \<Rightarrow> storage_state \<Rightarrow> storage_state \<Rightarrow> bool" where
  "write_step s a b \<longleftrightarrow> (\<exists>w. writable a w \<and> apply_write s w a = Inr b)"

lemma apply_writes_sound:
  assumes "check_ids st0 ws claimed = Inr ()" "tables_sound n st" "list_all (\<lambda>w. \<not> is_copy w) ws" "s < n"
    and "recordTypes st = claimed_over (recordTypes st0) claimed"
  shows "\<exists>st'. fold_err (apply_write s) ws st = Inr st' \<and> tables_sound n st' \<and>
     recordTypes st' = claimed_over (recordTypes st0) (claimed_by ws claimed) \<and>
     documents st' = documents st \<and> documentAddresses st' = documentAddresses st \<and> nextSeq st' = nextSeq st \<and>
     rtranclp (write_step s) st st'"
  using assms
proof (induction ws arbitrary: claimed st)
  case (Cons w ws)
  let ?claimed = "case claims_id w of None \<Rightarrow> claimed | Some (table, i) \<Rightarrow> claimed(i \<mapsto> table)"
  have c: "check_ids st0 ws ?claimed = Inr ()"
    using Cons.prems(1) by (auto split: option.splits prod.splits)
  have e: "check_claim (recordTypes st0 i) (claimed i) table i = None" if "claims_id w = Some (table, i)" for table i
    using Cons.prems(1) that by (auto simp: tableContaining_def split: option.splits)
  have nc: "\<not> is_copy w" using Cons.prems(3) by simp
  have wr: "writable st w"
    using e check_claim_writable [of "recordTypes st0" _ claimed] Cons.prems(5)
    by (auto simp: writable_def record_claim_def split: option.splits if_splits)
  obtain st1 where s1: "apply_write s w st = Inr st1" "tables_sound n st1"
      "recordTypes st1 = (case record_claim w of None \<Rightarrow> recordTypes st | Some (table, i) \<Rightarrow> (recordTypes st)(i \<mapsto> table))"
      "documents st1 = documents st" "documentAddresses st1 = documentAddresses st" "nextSeq st1 = nextSeq st"
    by (rule apply_write_sound [OF Cons.prems(2) wr nc Cons.prems(4)])
  have "recordTypes st1 = claimed_over (recordTypes st0) ?claimed"
    using s1(3) Cons.prems(5) check_claim_over [of "recordTypes st0" _ claimed] e
    by (auto simp: record_claim_def split: option.splits)
  then obtain st' where t: "fold_err (apply_write s) ws st1 = Inr st'" "tables_sound n st'"
      "recordTypes st' = claimed_over (recordTypes st0) (claimed_by ws ?claimed)" "documents st' = documents st1"
      "documentAddresses st' = documentAddresses st1" "nextSeq st' = nextSeq st1" "rtranclp (write_step s) st1 st'"
    using Cons.IH [OF c s1(2) _ Cons.prems(4)] Cons.prems(3) by auto
  have "write_step s st st1" unfolding write_step_def using wr s1(1) by blast
  then have "rtranclp (write_step s) st st'" using t(7) by (rule converse_rtranclp_into_rtranclp)
  then show ?case using s1 t by simp
qed auto

text \<open>An id that a batch claims for a document is free, also after its records are written.\<close>

lemma claimed_by_keeps_document:
  assumes "check_ids st0 ws claimed = Inr ()" "claimed i = Some DocumentTable"
  shows "claimed_by ws claimed i = Some DocumentTable"
  using assms
proof (induction ws arbitrary: claimed)
  case (Cons w ws)
  show ?case
  proof (cases "claims_id w")
    case (Some p)
    obtain table j where p: "p = (table, j)" by (cases p)
    have e: "check_claim (recordTypes st0 j) (claimed j) table j = None"
      "check_ids st0 ws (claimed(j \<mapsto> table)) = Inr ()"
      using Cons.prems(1) Some p by (auto simp: tableContaining_def split: option.splits)
    have "i \<noteq> j" using e(1) Cons.prems(2)
      by (auto simp: check_claim_def insert_only_def split: option.splits if_splits)
    with Cons.prems(2) have "claimed_by ws (claimed(j \<mapsto> table)) i = Some DocumentTable"
      by (intro Cons.IH [OF e(2)]) simp
    with Some p show ?thesis by (simp del: fun_upd_apply)
  qed (use Cons in simp)
qed simp

lemma created_id_free:
  assumes "check_ids st0 ws claimed = Inr ()" "WCreate r v x \<in> set ws"
  shows "recordTypes st0 (doc_id r) = None" "claimed_over (recordTypes st0) (claimed_by ws claimed) (doc_id r) = None"
proof -
  have "recordTypes st0 (doc_id r) = None \<and> claimed_by ws claimed (doc_id r) = Some DocumentTable"
    using assms
  proof (induction ws arbitrary: claimed)
    case (Cons w ws)
    show ?case
    proof (cases "w = WCreate r v x")
      case True
      then have e: "check_claim (recordTypes st0 (doc_id r)) (claimed (doc_id r)) DocumentTable (doc_id r) = None"
        "check_ids st0 ws (claimed(doc_id r \<mapsto> DocumentTable)) = Inr ()"
        using Cons.prems(1) by (auto simp: tableContaining_def split: option.splits)
      with claimed_by_keeps_document [OF e(2)] True show ?thesis
        by (auto simp: check_claim_def insert_only_def split: option.splits if_splits)
    next
      case False
      with Cons show ?thesis by (auto split: option.splits prod.splits)
    qed
  qed simp
  then show "recordTypes st0 (doc_id r) = None"
    "claimed_over (recordTypes st0) (claimed_by ws claimed) (doc_id r) = None"
    by (simp_all add: claimed_over_def)
qed

subsection \<open>The actions of a batch\<close>

lemma fold_err_invariant:
  assumes "fold_err f xs s = Inr s'" "P s"
    and "\<And>x s s'. x \<in> set xs \<Longrightarrow> P s \<Longrightarrow> f x s = Inr s' \<Longrightarrow> P s'"
  shows "P s'"
  using assms
proof (induction xs arbitrary: s)
  case (Cons x xs)
  then obtain t where "f x s = Inr t" "fold_err f xs t = Inr s'" by (auto simp: err_bind_Inr)
  with Cons show ?case by (meson list.set_intros)
qed simp

definition actions_of :: "storage_write list \<Rightarrow> document_actions \<Rightarrow> bool" where
  "actions_of ws actions \<longleftrightarrow>
     distinct (map fst actions) \<and>
     (\<forall>i a r. map_of actions i = Some a \<longrightarrow> action_create a = Some r \<longrightarrow>
       doc_id r = i \<and> (\<exists>v x. action_content a = Some (BaseContent v x)) \<and> (\<exists>v x. WCreate r v x \<in> set ws))"

lemma prepare_action_keeps:
  assumes "actions_of ws actions" "w \<in> set ws" "prepare_action w actions = Inr actions'"
  shows "actions_of ws actions'"
proof -
  have d: "distinct (map fst actions)" using assms(1) by (simp add: actions_of_def)
  have "distinct (map fst actions')"
    using assms(3) d by (cases w) (auto simp: Let_def distinct_update split: if_splits)
  moreover have "doc_id r = i \<and> (\<exists>v x. action_content a = Some (BaseContent v x)) \<and> (\<exists>v x. WCreate r v x \<in> set ws)"
    if "map_of actions' i = Some a" "action_create a = Some r" for i a r
  proof -
    have old: "doc_id r = i \<and> (\<exists>v x. action_content b = Some (BaseContent v x)) \<and> (\<exists>v x. WCreate r v x \<in> set ws)"
      if "map_of actions i = Some b" "action_create b = Some r" for b
      using assms(1) that unfolding actions_of_def by blast
    show ?thesis
      using assms that old
      by ((cases w; auto simp: Let_def update_conv' action_for_def split: if_splits option.splits), blast+)
  qed
  ultimately show ?thesis by (simp add: actions_of_def)
qed

lemma prepared_actions:
  assumes "prepareDocumentActions ws = Inr actions"
  shows "actions_of ws actions"
  using assms unfolding prepareDocumentActions_def
  by (rule fold_err_invariant) (auto simp: actions_of_def [of _ "[]"] intro: prepare_action_keeps)

definition action_fits :: "storage_state \<Rightarrow> int \<Rightarrow> document_action \<Rightarrow> bool" where
  "action_fits st i a \<longleftrightarrow>
     (case action_create a of
        Some r \<Rightarrow>
          documents st i = None \<and> recordTypes st i = None \<and> doc_id r = i \<and>
          (\<exists>v x. action_content a = Some (BaseContent v x))
      | None \<Rightarrow>
          (\<exists>d. documents st i = Some d \<and> doc_retiredAt (stored_record d) = None \<and>
            (\<forall>v ops. action_content a = Some (DeltaContent v ops) \<longrightarrow>
              stored_revisions d \<noteq> [] \<and> content_version (fst (last (stored_revisions d))) = v)))"

text \<open>The stored document an action leaves.\<close>

definition acted :: "int \<Rightarrow> document_action \<Rightarrow> stored_document_state option \<Rightarrow> stored_document_state" where
  "acted s a existing =
     (let d =
        (case action_create a of
           Some r \<Rightarrow>
             \<lparr>stored_record = stamp_record r s (action_retire a),
              stored_revisions = (case action_content a of None \<Rightarrow> [] | Some content \<Rightarrow> [(content, s)])\<rparr>
         | None \<Rightarrow> (case action_content a of None \<Rightarrow> the existing | Some content \<Rightarrow> add_revision content s (the existing)))
      in if action_retire a then retire_document s (action_create a \<noteq> None) d else d)"

lemma stamp_record_simps [simp]:
  "doc_id (stamp_record r s b) = doc_id r" "doc_kind (stamp_record r s b) = doc_kind r"
  "doc_key (stamp_record r s b) = doc_key r" "doc_scope (stamp_record r s b) = doc_scope r"
  "doc_history (stamp_record r s b) = doc_history r" "doc_fork (stamp_record r s b) = doc_fork r"
  "doc_createdAt (stamp_record r s b) = s" "doc_retiredAt (stamp_record r s b) = (if b then Some s else None)"
  by (cases r; simp add: stamp_record_def document_create.extend_def document_record.fields_def)+

lemma recordAddressKey_stamp [simp]: "recordAddressKey (stamp_record r s b) = recordAddressKey r"
  by (simp add: recordAddressKey_def)

lemma add_revision_record [simp]: "stored_record (add_revision content s d) = stored_record d"
  by (simp add: add_revision_def)

lemma isCurrentOnly_retired [simp]: "isCurrentOnly (r\<lparr>doc_retiredAt := t\<rparr>) = isCurrentOnly (r :: document_record)"
  by (simp add: isCurrentOnly_def split: doc_scope.split)

lemma recordAddressKey_retired [simp]: "recordAddressKey (r\<lparr>doc_retiredAt := t\<rparr>) = recordAddressKey (r :: document_record)"
  by (simp add: recordAddressKey_def)

lemma isCurrentOnly_stamp [simp]: "isCurrentOnly (stamp_record r s b) = isCurrentOnly r"
  by (simp add: isCurrentOnly_def split: doc_scope.split)

lemma retire_record:
  "stored_record (retire_document s created d) =
     (if created then stored_record d else (stored_record d)\<lparr>doc_retiredAt := Some s\<rparr>)"
  "stored_revisions (retire_document s created d) = (if isCurrentOnly (stored_record d) then [] else stored_revisions d)"
  by (auto simp: retire_document_def Let_def)

lemma acted_record:
  "stored_record (acted s a existing) =
     (case action_create a of
        Some r \<Rightarrow> stamp_record r s (action_retire a)
      | None \<Rightarrow>
          (if action_retire a then (stored_record (the existing))\<lparr>doc_retiredAt := Some s\<rparr>
           else stored_record (the existing)))"
  by (auto simp: acted_def Let_def retire_record split: option.splits)

lemma acted_address:
  "stored_address (acted s a existing) =
     (case action_create a of Some r \<Rightarrow> recordAddressKey r | None \<Rightarrow> stored_address (the existing))"
  by (simp add: stored_address_def acted_record split: option.split)

lemma current_at_address: "current_at st key = address_current (address_at st key)"
  by (simp add: current_at_def address_at_def split: option.split)

lemma version_chain_append:
  "version_chain v (revisions @ [(content, s)]) \<longleftrightarrow>
     version_chain v revisions \<and>
     (is_base content \<or> content_version content =
        (if revisions = [] then v else content_version (fst (last revisions))))"
  by (induction v revisions rule: version_chain.induct) (cases content; auto simp: is_base_def)+

lemma version_chain_single:
  "version_chain v [(content, s)] \<longleftrightarrow> is_base content \<or> content_version content = v"
  by (cases content) (auto simp: is_base_def)

lemma based_append:
  assumes "based revisions"
  shows "based (revisions @ [(content, s)]) \<longleftrightarrow>
     is_base content \<or> content_version content = content_version (fst (last revisions))"
  using assms by (auto simp: based_def version_chain_append version_chain_single split: list.splits prod.splits document_content.splits)

lemma document_sound_seq:
  assumes "document_sound s d" "p \<in> set (stored_revisions d)"
  shows "snd p < s"
  using assms by (simp add: document_sound_def)

lemma add_revision_sound:
  assumes "document_sound s d" "doc_retiredAt (stored_record d) = None"
    and "\<And>v ops. content = DeltaContent v ops \<Longrightarrow> content_version (fst (last (stored_revisions d))) = v"
  shows "document_sound (s + 1) (add_revision content s d)"
proof -
  let ?d = "add_revision content s d"
  have b: "based (stored_revisions d)" using assms(1,2) by (simp add: document_sound_def)
  then have ne: "stored_revisions d \<noteq> []" by (auto simp: based_def)
  have c: "doc_createdAt (stored_record d) < s" using assms(1) by (simp add: document_sound_def)
  have v: "is_base content \<or> content_version content = content_version (fst (last (stored_revisions d)))"
    using assms(3) by (cases content) (auto simp: is_base_def)
  have "based (stored_revisions ?d)"
    using based_append [OF b, of content s] v
    by (auto simp: add_revision_def based_def is_base_def split: document_content.splits)
  moreover have "sorted_wrt (<) (map snd (stored_revisions ?d))"
    using assms(1) by (auto simp: add_revision_def document_sound_def sorted_wrt_append)
  moreover have "\<forall>p \<in> set (stored_revisions ?d). doc_createdAt (stored_record d) \<le> snd p \<and> snd p < s + 1"
  proof -
    have "\<forall>p \<in> set (stored_revisions d). doc_createdAt (stored_record d) \<le> snd p \<and> snd p < s"
      using assms(1) by (simp add: document_sound_def)
    moreover have "set (stored_revisions ?d) \<subseteq> insert (content, s) (set (stored_revisions d))"
      by (auto simp: add_revision_def)
    ultimately show ?thesis using c by (metis insertE order_less_imp_le order_less_le_trans order_refl prod.sel(2)
          subsetD zless_add1_eq)
  qed
  moreover have "\<not> isCurrentOnly (stored_record d) \<Longrightarrow> snd (hd (stored_revisions ?d)) = doc_createdAt (stored_record d)"
    using assms(1,2) ne by (simp add: add_revision_def document_sound_def)
  ultimately show ?thesis using assms(2) c by (simp add: document_sound_def retired_by_def)
qed

lemma retire_sound:
  assumes "document_sound n d" "doc_retiredAt (stored_record d) = None" "doc_createdAt (stored_record d) \<le> s" "s < n"
  shows "document_sound n (retire_document s False d)"
  using assms by (simp add: document_sound_def retire_record retired_by_def)

lemma acted_sound:
  assumes "action_fits st i a" "\<And>d. documents st i = Some d \<Longrightarrow> document_sound s d"
  shows "document_sound (s + 1) (acted s a (documents st i))"
proof (cases "action_create a")
  case (Some r)
  with assms(1) obtain v x where "action_content a = Some (BaseContent v x)" by (auto simp: action_fits_def)
  with Some show ?thesis
    by (simp add: acted_def Let_def document_sound_def retire_record retired_by_def based_def)
next
  case None
  with assms(1) obtain d where d: "documents st i = Some d" "doc_retiredAt (stored_record d) = None"
    and v: "\<And>v ops. action_content a = Some (DeltaContent v ops) \<Longrightarrow>
      content_version (fst (last (stored_revisions d))) = v" by (auto simp: action_fits_def)
  have ds: "document_sound s d" by (rule assms(2) [OF d(1)])
  let ?d = "case action_content a of None \<Rightarrow> d | Some content \<Rightarrow> add_revision content s d"
  have "document_sound (s + 1) ?d"
    using document_sound_mono [OF ds, of "s + 1"] add_revision_sound [OF ds d(2)] v by (auto split: option.split)
  moreover have "stored_record ?d = stored_record d" by (simp split: option.split)
  moreover have "doc_createdAt (stored_record d) < s" using ds by (simp add: document_sound_def)
  ultimately have "document_sound (s + 1) (retire_document s False ?d)"
    using d(2) by (intro retire_sound) simp_all
  with \<open>document_sound (s + 1) ?d\<close> None d(1) show ?thesis by (auto simp: acted_def Let_def split: option.splits)
qed

text \<open>The current incarnation of the action's address, after the action.\<close>

definition current_after :: "int \<Rightarrow> document_action \<Rightarrow> int option \<Rightarrow> int option" where
  "current_after i a cur =
     (if action_create a \<noteq> None \<and> \<not> action_retire a then Some i
      else if action_retire a \<and> cur = Some i then None else cur)"

lemma move_current_simps [simp]:
  "address_ids (move_current i a ix) = address_ids ix"
  "address_current (move_current i a ix) = current_after i a (address_current ix)"
  by (simp_all add: move_current_def current_after_def Let_def)

lemma address_at_upd:
  "address_at (st\<lparr>documentAddresses := (documentAddresses st)(key \<mapsto> ix)\<rparr>) k = (if k = key then ix else address_at st k)"
  by (simp add: address_at_def)

text \<open>An action runs on a state it fits, and this is all it changes.\<close>

lemma apply_action_runs:
  assumes "documents_kept n st" "action_fits st i a"
  obtains adr scp where
    "apply_action s (i, a) st =
       Inr ((if action_create a = None then st else claim_id i DocumentTable st)
         \<lparr>documents := (documents st)(i \<mapsto> acted s a (documents st i)), documentAddresses := adr,
          documentIdsByScope := scp\<rparr>)"
    "\<And>key. address_ids (address_at (st\<lparr>documentAddresses := adr\<rparr>) key) =
       (if action_create a \<noteq> None \<and> key = stored_address (acted s a (documents st i))
        then insertSorted (address_ids (address_at st key)) i else address_ids (address_at st key))"
    "\<And>key. current_at (st\<lparr>documentAddresses := adr\<rparr>) key =
       (if key = stored_address (acted s a (documents st i)) then current_after i a (current_at st key)
        else current_at st key)"
    "\<And>k. ids_at scp k =
       (if action_create a \<noteq> None \<and> k = stored_scope (acted s a (documents st i))
        then insertSorted (ids_at (documentIdsByScope st) k) i else ids_at (documentIdsByScope st) k)"
proof (cases "action_create a")
  case (Some r)
  let ?key = "recordAddressKey r"
  let ?ix = "(address_at st ?key)\<lparr>address_ids := insertSorted (address_ids (address_at st ?key)) i\<rparr>"
  let ?adr = "(documentAddresses st)(?key \<mapsto> move_current i a ?ix)"
  have k: "stored_address (acted s a (documents st i)) = ?key" "stored_scope (acted s a (documents st i)) = doc_scope r"
    using Some by (simp_all add: acted_address stored_scope_def acted_record)
  show ?thesis
  proof (rule that [where adr = ?adr and scp = "insertMapId (documentIdsByScope st) (doc_scope r) i"])
    show "apply_action s (i, a) st =
       Inr ((if action_create a = None then st else claim_id i DocumentTable st)
         \<lparr>documents := (documents st)(i \<mapsto> acted s a (documents st i)), documentAddresses := ?adr,
          documentIdsByScope := insertMapId (documentIdsByScope st) (doc_scope r) i\<rparr>)"
      using Some by (simp add: create_document_def Let_def acted_def retire_document_def claim_id_def)
  qed (use Some k in \<open>auto simp: address_at_upd current_at_address index_facts\<close>)
next
  case None
  with assms(2) obtain d where d: "documents st i = Some d" by (auto simp: action_fits_def)
  let ?key = "stored_address d"
  have "indexed (documents st) (\<lambda>d. Some (stored_address d)) (\<lambda>key. address_ids (address_at st key))"
    using assms(1) by (simp add: documents_kept_def)
  then have "i \<in> set (address_ids (address_at st ?key))"
    using d indexed_set [where ix = "\<lambda>key. address_ids (address_at st key)"] by (fastforce simp: having_def)
  then obtain ix where ix: "documentAddresses st ?key = Some ix"
    by (cases "documentAddresses st ?key") (simp_all add: address_at_def)
  then have at: "address_at st ?key = ix" by (simp add: address_at_def)
  have k: "stored_address (acted s a (documents st i)) = ?key" using None d by (simp add: acted_address)
  let ?adr = "if action_retire a then (documentAddresses st)(?key \<mapsto> move_current i a ix) else documentAddresses st"
  have r: "recordAddressKey (stored_record d) = ?key" by (simp add: stored_address_def)
  show ?thesis
  proof (rule that [where adr = ?adr and scp = "documentIdsByScope st"])
    show "apply_action s (i, a) st =
       Inr ((if action_create a = None then st else claim_id i DocumentTable st)
         \<lparr>documents := (documents st)(i \<mapsto> acted s a (documents st i)), documentAddresses := ?adr,
          documentIdsByScope := documentIdsByScope st\<rparr>)"
      using None d ix r fun_upd_idem [of "documents st" i "Some d"]
      by (cases "action_content a"; cases "action_retire a") (simp_all add: acted_def retire_record)
  qed (use None k at in \<open>auto simp: address_at_upd current_at_address current_after_def\<close>)
qed

lemma acted_id:
  assumes "action_fits st i a" "typed DocumentTable (\<lambda>d. doc_id (stored_record d)) (documents st) types"
  shows "doc_id (stored_record (acted s a (documents st i))) = i"
  using assms by (auto simp: action_fits_def acted_record typed_def split: option.splits)

lemma apply_action_sound:
  assumes "tables_sound (s + 1) st" "action_fits st i a" "\<And>d. documents st i = Some d \<Longrightarrow> document_sound s d"
  obtains st' where "apply_action s (i, a) st = Inr st'" "tables_sound (s + 1) st'"
    "documents st' = (documents st)(i \<mapsto> acted s a (documents st i))"
    "\<And>j. j \<noteq> i \<Longrightarrow> recordTypes st' j = recordTypes st j"
    "\<And>key. current_at st' key =
       (if key = stored_address (acted s a (documents st i)) then current_after i a (current_at st key)
        else current_at st key)"
    "nextSeq st' = nextSeq st"
proof -
  let ?d = "acted s a (documents st i)"
  have dk: "documents_kept (s + 1) st" using assms(1) by (simp add: tables_sound_def)
  obtain adr scp where r: "apply_action s (i, a) st =
       Inr ((if action_create a = None then st else claim_id i DocumentTable st)
         \<lparr>documents := (documents st)(i \<mapsto> ?d), documentAddresses := adr, documentIdsByScope := scp\<rparr>)"
    and ad: "\<And>key. address_ids (address_at (st\<lparr>documentAddresses := adr\<rparr>) key) =
       (if action_create a \<noteq> None \<and> key = stored_address ?d
        then insertSorted (address_ids (address_at st key)) i else address_ids (address_at st key))"
    and cu: "\<And>key. current_at (st\<lparr>documentAddresses := adr\<rparr>) key =
       (if key = stored_address ?d then current_after i a (current_at st key) else current_at st key)"
    and sc: "\<And>k. ids_at scp k =
       (if action_create a \<noteq> None \<and> k = stored_scope ?d
        then insertSorted (ids_at (documentIdsByScope st) k) i else ids_at (documentIdsByScope st) k)"
    by (rule apply_action_runs [OF dk assms(2)]) blast
  let ?base = "if action_create a = None then st else claim_id i DocumentTable st"
  let ?st = "?base\<lparr>documents := (documents st)(i \<mapsto> ?d), documentAddresses := adr, documentIdsByScope := scp\<rparr>"
  have fresh: "action_create a \<noteq> None \<Longrightarrow> recordTypes st i = None \<and> documents st i = None"
    using assms(2) by (auto simp: action_fits_def)
  have types: "recordTypes ?st i = Some DocumentTable" "\<And>j. j \<noteq> i \<Longrightarrow> recordTypes ?st j = recordTypes st j"
    using assms(2) dk by (auto simp: claim_id_def action_fits_def documents_kept_def typed_def split: option.splits)
  have ix: "indexed (documents st) (\<lambda>d. Some (stored_scope d)) (ids_at (documentIdsByScope st))"
    "indexed (documents st) (\<lambda>d. Some (stored_address d)) (\<lambda>key. address_ids (address_at st key))"
    and ty: "typed DocumentTable (\<lambda>d. doc_id (stored_record d)) (documents st) (recordTypes st)"
    and so: "\<And>j d. documents st j = Some d \<Longrightarrow> document_sound (s + 1) d"
    using dk by (simp_all add: documents_kept_def)
  have ix': "indexed ((documents st)(i \<mapsto> ?d)) (\<lambda>d. Some (stored_scope d)) (ids_at scp)"
    "indexed ((documents st)(i \<mapsto> ?d)) (\<lambda>d. Some (stored_address d))
      (\<lambda>key. address_ids (address_at (st\<lparr>documentAddresses := adr\<rparr>) key))"
  proof -
    show "indexed ((documents st)(i \<mapsto> ?d)) (\<lambda>d. Some (stored_scope d)) (ids_at scp)"
    proof (cases "action_create a")
      case None
      with assms(2) obtain d where d: "documents st i = Some d" by (auto simp: action_fits_def)
      then have "Some (stored_scope d) = Some (stored_scope ?d)" using None by (simp add: stored_scope_def acted_record)
      moreover have "ids_at scp = ids_at (documentIdsByScope st)" using sc None by (simp add: fun_eq_iff)
      ultimately show ?thesis using indexed_replace [OF ix(1) d] by simp
    next
      case (Some r)
      then show ?thesis using fresh sc by (intro indexed_insert [OF ix(1)]) auto
    qed
    show "indexed ((documents st)(i \<mapsto> ?d)) (\<lambda>d. Some (stored_address d))
      (\<lambda>key. address_ids (address_at (st\<lparr>documentAddresses := adr\<rparr>) key))"
    proof (cases "action_create a")
      case None
      with assms(2) obtain d where d: "documents st i = Some d" by (auto simp: action_fits_def)
      then have "Some (stored_address d) = Some (stored_address ?d)" using None by (simp add: acted_address)
      then show ?thesis using indexed_replace [OF ix(2) d] ad None by simp
    next
      case (Some r)
      then show ?thesis using fresh ad by (intro indexed_insert [OF ix(2)]) auto
    qed
  qed
  have addr: "address_at ?st key = address_at (st\<lparr>documentAddresses := adr\<rparr>) key" for key by (simp add: address_at_def)
  have cur: "current_at ?st key = current_at (st\<lparr>documentAddresses := adr\<rparr>) key" for key by (simp add: current_at_def)
  have ty': "typed DocumentTable (\<lambda>d. doc_id (stored_record d)) (documents ?st) (recordTypes ?st)"
    unfolding typed_def
  proof (intro allI impI)
    fix j d assume j: "documents ?st j = Some d"
    show "doc_id (stored_record d) = j \<and> recordTypes ?st j = Some DocumentTable"
    proof (cases "j = i")
      case True
      have "d = ?d" using j True by simp
      with True types(1) acted_id [OF assms(2) ty] show ?thesis by simp
    next
      case False
      with j have "documents st j = Some d" by simp
      with ty types(2) [OF False] show ?thesis by (simp add: typed_def)
    qed
  qed
  have so': "document_sound (s + 1) d" if "documents ?st j = Some d" for j d
    using that so acted_sound [OF assms(2,3)] by (cases "j = i") simp_all
  have dk': "documents_kept (s + 1) ?st"
    using ty' so' ix' unfolding documents_kept_def addr by simp
  have rest: "conversations_sound ?base" "entries_sound (s + 1) ?base" "tasks_sound ?base" "submissions_sound ?base"
    "ids_below ?base"
    using assms(1) fresh claim_id_frame [OF assms(1), of i DocumentTable] by (auto simp: tables_sound_def)
  then have "conversations_sound ?st" "entries_sound (s + 1) ?st" "tasks_sound ?st" "submissions_sound ?st" "ids_below ?st"
    by (simp_all add: conversations_sound_def entries_sound_def tasks_sound_def submissions_sound_def
        requests_sound_def ids_below_def)
  with dk' have "tables_sound (s + 1) ?st" by (simp add: tables_sound_def)
  then show ?thesis using r types(2) cu cur by (intro that [of ?st]) (simp_all add: claim_id_def)
qed

end
