(* ===== verification/Storage_Kept.thy ===== *)
theory Storage_Kept
  imports Storage_Sound
begin

text \<open>
  One live incarnation per address through a batch of document actions, and from it the preservation
  of the storage invariant by commits.
\<close>

subsection \<open>The live incarnations a batch leaves\<close>

definition creates_here :: "doc_address \<Rightarrow> document_action \<Rightarrow> bool" where
  "creates_here key a \<longleftrightarrow>
     (\<exists>r. action_create a = Some r \<and> recordAddressKey r = key) \<and> \<not> action_retire a"

definition retires_old :: "document_action \<Rightarrow> bool" where
  "retires_old a \<longleftrightarrow> action_create a = None \<and> action_retire a"

definition to_live :: "storage_state \<Rightarrow> document_actions \<Rightarrow> doc_address \<Rightarrow> int set" where
  "to_live st actions key =
     {i \<in> live_at st key. \<not> (\<exists>a. (i, a) \<in> set actions \<and> retires_old a)} \<union>
     {i. \<exists>a. (i, a) \<in> set actions \<and> creates_here key a}"

definition at_most_one :: "int set \<Rightarrow> bool" where
  "at_most_one ls \<longleftrightarrow> (\<forall>i j. i \<in> ls \<longrightarrow> j \<in> ls \<longrightarrow> i = j)"

text \<open>Halfway through a batch: the current incarnation is live, and is the one that will stay live.\<close>

definition current_good :: "storage_state \<Rightarrow> document_actions \<Rightarrow> bool" where
  "current_good st actions \<longleftrightarrow>
     (\<forall>key i. current_at st key = Some i \<longrightarrow> i \<in> live_at st key) \<and>
     (\<forall>key i. i \<in> live_at st key \<longrightarrow> \<not> (\<exists>a. (i, a) \<in> set actions \<and> retires_old a) \<longrightarrow> current_at st key = Some i)"

lemma live_step:
  assumes "action_fits st i a" "documents st' = (documents st)(i \<mapsto> acted s a (documents st i))"
  shows "live_at st' key =
     (if creates_here key a then insert i (live_at st key)
      else if retires_old a then live_at st key - {i} else live_at st key)"
proof (cases "action_create a")
  case (Some r)
  with assms(1) have "documents st i = None" by (simp add: action_fits_def)
  with Some assms(2) show ?thesis
    by (auto simp: live_at_def acted_address acted_record creates_here_def retires_old_def)
next
  case None
  with assms(1) obtain d where "documents st i = Some d" "doc_retiredAt (stored_record d) = None"
    by (auto simp: action_fits_def)
  with None assms(2) show ?thesis
    by (auto simp: live_at_def acted_address acted_record creates_here_def retires_old_def)
qed

lemma live_address:
  assumes "i \<in> live_at st key"
  obtains d where "documents st i = Some d" "stored_address d = key"
  using assms by (auto simp: live_at_def)

lemma to_live_step:
  assumes "action_fits st i a" "documents st' = (documents st)(i \<mapsto> acted s a (documents st i))"
    and "i \<notin> fst ` set actions"
  shows "to_live st' actions key = to_live st ((i, a) # actions) key"
proof -
  have n: "\<not> ((i, b) \<in> set actions)" for b using assms(3) by force
  have f: "action_create a \<noteq> None \<Longrightarrow> i \<notin> live_at st key"
    using assms(1) by (auto simp: action_fits_def live_at_def)
  show ?thesis
    unfolding to_live_def live_step [OF assms(1,2)]
    using n f by (auto simp: creates_here_def retires_old_def)
qed

lemma current_step:
  assumes "action_fits st i a" "documents st' = (documents st)(i \<mapsto> acted s a (documents st i))"
    and "\<And>key. current_at st' key =
       (if key = stored_address (acted s a (documents st i)) then current_after i a (current_at st key)
        else current_at st key)"
    and "i \<notin> fst ` set actions" "current_good st ((i, a) # actions)"
    and "\<And>key. at_most_one (to_live st ((i, a) # actions) key)"
  shows "current_good st' actions"
proof -
  let ?key = "stored_address (acted s a (documents st i))"
  note live = live_step [OF assms(1,2)]
  have good: "\<And>key i. current_at st key = Some i \<Longrightarrow> i \<in> live_at st key"
    "\<And>key j. j \<in> live_at st key \<Longrightarrow> \<not> (\<exists>b. (j, b) \<in> set ((i, a) # actions) \<and> retires_old b) \<Longrightarrow> current_at st key = Some j"
    using assms(5) unfolding current_good_def by blast+
  have here: "creates_here key a \<Longrightarrow> key = ?key" for key
    by (auto simp: creates_here_def acted_address)
  have old: "retires_old a \<Longrightarrow> i \<in> live_at st key \<Longrightarrow> key = ?key" for key
    by (auto simp: retires_old_def acted_address live_at_def)
  have fresh: "action_create a \<noteq> None \<Longrightarrow> i \<notin> live_at st key" for key
    using assms(1) by (auto simp: action_fits_def live_at_def)
  have after: "current_after i a cur = (if creates_here ?key a then Some i
      else if action_retire a \<and> cur = Some i then None else cur)" for cur
    by (auto simp: current_after_def creates_here_def acted_address)
  show ?thesis
    unfolding current_good_def
  proof (intro conjI allI impI)
    fix key j assume "current_at st' key = Some j"
    then have c: "(if key = ?key then current_after i a (current_at st key) else current_at st key) = Some j"
      by (simp only: assms(3))
    show "j \<in> live_at st' key"
    proof (cases "creates_here key a")
      case True
      with c here [OF True] show ?thesis by (simp add: live after)
    next
      case False
      have j: "current_at st key = Some j" "\<not> (key = ?key \<and> action_retire a \<and> j = i)"
        using c False by (auto simp: after split: if_splits)
      have l: "j \<in> live_at st key" by (rule good(1) [OF j(1)])
      have "\<not> (retires_old a \<and> j = i)"
      proof
        assume r: "retires_old a \<and> j = i"
        then have "key = ?key" using old l by blast
        with r j(2) show False by (simp add: retires_old_def)
      qed
      with l False show ?thesis by (auto simp: live)
    qed
  next
    fix key j
    assume j: "j \<in> live_at st' key" "\<not> (\<exists>b. (j, b) \<in> set actions \<and> retires_old b)"
    show "current_at st' key = Some j"
    proof (cases "creates_here key a")
      case True
      then have k: "key = ?key" by (rule here)
      have "i \<in> to_live st ((i, a) # actions) key" using True by (auto simp: to_live_def)
      moreover have "j \<in> to_live st ((i, a) # actions) key"
        using j True by (auto simp: to_live_def live creates_here_def retires_old_def)
      ultimately have "j = i" using assms(6) [of key] by (auto simp: at_most_one_def)
      with True k show ?thesis by (simp add: assms(3) after)
    next
      case False
      have l: "j \<in> live_at st key" "retires_old a \<Longrightarrow> j \<noteq> i"
        using j(1) False by (auto simp: live split: if_splits)
      have c: "current_at st key = Some j"
        by (rule good(2) [OF l(1)]) (use l(2) j(2) in auto)
      have "action_retire a \<Longrightarrow> j \<noteq> i" using l fresh [of key] by (cases "action_create a") (auto simp: retires_old_def)
      with c False show ?thesis by (auto simp: assms(3) after)
    qed
  qed
qed

text \<open>One document action of a validated batch.\<close>

definition action_step :: "int \<Rightarrow> storage_state \<Rightarrow> storage_state \<Rightarrow> bool" where
  "action_step s a b \<longleftrightarrow>
     (\<exists>i act. documents_kept (s + 1) a \<and> action_fits a i act \<and> apply_action s (i, act) a = Inr b)"

lemma apply_actions_sound:
  assumes "tables_sound (s + 1) st" "distinct (map fst actions)"
    and "\<forall>(i, a) \<in> set actions. action_fits st i a \<and> (\<forall>d. documents st i = Some d \<longrightarrow> document_sound s d)"
    and "current_good st actions" "\<And>key. at_most_one (to_live st actions key)"
  shows "\<exists>st'. fold_err (apply_action s) actions st = Inr st' \<and> tables_sound (s + 1) st' \<and> current_exact st' \<and>
     nextSeq st' = nextSeq st \<and> rtranclp (action_step s) st st'"
  using assms
proof (induction actions arbitrary: st)
  case Nil
  then have "current_exact st" unfolding current_exact_def current_good_def by (metis empty_iff empty_set)
  with Nil show ?case by simp
next
  case (Cons p actions)
  obtain i a where p: "p = (i, a)" by (cases p)
  have n: "i \<notin> fst ` set actions" using Cons.prems(2) p by simp
  have f: "action_fits st i a" "\<And>d. documents st i = Some d \<Longrightarrow> document_sound s d" using Cons.prems(3) p by auto
  obtain st1 where s1: "apply_action s (i, a) st = Inr st1" "tables_sound (s + 1) st1"
    "documents st1 = (documents st)(i \<mapsto> acted s a (documents st i))"
    "\<And>j. j \<noteq> i \<Longrightarrow> recordTypes st1 j = recordTypes st j"
    "\<And>key. current_at st1 key =
       (if key = stored_address (acted s a (documents st i)) then current_after i a (current_at st key)
        else current_at st key)"
    "nextSeq st1 = nextSeq st"
    by (rule apply_action_sound [OF Cons.prems(1) f], assumption) (rule that)
  have A: "\<forall>(j, b) \<in> set actions. action_fits st1 j b \<and> (\<forall>d. documents st1 j = Some d \<longrightarrow> document_sound s d)"
  proof safe
    fix j b assume jb: "(j, b) \<in> set actions"
    with n have "j \<noteq> i" by force
    then have e: "documents st1 j = documents st j" "recordTypes st1 j = recordTypes st j" using s1(3,4) by simp_all
    have o: "action_fits st j b" "\<And>d. documents st j = Some d \<Longrightarrow> document_sound s d" using Cons.prems(3) jb by auto
    then show "action_fits st1 j b" unfolding action_fits_def e by blast
    show "\<And>d. documents st1 j = Some d \<Longrightarrow> document_sound s d" using o(2) e(1) by simp
  qed
  have B: "current_good st1 actions"
    using Cons.prems(4,5) unfolding p by (rule current_step [OF f(1) s1(3,5) n])
  have C: "at_most_one (to_live st1 actions key)" for key
    using Cons.prems(5) [of key] unfolding p to_live_step [OF f(1) s1(3) n] .
  have D: "distinct (map fst actions)" using Cons.prems(2) by simp
  obtain st' where "fold_err (apply_action s) actions st1 = Inr st'" "tables_sound (s + 1) st'" "current_exact st'"
    "nextSeq st' = nextSeq st1" and r: "rtranclp (action_step s) st1 st'"
    using Cons.IH [OF s1(2) D A B C] by blast
  moreover have "fold_err (apply_action s) (p # actions) st = fold_err (apply_action s) actions st1"
    unfolding p fold_err.simps s1(1) err_bind.simps ..
  moreover have "rtranclp (action_step s) st st'"
  proof (rule converse_rtranclp_into_rtranclp [OF _ r])
    have "documents_kept (s + 1) st" using Cons.prems(1) by (simp add: tables_sound_def)
    then show "action_step s st st1" unfolding action_step_def using f(1) s1(1) by blast
  qed
  ultimately show ?case using s1(6) by metis
qed

subsection \<open>What the check of a batch establishes\<close>

definition counted :: "storage_state \<Rightarrow> (doc_address \<times> int) list \<Rightarrow> doc_address \<Rightarrow> int" where
  "counted st live key =
     (case map_of live key of Some n \<Rightarrow> n | None \<Rightarrow> if current_at st key = None then 0 else 1)"

definition create_count :: "doc_address \<Rightarrow> document_actions \<Rightarrow> nat" where
  "create_count key actions = length (filter (\<lambda>(i, a). creates_here key a) actions)"

definition retires_current :: "storage_state \<Rightarrow> doc_address \<Rightarrow> document_actions \<Rightarrow> bool" where
  "retires_current st key actions \<longleftrightarrow>
     (\<exists>i a. (i, a) \<in> set actions \<and> action_retire a \<and> current_at st key = Some i \<and>
       action_address (documents st i) a = Some key)"

lemma check_action_counts:
  assumes "check_action st (i, a) live = Inr live'"
  shows "check_existing i (documents st i) a = Inr ()"
    "counted st live' key =
       counted st live key
       - (if action_retire a \<and> current_at st key = Some i \<and> action_address (documents st i) a = Some key then 1 else 0)
       + (if creates_here key a then 1 else 0)"
proof -
  obtain k where k: "check_existing i (documents st i) a = Inr ()" "action_address (documents st i) a = Some k"
    "live' = AList.update k (count_live (current_at st k) i a (map_of live k)) live"
    using assms by (auto simp: err_bind_Inr split: option.splits)
  show "check_existing i (documents st i) a = Inr ()" by (rule k(1))
  have c: "creates_here key a \<longleftrightarrow> key = k \<and> action_create a \<noteq> None \<and> \<not> action_retire a"
    using k(2) by (auto simp: creates_here_def action_address_def split: option.splits)
  show "counted st live' key =
       counted st live key
       - (if action_retire a \<and> current_at st key = Some i \<and> action_address (documents st i) a = Some key then 1 else 0)
       + (if creates_here key a then 1 else 0)"
    unfolding c k(2) k(3) counted_def by (auto simp: update_conv' count_live_def split: option.split)
qed

lemma check_actions_count:
  assumes "fold_err (check_action st) actions live = Inr live'" "distinct (map fst actions)"
  shows "counted st live' key =
     counted st live key - (if retires_current st key actions then 1 else 0) + int (create_count key actions)"
    and "\<forall>(i, a) \<in> set actions. check_existing i (documents st i) a = Inr ()"
  using assms
proof (induction actions arbitrary: live)
  case Nil
  { case 1 then show ?case by (simp add: retires_current_def create_count_def) }
  { case 2 then show ?case by simp }
next
  case (Cons p actions)
  obtain i a where p: "p = (i, a)" by (cases p)
  { case 1
    then obtain live1 where l: "check_action st (i, a) live = Inr live1" "fold_err (check_action st) actions live1 = Inr live'"
      using p by (auto simp: err_bind_Inr)
    have r: "retires_current st key (p # actions) \<longleftrightarrow>
        action_retire a \<and> current_at st key = Some i \<and> action_address (documents st i) a = Some key \<or>
        retires_current st key actions"
      "action_retire a \<and> current_at st key = Some i \<Longrightarrow> \<not> retires_current st key actions"
      using 1(2) p by (auto simp: retires_current_def rev_image_eqI)
    show ?case
      using Cons.IH(1) [OF l(2)] 1(2) check_action_counts(2) [OF l(1), of key] r p
      by (auto simp: create_count_def) }
  { case 2
    then obtain live1 where l: "check_action st (i, a) live = Inr live1" "fold_err (check_action st) actions live1 = Inr live'"
      using p by (auto simp: err_bind_Inr)
    show ?case using Cons.IH(2) [OF l(2)] 2(2) check_action_counts(1) [OF l(1)] p by auto }
qed

lemma create_count_single: "(i, a) \<in> set actions \<Longrightarrow> creates_here key a \<Longrightarrow> 1 \<le> create_count key actions"
  by (induction actions) (auto simp: create_count_def)

lemma create_count_double:
  "(i, a) \<in> set actions \<Longrightarrow> creates_here key a \<Longrightarrow> (j, b) \<in> set actions \<Longrightarrow> creates_here key b \<Longrightarrow> i \<noteq> j \<Longrightarrow>
   2 \<le> create_count key actions"
proof (induction actions)
  case (Cons p actions)
  have c: "create_count key (p # actions) = (if creates_here key (snd p) then Suc (create_count key actions) else create_count key actions)"
    by (cases p) (simp add: create_count_def)
  consider "(i, a) \<in> set actions" "(j, b) \<in> set actions" | "p = (i, a)" "(j, b) \<in> set actions" | "p = (j, b)" "(i, a) \<in> set actions"
    using Cons.prems(1,3,5) by auto
  then show ?case
  proof cases
    case 1
    with Cons.IH Cons.prems(2,4,5) show ?thesis by (simp add: c)
  next
    case 2
    with create_count_single [OF 2(2) Cons.prems(4)] Cons.prems(2) show ?thesis unfolding c by simp
  next
    case 3
    with create_count_single [OF 3(2) Cons.prems(2)] Cons.prems(4) show ?thesis unfolding c by simp
  qed
qed simp

lemma live_is_current: "current_exact st \<Longrightarrow> i \<in> live_at st key \<longleftrightarrow> current_at st key = Some i"
  unfolding current_exact_def by blast

lemma checked_single:
  assumes "current_exact st" "fold_err (check_action st) actions [] = Inr live"
    and "\<not> list_ex (\<lambda>(key, n). 1 < n) live" "distinct (map fst actions)"
    and "\<forall>(i, a) \<in> set actions. action_fits st i a"
  shows "at_most_one (to_live st actions key)"
proof -
  have "counted st live key \<le> 1"
    using assms(3) by (auto simp: counted_def list_ex_iff dest!: map_of_SomeD split: option.split)
  then have le: "counted st [] key - (if retires_current st key actions then 1 else 0) + int (create_count key actions) \<le> 1"
    using check_actions_count(1) [OF assms(2,4)] by simp
  have base: "counted st [] key = (if current_at st key = None then 0 else 1)" by (simp add: counted_def)
  have pos: "retires_current st key actions \<Longrightarrow> current_at st key \<noteq> None" by (auto simp: retires_current_def)
  have stays: "\<not> retires_current st key actions"
    if "i \<in> live_at st key" "\<not> (\<exists>a. (i, a) \<in> set actions \<and> retires_old a)" for i
  proof
    assume "retires_current st key actions"
    then obtain j a where j: "(j, a) \<in> set actions" "action_retire a" "current_at st key = Some j"
      by (auto simp: retires_current_def)
    then have "j = i" using that(1) live_is_current [OF assms(1)] by simp
    then have "action_create a \<noteq> None" using that(2) j by (auto simp: retires_old_def)
    with assms(5) j(1) have "documents st j = None" by (auto simp: action_fits_def split: option.splits)
    with that(1) \<open>j = i\<close> show False by (simp add: live_at_def)
  qed
  show ?thesis
    unfolding at_most_one_def
  proof (intro allI impI)
    fix i j assume ij: "i \<in> to_live st actions key" "j \<in> to_live st actions key"
    show "i = j"
    proof (rule ccontr)
      assume ne: "i \<noteq> j"
      have old: False if "x \<in> live_at st key" "\<not> (\<exists>a. (x, a) \<in> set actions \<and> retires_old a)"
        "(y, b) \<in> set actions" "creates_here key b" for x y b
      proof -
        have "current_at st key = Some x" using that(1) live_is_current [OF assms(1)] by simp
        with stays [OF that(1,2)] create_count_single [OF that(3,4)] le base show False by simp
      qed
      consider "current_at st key = Some i" "current_at st key = Some j"
        | "\<exists>x y b. x \<in> live_at st key \<and> \<not> (\<exists>a. (x, a) \<in> set actions \<and> retires_old a) \<and> (y, b) \<in> set actions \<and> creates_here key b"
        | "\<exists>a b. (i, a) \<in> set actions \<and> creates_here key a \<and> (j, b) \<in> set actions \<and> creates_here key b"
        using ij live_is_current [OF assms(1)] unfolding to_live_def by blast
      then show False
      proof cases
        case 1
        with ne show ?thesis by simp
      next
        case 2
        then show ?thesis using old by blast
      next
        case 3
        then have "2 \<le> create_count key actions" using create_count_double ne by blast
        with le base pos show ?thesis by (auto split: if_splits)
      qed
    qed
  qed
qed

lemma check_existing_fits:
  assumes "check_existing i (documents st i) a = Inr ()"
    and "\<And>r. action_create a = Some r \<Longrightarrow>
      doc_id r = i \<and> (\<exists>v x. action_content a = Some (BaseContent v x)) \<and> recordTypes st i = None"
  shows "action_fits st i a"
proof (cases "action_create a")
  case None
  with assms(1) obtain d where "documents st i = Some d" "doc_retiredAt (stored_record d) = None"
    "check_delta i (Some d) a = Inr ()"
    by (cases "documents st i") (auto simp: check_existing_def split: if_splits)
  with None show ?thesis
    by (auto simp: action_fits_def check_delta_def split: if_splits)
next
  case (Some r)
  with assms(1) have "documents st i = None" by (auto simp: check_existing_def split: if_splits)
  with Some assms(2) show ?thesis by (simp add: action_fits_def)
qed

subsection \<open>Commits\<close>

lemma resolved_no_copy:
  assumes "resolveDocumentCopies st ws = Inr detached"
  shows "list_all (\<lambda>w. \<not> is_copy w) detached"
proof (cases "list_ex is_copy ws")
  case False
  with assms show ?thesis by (simp add: resolveDocumentCopies_def list_ex_iff list_all_iff)
next
  case True
  have r: "resolve_write st changed w = Inr w' \<Longrightarrow> \<not> is_copy w'" for changed w w'
    by (cases "(st, changed, w)" rule: resolve_write.cases)
      (auto simp: resolve_copy_def err_bind_Inr map_sum_def split: sum.splits if_splits option.splits)
  have "map_err (resolve_write st changed) vs = Inr us \<Longrightarrow> list_all (\<lambda>w. \<not> is_copy w) us" for changed vs us
    by (induction vs arbitrary: us) (auto split: sum.splits dest: r)
  with True assms show ?thesis by (simp add: resolveDocumentCopies_def)
qed

lemma prepared_commit_parts:
  assumes "prepareCommit ws seq st = Inr p"
  obtains live where "storage_closed st = False" "nextSeq st \<le> seq" "prepared_seq p = seq"
    "resolveDocumentCopies st ws = Inr (prepared_writes p)" "check_ids st (prepared_writes p) Map.empty = Inr ()"
    "prepareDocumentActions (prepared_writes p) = Inr (prepared_actions p)"
    "fold_err (check_action st) (prepared_actions p) [] = Inr live" "\<not> list_ex (\<lambda>(key, n). 1 < n) live"
  using assms
  by (auto simp: prepareCommit_def err_bind_Inr assertOpen_def checkGlobalIds_def checkDocumentActions_def not_less
      split: if_splits)

text \<open>A batch that was validated applies without failing, and leaves a consistent state.\<close>

lemma prepared_applies:
  assumes "consistent st" "prepareCommit ws seq st = Inr p"
  obtains st1 st2 where "applyPreparedCommit p st = Inr (st2\<lparr>nextSeq := seq + 1\<rparr>)" "consistent (st2\<lparr>nextSeq := seq + 1\<rparr>)"
    "rtranclp (write_step seq) st st1" "rtranclp (action_step seq) st1 st2"
    "fold_err (apply_action seq) (prepared_actions p) st1 = Inr st2" "documents st1 = documents st"
proof -
  obtain live where q: "nextSeq st \<le> seq" "prepared_seq p = seq"
    "resolveDocumentCopies st ws = Inr (prepared_writes p)" "check_ids st (prepared_writes p) Map.empty = Inr ()"
    "prepareDocumentActions (prepared_writes p) = Inr (prepared_actions p)"
    "fold_err (check_action st) (prepared_actions p) [] = Inr live" "\<not> list_ex (\<lambda>(key, n). 1 < n) live"
    by (rule prepared_commit_parts [OF assms(2)])
  let ?as = "prepared_actions p"
  have t: "tables_sound (nextSeq st) st" "current_exact st" using assms(1) by (simp_all add: consistent_def)
  have t1: "tables_sound (seq + 1) st" by (rule tables_sound_mono [OF t(1)]) (use q(1) in simp)
  obtain st1 where s1: "fold_err (apply_write seq) (prepared_writes p) st = Inr st1" "tables_sound (seq + 1) st1"
    "recordTypes st1 = claimed_over (recordTypes st) (claimed_by (prepared_writes p) Map.empty)"
    "documents st1 = documents st" "documentAddresses st1 = documentAddresses st"
    "rtranclp (write_step seq) st st1"
    using apply_writes_sound [OF q(4) t1 resolved_no_copy [OF q(3)], of seq] by (auto simp: claimed_over_def)
  have as: "actions_of (prepared_writes p) ?as" by (rule prepared_actions [OF q(5)])
  then have d: "distinct (map fst ?as)" by (simp add: actions_of_def)
  have created: "doc_id r = i \<and> (\<exists>v x. action_content a = Some (BaseContent v x)) \<and>
      recordTypes st i = None \<and> recordTypes st1 i = None"
    if "(i, a) \<in> set ?as" "action_create a = Some r" for i a r
  proof -
    have "map_of ?as i = Some a" using d that(1) by simp
    then have "doc_id r = i" "\<exists>v x. action_content a = Some (BaseContent v x)" "\<exists>v x. WCreate r v x \<in> set (prepared_writes p)"
      using as that(2) unfolding actions_of_def by blast+
    with created_id_free [OF q(4)] s1(3) show ?thesis by auto
  qed
  have existing: "check_existing i (documents st i) a = Inr ()" if "(i, a) \<in> set ?as" for i a
    using check_actions_count(2) [OF q(6) d] that by blast
  have fits: "action_fits st i a" "action_fits st1 i a" if "(i, a) \<in> set ?as" for i a
  proof -
    show "action_fits st i a"
      by (rule check_existing_fits [OF existing [OF that]]) (use created [OF that] in blast)
    show "action_fits st1 i a"
      by (rule check_existing_fits) (use existing [OF that] created [OF that] s1(4) in auto)
  qed
  have live: "live_at st1 key = live_at st key" "current_at st1 key = current_at st key" for key
    using s1(4,5) by (simp_all add: live_at_def current_at_def)
  have single: "at_most_one (to_live st1 ?as key)" for key
    using checked_single [OF t(2) q(6,7) d, of key] fits(1) by (auto simp: to_live_def live)
  have good: "current_good st1 ?as"
    using t(2) by (auto simp: current_good_def live current_exact_def)
  have ds: "document_sound seq d" if "documents st1 i = Some d" for i d
  proof -
    have "document_sound (nextSeq st) d"
      using t(1) that s1(4) by (auto simp: tables_sound_def documents_kept_def)
    then show ?thesis using q(1) by (rule document_sound_mono)
  qed
  have "\<forall>(i, a) \<in> set ?as. action_fits st1 i a \<and> (\<forall>d. documents st1 i = Some d \<longrightarrow> document_sound seq d)"
    using fits(2) ds by blast
  from apply_actions_sound [OF s1(2) d this good single]
  obtain st2 where s2: "fold_err (apply_action seq) ?as st1 = Inr st2" "tables_sound (seq + 1) st2" "current_exact st2"
    "rtranclp (action_step seq) st1 st2"
    by blast
  let ?st = "st2\<lparr>nextSeq := seq + 1\<rparr>"
  have "applyPreparedCommit p st = Inr ?st"
    unfolding applyPreparedCommit_def applyDocumentActions_def q(2) s1(1) s2(1) err_bind.simps ..
  moreover have "consistent ?st"
    using s2(2,3) unfolding consistent_def
    by (simp add: tables_sound_def sound_defs requests_sound_def address_at_def current_exact_def current_at_def live_at_def)
  ultimately show ?thesis using s1(4,6) s2(1,4) by (intro that [of st2 st1]) simp_all
qed

lemma commitAt_consistent:
  assumes "consistent st" "commitAt ws seq st = Inr (n, st')"
  shows "consistent st'" "n = seq" "nextSeq st' = seq + 1" "nextSeq st \<le> seq"
proof -
  obtain p where p: "prepareCommit ws seq st = Inr p" "applyPreparedCommit p st = Inr st'" "n = prepared_seq p"
    using assms(2) by (auto simp: commitAt_def err_bind_Inr)
  obtain st1 st2 where "applyPreparedCommit p st = Inr (st2\<lparr>nextSeq := seq + 1\<rparr>)" "consistent (st2\<lparr>nextSeq := seq + 1\<rparr>)"
    by (rule prepared_applies [OF assms(1) p(1)])
  with p(2) show "consistent st'" "nextSeq st' = seq + 1" by auto
  show "n = seq" "nextSeq st \<le> seq" using p(3) prepared_commit_parts [OF p(1)] by metis+
qed

end
