(* ===== verification/Storage_Life.thy ===== *)
theory Storage_Life
  imports Storage_Kept
begin

text \<open>
  The lifecycle calls of the in-memory storage keep its invariant, deletion removes exactly the rows
  of the conversation, and every run of calls from the empty storage is consistent.
\<close>

subsection \<open>Removing rows one at a time\<close>

text \<open>The invariant less what deletion restores last: the request index and the scope index.\<close>

definition loose :: "int \<Rightarrow> storage_state \<Rightarrow> bool" where
  "loose n st \<longleftrightarrow>
     conversations_sound st \<and> entries_sound n st \<and> tasks_sound st \<and>
     typed SubmissionTable sub_id (submissions st) (recordTypes st) \<and> listed (submissions st) (submissionIds st) \<and>
     indexed (submissions st) (\<lambda>r. Some (sub_status r)) (submissionIdsByStatus st) \<and>
     typed DocumentTable (\<lambda>d. doc_id (stored_record d)) (documents st) (recordTypes st) \<and>
     (\<forall>i d. documents st i = Some d \<longrightarrow> document_sound n d) \<and>
     indexed (documents st) (\<lambda>d. Some (stored_address d)) (\<lambda>key. address_ids (address_at st key)) \<and>
     current_exact st \<and> ids_below st"

lemma consistent_loose: "consistent st \<Longrightarrow> loose (nextSeq st) st"
  by (simp add: consistent_def tables_sound_def loose_def submissions_sound_def documents_kept_def)

lemma fold_removes:
  assumes "\<And>i s. P s \<Longrightarrow> tbl s i \<noteq> None \<Longrightarrow> \<exists>s'. f i s = Inr s' \<and> P s' \<and> tbl s' = (tbl s)(i := None) \<and> keep s' = keep s"
    and "P s" "distinct ls" "\<forall>i \<in> set ls. tbl s i \<noteq> None"
  shows "\<exists>s'. fold_err f ls s = Inr s' \<and> P s' \<and> tbl s' = without (tbl s) (set ls) \<and> keep s' = keep s"
  using assms(2-)
proof (induction ls arbitrary: s)
  case (Cons i ls)
  then obtain t where t: "f i s = Inr t" "P t" "tbl t = (tbl s)(i := None)" "keep t = keep s"
    using assms(1) by (meson list.set_intros(1))
  have "distinct ls" "\<forall>j \<in> set ls. tbl t j \<noteq> None" using Cons.prems t(3) by auto
  from Cons.IH [OF t(2) this] obtain u where u: "fold_err f ls t = Inr u" "P u"
    "tbl u = without (tbl t) (set ls)" "keep u = keep t" by blast
  moreover have "without (tbl t) (set ls) = without (tbl s) (set (i # ls))"
    by (auto simp: without_def t(3) fun_eq_iff)
  ultimately show ?case using t by auto
qed simp

definition kept_by_tasks :: "storage_state \<Rightarrow> _" where
  "kept_by_tasks st =
     ((conversations st, conversationMeta st, entries st, entryCommitSeqs st, submissions st, submissionIdsByRequest st),
      (documents st, documentIdsByScope st, recordTypes st, nextId st, nextSeq st, deletions st, storage_closed st))"

lemma delete_task_step:
  assumes "loose n st" "tasks st i \<noteq> None"
  shows "\<exists>st'. delete_task i st = Inr st' \<and> loose n st' \<and> tasks st' = (tasks st)(i := None) \<and>
     kept_by_tasks st' = kept_by_tasks st"
proof -
  obtain r where r: "tasks st i = Some r" using assms(2) by blast
  let ?ix = "(taskIdsByStatus st)(task_status r := removeSorted (taskIdsByStatus st (task_status r)) i)"
  let ?st = "st\<lparr>taskIds := removeSorted (taskIds st) i, taskIdsByStatus := ?ix, tasks := (tasks st)(i := None),
    conversationIdsByOwnerTask := (conversationIdsByOwnerTask st)(i := None)\<rparr>"
  have t: "typed TaskTable task_id (tasks st) (recordTypes st)" "listed (tasks st) (taskIds st)"
    "indexed (tasks st) (\<lambda>r. Some (task_status r)) (taskIdsByStatus st)"
    using assms(1) by (simp_all add: loose_def tasks_sound_def)
  have "indexed ((tasks st)(i := None)) (\<lambda>r. Some (task_status r)) ?ix"
    by (rule indexed_remove [OF t(3)]) (use r in auto)
  moreover have "typed TaskTable task_id ((tasks st)(i := None)) (recordTypes st)" using t(1) by (simp add: typed_def)
  ultimately have "tasks_sound ?st" using t(2) by (simp add: tasks_sound_def listed_remove)
  moreover have "conversations_sound ?st"
    using assms(1) by (simp add: loose_def conversations_sound_def owner_index_def index_facts)
  ultimately have "loose n ?st"
    using assms(1) by (simp add: loose_def entries_sound_def address_at_def current_exact_def current_at_def live_at_def
        ids_below_def)
  then show ?thesis using r by (intro exI [of _ ?st]) (simp add: kept_by_tasks_def)
qed

definition kept_by_submissions :: "storage_state \<Rightarrow> _" where
  "kept_by_submissions st =
     ((conversations st, conversationMeta st, entries st, entryCommitSeqs st, tasks st, submissionIdsByRequest st),
      (documents st, documentIdsByScope st, recordTypes st, nextId st, nextSeq st, deletions st, storage_closed st))"

lemma delete_submission_step:
  assumes "loose n st" "submissions st i \<noteq> None"
  shows "\<exists>st'. delete_submission i st = Inr st' \<and> loose n st' \<and> submissions st' = (submissions st)(i := None) \<and>
     kept_by_submissions st' = kept_by_submissions st"
proof -
  obtain r where r: "submissions st i = Some r" using assms(2) by blast
  let ?ix = "(submissionIdsByStatus st)(sub_status r := removeSorted (submissionIdsByStatus st (sub_status r)) i)"
  let ?st = "st\<lparr>submissionIds := removeSorted (submissionIds st) i, submissionIdsByStatus := ?ix,
    submissions := (submissions st)(i := None)\<rparr>"
  have t: "typed SubmissionTable sub_id (submissions st) (recordTypes st)" "listed (submissions st) (submissionIds st)"
    "indexed (submissions st) (\<lambda>r. Some (sub_status r)) (submissionIdsByStatus st)"
    using assms(1) by (simp_all add: loose_def)
  have "indexed ((submissions st)(i := None)) (\<lambda>r. Some (sub_status r)) ?ix"
    by (rule indexed_remove [OF t(3)]) (use r in auto)
  moreover have "typed SubmissionTable sub_id ((submissions st)(i := None)) (recordTypes st)"
    using t(1) by (simp add: typed_def)
  ultimately have "loose n ?st"
    using assms(1) t(2) by (simp add: loose_def sound_defs listed_remove address_at_def current_exact_def
        current_at_def live_at_def)
  then show ?thesis using r by (intro exI [of _ ?st]) (simp add: kept_by_submissions_def)
qed

definition kept_by_documents :: "storage_state \<Rightarrow> _" where
  "kept_by_documents st =
     ((conversations st, conversationMeta st, entries st, entryCommitSeqs st, tasks st, submissions st),
      (submissionIdsByRequest st, documentIdsByScope st, recordTypes st, nextId st, nextSeq st, deletions st, storage_closed st))"

lemma dropped_address:
  "address_ids (address_at (st\<lparr>documentAddresses := (documentAddresses st)
       (key := Option.bind (documentAddresses st key) (drop_address i))\<rparr>) k) =
     (if k = key then removeSorted (address_ids (address_at st key)) i else address_ids (address_at st k))"
  "current_at (st\<lparr>documentAddresses := (documentAddresses st)
       (key := Option.bind (documentAddresses st key) (drop_address i))\<rparr>) k =
     (if k = key \<and> current_at st key = Some i then None else current_at st k)"
  by (auto simp: address_at_def current_at_def drop_address_def Let_def removeSorted_def split: option.split)

lemma delete_document_step:
  assumes "loose n st" "documents st i \<noteq> None"
  shows "\<exists>st'. delete_document i st = Inr st' \<and> loose n st' \<and> documents st' = (documents st)(i := None) \<and>
     kept_by_documents st' = kept_by_documents st"
proof -
  obtain d where d: "documents st i = Some d" using assms(2) by blast
  let ?key = "stored_address d"
  let ?adr = "(documentAddresses st)(?key := Option.bind (documentAddresses st ?key) (drop_address i))"
  let ?st = "st\<lparr>documentAddresses := ?adr, documents := (documents st)(i := None)\<rparr>"
  have addr: "address_at ?st k = address_at (st\<lparr>documentAddresses := ?adr\<rparr>) k"
    "current_at ?st k = current_at (st\<lparr>documentAddresses := ?adr\<rparr>) k" for k
    by (simp_all add: address_at_def current_at_def)
  have ix: "indexed (documents st) (\<lambda>d. Some (stored_address d)) (\<lambda>key. address_ids (address_at st key))"
    using assms(1) by (simp add: loose_def)
  have e: "(\<lambda>key. address_ids (address_at ?st key)) =
      (\<lambda>k. if k = ?key then removeSorted (address_ids (address_at st ?key)) i else address_ids (address_at st k))"
    by (rule ext) (simp only: addr(1) dropped_address(1))
  have f: "documents ?st = (documents st)(i := None)" by simp
  have "indexed ((documents st)(i := None)) (\<lambda>d. Some (stored_address d))
      (\<lambda>k. if k = ?key then removeSorted (address_ids (address_at st ?key)) i else address_ids (address_at st k))"
    by (rule indexed_remove [OF ix]) (use d in auto)
  then have "indexed (documents ?st) (\<lambda>d. Some (stored_address d)) (\<lambda>key. address_ids (address_at ?st key))"
    by (subst e, subst f)
  moreover have "current_exact ?st"
    unfolding current_exact_def addr dropped_address
  proof (intro allI)
    fix k j
    have c: "current_at st k = Some j \<longleftrightarrow> j \<in> live_at st k" "current_at st ?key = Some i \<longleftrightarrow> i \<in> live_at st ?key"
      using assms(1) unfolding loose_def current_exact_def by blast+
    have l: "live_at ?st k = live_at st k - {i}" by (auto simp: live_at_def)
    have o: "i \<in> live_at st k \<Longrightarrow> k = ?key" using d by (auto simp: live_at_def)
    show "((if k = ?key \<and> current_at st ?key = Some i then None else current_at st k) = Some j) = (j \<in> live_at ?st k)"
    proof (cases "k = ?key \<and> current_at st ?key = Some i")
      case True
      then show ?thesis using c(1) unfolding l by auto
    next
      case False
      then have "j \<noteq> i \<or> j \<notin> live_at st k" using c(2) o by blast
      with False c(1) show ?thesis unfolding l by auto
    qed
  qed
  moreover have "typed DocumentTable (\<lambda>d. doc_id (stored_record d)) (documents ?st) (recordTypes ?st)"
    "\<forall>i d. documents ?st i = Some d \<longrightarrow> document_sound n d"
    using assms(1) by (simp_all add: loose_def typed_def)
  ultimately have "loose n ?st"
    using assms(1) by (simp add: loose_def conversations_sound_def entries_sound_def tasks_sound_def ids_below_def)
  then show ?thesis using d by (intro exI [of _ ?st]) (simp add: kept_by_documents_def stored_address_def Let_def)
qed

subsection \<open>Deleting a conversation\<close>

definition in_conversation :: "storage_state \<Rightarrow> int \<Rightarrow> doc_scope \<Rightarrow> bool" where
  "in_conversation st c s \<longleftrightarrow>
     (case s of
        SessionScope \<Rightarrow> False
      | ConversationScope d \<Rightarrow> d = c
      | TaskScope t \<Rightarrow> (\<exists>r. tasks st t = Some r \<and> task_conversation r = c))"

definition entries_of :: "storage_state \<Rightarrow> int \<Rightarrow> int set" where
  "entries_of st c = {i. \<exists>r. entries st i = Some r \<and> entry_conversation r = c}"

definition tasks_of :: "storage_state \<Rightarrow> int \<Rightarrow> int set" where
  "tasks_of st c = {i. \<exists>r. tasks st i = Some r \<and> task_conversation r = c}"

definition submissions_of :: "storage_state \<Rightarrow> int \<Rightarrow> int set" where
  "submissions_of st c = {i. \<exists>r. submissions st i = Some r \<and> sub_conversation r = c}"

definition documents_of :: "storage_state \<Rightarrow> int \<Rightarrow> int set" where
  "documents_of st c = {i. \<exists>d. documents st i = Some d \<and> in_conversation st c (stored_scope d)}"

lemma delete_entries_loose:
  assumes "loose n st"
  shows "loose n (delete_entries c st)" "entries (delete_entries c st) = without (entries st) (entries_of st c)"
proof -
  have e: "typed EntryTable entry_id (entries st) (recordTypes st)" "dom (entryCommitSeqs st) = dom (entries st)"
    "\<And>i s. entryCommitSeqs st i = Some s \<Longrightarrow> s < n"
    "indexed (entries st) (\<lambda>r. Some (entry_conversation r)) (ids_at (entryIds st))"
    "indexed (entries st) head_key (ids_at (headEntryIds st))"
    using assms unfolding loose_def entries_sound_def by blast+
  have g: "set (ids_at (entryIds st) c) = entries_of st c"
    using indexed_set [OF e(4)] by (auto simp: entries_of_def having_def)
  have hv: "having (entries st) (\<lambda>r. Some (entry_conversation r)) c = entries_of st c"
    by (simp add: entries_of_def having_def)
  have w: "(\<lambda>i. if i \<in> set (ids_at (entryIds st) c) then None else entries st i) = without (entries st) (entries_of st c)"
    by (simp add: g without_def)
  show w': "entries (delete_entries c st) = without (entries st) (entries_of st c)"
    using w by (simp add: delete_entries_def Let_def)
  have h1: "having (without (entries st) (entries_of st c)) (\<lambda>r. Some (entry_conversation r)) k =
      (if k = c then {} else having (entries st) (\<lambda>r. Some (entry_conversation r)) k)" for k
    by (auto simp: having_def entries_of_def)
  have h2: "having (without (entries st) (entries_of st c)) head_key k =
      (if k = c then {} else having (entries st) head_key k)" for k
    by (auto simp: having_def entries_of_def head_key_def split: if_splits)
  have "entries_sound n (delete_entries c st)"
    unfolding entries_sound_def w'
    using e by (auto simp: delete_entries_def Let_def g hv indexed_def h1 h2 index_facts typed_def dom_def split: if_splits)
  then show "loose n (delete_entries c st)"
    using assms by (simp add: loose_def delete_entries_def Let_def conversations_sound_def tasks_sound_def
        address_at_def current_exact_def current_at_def live_at_def ids_below_def)
qed

lemma conversation_tasks_set:
  assumes "loose n st"
  shows "set (conversation_tasks st c) = tasks_of st c" "distinct (conversation_tasks st c)"
proof -
  have "listed (tasks st) (taskIds st)" using assms by (simp add: loose_def tasks_sound_def)
  then show "set (conversation_tasks st c) = tasks_of st c" "distinct (conversation_tasks st c)"
    by (auto simp: listed_def conversation_tasks_def tasks_of_def ascending_distinct split: option.splits)
qed

lemma conversation_submissions_set:
  assumes "loose n st"
  shows "set (conversation_submissions st c) = submissions_of st c" "distinct (conversation_submissions st c)"
proof -
  have "listed (submissions st) (submissionIds st)" using assms by (simp add: loose_def)
  then show "set (conversation_submissions st c) = submissions_of st c" "distinct (conversation_submissions st c)"
    by (auto simp: listed_def conversation_submissions_def submissions_of_def ascending_distinct split: option.splits)
qed

lemma scope_lists_distinct:
  assumes "indexed tbl (\<lambda>d. Some (f d)) ix" "distinct ks"
  shows "distinct (concat (map ix ks))" "set (concat (map ix ks)) = {i. \<exists>d. tbl i = Some d \<and> f d \<in> set ks}"
proof -
  have e: "set (ix k) = {i. \<exists>d. tbl i = Some d \<and> f d = k}" "distinct (ix k)" for k
    using assms(1) by (auto simp: indexed_def having_def ascending_distinct)
  show s: "set (concat (map ix ks)) = {i. \<exists>d. tbl i = Some d \<and> f d \<in> set ks}" for ks
    by (auto simp: e(1))
  show "distinct (concat (map ix ks))"
    using assms(2)
  proof (induction ks)
    case (Cons k ks)
    then have "set (ix k) \<inter> set (concat (map ix ks)) = {}" unfolding s e(1) by auto
    with Cons e(2) show ?case by simp
  qed simp
qed

lemma conversation_documents_set:
  assumes "consistent st"
  shows "set (conversation_documents st c) = documents_of st c" "distinct (conversation_documents st c)"
proof -
  let ?ks = "ConversationScope c # map TaskScope (conversation_tasks st c)"
  note t = conversation_tasks_set [OF consistent_loose [OF assms], of c]
  have ix: "indexed (documents st) (\<lambda>d. Some (stored_scope d)) (ids_at (documentIdsByScope st))"
    using assms by (simp add: consistent_def tables_sound_def documents_kept_def)
  have d: "distinct ?ks" using t(2) by (auto simp: distinct_map inj_on_def)
  have k: "conversation_documents st c = concat (map (ids_at (documentIdsByScope st)) ?ks)"
    by (simp add: conversation_documents_def comp_def)
  have s: "s \<in> set ?ks \<longleftrightarrow> in_conversation st c s" for s
    using t(1) by (cases s) (auto simp: in_conversation_def tasks_of_def)
  show "distinct (conversation_documents st c)" "set (conversation_documents st c) = documents_of st c"
    using scope_lists_distinct [OF ix d] unfolding k s documents_of_def by auto
qed

text \<open>The call runs to its end and removes exactly the rows of the conversation.\<close>

definition deletes :: "storage_state \<Rightarrow> int \<Rightarrow> storage_state \<Rightarrow> bool" where
  "deletes st c st' \<longleftrightarrow>
     conversations st' = (conversations st)(c := None) \<and> conversationMeta st' = (conversationMeta st)(c := None) \<and>
     entries st' = without (entries st) (entries_of st c) \<and>
     entryCommitSeqs st' = without (entryCommitSeqs st) (entries_of st c) \<and>
     tasks st' = without (tasks st) (tasks_of st c) \<and>
     submissions st' = without (submissions st) (submissions_of st c) \<and>
     documents st' = without (documents st) (documents_of st c) \<and>
     recordTypes st' = recordTypes st \<and> nextId st' = nextId st \<and> nextSeq st' = nextSeq st"

lemma remove_conversation_spec:
  assumes "consistent st"
  obtains st' where "remove_conversation c st = Inr st'" "consistent st'" "deletes st c st'"
    "deletions st' = deletions st" "storage_closed st' = storage_closed st"
proof -
  let ?n = "nextSeq st"
  have l0: "loose ?n st" by (rule consistent_loose [OF assms])
  note ct = conversation_tasks_set [OF l0, of c] and cs = conversation_submissions_set [OF l0, of c]
    and cd = conversation_documents_set [OF assms, of c]
  let ?st0 = "delete_entries c st"
  note e0 = delete_entries_loose [OF l0, of c]
  have g: "set (ids_at (entryIds st) c) = entries_of st c"
    using assms by (auto simp: consistent_def tables_sound_def entries_sound_def indexed_def entries_of_def having_def)
  obtain st1 where s1: "fold_err delete_task (conversation_tasks st c) ?st0 = Inr st1" "loose ?n st1"
    "tasks st1 = without (tasks st) (tasks_of st c)" "kept_by_tasks st1 = kept_by_tasks ?st0"
    using fold_removes [where P = "loose ?n" and tbl = tasks and f = delete_task and keep = kept_by_tasks,
        OF delete_task_step e0(1) ct(2)] ct(1)
    by (auto simp: delete_entries_def Let_def tasks_of_def)
  have p1: "submissions st1 = submissions st" "documents st1 = documents st" using s1(4)
    by (simp_all add: kept_by_tasks_def delete_entries_def Let_def)
  obtain st2 where s2: "fold_err delete_submission (conversation_submissions st c) st1 = Inr st2" "loose ?n st2"
    "submissions st2 = without (submissions st) (submissions_of st c)" "kept_by_submissions st2 = kept_by_submissions st1"
    using fold_removes [where P = "loose ?n" and tbl = submissions and f = delete_submission and keep = kept_by_submissions,
        OF delete_submission_step s1(2) cs(2)] cs(1)
    by (auto simp: p1 submissions_of_def)
  let ?st2 = "st2\<lparr>submissionIdsByRequest := (submissionIdsByRequest st2)(c := None)\<rparr>"
  have l2: "loose ?n ?st2" using s2(2)
    by (simp add: loose_def sound_defs address_at_def current_exact_def current_at_def live_at_def)
  have p2: "documents ?st2 = documents st" using s2(4) p1 by (simp add: kept_by_submissions_def)
  obtain st3 where s3: "fold_err delete_document (conversation_documents st c) ?st2 = Inr st3" "loose ?n st3"
    "documents st3 = without (documents st) (documents_of st c)" "kept_by_documents st3 = kept_by_documents ?st2"
    using fold_removes [where P = "loose ?n" and tbl = documents and f = delete_document and keep = kept_by_documents,
        OF delete_document_step l2 cd(2)] cd(1)
    by (auto simp: p2 documents_of_def)
  let ?st = "drop_conversation c (drop_scopes c (conversation_tasks st c) st3)"
  have run: "remove_conversation c st = Inr ?st"
    unfolding remove_conversation_def s1(1) s2(1) s3(1) err_bind.simps ..
  have keep: "conversations st3 = conversations st" "conversationMeta st3 = conversationMeta st"
    "entries st3 = without (entries st) (entries_of st c)"
    "entryCommitSeqs st3 = without (entryCommitSeqs st) (entries_of st c)"
    "tasks st3 = without (tasks st) (tasks_of st c)" "submissions st3 = without (submissions st) (submissions_of st c)"
    "submissionIdsByRequest st3 = (submissionIdsByRequest st)(c := None)"
    "documentIdsByScope st3 = documentIdsByScope st" "recordTypes st3 = recordTypes st" "nextId st3 = nextId st"
    "nextSeq st3 = nextSeq st" "deletions st3 = deletions st" "storage_closed st3 = storage_closed st"
    using s1(3,4) s2(3,4) s3(4) e0(2)
    by (simp_all add: kept_by_tasks_def kept_by_submissions_def kept_by_documents_def delete_entries_def Let_def
        without_def g)
  have del: "deletes st c ?st"
    using keep s3(3) by (simp add: deletes_def drop_conversation_def drop_scopes_def)
  have r: "requests_sound ?st"
    unfolding requests_sound_def
  proof (intro allI impI)
    fix k held key i
    assume a: "submissionIdsByRequest ?st k = Some held" "map_of held key = Some i"
    then have k: "k \<noteq> c" "submissionIdsByRequest st k = Some held"
      by (auto simp: drop_conversation_def drop_scopes_def keep(7) split: if_splits)
    moreover have "requests_sound st" using assms by (simp add: consistent_def tables_sound_def submissions_sound_def)
    ultimately obtain q where "submissions st i = Some q" "sub_conversation q = k" "sub_requestId q = Some key"
      using a(2) unfolding requests_sound_def by blast
    with k(1) show "\<exists>r. submissions ?st i = Some r \<and> sub_conversation r = k \<and> sub_requestId r = Some key"
      by (auto simp: drop_conversation_def drop_scopes_def keep(6) submissions_of_def)
  qed
  have ix: "indexed (documents ?st) (\<lambda>d. Some (stored_scope d)) (ids_at (documentIdsByScope ?st))"
  proof -
    have x: "indexed (documents st) (\<lambda>d. Some (stored_scope d)) (ids_at (documentIdsByScope st))"
      using assms by (simp add: consistent_def tables_sound_def documents_kept_def)
    have "ids_at (documentIdsByScope ?st) s = (if in_conversation st c s then [] else ids_at (documentIdsByScope st) s)" for s
      using ct(1) by (cases s) (auto simp: drop_conversation_def drop_scopes_def keep(8) ids_at_def in_conversation_def tasks_of_def)
    moreover have "having (documents ?st) (\<lambda>d. Some (stored_scope d)) s =
        (if in_conversation st c s then {} else having (documents st) (\<lambda>d. Some (stored_scope d)) s)" for s
      by (auto simp: drop_conversation_def drop_scopes_def s3(3) having_def documents_of_def)
    ultimately show ?thesis using x unfolding indexed_def by simp
  qed
  have conv: "conversations_sound ?st"
    using s3(2) by (auto simp: loose_def conversations_sound_def drop_conversation_def drop_scopes_def typed_def
        listed_remove owner_index_def index_facts)
  have "loose ?n ?st"
    using s3(2) conv by (simp add: loose_def drop_conversation_def drop_scopes_def entries_sound_def tasks_sound_def
        ids_below_def address_at_def current_exact_def current_at_def live_at_def)
  then have "consistent ?st"
    using r ix keep(11) by (simp add: loose_def consistent_def tables_sound_def submissions_sound_def documents_kept_def
        drop_conversation_def drop_scopes_def)
  then show ?thesis using run del keep(12,13)
    by (intro that [of ?st]) (simp_all add: drop_conversation_def drop_scopes_def)
qed

subsection \<open>Runs\<close>

text \<open>The calls that may change the storage, with the clock value where the code reads the clock.\<close>

datatype storage_call =
    CallCommit "storage_write list"
  | CallCommitAt "storage_write list" int
  | CallMint
  | CallDelete int int
  | CallUpdateMeta int int meta_update
  | CallClose

text \<open>A call that is rejected leaves the storage as it was.\<close>

fun storage_step :: "storage_call \<Rightarrow> storage_state \<Rightarrow> storage_state" where
  "storage_step (CallCommit ws) st = (case commit ws st of Inl e \<Rightarrow> st | Inr (s, st') \<Rightarrow> st')"
| "storage_step (CallCommitAt ws seq) st = (case commitAt ws seq st of Inl e \<Rightarrow> st | Inr (s, st') \<Rightarrow> st')"
| "storage_step CallMint st = (case mintId st of Inl e \<Rightarrow> st | Inr (i, st') \<Rightarrow> st')"
| "storage_step (CallDelete now c) st = (case deleteConversation now c st of Inl e \<Rightarrow> st | Inr (d, st') \<Rightarrow> st')"
| "storage_step (CallUpdateMeta now c u) st = (case updateConversationMeta now c u st of Inl e \<Rightarrow> st | Inr (m, st') \<Rightarrow> st')"
| "storage_step CallClose st = closeStorage st"

definition storage_run :: "storage_call list \<Rightarrow> storage_state \<Rightarrow> storage_state" where
  "storage_run calls st = fold storage_step calls st"

text \<open>
  What a call may do to a consistent storage: commit a batch, advance the id counter, delete a
  conversation, replace the metadata of one, or close.
\<close>

inductive storage_effect :: "storage_state \<Rightarrow> storage_state \<Rightarrow> bool" where
  stays: "storage_effect st st"
| commits: "commitAt ws seq st = Inr (n, st') \<Longrightarrow> storage_effect st st'"
| mints: "storage_effect st (st\<lparr>nextId := nextId st + 1\<rparr>)"
| removes: "remove_conversation c st = Inr st' \<Longrightarrow> storage_effect st (st'\<lparr>deletions := deletions st' @ [d]\<rparr>)"
| renames: "conversationMeta st c \<noteq> None \<Longrightarrow> storage_effect st (st\<lparr>conversationMeta := (conversationMeta st)(c \<mapsto> m)\<rparr>)"
| closes: "storage_effect st (st\<lparr>storage_closed := True\<rparr>)"

lemma step_effect: "storage_effect st (storage_step call st)"
proof (cases call)
  case (CallCommit ws)
  then show ?thesis by (auto simp: commit_def intro: storage_effect.intros split: sum.split)
next
  case (CallCommitAt ws seq)
  then show ?thesis by (auto intro: storage_effect.intros split: sum.split)
next
  case CallMint
  then show ?thesis
    by (auto simp: mintId_def assertOpen_def intro: storage_effect.intros split: sum.split)
next
  case (CallDelete now c)
  show ?thesis
  proof (cases "deleteConversation now c st")
    case (Inr p)
    with CallDelete show ?thesis
      by (auto simp: deleteConversation_def assertOpen_def err_bind_Inr intro: storage_effect.intros split: if_splits)
  qed (use CallDelete in \<open>simp add: stays\<close>)
next
  case (CallUpdateMeta now c u)
  show ?thesis
  proof (cases "updateConversationMeta now c u st")
    case (Inr p)
    with CallUpdateMeta show ?thesis
      by (auto simp: updateConversationMeta_def assertOpen_def Let_def intro: storage_effect.intros
          split: if_splits option.splits)
  qed (use CallUpdateMeta in \<open>simp add: stays\<close>)
next
  case CallClose
  then show ?thesis by (simp add: closeStorage_def closes)
qed

lemma consistent_frame:
  assumes "consistent st"
  shows "nextId st \<le> n \<Longrightarrow> consistent (st\<lparr>nextId := n\<rparr>)" "consistent (st\<lparr>deletions := ds\<rparr>)"
    "consistent (st\<lparr>storage_closed := b\<rparr>)" "dom ms = dom (conversationMeta st) \<Longrightarrow> consistent (st\<lparr>conversationMeta := ms\<rparr>)"
proof -
  note frame = consistent_def tables_sound_def conversations_sound_def entries_sound_def tasks_sound_def
    submissions_sound_def requests_sound_def documents_kept_def current_exact_def current_at_def live_at_def address_at_def
  have "ids_below st" using assms by (simp add: consistent_def tables_sound_def)
  then have "nextId st \<le> n \<Longrightarrow> ids_below (st\<lparr>nextId := n\<rparr>)" by (fastforce simp: ids_below_def)
  then show "nextId st \<le> n \<Longrightarrow> consistent (st\<lparr>nextId := n\<rparr>)" using assms by (simp add: frame)
  show "consistent (st\<lparr>deletions := ds\<rparr>)" "consistent (st\<lparr>storage_closed := b\<rparr>)"
    using assms by (simp_all add: frame ids_below_def)
  show "dom ms = dom (conversationMeta st) \<Longrightarrow> consistent (st\<lparr>conversationMeta := ms\<rparr>)"
    using assms by (simp add: frame ids_below_def)
qed

lemma effect_consistent:
  assumes "storage_effect st st'" "consistent st"
  shows "consistent st'"
  using assms
proof cases
  case (commits ws seq n)
  with assms(2) show ?thesis by (simp add: commitAt_consistent(1))
next
  case mints
  with consistent_frame(1) [OF assms(2), of "nextId st + 1"] show ?thesis by simp
next
  case (removes c st2 d)
  obtain st3 where "remove_conversation c st = Inr st3" "consistent st3"
    using remove_conversation_spec [OF assms(2)] by metis
  with removes show ?thesis by (simp add: consistent_frame(2))
next
  case (renames c m)
  then have "dom ((conversationMeta st)(c \<mapsto> m)) = dom (conversationMeta st)" by (auto simp: dom_def)
  with renames consistent_frame(4) [OF assms(2)] show ?thesis by simp
next
  case closes
  with consistent_frame(3) [OF assms(2)] show ?thesis by simp
qed simp

lemma effect_deletes:
  assumes "remove_conversation c st = Inr st'" "consistent st"
  shows "deletes st c st'"
  using assms remove_conversation_spec by (metis sum.inject(2))

text \<open>
  A relation between an earlier and a later state that every effect keeps: what a history guarantees.
\<close>

locale storage_history =
  fixes later :: "storage_state \<Rightarrow> storage_state \<Rightarrow> bool"
  assumes same: "later st st"
    and onward: "later a b \<Longrightarrow> consistent a \<Longrightarrow> consistent b \<Longrightarrow> storage_effect b c \<Longrightarrow> later a c"
begin

lemma run_later:
  assumes "consistent st"
  shows "later st (storage_run calls st) \<and> consistent (storage_run calls st)"
proof (induction calls rule: rev_induct)
  case Nil
  show ?case using assms by (simp add: storage_run_def same)
next
  case (snoc call calls)
  then show ?case
    using onward [OF _ assms _ step_effect [of _ call]] effect_consistent [OF step_effect [of _ call]]
    by (simp add: storage_run_def)
qed

end

end
