(* ===== verification/Storage_Reads.thy ===== *)
theory Storage_Reads
  imports Storage_Life
begin

text \<open>
  The reads of the in-memory storage: lookups, ordered scans, the transcript a conversation sees
  through its fork chain, documents at a point, and the export of a conversation
  (\<open>storage/memory.ts\<close>). Results are the stored values; \<open>None\<close> among the values of a scan is an
  \<open>undefined\<close> item, which the code would return for an id without a record.
\<close>

subsection \<open>Conversations\<close>

definition conversation :: "int \<Rightarrow> storage_state \<Rightarrow> storage_error + conversation_record option" where
  "conversation i st = err_bind (assertOpen st) (\<lambda>_. Inr (conversations st i))"

record conversation_query =
  cq_ownerConversation :: "int option"
  cq_ownerTask :: "int option"
  cq_order :: "string option"

definition conversation_ids :: "storage_state \<Rightarrow> conversation_query \<Rightarrow> int list" where
  "conversation_ids st q =
     (case cq_ownerTask q of
        Some t \<Rightarrow> ids_at (conversationIdsByOwnerTask st) t
      | None \<Rightarrow>
          (case cq_ownerConversation q of
             Some c \<Rightarrow> ids_at (conversationIdsByOwnerConversation st) c
           | None \<Rightarrow> conversationIds st))"

definition visit_conversation ::
  "storage_state \<Rightarrow> conversation_query \<Rightarrow> int \<Rightarrow> storage_error + conversation_record option list" where
  "visit_conversation st q i =
     (case (cq_ownerConversation q, conversations st i) of
        (None, v) \<Rightarrow> Inr [v]
      | (Some c, None) \<Rightarrow> Inl EngineTypeError
      | (Some c, Some r) \<Rightarrow> Inr (if map_option fst (conv_owner r) \<noteq> Some c then [] else [Some r]))"

definition scanConversations ::
  "conversation_query \<Rightarrow> nat \<Rightarrow> cursor option \<Rightarrow> storage_state \<Rightarrow>
     storage_error + conversation_record option list \<times> cursor option" where
  "scanConversations q limit cursor st =
     err_bind (assertOpen st) (\<lambda>_.
       indexed_scan (map_option conv_id) (visit_conversation st q) (conversation_ids st q) (cq_order q) Ascending
         limit cursor)"

record conversation_summary =
  sum_id :: int
  sum_parent :: "(int \<times> int) option"
  sum_owner :: "(int \<times> int) option"
  sum_meta :: conversation_meta

datatype archive_filter = ExcludeArchived | IncludeArchived | OnlyArchived

record summary_query =
  sq_archived :: "archive_filter option"
  sq_lane :: "string option"
  sq_roots :: bool
  sq_order :: "string option"

definition summary_of :: "int \<Rightarrow> conversation_record \<Rightarrow> conversation_meta \<Rightarrow> conversation_summary" where
  "summary_of i r m = \<lparr>sum_id = i, sum_parent = conv_parent r, sum_owner = conv_owner r, sum_meta = m\<rparr>"

definition summary_wanted :: "summary_query \<Rightarrow> conversation_record \<Rightarrow> conversation_meta \<Rightarrow> bool" where
  "summary_wanted q r m \<longleftrightarrow>
     \<not> (sq_roots q \<and> conv_parent r \<noteq> None) \<and>
     (case sq_lane q of None \<Rightarrow> True | Some lane \<Rightarrow> meta_lane m = lane) \<and>
     (case sq_archived q of
        Some OnlyArchived \<Rightarrow> meta_archivedAt m \<noteq> None
      | Some IncludeArchived \<Rightarrow> True
      | _ \<Rightarrow> meta_archivedAt m = None)"

definition visit_summary ::
  "storage_state \<Rightarrow> summary_query \<Rightarrow> int \<Rightarrow> storage_error + conversation_summary list" where
  "visit_summary st q i =
     (case (conversationMeta st i, conversations st i) of
        (None, v) \<Rightarrow> Inr []
      | (Some m, None) \<Rightarrow> Inl EngineTypeError
      | (Some m, Some r) \<Rightarrow> Inr (if summary_wanted q r m then [summary_of i r m] else []))"

definition scanConversationSummaries ::
  "summary_query \<Rightarrow> nat \<Rightarrow> cursor option \<Rightarrow> storage_state \<Rightarrow>
     storage_error + conversation_summary list \<times> cursor option" where
  "scanConversationSummaries q limit cursor st =
     err_bind (assertOpen st) (\<lambda>_.
       indexed_scan (\<lambda>v. Some (sum_id v)) (visit_summary st q) (conversationIds st) (sq_order q) Descending limit cursor)"

definition conversationSummary :: "int \<Rightarrow> storage_state \<Rightarrow> storage_error + conversation_summary option" where
  "conversationSummary i st =
     err_bind (assertOpen st) (\<lambda>_.
       Inr (case (conversations st i, conversationMeta st i) of
              (Some r, Some m) \<Rightarrow> Some (summary_of i r m)
            | _ \<Rightarrow> None))"

subsection \<open>Tasks and submissions\<close>

definition read_task :: "int \<Rightarrow> storage_state \<Rightarrow> storage_error + task_record option" where
  "read_task i st = err_bind (assertOpen st) (\<lambda>_. Inr (tasks st i))"

record task_query =
  tq_conversation :: "int option"
  tq_kind :: "string option"
  tq_status :: "task_status option"
  tq_abortRequested :: "bool option"
  tq_background :: "bool option"
  tq_order :: "string option"

definition wants :: "'a option \<Rightarrow> 'a \<Rightarrow> bool" where
  "wants wanted x \<longleftrightarrow> wanted = None \<or> wanted = Some x"

definition task_wanted :: "task_query \<Rightarrow> task_record \<Rightarrow> bool" where
  "task_wanted q r \<longleftrightarrow>
     wants (tq_conversation q) (task_conversation r) \<and> wants (tq_kind q) (task_kind r) \<and>
     wants (tq_abortRequested q) (task_abortRequested r) \<and> wants (tq_background q) (task_background r)"

definition visit_task :: "storage_state \<Rightarrow> task_query \<Rightarrow> int \<Rightarrow> storage_error + task_record option list" where
  "visit_task st q i =
     (case tasks st i of
        None \<Rightarrow>
          if tq_conversation q \<noteq> None \<or> tq_kind q \<noteq> None \<or> tq_abortRequested q \<noteq> None \<or> tq_background q \<noteq> None
          then Inl EngineTypeError else Inr [None]
      | Some r \<Rightarrow> Inr (if task_wanted q r then [Some r] else []))"

definition task_ids :: "storage_state \<Rightarrow> task_query \<Rightarrow> int list" where
  "task_ids st q = (case tq_status q of None \<Rightarrow> taskIds st | Some s \<Rightarrow> taskIdsByStatus st s)"

definition scanTasks ::
  "task_query \<Rightarrow> nat \<Rightarrow> cursor option \<Rightarrow> storage_state \<Rightarrow> storage_error + task_record option list \<times> cursor option" where
  "scanTasks q limit cursor st =
     err_bind (assertOpen st) (\<lambda>_.
       indexed_scan (map_option task_id) (visit_task st q) (task_ids st q) (tq_order q) Ascending limit cursor)"

definition read_submission :: "int \<Rightarrow> storage_state \<Rightarrow> storage_error + submission_record option" where
  "read_submission i st = err_bind (assertOpen st) (\<lambda>_. Inr (submissions st i))"

record submission_query =
  uq_conversation :: "int option"
  uq_status :: "submission_status option"
  uq_order :: "string option"

definition visit_submission ::
  "storage_state \<Rightarrow> submission_query \<Rightarrow> int \<Rightarrow> storage_error + submission_record option list" where
  "visit_submission st q i =
     (case submissions st i of
        None \<Rightarrow> if uq_conversation q \<noteq> None then Inl EngineTypeError else Inr [None]
      | Some r \<Rightarrow> Inr (if wants (uq_conversation q) (sub_conversation r) then [Some r] else []))"

definition submission_ids :: "storage_state \<Rightarrow> submission_query \<Rightarrow> int list" where
  "submission_ids st q = (case uq_status q of None \<Rightarrow> submissionIds st | Some s \<Rightarrow> submissionIdsByStatus st s)"

definition scanSubmissions ::
  "submission_query \<Rightarrow> nat \<Rightarrow> cursor option \<Rightarrow> storage_state \<Rightarrow>
     storage_error + submission_record option list \<times> cursor option" where
  "scanSubmissions q limit cursor st =
     err_bind (assertOpen st) (\<lambda>_.
       indexed_scan (map_option sub_id) (visit_submission st q) (submission_ids st q) (uq_order q) Ascending limit cursor)"

definition submissionByRequest ::
  "int \<Rightarrow> string \<Rightarrow> storage_state \<Rightarrow> storage_error + submission_record option" where
  "submissionByRequest c key st =
     err_bind (assertOpen st) (\<lambda>_.
       Inr (case submissionIdsByRequest st c of
              None \<Rightarrow> None
            | Some held \<Rightarrow> Option.bind (map_of held key) (submissions st)))"

subsection \<open>Documents\<close>

definition findDocument :: "doc_address \<Rightarrow> doc_point \<Rightarrow> storage_state \<Rightarrow> storage_error + document_record option" where
  "findDocument key pt st =
     err_bind (assertOpen st) (\<lambda>_.
       case pt of
         Current \<Rightarrow>
           (case current_at st key of
              None \<Rightarrow> Inr None
            | Some i \<Rightarrow>
                (case documents st i of None \<Rightarrow> Inl EngineTypeError | Some d \<Rightarrow> Inr (Some (stored_record d))))
       | AtSeq s \<Rightarrow>
           err_bind
             (gather
               (\<lambda>i. case documents st i of
                      None \<Rightarrow> Inl EngineTypeError
                    | Some d \<Rightarrow> Inr (if isAliveAt (stored_record d) pt then [stored_record d] else []))
               0 (address_ids (address_at st key)) [])
             (\<lambda>found. Inr (case found of [] \<Rightarrow> None | r # rs \<Rightarrow> Some r)))"

definition document :: "int \<Rightarrow> doc_point \<Rightarrow> storage_state \<Rightarrow> storage_error + stored_document option" where
  "document i pt st = err_bind (assertOpen st) (\<lambda>_. materializeDocument st i pt)"

record document_query =
  dq_scope :: doc_scope
  dq_at :: doc_point
  dq_kind :: "string option"

definition visit_document ::
  "storage_state \<Rightarrow> document_query \<Rightarrow> int \<Rightarrow> storage_error + document_record list" where
  "visit_document st q i =
     (case documents st i of
        None \<Rightarrow> Inl EngineTypeError
      | Some d \<Rightarrow>
          Inr (if wants (dq_kind q) (doc_kind (stored_record d)) \<and> isAliveAt (stored_record d) (dq_at q)
               then [stored_record d] else []))"

definition scanDocuments ::
  "document_query \<Rightarrow> nat \<Rightarrow> cursor option \<Rightarrow> storage_state \<Rightarrow> storage_error + document_record list \<times> cursor option" where
  "scanDocuments q limit cursor st =
     err_bind (assertOpen st) (\<lambda>_.
       err_bind (cursorId cursor) (\<lambda>after.
         let idl = ids_at (documentIdsByScope st) (dq_scope q) in
         err_bind
           (gather (\<lambda>index. visit_document st q (idl ! index)) limit (scanIndexes idl Ascending after) [])
           (\<lambda>found. page (\<lambda>r. Some (doc_id r)) found limit Ascending)))"

subsection \<open>The visible transcript\<close>

text \<open>
  \<open>visibleEntries\<close>, newest first, as far as a consumer that stops after \<open>want\<close> entries drives it. A
  missing bound is the infinity of its side. A fork chain that never ends is \<open>None\<close>.
\<close>

definition narrower :: "int option \<Rightarrow> int \<Rightarrow> int" where
  "narrower upper at_entry = (case upper of None \<Rightarrow> at_entry | Some u \<Rightarrow> min u at_entry)"

definition segment_desc :: "storage_state \<Rightarrow> int option \<Rightarrow> int \<Rightarrow> int option \<Rightarrow> int list" where
  "segment_desc st lower c upper =
     (let idl = ids_at (entryIds st) c in
      takeWhile (\<lambda>i. \<not> under lower i) (rev (take (upperBound idl upper) idl)))"

partial_function (option) visible_desc ::
  "storage_state \<Rightarrow> int option \<Rightarrow> nat \<Rightarrow> int \<Rightarrow> int option \<Rightarrow> int list \<Rightarrow> int list option" where
  "visible_desc st lower want c upper acc =
     (let acc' = acc @ segment_desc st lower c upper in
      if want \<le> length acc' then Some (take want acc')
      else
        case conversations st c of
          None \<Rightarrow> Some acc'
        | Some r \<Rightarrow>
            (case conv_parent r of
               None \<Rightarrow> Some acc'
             | Some (parent, at_entry) \<Rightarrow>
                 if under lower (narrower upper at_entry) then Some acc'
                 else visible_desc st lower want parent (Some (narrower upper at_entry)) acc'))"

declare visible_desc.simps [code]

partial_function (option) fork_segments ::
  "storage_state \<Rightarrow> int option \<Rightarrow> int \<Rightarrow> int option \<Rightarrow> (int \<times> int option) list \<Rightarrow> (int \<times> int option) list option" where
  "fork_segments st lower c upper acc =
     (let acc' = acc @ [(c, upper)] in
      case conversations st c of
        None \<Rightarrow> Some acc'
      | Some r \<Rightarrow>
          (case conv_parent r of
             None \<Rightarrow> Some acc'
           | Some (parent, at_entry) \<Rightarrow>
               if under lower (narrower upper at_entry) then Some acc'
               else fork_segments st lower parent (Some (narrower upper at_entry)) acc'))"

declare fork_segments.simps [code]

definition segment_asc :: "storage_state \<Rightarrow> int option \<Rightarrow> int \<times> int option \<Rightarrow> int list" where
  "segment_asc st lower seg =
     (case seg of (c, upper) \<Rightarrow>
        let idl = ids_at (entryIds st) c in takeWhile (up_to upper) (drop (lowerBound idl lower) idl))"

definition visible_asc :: "storage_state \<Rightarrow> int option \<Rightarrow> nat \<Rightarrow> int \<Rightarrow> int option \<Rightarrow> int list option" where
  "visible_asc st lower want c upper =
     map_option (\<lambda>segs. take want (concat (map (segment_asc st lower) (rev segs)))) (fork_segments st lower c upper [])"

text \<open>Both generators throw on an unknown conversation before anything else.\<close>

definition visible ::
  "scan_order \<Rightarrow> storage_state \<Rightarrow> int option \<Rightarrow> nat \<Rightarrow> int \<Rightarrow> int option \<Rightarrow>
     (storage_error + entry_record option list) option" where
  "visible ord st lower want c upper =
     (if conversations st c = None then Some (Inl (UnknownConversation c))
      else
        map_option (\<lambda>found. Inr (map (entries st) found))
          (case ord of
             Descending \<Rightarrow> visible_desc st lower want c upper []
           | Ascending \<Rightarrow> visible_asc st lower want c upper))"

definition entry_with_seq :: "storage_state \<Rightarrow> int \<Rightarrow> entry_record \<Rightarrow> entry_record \<times> int option" where
  "entry_with_seq st i r = (r, entryCommitSeqs st i)"

definition entry :: "int \<Rightarrow> storage_state \<Rightarrow> storage_error + (entry_record \<times> int option) option" where
  "entry i st = err_bind (assertOpen st) (\<lambda>_. Inr (map_option (entry_with_seq st i) (entries st i)))"

definition visibleEntry ::
  "int \<Rightarrow> int \<Rightarrow> storage_state \<Rightarrow> (storage_error + (entry_record \<times> int option) option) option" where
  "visibleEntry c i st =
     (if storage_closed st then Some (Inl StorageClosed)
      else
        map_option (map_sum id (\<lambda>found.
            case found of Some r # rest \<Rightarrow> Some (entry_with_seq st i r) | _ \<Rightarrow> None))
          (visible Descending st (Some i) 1 c (Some i)))"

record entry_query =
  eq_conversation :: int
  eq_min :: "int option"
  eq_max :: "int option"
  eq_order :: "string option"

text \<open>The cursor narrows the bound on the side the scan moves away from.\<close>

definition lower_after :: "scan_order \<Rightarrow> int option \<Rightarrow> int option \<Rightarrow> int option" where
  "lower_after ord after bound =
     (case (ord, after) of
        (Ascending, Some a) \<Rightarrow> Some (max (case bound of None \<Rightarrow> a | Some b \<Rightarrow> b) (a + 1))
      | _ \<Rightarrow> bound)"

definition upper_after :: "scan_order \<Rightarrow> int option \<Rightarrow> int option \<Rightarrow> int option" where
  "upper_after ord after bound =
     (case (ord, after) of
        (Descending, Some a) \<Rightarrow> Some (min (case bound of None \<Rightarrow> a | Some b \<Rightarrow> b) (a - 1))
      | _ \<Rightarrow> bound)"

definition scanEntries ::
  "entry_query \<Rightarrow> nat \<Rightarrow> cursor option \<Rightarrow> storage_state \<Rightarrow>
     (storage_error + entry_record option list \<times> cursor option) option" where
  "scanEntries q limit cursor st =
     (case err_bind (assertOpen st) (\<lambda>_. scanStart (eq_order q) cursor Descending) of
        Inl e \<Rightarrow> Some (Inl e)
      | Inr (ord, after) \<Rightarrow>
          map_option (\<lambda>found. err_bind found (\<lambda>vs. page (map_option entry_id) vs limit ord))
            (visible ord st (lower_after ord after (eq_min q)) (Suc limit) (eq_conversation q)
              (upper_after ord after (eq_max q))))"

partial_function (option) head_loop :: "storage_state \<Rightarrow> int \<Rightarrow> int option \<Rightarrow> int option option" where
  "head_loop st c upper =
     (let idl = ids_at (headEntryIds st) c; k = upperBound idl upper in
      if 0 < k then Some (Some (idl ! (k - 1)))
      else
        case conversations st c of
          None \<Rightarrow> Some None
        | Some r \<Rightarrow>
            (case conv_parent r of
               None \<Rightarrow> Some None
             | Some (parent, at_entry) \<Rightarrow> head_loop st parent (Some (narrower upper at_entry))))"

declare head_loop.simps [code]

text \<open>The head entry; an id without an entry is the spread of \<open>undefined\<close>, whose \<open>head\<close> cannot be read.\<close>

definition findLatestHeadMarker ::
  "int \<Rightarrow> int option \<Rightarrow> storage_state \<Rightarrow> (storage_error + entry_record option) option" where
  "findLatestHeadMarker c upper st =
     (case assertOpen st of
        Inl e \<Rightarrow> Some (Inl e)
      | Inr _ \<Rightarrow>
          if conversations st c = None then Some (Inl (UnknownConversation c))
          else
            map_option (\<lambda>found.
                case found of
                  None \<Rightarrow> Inr None
                | Some i \<Rightarrow> (case entries st i of None \<Rightarrow> Inl EngineTypeError | Some r \<Rightarrow> Inr (Some r)))
              (head_loop st c upper))"

subsection \<open>Export\<close>

datatype export_line =
    ExportHeader int int conversation_record
  | ExportEntry "int option" "entry_record option"
  | ExportTask "task_record option"
  | ExportSubmission submission_record
  | ExportDocument string "int option" "string option" int json

fun scope_task :: "doc_scope \<Rightarrow> int option" where
  "scope_task (TaskScope t) = Some t"
| "scope_task s = None"

definition export_submissions :: "storage_state \<Rightarrow> int \<Rightarrow> storage_error + export_line list" where
  "export_submissions st c =
     fold_err
       (\<lambda>i ls.
         case submissions st i of
           None \<Rightarrow> Inl EngineTypeError
         | Some r \<Rightarrow> Inr (if sub_conversation r \<noteq> c then ls else ls @ [ExportSubmission r]))
       (submissionIds st) []"

definition export_documents :: "storage_state \<Rightarrow> int list \<Rightarrow> storage_error + export_line list" where
  "export_documents st idl =
     fold_err
       (\<lambda>i ls.
         err_bind (materializeDocument st i Current) (\<lambda>found.
           Inr (case found of
                  None \<Rightarrow> ls
                | Some d \<Rightarrow>
                    ls @ [ExportDocument (doc_kind (read_record d)) (scope_task (doc_scope (read_record d)))
                            (doc_key (read_record d)) (read_version d) (read_value d)])))
       idl []"

text \<open>The lines as values; the code prints each as JSON. The clock is an argument.\<close>

definition exportConversation ::
  "int \<Rightarrow> int \<Rightarrow> storage_state \<Rightarrow> storage_error + export_line list option" where
  "exportConversation now c st =
     err_bind (assertOpen st) (\<lambda>_.
       case conversations st c of
         None \<Rightarrow> Inr None
       | Some r \<Rightarrow>
           err_bind (export_submissions st c) (\<lambda>subs.
             err_bind (export_documents st (sort (conversation_documents st c))) (\<lambda>docs.
               Inr (Some
                 (ExportHeader c now r #
                  map (\<lambda>i. ExportEntry (entryCommitSeqs st i) (entries st i)) (ids_at (entryIds st) c) @
                  map (\<lambda>i. ExportTask (tasks st i)) (conversation_tasks st c) @ subs @ docs)))))"

end
