(* ===== verification/Storage_Rows.thy ===== *)
theory Storage_Rows
  imports Storage_Reads
begin

text \<open>
  What the ordered scans return: the rows that match the query, each once, in id order. Every scan of
  an id index is a \<open>paged_scan\<close>, so its pages together are exactly these rows.
\<close>

definition rows :: "(int \<Rightarrow> 'r option) \<Rightarrow> ('r \<Rightarrow> 'v) \<Rightarrow> ('r \<Rightarrow> bool) \<Rightarrow> scan_order \<Rightarrow> 'v list" where
  "rows tbl g P ord = map (\<lambda>i. g (the (tbl i))) (in_order ord (sorted_list_of_set {i. \<exists>r. tbl i = Some r \<and> P r}))"

definition pick_row :: "(int \<Rightarrow> 'r option) \<Rightarrow> ('r \<Rightarrow> 'v) \<Rightarrow> ('r \<Rightarrow> bool) \<Rightarrow> int \<Rightarrow> 'v option" where
  "pick_row tbl g Q i = Option.bind (tbl i) (\<lambda>r. if Q r then Some (g r) else None)"

lemma in_order_filter: "in_order ord (filter P xs) = filter P (in_order ord xs)"
  by (cases ord) (simp_all add: rev_filter)

lemma set_in_order [simp]: "set (in_order ord xs) = set xs"
  by (cases ord) simp_all

lemma map_filter_pick:
  "List.map_filter (pick_row tbl g Q) ls = map (\<lambda>i. g (the (tbl i))) (filter (\<lambda>i. \<exists>r. tbl i = Some r \<and> Q r) ls)"
proof (induction ls)
  case (Cons i ls)
  then show ?case by (cases "tbl i") (simp_all add: map_filter_simps pick_row_def)
qed (simp add: map_filter_simps)

lemma picked_rows:
  assumes "ascending idl" "set idl = {i. \<exists>r. tbl i = Some r \<and> K r}"
  shows "List.map_filter (pick_row tbl g Q) (in_order ord idl) = rows tbl g (\<lambda>r. K r \<and> Q r) ord"
proof -
  let ?f = "filter (\<lambda>i. \<exists>r. tbl i = Some r \<and> Q r) idl"
  have "ascending ?f" using assms(1) by (rule sorted_wrt_filter)
  then have "?f = sorted_list_of_set (set ?f)" by (rule ascending_sorted_list)
  moreover have "set ?f = {i. \<exists>r. tbl i = Some r \<and> K r \<and> Q r}" using assms(2) by auto
  ultimately have "?f = sorted_list_of_set {i. \<exists>r. tbl i = Some r \<and> K r \<and> Q r}" by (simp only:)
  then show ?thesis unfolding rows_def map_filter_pick in_order_filter [symmetric] by simp
qed

lemma set_rows:
  assumes "set idl = {i. \<exists>r. tbl i = Some r \<and> K r}" "\<And>r. P r \<Longrightarrow> K r"
  shows "set (rows tbl g P ord) = {g r |i r. tbl i = Some r \<and> P r}"
proof -
  have "{i. \<exists>r. tbl i = Some r \<and> P r} \<subseteq> set idl" unfolding assms(1) using assms(2) by blast
  then have "finite {i. \<exists>r. tbl i = Some r \<and> P r}" by (rule finite_subset) (rule finite_set)
  then show ?thesis by (force simp: rows_def)
qed

definition safe_ids :: "storage_state \<Rightarrow> bool" where
  "safe_ids st \<longleftrightarrow> (\<forall>i. recordTypes st i \<noteq> None \<longrightarrow> isSafeInteger i)"

text \<open>The pages of a scan of an index whose ids are the rows with a key.\<close>

lemma index_pages:
  fixes requested :: "string option" and fallback :: scan_order and tbl :: "int \<Rightarrow> 'r option" and g :: "'r \<Rightarrow> 'v"
  defines "ord \<equiv> wanted_order requested fallback"
  assumes "ascending idl" "set idl = {i. \<exists>r. tbl i = Some r \<and> K r}" "0 < limit" "order_wanted requested"
    and "\<And>i r. tbl i = Some r \<Longrightarrow> isSafeInteger i"
    and "\<And>i r. tbl i = Some r \<Longrightarrow> visit i = Inr (if Q r then [g r] else [])"
    and "\<And>i r. tbl i = Some r \<Longrightarrow> ident (g r) = Some i"
  shows "indexed_scan ident visit idl requested fallback limit None =
       Inr (cut limit (\<lambda>v. nextCursor (the (ident v)) ord) (rows tbl g (\<lambda>r. K r \<and> Q r) ord))"
    and "rows tbl g (\<lambda>r. K r \<and> Q r) ord = vs @ v # ws \<Longrightarrow>
       indexed_scan ident visit idl requested fallback limit (Some (nextCursor (the (ident v)) ord)) =
       Inr (cut limit (\<lambda>v. nextCursor (the (ident v)) ord) ws)"
proof -
  have s: "\<forall>i \<in> set idl. isSafeInteger i" using assms(3,6) by auto
  have v: "\<forall>i \<in> set idl. visit i = Inr (case pick_row tbl g Q i of None \<Rightarrow> [] | Some v \<Rightarrow> [v])"
    using assms(3,7) by (auto simp: pick_row_def)
  have d: "\<forall>i \<in> set idl. \<forall>v. pick_row tbl g Q i = Some v \<longrightarrow> ident v = Some i"
    using assms(8) by (auto simp: pick_row_def bind_eq_Some_conv split: if_splits)
  note p = indexed_scan_pages [OF assms(2,4,5) s v d, where fallback = fallback, folded ord_def,
      unfolded picked_rows [OF assms(2,3)]]
  show "indexed_scan ident visit idl requested fallback limit None =
       Inr (cut limit (\<lambda>v. nextCursor (the (ident v)) ord) (rows tbl g (\<lambda>r. K r \<and> Q r) ord))"
    by (rule p(1))
  show "rows tbl g (\<lambda>r. K r \<and> Q r) ord = vs @ v # ws \<Longrightarrow>
       indexed_scan ident visit idl requested fallback limit (Some (nextCursor (the (ident v)) ord)) =
       Inr (cut limit (\<lambda>v. nextCursor (the (ident v)) ord) ws)"
    by (rule p(2))
qed

text \<open>A scan of an index meets the contract of \<open>paged_scan\<close>.\<close>

lemma index_paged_scan:
  fixes tbl :: "storage_state \<Rightarrow> int \<Rightarrow> 'r option" and K Q :: "'q \<Rightarrow> 'r \<Rightarrow> bool" and g :: "'r \<Rightarrow> 'v"
  assumes fetch: "\<And>st q limit cursor. valid st q \<Longrightarrow>
      fetch st q limit cursor = Some (indexed_scan ident (visit st q) (idl st q) (requested q) fallback limit cursor)"
    and "\<And>st q. valid st q \<Longrightarrow> ascending (idl st q)"
    and "\<And>st q. valid st q \<Longrightarrow> set (idl st q) = {i. \<exists>r. tbl st i = Some r \<and> K q r}"
    and "\<And>st q. valid st q \<Longrightarrow> order_wanted (requested q)"
    and "\<And>st q i r. valid st q \<Longrightarrow> tbl st i = Some r \<Longrightarrow> isSafeInteger i"
    and "\<And>st q i r. valid st q \<Longrightarrow> tbl st i = Some r \<Longrightarrow> visit st q i = Inr (if Q q r then [g r] else [])"
    and "\<And>st q i r. valid st q \<Longrightarrow> tbl st i = Some r \<Longrightarrow> ident (g r) = Some i"
  shows "paged_scan valid fetch
     (\<lambda>st q. rows (tbl st) g (\<lambda>r. K q r \<and> Q q r) (wanted_order (requested q) fallback))
     (\<lambda>q v. nextCursor (the (ident v)) (wanted_order (requested q) fallback))"
proof
  fix st q and limit :: nat
  assume v: "valid st q" and l: "0 < limit"
  note p = index_pages [where tbl = "tbl st" and visit = "visit st q" and g = g and ident = ident and K = "K q" and Q = "Q q"
      and fallback = fallback, OF assms(2,3) [OF v] l assms(4) [OF v] assms(5,6,7) [OF v]]
  show "fetch st q limit None = Some (Inr (cut limit (\<lambda>v. nextCursor (the (ident v)) (wanted_order (requested q) fallback))
        (rows (tbl st) g (\<lambda>r. K q r \<and> Q q r) (wanted_order (requested q) fallback))))"
    unfolding fetch [OF v] by (subst p(1)) simp_all
  fix vs v' ws
  assume "rows (tbl st) g (\<lambda>r. K q r \<and> Q q r) (wanted_order (requested q) fallback) = vs @ v' # ws"
  from p(2) [OF _ _ _ this]
  show "fetch st q limit (Some (nextCursor (the (ident v')) (wanted_order (requested q) fallback))) =
      Some (Inr (cut limit (\<lambda>v. nextCursor (the (ident v)) (wanted_order (requested q) fallback)) ws))"
    unfolding fetch [OF v] by simp
qed

text \<open>A storage that can be scanned.\<close>

definition scannable :: "storage_state \<Rightarrow> string option \<Rightarrow> bool" where
  "scannable st requested \<longleftrightarrow>
     consistent st \<and> safe_ids st \<and> \<not> storage_closed st \<and> order_wanted requested"

lemma scannable_parts:
  assumes "scannable st requested"
  shows "assertOpen st = Inr ()" "order_wanted requested" "consistent st"
    "\<And>i r. tasks st i = Some r \<Longrightarrow> isSafeInteger i \<and> task_id r = i"
    "\<And>i r. submissions st i = Some r \<Longrightarrow> isSafeInteger i \<and> sub_id r = i"
    "\<And>i r. conversations st i = Some r \<Longrightarrow> isSafeInteger i \<and> conv_id r = i"
    "\<And>i r. entries st i = Some r \<Longrightarrow> isSafeInteger i \<and> entry_id r = i"
    "\<And>i d. documents st i = Some d \<Longrightarrow> isSafeInteger i \<and> doc_id (stored_record d) = i"
proof -
  have t: "tables_sound (nextSeq st) st" using assms by (simp add: scannable_def consistent_def)
  show "assertOpen st = Inr ()" "order_wanted requested" "consistent st"
    using assms by (simp_all add: scannable_def assertOpen_def)
  show "\<And>i r. tasks st i = Some r \<Longrightarrow> isSafeInteger i \<and> task_id r = i"
    using t assms by (fastforce simp: tables_sound_def tasks_sound_def typed_def scannable_def safe_ids_def)
  show "\<And>i r. submissions st i = Some r \<Longrightarrow> isSafeInteger i \<and> sub_id r = i"
    using t assms by (fastforce simp: tables_sound_def submissions_sound_def typed_def scannable_def safe_ids_def)
  show "\<And>i r. conversations st i = Some r \<Longrightarrow> isSafeInteger i \<and> conv_id r = i"
    using t assms by (fastforce simp: tables_sound_def conversations_sound_def typed_def scannable_def safe_ids_def)
  show "\<And>i r. entries st i = Some r \<Longrightarrow> isSafeInteger i \<and> entry_id r = i"
    using t assms by (fastforce simp: tables_sound_def entries_sound_def typed_def scannable_def safe_ids_def)
  show "\<And>i d. documents st i = Some d \<Longrightarrow> isSafeInteger i \<and> doc_id (stored_record d) = i"
    using t assms unfolding tables_sound_def documents_kept_def typed_def scannable_def safe_ids_def by blast
qed

subsection \<open>Tasks\<close>

definition task_matches :: "task_query \<Rightarrow> task_record \<Rightarrow> bool" where
  "task_matches q r \<longleftrightarrow> wants (tq_status q) (task_status r) \<and> task_wanted q r"

lemma task_ids_rows:
  assumes "consistent st"
  shows "ascending (task_ids st q)" "set (task_ids st q) = {i. \<exists>r. tasks st i = Some r \<and> wants (tq_status q) (task_status r)}"
proof -
  have "listed (tasks st) (taskIds st)" "indexed (tasks st) (\<lambda>r. Some (task_status r)) (taskIdsByStatus st)"
    using assms by (simp_all add: consistent_def tables_sound_def tasks_sound_def)
  then show "ascending (task_ids st q)"
    "set (task_ids st q) = {i. \<exists>r. tasks st i = Some r \<and> wants (tq_status q) (task_status r)}"
    by (auto simp: task_ids_def listed_def indexed_def having_def wants_def split: option.split)
qed

interpretation task_scan: paged_scan
  "\<lambda>st q. scannable st (tq_order q)"
  "\<lambda>st q limit cursor. Some (scanTasks q limit cursor st)"
  "\<lambda>st q. rows (tasks st) Some (\<lambda>r. wants (tq_status q) (task_status r) \<and> task_wanted q r) (wanted_order (tq_order q) Ascending)"
  "\<lambda>q v. nextCursor (the (map_option task_id v)) (wanted_order (tq_order q) Ascending)"
  by (rule index_paged_scan [where visit = visit_task and idl = task_ids])
    (simp_all add: scanTasks_def scannable_parts task_ids_rows visit_task_def)

subsection \<open>Submissions\<close>

lemma submission_ids_rows:
  assumes "consistent st"
  shows "ascending (submission_ids st q)"
    "set (submission_ids st q) = {i. \<exists>r. submissions st i = Some r \<and> wants (uq_status q) (sub_status r)}"
proof -
  have "listed (submissions st) (submissionIds st)"
    "indexed (submissions st) (\<lambda>r. Some (sub_status r)) (submissionIdsByStatus st)"
    using assms by (simp_all add: consistent_def tables_sound_def submissions_sound_def)
  then show "ascending (submission_ids st q)"
    "set (submission_ids st q) = {i. \<exists>r. submissions st i = Some r \<and> wants (uq_status q) (sub_status r)}"
    by (auto simp: submission_ids_def listed_def indexed_def having_def wants_def split: option.split)
qed

interpretation submission_scan: paged_scan
  "\<lambda>st q. scannable st (uq_order q)"
  "\<lambda>st q limit cursor. Some (scanSubmissions q limit cursor st)"
  "\<lambda>st q. rows (submissions st) Some (\<lambda>r. wants (uq_status q) (sub_status r) \<and> wants (uq_conversation q) (sub_conversation r))
     (wanted_order (uq_order q) Ascending)"
  "\<lambda>q v. nextCursor (the (map_option sub_id v)) (wanted_order (uq_order q) Ascending)"
  by (rule index_paged_scan [where visit = visit_submission and idl = submission_ids])
    (simp_all add: scanSubmissions_def scannable_parts submission_ids_rows visit_submission_def)

subsection \<open>Conversations\<close>

text \<open>
  Without an owner in the query. The owner indexes may still name a deleted conversation, so a scan by
  owner is outside this contract.
\<close>

lemma conversation_ids_rows:
  assumes "consistent st"
  shows "ascending (conversationIds st)" "set (conversationIds st) = {i. \<exists>r. conversations st i = Some r}"
proof -
  have "listed (conversations st) (conversationIds st)"
    using assms by (simp add: consistent_def tables_sound_def conversations_sound_def)
  then show "ascending (conversationIds st)" "set (conversationIds st) = {i. \<exists>r. conversations st i = Some r}"
    by (auto simp: listed_def)
qed

interpretation conversation_scan: paged_scan
  "\<lambda>st q. scannable st (cq_order q) \<and> cq_ownerTask q = None \<and> cq_ownerConversation q = None"
  "\<lambda>st q limit cursor. Some (scanConversations q limit cursor st)"
  "\<lambda>st q. rows (conversations st) Some (\<lambda>r. True \<and> True) (wanted_order (cq_order q) Ascending)"
  "\<lambda>q v. nextCursor (the (map_option conv_id v)) (wanted_order (cq_order q) Ascending)"
  by (rule index_paged_scan [where visit = visit_conversation and idl = conversation_ids])
    (auto simp: scanConversations_def scannable_parts conversation_ids_def conversation_ids_rows visit_conversation_def)

text \<open>The rows of a summary scan: every conversation has its metadata.\<close>

definition summary_rows :: "storage_state \<Rightarrow> int \<Rightarrow> (int \<times> conversation_record \<times> conversation_meta) option" where
  "summary_rows st i =
     (case (conversations st i, conversationMeta st i) of (Some r, Some m) \<Rightarrow> Some (i, r, m) | _ \<Rightarrow> None)"

lemma summary_rows_Some:
  assumes "summary_rows st i = Some p"
  obtains r m where "p = (i, r, m)" "conversations st i = Some r" "conversationMeta st i = Some m"
  using assms by (auto simp: summary_rows_def split: option.splits)

lemma summary_rows_ids:
  assumes "consistent st"
  shows "set (conversationIds st) = {i. \<exists>p. summary_rows st i = Some p \<and> True}"
proof -
  have "dom (conversationMeta st) = dom (conversations st)"
    using assms by (simp add: consistent_def tables_sound_def conversations_sound_def)
  then have "(\<exists>r. conversations st i = Some r) \<longleftrightarrow> (\<exists>p. summary_rows st i = Some p)" for i
    by (cases "conversations st i"; cases "conversationMeta st i") (auto simp: summary_rows_def)
  then show ?thesis unfolding conversation_ids_rows(2) [OF assms] by simp
qed

interpretation summary_scan: paged_scan
  "\<lambda>st q. scannable st (sq_order q)"
  "\<lambda>st q limit cursor. Some (scanConversationSummaries q limit cursor st)"
  "\<lambda>st q. rows (summary_rows st) (\<lambda>(i, r, m). summary_of i r m) (\<lambda>p. True \<and> (case p of (i, r, m) \<Rightarrow> summary_wanted q r m))
     (wanted_order (sq_order q) Descending)"
  "\<lambda>q v. nextCursor (the (Some (sum_id v))) (wanted_order (sq_order q) Descending)"
proof (rule index_paged_scan [where visit = visit_summary and idl = "\<lambda>st q. conversationIds st"])
  fix st i p and q :: summary_query
  assume v: "scannable st (sq_order q)" and p: "summary_rows st i = Some p"
  from p show "isSafeInteger i"
    using scannable_parts(6) [OF v] by (auto elim: summary_rows_Some)
  from p show "visit_summary st q i =
      Inr (if case p of (i, r, m) \<Rightarrow> summary_wanted q r m then [case p of (i, r, m) \<Rightarrow> summary_of i r m] else [])"
    by (auto simp: visit_summary_def elim!: summary_rows_Some)
  from p show "Some (sum_id (case p of (i, r, m) \<Rightarrow> summary_of i r m)) = Some i"
    by (auto simp: summary_of_def elim!: summary_rows_Some)
next
  fix st and q :: summary_query
  assume v: "scannable st (sq_order q)"
  show "set (conversationIds st) = {i. \<exists>p. summary_rows st i = Some p \<and> True}"
    by (rule summary_rows_ids [OF scannable_parts(3) [OF v]])
qed (simp_all add: scanConversationSummaries_def scannable_parts conversation_ids_rows(1))

subsection \<open>Documents\<close>

text \<open>A document scan has no order of its own, so it resumes with \<open>cursorId\<close>.\<close>

definition document_matches :: "document_query \<Rightarrow> stored_document_state \<Rightarrow> bool" where
  "document_matches q d \<longleftrightarrow>
     stored_scope d = dq_scope q \<and> wants (dq_kind q) (doc_kind (stored_record d)) \<and> isAliveAt (stored_record d) (dq_at q)"

lemma scanDocuments_indexed:
  assumes "assertOpen st = Inr ()" "cursor = None \<or> cursor = Some (nextCursor i Ascending) \<and> isSafeInteger i"
  shows "scanDocuments q limit cursor st =
     indexed_scan (\<lambda>r. Some (doc_id r)) (visit_document st q) (ids_at (documentIdsByScope st) (dq_scope q)) None Ascending limit cursor"
  using assms
  by (auto simp: scanDocuments_def indexed_scan_def cursorId_def scanStart_def nextCursor_def Let_def read_order_def)

lemma document_ids_rows:
  assumes "consistent st"
  shows "ascending (ids_at (documentIdsByScope st) s)"
    "set (ids_at (documentIdsByScope st) s) = {i. \<exists>d. documents st i = Some d \<and> stored_scope d = s}"
  using assms by (auto simp: consistent_def tables_sound_def documents_kept_def indexed_def having_def)

interpretation document_scan: paged_scan
  "\<lambda>st q. scannable st None"
  "\<lambda>st q limit cursor. Some (scanDocuments q limit cursor st)"
  "\<lambda>st q. rows (documents st) stored_record (document_matches q) Ascending"
  "\<lambda>q r. nextCursor (doc_id r) Ascending"
proof
  fix st and q :: document_query and limit :: nat
  assume v: "scannable st None" and l: "0 < limit"
  note s = scannable_parts [OF v] and d = document_ids_rows [OF scannable_parts(3) [OF v], of "dq_scope q"]
  let ?Q = "\<lambda>d. wants (dq_kind q) (doc_kind (stored_record d)) \<and> isAliveAt (stored_record d) (dq_at q)"
  have m: "(\<lambda>d. stored_scope d = dq_scope q \<and> ?Q d) = document_matches q"
    by (simp add: fun_eq_iff document_matches_def)
  have visit: "documents st i = Some d \<Longrightarrow> visit_document st q i = Inr (if ?Q d then [stored_record d] else [])" for i d
    by (simp add: visit_document_def)
  have w: "wanted_order None Ascending = Ascending" by (simp add: wanted_order_def)
  have safe: "\<And>i d. documents st i = Some d \<Longrightarrow> isSafeInteger i" and own: "\<And>i d. documents st i = Some d \<Longrightarrow> Some (doc_id (stored_record d)) = Some i"
    using s(8) by auto
  note p = index_pages [where tbl = "documents st" and visit = "visit_document st q" and g = stored_record
      and ident = "\<lambda>r. Some (doc_id r)" and Q = ?Q and fallback = Ascending,
      OF d l s(2) safe visit own, unfolded w m option.sel]
  show "Some (scanDocuments q limit None st) =
      Some (Inr (cut limit (\<lambda>r. nextCursor (doc_id r) Ascending) (rows (documents st) stored_record (document_matches q) Ascending)))"
    using p(1) scanDocuments_indexed [OF s(1), of None] by simp
  fix vs r ws
  assume e: "rows (documents st) stored_record (document_matches q) Ascending = vs @ r # ws"
  then have "r \<in> set (rows (documents st) stored_record (document_matches q) Ascending)" by simp
  then have "r \<in> {stored_record d |i d. documents st i = Some d \<and> document_matches q d}"
    by (subst (asm) set_rows [OF d(2)]) (simp_all add: document_matches_def)
  then have "isSafeInteger (doc_id r)" using s(8) by blast
  with p(2) [OF _ _ _ e] scanDocuments_indexed [OF s(1), of "Some (nextCursor (doc_id r) Ascending)" "doc_id r"]
  show "Some (scanDocuments q limit (Some (nextCursor (doc_id r) Ascending)) st) =
      Some (Inr (cut limit (\<lambda>r. nextCursor (doc_id r) Ascending) ws))"
    by simp
qed

end
