(* ===== verification/Storage_Forks.thy ===== *)
theory Storage_Forks
  imports Storage_Rows
begin

text \<open>
  The transcript a conversation sees: its own entries and, through its fork, its parent's entries up
  to the fork entry. Both generators, the head lookup and the paged entry scan are compared with this
  relation. The storage trusts the session for ancestry, so the results are about states where a
  parent was minted before its fork and a fork's own entries after the fork entry.
\<close>

subsection \<open>What a conversation sees\<close>

inductive sees :: "storage_state \<Rightarrow> int \<Rightarrow> int \<Rightarrow> bool" for st where
  own: "entries st i = Some e \<Longrightarrow> entry_conversation e = c \<Longrightarrow> sees st c i"
| inherited: "conversations st c = Some r \<Longrightarrow> conv_parent r = Some (parent, fork) \<Longrightarrow> i \<le> fork \<Longrightarrow>
    sees st parent i \<Longrightarrow> sees st c i"

definition ancestral :: "storage_state \<Rightarrow> bool" where
  "ancestral st \<longleftrightarrow>
     (\<forall>c r parent fork. conversations st c = Some r \<longrightarrow> conv_parent r = Some (parent, fork) \<longrightarrow>
       0 \<le> parent \<and> parent < c \<and>
       (\<forall>i e. entries st i = Some e \<longrightarrow> entry_conversation e = c \<longrightarrow> fork < i))"

definition own_ids :: "storage_state \<Rightarrow> int \<Rightarrow> int list" where
  "own_ids st c = ids_at (entryIds st) c"

lemma own_ids_spec:
  assumes "consistent st"
  shows "ascending (own_ids st c)" "set (own_ids st c) = {i. \<exists>e. entries st i = Some e \<and> entry_conversation e = c}"
  using assms by (auto simp: own_ids_def consistent_def tables_sound_def entries_sound_def indexed_def having_def)

definition seen :: "storage_state \<Rightarrow> int option \<Rightarrow> int \<Rightarrow> int option \<Rightarrow> int set" where
  "seen st lower c upper = {i. sees st c i \<and> \<not> under lower i \<and> up_to upper i}"

lemma le_narrower [simp]: "i \<le> narrower upper fork \<longleftrightarrow> up_to upper i \<and> i \<le> fork"
  by (auto simp: narrower_def split: option.split)

lemma under_narrower: "under lower n \<Longrightarrow> up_to (Some n) i \<Longrightarrow> under lower i"
  by (auto simp: under_def split: option.splits)

subsection \<open>Segments\<close>

lemma takeWhile_descending:
  assumes "sorted_wrt (>) xs" "\<And>i j. i < j \<Longrightarrow> P i \<Longrightarrow> P (j :: int)"
  shows "takeWhile P xs = filter P xs"
  using assms(1)
proof (induction xs)
  case (Cons x xs)
  have "\<not> P x \<Longrightarrow> filter P xs = []" using Cons.prems assms(2) by (auto simp: filter_empty_conv)
  with Cons show ?case by auto
qed simp

lemma takeWhile_ascending:
  assumes "ascending xs" "\<And>i j. i < j \<Longrightarrow> P j \<Longrightarrow> P (i :: int)"
  shows "takeWhile P xs = filter P xs"
  using assms(1)
proof (induction xs)
  case (Cons x xs)
  have "\<not> P x \<Longrightarrow> filter P xs = []" using Cons.prems assms(2) by (auto simp: filter_empty_conv)
  with Cons show ?case by auto
qed simp

lemma under_down: "i < j \<Longrightarrow> \<not> under lower i \<Longrightarrow> \<not> under lower j"
  by (auto simp: under_def split: option.splits)

lemma up_to_down: "i < j \<Longrightarrow> up_to upper j \<Longrightarrow> up_to upper i"
  by (auto simp: up_to_def split: option.splits)

definition segment :: "storage_state \<Rightarrow> int option \<Rightarrow> int \<times> int option \<Rightarrow> int list" where
  "segment st lower seg = filter (\<lambda>i. \<not> under lower i \<and> up_to (snd seg) i) (own_ids st (fst seg))"

lemma segment_desc_rev:
  assumes "consistent st"
  shows "segment_desc st lower c upper = rev (segment st lower (c, upper))"
proof -
  let ?xs = "rev (take (upperBound (own_ids st c) upper) (own_ids st c))"
  have a: "ascending (own_ids st c)" by (rule own_ids_spec(1) [OF assms])
  then have x: "?xs = rev (filter (up_to upper) (own_ids st c))" by (simp add: upperBound_filter)
  have "sorted_wrt (>) ?xs" unfolding x using a by (simp add: sorted_wrt_rev sorted_wrt_filter)
  then have "takeWhile (\<lambda>i. \<not> under lower i) ?xs = filter (\<lambda>i. \<not> under lower i) ?xs"
    by (rule takeWhile_descending) (rule under_down)
  then show ?thesis by (simp add: segment_desc_def Let_def own_ids_def [symmetric] segment_def x rev_filter conj_commute)
qed

lemma segment_asc_segment:
  assumes "consistent st"
  shows "segment_asc st lower seg = segment st lower seg"
proof -
  obtain c upper where s: "seg = (c, upper)" by (cases seg)
  have a: "ascending (own_ids st c)" by (rule own_ids_spec(1) [OF assms])
  have "ascending (drop (lowerBound (own_ids st c) lower) (own_ids st c))" using a by (rule sorted_wrt_drop)
  then have "takeWhile (up_to upper) (drop (lowerBound (own_ids st c) lower) (own_ids st c)) =
      filter (up_to upper) (drop (lowerBound (own_ids st c) lower) (own_ids st c))"
    by (rule takeWhile_ascending) (rule up_to_down)
  then show ?thesis
    by (simp add: s segment_asc_def Let_def own_ids_def [symmetric] segment_def lowerBound_filter(2) [OF a] conj_commute)
qed

text \<open>Along an ancestral chain both walks end, on the same segments, and the segments hold what is seen.\<close>

lemma fork_walk:
  assumes "consistent st" "ancestral st"
  shows "\<exists>segs. (\<forall>acc. fork_segments st lower c upper acc = Some (acc @ segs)) \<and>
     (\<forall>acc want. visible_desc st lower want c upper acc =
        Some (take want (acc @ concat (map (\<lambda>s. rev (segment st lower s)) segs)))) \<and>
     set (concat (map (segment st lower) segs)) = seen st lower c upper \<and>
     ascending (concat (map (segment st lower) (rev segs)))"
proof (induction "nat c" arbitrary: c upper rule: less_induct)
  case less
  have own: "set (segment st lower (c, upper)) =
      {i. (\<exists>e. entries st i = Some e \<and> entry_conversation e = c) \<and> \<not> under lower i \<and> up_to upper i}"
    using own_ids_spec(2) [OF assms(1)] by (auto simp: segment_def)
  have asc: "ascending (segment st lower (c, upper))"
    using own_ids_spec(1) [OF assms(1)] by (simp add: segment_def sorted_wrt_filter)
  have root: ?case
    if stop: "\<And>r parent fork. conversations st c = Some r \<Longrightarrow> conv_parent r = Some (parent, fork) \<Longrightarrow>
        under lower (narrower upper fork)"
  proof (intro exI [of _ "[(c, upper)]"] conjI allI)
    show "fork_segments st lower c upper acc = Some (acc @ [(c, upper)])" for acc
      using stop by (subst fork_segments.simps) (auto simp: Let_def split: option.splits)
    show "visible_desc st lower want c upper acc =
        Some (take want (acc @ concat (map (\<lambda>s. rev (segment st lower s)) [(c, upper)])))" for acc want
      using stop by (subst visible_desc.simps) (auto simp: Let_def segment_desc_rev [OF assms(1)] split: option.splits)
    show "set (concat (map (segment st lower) [(c, upper)])) = seen st lower c upper"
    proof -
      have "\<exists>e. entries st i = Some e \<and> entry_conversation e = c"
        if i: "sees st c i" "\<not> under lower i" "up_to upper i" for i
        using i(1)
      proof (cases rule: sees.cases)
        case (inherited r parent fork)
        then have "under lower (narrower upper fork)" using stop by blast
        then have "under lower i" by (rule under_narrower) (use i(3) inherited(3) in simp)
        with i(2) show ?thesis by simp
      qed auto
      then show ?thesis using own by (auto simp: seen_def intro: sees.own)
    qed
    show "ascending (concat (map (segment st lower) (rev [(c, upper)])))" using asc by simp
  qed
  show ?case
  proof (cases "\<exists>r parent fork. conversations st c = Some r \<and> conv_parent r = Some (parent, fork) \<and>
      \<not> under lower (narrower upper fork)")
    case False
    then show ?thesis by (intro root) blast
  next
    case True
    then obtain r parent fork where r: "conversations st c = Some r" "conv_parent r = Some (parent, fork)"
      "\<not> under lower (narrower upper fork)" by blast
    let ?up = "Some (narrower upper fork)"
    have p: "0 \<le> parent" "parent < c" "\<And>i e. entries st i = Some e \<Longrightarrow> entry_conversation e = c \<Longrightarrow> fork < i"
      using assms(2) r unfolding ancestral_def by blast+
    then obtain segs where s: "\<And>acc. fork_segments st lower parent ?up acc = Some (acc @ segs)"
      "\<And>acc want. visible_desc st lower want parent ?up acc =
         Some (take want (acc @ concat (map (\<lambda>s. rev (segment st lower s)) segs)))"
      "set (concat (map (segment st lower) segs)) = seen st lower parent ?up"
      "ascending (concat (map (segment st lower) (rev segs)))"
      using less [of parent ?up] by auto
    show ?thesis
    proof (intro exI [of _ "(c, upper) # segs"] conjI allI)
      show "fork_segments st lower c upper acc = Some (acc @ (c, upper) # segs)" for acc
        using r by (subst fork_segments.simps) (simp add: Let_def s(1))
      show "visible_desc st lower want c upper acc =
          Some (take want (acc @ concat (map (\<lambda>s. rev (segment st lower s)) ((c, upper) # segs))))" for acc want
        using r by (subst visible_desc.simps) (simp add: Let_def s(2) segment_desc_rev [OF assms(1)])
      have "sees st c i \<longleftrightarrow> (\<exists>e. entries st i = Some e \<and> entry_conversation e = c) \<or> i \<le> fork \<and> sees st parent i" for i
      proof
        assume "sees st c i"
        then show "(\<exists>e. entries st i = Some e \<and> entry_conversation e = c) \<or> i \<le> fork \<and> sees st parent i"
          using r(1,2) by (cases rule: sees.cases) auto
      qed (use r(1,2) in \<open>auto intro: sees.intros\<close>)
      then show "set (concat (map (segment st lower) ((c, upper) # segs))) = seen st lower c upper"
        using own s(3) by (auto simp: seen_def)
      have older: "i < j" if "i \<in> set (concat (map (segment st lower) segs))" "j \<in> set (segment st lower (c, upper))" for i j
      proof -
        have "i \<le> fork" using that(1) unfolding s(3) seen_def by simp
        moreover have "fork < j" using that(2) own p(3) by auto
        ultimately show ?thesis by simp
      qed
      then show "ascending (concat (map (segment st lower) (rev ((c, upper) # segs))))"
        using s(4) asc by (auto simp: sorted_wrt_append)
    qed
  qed
qed

definition transcript :: "storage_state \<Rightarrow> int option \<Rightarrow> int \<Rightarrow> int option \<Rightarrow> int list" where
  "transcript st lower c upper = sorted_list_of_set (seen st lower c upper)"

lemma visible_walks:
  assumes "consistent st" "ancestral st"
  shows "visible_desc st lower want c upper [] = Some (take want (rev (transcript st lower c upper)))"
    "visible_asc st lower want c upper = Some (take want (transcript st lower c upper))"
    "set (transcript st lower c upper) = seen st lower c upper" "ascending (transcript st lower c upper)"
proof -
  obtain segs where s: "\<And>acc. fork_segments st lower c upper acc = Some (acc @ segs)"
    "\<And>acc want. visible_desc st lower want c upper acc =
       Some (take want (acc @ concat (map (\<lambda>s. rev (segment st lower s)) segs)))"
    "set (concat (map (segment st lower) segs)) = seen st lower c upper"
    "ascending (concat (map (segment st lower) (rev segs)))"
    using fork_walk [OF assms] by metis
  have e: "set (concat (map (segment st lower) (rev segs))) = seen st lower c upper" using s(3) by auto
  have t: "concat (map (segment st lower) (rev segs)) = transcript st lower c upper"
    unfolding transcript_def e [symmetric] by (rule ascending_sorted_list [OF s(4)])
  have "concat (map (\<lambda>s. rev (segment st lower s)) segs) = rev (concat (map (segment st lower) (rev segs)))"
    by (simp add: rev_concat rev_map comp_def)
  then show "visible_desc st lower want c upper [] = Some (take want (rev (transcript st lower c upper)))"
    using s(2) t by simp
  show "visible_asc st lower want c upper = Some (take want (transcript st lower c upper))"
    using t by (simp add: visible_asc_def s(1) segment_asc_segment [OF assms(1)] cong: map_cong)
  show "set (transcript st lower c upper) = seen st lower c upper" "ascending (transcript st lower c upper)"
    using e s(4) unfolding t by auto
qed

subsection \<open>Reads of the transcript\<close>

lemma seen_entry:
  assumes "sees st c i"
  obtains e where "entries st i = Some e"
  using assms by (induction rule: sees.induct) auto

lemma visible_transcript:
  assumes "consistent st" "ancestral st" "conversations st c \<noteq> None"
  shows "visible ord st lower want c upper =
     Some (Inr (take want (map (entries st) (in_order ord (transcript st lower c upper)))))"
  using visible_walks(1,2) [OF assms(1,2)] assms(3) by (cases ord) (simp_all add: visible_def take_map)

text \<open>An entry read through a conversation: found exactly when the conversation sees it.\<close>

lemma visibleEntry_sees:
  assumes "consistent st" "ancestral st" "\<not> storage_closed st" "conversations st c \<noteq> None"
  shows "visibleEntry c i st =
     Some (Inr (if sees st c i then map_option (entry_with_seq st i) (entries st i) else None))"
proof -
  have "seen st (Some i) c (Some i) = (if sees st c i then {i} else {})" by (auto simp: seen_def)
  then have t: "transcript st (Some i) c (Some i) = (if sees st c i then [i] else [])" by (simp add: transcript_def)
  show ?thesis
  proof (cases "sees st c i")
    case True
    then obtain e where "entries st i = Some e" by (rule seen_entry)
    with True t assms(3) show ?thesis
      by (simp add: visibleEntry_def visible_transcript [OF assms(1,2,4)])
  qed (use t assms(3) in \<open>simp add: visibleEntry_def visible_transcript [OF assms(1,2,4)]\<close>)
qed

text \<open>The head lookup finds the newest visible entry that sets a head.\<close>

definition head_ids :: "storage_state \<Rightarrow> int \<Rightarrow> int list" where
  "head_ids st c = ids_at (headEntryIds st) c"

definition sees_head :: "storage_state \<Rightarrow> int \<Rightarrow> int option \<Rightarrow> int set" where
  "sees_head st c upper = {i. sees st c i \<and> up_to upper i \<and> (\<exists>e. entries st i = Some e \<and> entry_head e \<noteq> None)}"

lemma sees_head_finite:
  assumes "consistent st" "ancestral st"
  shows "finite (sees_head st c upper)"
proof -
  have "sees_head st c upper \<subseteq> set (transcript st None c upper)"
    using visible_walks(3) [OF assms] by (auto simp: sees_head_def seen_def)
  then show ?thesis by (rule finite_subset) simp
qed

definition newest :: "int set \<Rightarrow> int option" where
  "newest is = (if is = {} then None else Some (Max is))"

lemma head_ids_spec:
  assumes "consistent st"
  shows "ascending (head_ids st c)"
    "set (head_ids st c) = {i. \<exists>e. entries st i = Some e \<and> entry_conversation e = c \<and> entry_head e \<noteq> None}"
  using assms by (auto simp: head_ids_def consistent_def tables_sound_def entries_sound_def indexed_def having_def
      head_key_def split: if_splits)

lemma upperBound_last:
  assumes "ascending xs" "0 < upperBound xs upper"
  shows "xs ! (upperBound xs upper - 1) \<in> set xs" "up_to upper (xs ! (upperBound xs upper - 1))"
    "\<forall>i \<in> set xs. up_to upper i \<longrightarrow> i \<le> xs ! (upperBound xs upper - 1)"
proof -
  let ?k = "upperBound xs upper"
  have l: "?k \<le> length xs"
    unfolding upperBound_def using bisect_filter(3) [OF assms(1), of "up_to upper"] length_filter_le [of "up_to upper" xs]
    by (auto simp: up_to_def split: option.splits)
  have t: "take ?k xs = filter (up_to upper) xs" by (rule upperBound_filter(1) [OF assms(1)])
  have n: "take ?k xs = take (?k - 1) xs @ [xs ! (?k - 1)]"
    using take_Suc_conv_app_nth [of "?k - 1" xs] l assms(2) by simp
  then have m: "xs ! (?k - 1) \<in> set (filter (up_to upper) xs)" unfolding t [symmetric] by simp
  then show "xs ! (?k - 1) \<in> set xs" "up_to upper (xs ! (?k - 1))" by auto
  have "ascending (take ?k xs)" using assms(1) by (rule sorted_wrt_take)
  then have "\<forall>i \<in> set (take ?k xs). i \<le> xs ! (?k - 1)" unfolding n by (auto simp: sorted_wrt_append)
  then show "\<forall>i \<in> set xs. up_to upper i \<longrightarrow> i \<le> xs ! (?k - 1)" unfolding t by simp
qed

lemma upperBound_none:
  assumes "ascending xs" "\<not> 0 < upperBound xs upper" "i \<in> set xs"
  shows "\<not> up_to upper i"
proof -
  have "filter (up_to upper) xs = []" using upperBound_filter(1) [OF assms(1), of upper] assms(2) by simp
  with assms(3) show ?thesis by (auto simp: filter_empty_conv)
qed

lemma head_loop_newest:
  assumes "consistent st" "ancestral st"
  shows "head_loop st c upper = Some (newest (sees_head st c upper))"
proof (induction "nat c" arbitrary: c upper rule: less_induct)
  case less
  let ?xs = "head_ids st c"
  let ?k = "upperBound ?xs upper"
  note h = head_ids_spec [OF assms(1), of c]
  have fin: "finite (sees_head st c upper)" by (rule sees_head_finite [OF assms])
  have own: "i \<in> set ?xs \<Longrightarrow> up_to upper i \<Longrightarrow> i \<in> sees_head st c upper" for i
    using h(2) by (auto simp: sees_head_def intro: sees.own)
  have split: "i \<in> sees_head st c upper \<Longrightarrow> i \<in> set ?xs \<or>
      (\<exists>r parent fork. conversations st c = Some r \<and> conv_parent r = Some (parent, fork) \<and>
        i \<in> sees_head st parent (Some (narrower upper fork)))" for i
  proof -
    assume "i \<in> sees_head st c upper"
    then have i: "sees st c i" "up_to upper i" "\<exists>e. entries st i = Some e \<and> entry_head e \<noteq> None"
      by (simp_all add: sees_head_def)
    from i(1) show ?thesis
    proof (cases rule: sees.cases)
      case (own e)
      with i(3) show ?thesis unfolding h(2) by simp
    next
      case (inherited r parent fork)
      with i(2,3) show ?thesis by (auto simp: sees_head_def)
    qed
  qed
  show ?case
  proof (cases "0 < ?k")
    case True
    note m = upperBound_last [OF h(1) True]
    have "Max (sees_head st c upper) = ?xs ! (?k - 1)"
    proof (rule Max_eqI [OF fin])
      fix i assume i: "i \<in> sees_head st c upper"
      from split [OF this] show "i \<le> ?xs ! (?k - 1)"
      proof
        assume "i \<in> set ?xs"
        with m(3) i show ?thesis by (auto simp: sees_head_def)
      next
        assume "\<exists>r parent fork. conversations st c = Some r \<and> conv_parent r = Some (parent, fork) \<and>
          i \<in> sees_head st parent (Some (narrower upper fork))"
        then obtain r parent fork where r: "conversations st c = Some r" "conv_parent r = Some (parent, fork)" "i \<le> fork"
          by (auto simp: sees_head_def)
        have "fork < ?xs ! (?k - 1)" using assms(2) r(1,2) m(1) unfolding h(2) ancestral_def by blast
        with r(3) show ?thesis by simp
      qed
    qed (use own m(1,2) in blast)
    moreover have "sees_head st c upper \<noteq> {}" using own m(1,2) by blast
    ultimately show ?thesis using True
      by (subst head_loop.simps) (simp add: Let_def head_ids_def [symmetric] newest_def)
  next
    case False
    have none: "i \<in> set ?xs \<Longrightarrow> \<not> up_to upper i" for i by (rule upperBound_none [OF h(1) False])
    show ?thesis
    proof (cases "\<exists>r parent fork. conversations st c = Some r \<and> conv_parent r = Some (parent, fork)")
      case True
      then obtain r parent fork where r: "conversations st c = Some r" "conv_parent r = Some (parent, fork)" by blast
      let ?up = "Some (narrower upper fork)"
      have p: "0 \<le> parent" "parent < c" using assms(2) r unfolding ancestral_def by blast+
      have "sees_head st c upper = sees_head st parent ?up"
      proof
        show "sees_head st c upper \<subseteq> sees_head st parent ?up"
          using split none r by (fastforce simp: sees_head_def)
        show "sees_head st parent ?up \<subseteq> sees_head st c upper"
          using r by (auto simp: sees_head_def intro: sees.inherited)
      qed
      with less [of parent ?up] p r False show ?thesis
        by (subst head_loop.simps) (simp add: Let_def head_ids_def [symmetric])
    next
      case ends: False
      have "sees_head st c upper = {}"
        using split none ends by (fastforce simp: sees_head_def)
      with ends False show ?thesis
        by (subst head_loop.simps) (auto simp: Let_def head_ids_def [symmetric] newest_def split: option.split)
    qed
  qed
qed

lemma head_marker_found:
  assumes "consistent st" "ancestral st" "\<not> storage_closed st" "conversations st c \<noteq> None"
  shows "findLatestHeadMarker c upper st = Some (Inr (Option.bind (newest (sees_head st c upper)) (entries st)))"
proof (cases "sees_head st c upper = {}")
  case False
  then have "Max (sees_head st c upper) \<in> sees_head st c upper" by (rule Max_in [OF sees_head_finite [OF assms(1,2)]])
  then obtain e where "entries st (Max (sees_head st c upper)) = Some e" by (auto simp: sees_head_def)
  with False assms(3,4) show ?thesis
    by (auto simp: findLatestHeadMarker_def assertOpen_def head_loop_newest [OF assms(1,2)] newest_def)
qed (use assms(3,4) in \<open>auto simp: findLatestHeadMarker_def assertOpen_def head_loop_newest [OF assms(1,2)] newest_def\<close>)

subsection \<open>The paged entry scan\<close>

definition entry_rows :: "storage_state \<Rightarrow> entry_query \<Rightarrow> scan_order \<Rightarrow> entry_record option list" where
  "entry_rows st q ord = map (entries st) (in_order ord (transcript st (eq_min q) (eq_conversation q) (eq_max q)))"

lemma transcript_behind:
  assumes "consistent st" "ancestral st"
    and "in_order ord (transcript st lower c upper) = js @ i # ks"
  shows "in_order ord (transcript st (lower_after ord (Some i) lower) c (upper_after ord (Some i) upper)) = ks"
proof -
  note w = visible_walks(3,4) [OF assms(1,2)]
  have "seen st (lower_after ord (Some i) lower) c (upper_after ord (Some i) upper) =
      {j \<in> seen st lower c upper. beyond ord (Some i) j}"
    by (cases ord) (auto simp: seen_def lower_after_def upper_after_def under_def up_to_def split: option.splits)
  also have "\<dots> = set (filter (beyond ord (Some i)) (transcript st lower c upper))" using w(1) by auto
  finally have "transcript st (lower_after ord (Some i) lower) c (upper_after ord (Some i) upper) =
      filter (beyond ord (Some i)) (transcript st lower c upper)"
    unfolding transcript_def [of st "lower_after ord (Some i) lower"]
    using ascending_sorted_list [OF sorted_wrt_filter [OF w(2)]] by metis
  then show ?thesis using filter_behind [OF w(2) assms(3)] by simp
qed

definition transcript_readable :: "storage_state \<Rightarrow> entry_query \<Rightarrow> bool" where
  "transcript_readable st q \<longleftrightarrow>
     scannable st (eq_order q) \<and> ancestral st \<and> conversations st (eq_conversation q) \<noteq> None"

lemma scanEntries_cut:
  assumes "transcript_readable st q" "0 < limit" "scanStart (eq_order q) cursor Descending = Inr (ord, after)"
  shows "scanEntries q limit cursor st =
     Some (Inr (cut limit (\<lambda>v. nextCursor (the (map_option entry_id v)) ord)
       (map (entries st) (in_order ord
         (transcript st (lower_after ord after (eq_min q)) (eq_conversation q) (upper_after ord after (eq_max q)))))))"
proof -
  have r: "consistent st" "ancestral st" "conversations st (eq_conversation q) \<noteq> None" "assertOpen st = Inr ()"
    and e: "\<And>i e. entries st i = Some e \<Longrightarrow> entry_id e = i"
    using assms(1) scannable_parts [of st "eq_order q"] by (auto simp: transcript_readable_def)
  let ?ids = "in_order ord
    (transcript st (lower_after ord after (eq_min q)) (eq_conversation q) (upper_after ord after (eq_max q)))"
  have "\<forall>v \<in> set (map (entries st) ?ids). \<exists>i. map_option entry_id v = Some i"
    using visible_walks(3) [OF r(1,2)] by (auto simp: seen_def elim: seen_entry)
  from page_cut [OF assms(2) this, of ord] show ?thesis
    by (simp add: scanEntries_def r(4) assms(3) visible_transcript [OF r(1,2,3)])
qed

interpretation entry_scan: paged_scan
  transcript_readable
  "\<lambda>st q limit cursor. scanEntries q limit cursor st"
  "\<lambda>st q. entry_rows st q (wanted_order (eq_order q) Descending)"
  "\<lambda>q v. nextCursor (the (map_option entry_id v)) (wanted_order (eq_order q) Descending)"
proof
  fix st q and limit :: nat
  assume v: "transcript_readable st q" and l: "0 < limit"
  let ?ord = "wanted_order (eq_order q) Descending"
  have r: "consistent st" "ancestral st" "order_wanted (eq_order q)"
    and e: "\<And>i e. entries st i = Some e \<Longrightarrow> isSafeInteger i \<and> entry_id e = i"
    using v scannable_parts [of st "eq_order q"] by (auto simp: transcript_readable_def)
  have n: "lower_after ?ord None b = b" "upper_after ?ord None b = b" for b
    by (cases ?ord; simp add: lower_after_def upper_after_def)+
  show "scanEntries q limit None st =
      Some (Inr (cut limit (\<lambda>v. nextCursor (the (map_option entry_id v)) ?ord) (entry_rows st q ?ord)))"
    using scanEntries_cut [OF v l scanStart_first [OF r(3)]] by (simp add: n entry_rows_def)
  fix vs u ws
  assume "entry_rows st q ?ord = vs @ u # ws"
  then obtain js i ks where s: "in_order ?ord (transcript st (eq_min q) (eq_conversation q) (eq_max q)) = js @ i # ks"
    "u = entries st i" "ws = map (entries st) ks"
    unfolding entry_rows_def by (auto simp: map_eq_append_conv)
  have "i \<in> set (in_order ?ord (transcript st (eq_min q) (eq_conversation q) (eq_max q)))" unfolding s(1) by simp
  then have "sees st (eq_conversation q) i" using visible_walks(3) [OF r(1,2)] by (simp add: seen_def)
  then obtain ent where ent: "entries st i = Some ent" by (rule seen_entry)
  then have i: "isSafeInteger i" "the (map_option entry_id u) = i" using e s(2) by auto
  show "scanEntries q limit (Some (nextCursor (the (map_option entry_id u)) ?ord)) st =
      Some (Inr (cut limit (\<lambda>v. nextCursor (the (map_option entry_id v)) ?ord) ws))"
    unfolding i(2) scanEntries_cut [OF v l scanStart_next [OF r(3) i(1)]] transcript_behind [OF r(1,2) s(1)] s(3) ..
qed

end
