(* ===== verification/Storage_History.thy ===== *)
theory Storage_History
  imports Storage_Forks
begin

text \<open>
  What a storage keeps across any later calls: ids stay taken, conversations and entries are
  insert-only, and a document only grows, so what was read at an earlier sequence is read again.
\<close>

subsection \<open>How a document may change\<close>

definition retired_later :: "int \<Rightarrow> int option \<Rightarrow> int option \<Rightarrow> bool" where
  "retired_later s before after \<longleftrightarrow>
     (case before of Some t \<Rightarrow> after = Some t | None \<Rightarrow> (case after of None \<Rightarrow> True | Some t \<Rightarrow> s \<le> t))"

definition grows :: "int \<Rightarrow> stored_document_state \<Rightarrow> stored_document_state \<Rightarrow> bool" where
  "grows s d d' \<longleftrightarrow>
     document_create.truncate (stored_record d') = document_create.truncate (stored_record d) \<and>
     doc_createdAt (stored_record d') = doc_createdAt (stored_record d) \<and>
     retired_later s (doc_retiredAt (stored_record d)) (doc_retiredAt (stored_record d')) \<and>
     (\<not> isCurrentOnly (stored_record d) \<longrightarrow>
       (\<exists>new. stored_revisions d' = stored_revisions d @ new \<and> (\<forall>p \<in> set new. s \<le> snd p)))"

lemma truncate_selectors:
  "doc_id (document_create.truncate r) = doc_id r" "doc_kind (document_create.truncate r) = doc_kind r"
  "doc_key (document_create.truncate r) = doc_key r" "doc_scope (document_create.truncate r) = doc_scope r"
  "doc_history (document_create.truncate r) = doc_history r" "doc_fork (document_create.truncate r) = doc_fork r"
  by (simp_all add: document_create.truncate_def)

lemma truncate_fields:
  assumes "document_create.truncate (r' :: document_record) = document_create.truncate (r :: document_record)"
  shows "doc_id r' = doc_id r" "doc_kind r' = doc_kind r" "doc_key r' = doc_key r" "doc_scope r' = doc_scope r"
    "doc_history r' = doc_history r" "doc_fork r' = doc_fork r" "isCurrentOnly r' = isCurrentOnly r"
    "recordAddressKey r' = recordAddressKey r"
proof -
  show f: "doc_id r' = doc_id r" "doc_kind r' = doc_kind r" "doc_key r' = doc_key r" "doc_scope r' = doc_scope r"
    "doc_history r' = doc_history r" "doc_fork r' = doc_fork r"
    using assms truncate_selectors by metis+
  show "isCurrentOnly r' = isCurrentOnly r" "recordAddressKey r' = recordAddressKey r"
    unfolding isCurrentOnly_def recordAddressKey_def f by simp_all
qed

lemma grows_refl: "grows s d d"
  by (auto simp: grows_def retired_later_def split: option.split)

lemma grows_trans:
  assumes "grows s a b" "grows t b c" "s \<le> t"
  shows "grows s a c"
proof -
  have o: "isCurrentOnly (stored_record b) = isCurrentOnly (stored_record a)"
    by (rule truncate_fields(7)) (use assms(1) in \<open>simp add: grows_def\<close>)
  have "retired_later s (doc_retiredAt (stored_record a)) (doc_retiredAt (stored_record c))"
  proof -
    have "retired_later s (doc_retiredAt (stored_record a)) (doc_retiredAt (stored_record b))"
      "retired_later t (doc_retiredAt (stored_record b)) (doc_retiredAt (stored_record c))"
      using assms by (simp_all add: grows_def)
    then show ?thesis using assms(3) by (cases "doc_retiredAt (stored_record a)"; cases "doc_retiredAt (stored_record b)")
        (auto simp: retired_later_def split: option.splits)
  qed
  moreover have "\<exists>new. stored_revisions c = stored_revisions a @ new \<and> (\<forall>p \<in> set new. s \<le> snd p)"
    if hist: "\<not> isCurrentOnly (stored_record a)"
  proof -
    obtain u where u: "stored_revisions b = stored_revisions a @ u" "\<forall>p \<in> set u. s \<le> snd p"
      using assms(1) hist by (auto simp: grows_def)
    obtain v where v: "stored_revisions c = stored_revisions b @ v" "\<forall>p \<in> set v. t \<le> snd p"
      using assms(2) hist o by (auto simp: grows_def)
    have "stored_revisions c = stored_revisions a @ (u @ v)" using u(1) v(1) by simp
    moreover have "\<forall>p \<in> set (u @ v). s \<le> snd p" using u(2) v(2) assms(3) by fastforce
    ultimately show ?thesis by blast
  qed
  ultimately show ?thesis using assms(1,2) by (simp add: grows_def)
qed

lemma acted_grows:
  assumes "documents st i = Some d" "action_fits st i a"
  shows "grows s d (acted s a (documents st i))"
proof -
  have n: "action_create a = None" using assms by (auto simp: action_fits_def split: option.splits)
  with assms have r: "doc_retiredAt (stored_record d) = None" by (auto simp: action_fits_def)
  have t: "document_create.truncate ((stored_record d)\<lparr>doc_retiredAt := t\<rparr>) = document_create.truncate (stored_record d)" for t
    by (cases "stored_record d") (simp add: document_create.truncate_def)
  have "stored_revisions (acted s a (documents st i)) =
      stored_revisions d @ (case action_content a of None \<Rightarrow> [] | Some content \<Rightarrow> [(content, s)])"
    if "\<not> isCurrentOnly (stored_record d)"
    using n assms(1) that by (simp add: acted_def retire_record add_revision_def split: option.split)
  then show ?thesis
    using n assms(1) r by (auto simp: grows_def acted_record retired_later_def t split: option.split)
qed

subsection \<open>How a storage may change\<close>

text \<open>\<open>evolved s st st'\<close>: from \<open>st\<close> to \<open>st'\<close> by writes at sequences from \<open>s\<close> on, and removals.\<close>

definition rows_kept :: "(int \<Rightarrow> table_name option) \<Rightarrow> (int \<Rightarrow> 'r option) \<Rightarrow> (int \<Rightarrow> 'r option) \<Rightarrow> bool" where
  "rows_kept types before after \<longleftrightarrow> (\<forall>i. types i \<noteq> None \<longrightarrow> after i = None \<or> after i = before i)"

definition evolved :: "int \<Rightarrow> storage_state \<Rightarrow> storage_state \<Rightarrow> bool" where
  "evolved s st st' \<longleftrightarrow>
     nextId st \<le> nextId st' \<and> (\<forall>i t. recordTypes st i = Some t \<longrightarrow> recordTypes st' i = Some t) \<and>
     rows_kept (recordTypes st) (conversations st) (conversations st') \<and>
     rows_kept (recordTypes st) (entries st) (entries st') \<and>
     rows_kept (recordTypes st) (entryCommitSeqs st) (entryCommitSeqs st') \<and>
     (\<forall>i d'. documents st' i = Some d' \<longrightarrow>
       (case documents st i of
          Some d \<Rightarrow> grows s d d'
        | None \<Rightarrow> recordTypes st i = None \<and> s \<le> doc_createdAt (stored_record d')))"

lemma rows_kept_refl: "rows_kept types tbl tbl"
  by (simp add: rows_kept_def)

lemma rows_kept_trans:
  "rows_kept types a b \<Longrightarrow> rows_kept types' b c \<Longrightarrow> \<forall>i t. types i = Some t \<longrightarrow> types' i = Some t \<Longrightarrow> rows_kept types a c"
  unfolding rows_kept_def by (metis not_None_eq)

lemma evolved_refl: "evolved s st st"
  by (auto simp: evolved_def rows_kept_refl grows_refl split: option.split)

definition documents_typed :: "storage_state \<Rightarrow> bool" where
  "documents_typed st \<longleftrightarrow> (\<forall>i d. documents st i = Some d \<longrightarrow> recordTypes st i \<noteq> None)"

lemma consistent_documents_typed: "consistent st \<Longrightarrow> documents_typed st"
  by (auto simp: consistent_def tables_sound_def documents_kept_def typed_def documents_typed_def)

lemma evolved_document:
  assumes "evolved s a b" "documents b i = Some d'"
  shows "documents a i = Some d \<Longrightarrow> grows s d d'"
    "documents a i = None \<Longrightarrow> recordTypes a i = None \<and> s \<le> doc_createdAt (stored_record d')"
  using assms by (force simp: evolved_def)+

lemma evolved_trans:
  assumes "evolved s a b" "evolved t b c" "s \<le> t" "documents_typed a"
  shows "evolved s a c"
proof -
  have ty: "\<forall>i t. recordTypes a i = Some t \<longrightarrow> recordTypes b i = Some t" using assms(1) by (simp add: evolved_def)
  have docs: "case documents a i of Some d \<Rightarrow> grows s d d'
        | None \<Rightarrow> recordTypes a i = None \<and> s \<le> doc_createdAt (stored_record d')"
    if c: "documents c i = Some d'" for i d'
  proof (cases "documents b i")
    case None
    note b = evolved_document(2) [OF assms(2) c None]
    then have "recordTypes a i = None" using ty by (cases "recordTypes a i") auto
    moreover from this have "documents a i = None" using assms(4) by (cases "documents a i") (auto simp: documents_typed_def)
    ultimately show ?thesis using b assms(3) by simp
  next
    case (Some d1)
    note g = evolved_document(1) [OF assms(2) c Some]
    show ?thesis
    proof (cases "documents a i")
      case None
      with evolved_document(2) [OF assms(1) Some None] g show ?thesis by (simp add: grows_def)
    next
      case (Some d)
      with evolved_document(1) [OF assms(1) \<open>documents b i = Some d1\<close> Some] g assms(3) show ?thesis
        by (simp add: grows_trans [of s d d1 t])
    qed
  qed
  have "rows_kept (recordTypes a) (conversations a) (conversations c)" "rows_kept (recordTypes a) (entries a) (entries c)"
    "rows_kept (recordTypes a) (entryCommitSeqs a) (entryCommitSeqs c)"
    using assms(1,2) rows_kept_trans [OF _ _ ty] unfolding evolved_def by blast+
  moreover have "\<forall>i t. recordTypes a i = Some t \<longrightarrow> recordTypes c i = Some t" "nextId a \<le> nextId c"
    using assms(1,2) by (simp_all add: evolved_def)
  ultimately show ?thesis using docs by (simp add: evolved_def)
qed

subsection \<open>Commits\<close>

lemma rows_kept_update: "types i = None \<Longrightarrow> rows_kept types tbl (tbl(i \<mapsto> r))"
  by (simp add: rows_kept_def)

lemma apply_write_evolved:
  assumes "writable st w" "apply_write n w st = Inr st'"
  shows "evolved s st st'"
proof -
  show ?thesis
  proof (cases w)
    case (WConversation r m)
    with assms have "recordTypes st (conv_id r) = None" by (simp add: writable_def insert_only_def)
    with WConversation assms(2) show ?thesis
      by (cases "conv_owner r")
        (auto simp: evolved_def apply_conversation_def Let_def claim_id_def rows_kept_refl rows_kept_update
          grows_refl split: option.split)
  next
    case (WEntry r)
    with assms have "recordTypes st (entry_id r) = None" by (simp add: writable_def insert_only_def)
    with WEntry assms(2) show ?thesis
      by (auto simp: evolved_def apply_entry_def claim_id_def rows_kept_refl rows_kept_update grows_refl split: option.split)
  next
    case (WTask r)
    with assms have "recordTypes st (task_id r) = None \<or> recordTypes st (task_id r) = Some TaskTable"
      by (simp add: writable_def insert_only_def)
    with WTask assms(2) show ?thesis
      by (auto simp: evolved_def apply_task_def claim_id_def rows_kept_refl grows_refl split: option.split)
  next
    case (WSubmission r)
    with assms have "recordTypes st (sub_id r) = None \<or> recordTypes st (sub_id r) = Some SubmissionTable"
      by (simp add: writable_def insert_only_def)
    with WSubmission assms(2) show ?thesis
      by (auto simp: evolved_def apply_submission_def Let_def claim_id_def rows_kept_refl grows_refl split: option.split)
  qed (use assms(2) in \<open>auto simp: evolved_refl\<close>)
qed

lemma apply_action_evolved:
  assumes "documents_kept n st" "action_fits st i a" "apply_action s (i, a) st = Inr st'"
  shows "evolved s st st'"
proof -
  obtain adr scp where r: "apply_action s (i, a) st =
       Inr ((if action_create a = None then st else claim_id i DocumentTable st)
         \<lparr>documents := (documents st)(i \<mapsto> acted s a (documents st i)), documentAddresses := adr,
          documentIdsByScope := scp\<rparr>)"
    by (rule apply_action_runs [OF assms(1,2)]) blast
  let ?base = "if action_create a = None then st else claim_id i DocumentTable st"
  have st': "st' = ?base\<lparr>documents := (documents st)(i \<mapsto> acted s a (documents st i)), documentAddresses := adr,
          documentIdsByScope := scp\<rparr>" using assms(3) r by simp
  have f: "action_create a \<noteq> None \<Longrightarrow> recordTypes st i = None \<and> documents st i = None"
    using assms(2) by (auto simp: action_fits_def)
  have docs: "case documents st j of Some d \<Rightarrow> grows s d d' | None \<Rightarrow> recordTypes st j = None \<and> s \<le> doc_createdAt (stored_record d')"
    if "documents st' j = Some d'" for j d'
  proof (cases "j = i")
    case False
    with that st' show ?thesis by (auto simp: grows_refl split: option.split)
  next
    case True
    with that st' have d': "d' = acted s a (documents st i)" by simp
    show ?thesis
    proof (cases "documents st i")
      case None
      with assms(2) obtain c where "action_create a = Some c" by (auto simp: action_fits_def split: option.splits)
      with None True d' f show ?thesis by (simp add: acted_record)
    next
      case (Some d)
      with acted_grows [OF Some assms(2), of s] True d' show ?thesis by simp
    qed
  qed
  have "nextId st \<le> nextId st'" "\<forall>j t. recordTypes st j = Some t \<longrightarrow> recordTypes st' j = Some t"
    "conversations st' = conversations st" "entries st' = entries st" "entryCommitSeqs st' = entryCommitSeqs st"
    using st' f by (auto simp: claim_id_def)
  then show ?thesis using docs by (simp add: evolved_def rows_kept_refl)
qed

lemma steps_evolved:
  assumes "rtranclp step st st'" "documents_typed st" "\<And>a b. step a b \<Longrightarrow> evolved s a b"
  shows "evolved s st st'"
  using assms(1)
proof (induction rule: rtranclp_induct)
  case base
  show ?case by (rule evolved_refl)
next
  case (step b c)
  show ?case by (rule evolved_trans [OF step.IH assms(3) [OF step.hyps(2)] order_refl assms(2)])
qed

lemma write_steps_evolved: "rtranclp (write_step n) st st' \<Longrightarrow> documents_typed st \<Longrightarrow> evolved s st st'"
  by (rule steps_evolved [where step = "write_step n"]) (auto simp: write_step_def intro: apply_write_evolved)

lemma action_steps_evolved: "rtranclp (action_step s) st st' \<Longrightarrow> documents_typed st \<Longrightarrow> evolved s st st'"
proof (rule steps_evolved)
  fix a b assume "action_step s a b"
  then obtain i act where "documents_kept (s + 1) a" "action_fits a i act" "apply_action s (i, act) a = Inr b"
    by (auto simp only: action_step_def)
  then show "evolved s a b" by (rule apply_action_evolved)
qed

lemma evolved_frame:
  assumes "evolved s a b"
  shows "evolved s a (b\<lparr>nextSeq := n\<rparr>)" "evolved s a (b\<lparr>deletions := ds\<rparr>)" "evolved s a (b\<lparr>storage_closed := c\<rparr>)"
    "evolved s a (b\<lparr>conversationMeta := ms\<rparr>)" "evolved s a (b\<lparr>nextId := nextId b + 1\<rparr>)"
  using assms by (simp_all add: evolved_def)

lemma commit_evolved:
  assumes "consistent st" "commitAt ws seq st = Inr (n, st')"
  shows "evolved (nextSeq st) st st'"
proof -
  obtain p where p: "prepareCommit ws seq st = Inr p" "applyPreparedCommit p st = Inr st'"
    using assms(2) by (auto simp: commitAt_def err_bind_Inr)
  obtain st1 st2 where a: "applyPreparedCommit p st = Inr (st2\<lparr>nextSeq := seq + 1\<rparr>)"
    "rtranclp (write_step seq) st st1" "rtranclp (action_step seq) st1 st2" "documents st1 = documents st"
    by (rule prepared_applies [OF assms(1) p(1)])
  have t: "documents_typed st" by (rule consistent_documents_typed [OF assms(1)])
  have w: "evolved (nextSeq st) st st1" by (rule write_steps_evolved [OF a(2) t])
  have "documents_typed st1"
    unfolding documents_typed_def a(4)
  proof (intro allI impI)
    fix i d assume "documents st i = Some d"
    then obtain u where "recordTypes st i = Some u" using t unfolding documents_typed_def by blast
    with w show "recordTypes st1 i \<noteq> None" by (simp add: evolved_def)
  qed
  then have "evolved seq st1 st2" by (rule action_steps_evolved [OF a(3)])
  then have "evolved (nextSeq st) st st2"
    by (rule evolved_trans [OF w _ commitAt_consistent(4) [OF assms] t])
  then show ?thesis using a(1) p(2) by (auto intro: evolved_frame)
qed

lemma deletion_evolved:
  assumes "deletes st c st'"
  shows "evolved s st st'"
proof -
  have "rows_kept (recordTypes st) (conversations st) (conversations st')" "rows_kept (recordTypes st) (entries st) (entries st')"
    "rows_kept (recordTypes st) (entryCommitSeqs st) (entryCommitSeqs st')"
    using assms by (auto simp: deletes_def rows_kept_def without_def)
  moreover have "nextId st' = nextId st" "recordTypes st' = recordTypes st"
    "\<And>i d'. documents st' i = Some d' \<Longrightarrow> documents st i = Some d'"
    using assms by (simp_all add: deletes_def)
  ultimately show ?thesis by (auto simp: evolved_def grows_refl)
qed

text \<open>Between two states of one storage: sequences and ids only go up, and the later evolved from the earlier.\<close>

definition later :: "storage_state \<Rightarrow> storage_state \<Rightarrow> bool" where
  "later st st' \<longleftrightarrow> nextSeq st \<le> nextSeq st' \<and> evolved (nextSeq st) st st'"

lemma effect_later:
  assumes "storage_effect st st'" "consistent st"
  shows "later st st'"
  using assms
proof cases
  case (commits ws seq n)
  with assms(2) commitAt_consistent(3,4) [OF assms(2) commits] show ?thesis by (simp add: later_def commit_evolved)
next
  case (removes c st2 d)
  have "deletes st c st2" by (rule effect_deletes [OF removes(2) assms(2)])
  then show ?thesis using removes(1) deletion_evolved [of st c st2 "nextSeq st"]
    by (simp add: later_def evolved_frame(2) deletes_def)
qed (simp_all add: later_def evolved_refl evolved_frame [OF evolved_refl])

lemma later_trans:
  assumes "later a b" "later b c" "consistent a"
  shows "later a c"
  using assms evolved_trans [of "nextSeq a" a b "nextSeq b" c] consistent_documents_typed [OF assms(3)]
  by (auto simp: later_def)

interpretation history: storage_history later
proof
  show "later st st" for st by (simp add: later_def evolved_refl)
  show "later a c" if "later a b" "consistent a" "consistent b" "storage_effect b c" for a b c
    by (rule later_trans [OF that(1) effect_later [OF that(4,3)] that(2)])
qed

lemma run_consistent: "consistent (storage_run calls empty_storage)"
  using history.run_later [OF consistent_empty] by blast

subsection \<open>Reads at an earlier sequence\<close>

lemma grows_alive:
  assumes "grows n d d'" "s < n"
  shows "isAliveAt (stored_record d') (AtSeq s) \<longleftrightarrow> isAliveAt (stored_record d) (AtSeq s)"
proof -
  have "doc_createdAt (stored_record d') = doc_createdAt (stored_record d)"
    "retired_later n (doc_retiredAt (stored_record d)) (doc_retiredAt (stored_record d'))"
    using assms(1) by (simp_all add: grows_def)
  with assms(2) show ?thesis by (auto simp: retired_later_def split: option.splits)
qed

lemma grows_revisions:
  assumes "grows n d d'" "s < n" "\<not> isCurrentOnly (stored_record d)"
  shows "revisions_at d' (AtSeq s) = revisions_at d (AtSeq s)"
proof -
  obtain new where "stored_revisions d' = stored_revisions d @ new" "\<forall>p \<in> set new. n \<le> snd p"
    using assms(1,3) by (auto simp: grows_def)
  moreover from this(2) have "filter (\<lambda>(content, seq). seq \<le> s) new = []"
    using assms(2) by (auto simp: filter_empty_conv)
  ultimately show ?thesis by (simp add: revisions_at_def)
qed

text \<open>What a read of a document returns, less its lifecycle record, which a later retirement stamps.\<close>

definition reading :: "stored_document \<Rightarrow> int \<times> json \<times> nat" where
  "reading d = (read_version d, read_value d, read_deltas d)"

lemma materialize_reading:
  "map_sum id reading (materialize_revisions i r revisions) = map_sum id reading (materialize_revisions i r' revisions)"
proof (cases "base_index revisions (length revisions)")
  case (Some k)
  show ?thesis
  proof (cases "fst (revisions ! k)")
    case (BaseContent v x)
    show ?thesis
    proof (cases "replay_deltas i v (drop (Suc k) revisions) (Some x) ({}, free_address (concat (map revision_values revisions)))")
      case (Inr target)
      with Some BaseContent show ?thesis by (cases target) (simp_all add: materialize_revisions_def reading_def)
    qed (use Some BaseContent in \<open>simp add: materialize_revisions_def\<close>)
  qed (use Some in \<open>simp add: materialize_revisions_def\<close>)
qed (simp add: materialize_revisions_def)

definition reads_at :: "storage_state \<Rightarrow> int \<Rightarrow> doc_point \<Rightarrow> storage_error + (int \<times> json \<times> nat) option" where
  "reads_at st i pt = map_sum id (map_option reading) (materializeDocument st i pt)"

text \<open>A document that both states hold reads the same at every sequence the earlier state had passed.\<close>

lemma time_travel:
  assumes "later st st'" "documents st i = Some d" "documents st' i = Some d'" "s < nextSeq st"
  shows "reads_at st' i (AtSeq s) = reads_at st i (AtSeq s)"
proof -
  have g: "grows (nextSeq st) d d'"
    using assms(1) by (intro evolved_document(1) [OF _ assms(3,2)]) (simp add: later_def)
  have o: "isCurrentOnly (stored_record d') = isCurrentOnly (stored_record d)"
    by (rule truncate_fields(7)) (use g in \<open>simp add: grows_def\<close>)
  show ?thesis
  proof (cases "isCurrentOnly (stored_record d)")
    case True
    with o assms(2,3) show ?thesis by (simp add: reads_at_def materializeDocument_def)
  next
    case False
    note r = grows_revisions [OF g assms(4) False] and a = grows_alive [OF g assms(4)]
    have m: "map_sum id (map_option reading) (map_sum id Some x) = map_sum id Some (map_sum id reading x)" for x :: "storage_error + stored_document"
      by (cases x) simp_all
    show ?thesis
      using False o assms(2,3) a materialize_reading [of i "stored_record d'" "revisions_at d (AtSeq s)" "stored_record d"]
      by (simp add: reads_at_def materializeDocument_def r m del: isAliveAt.simps)
  qed
qed

subsection \<open>Reads always find a base\<close>

lemma base_index_found:
  assumes "k < length revisions" "is_base (fst (revisions ! k))" "k < n" "n \<le> length revisions"
  obtains b where "base_index revisions n = Some b" "b < n" "is_base (fst (revisions ! b))"
    "\<And>j. b < j \<Longrightarrow> j < n \<Longrightarrow> \<not> is_base (fst (revisions ! j))"
  using assms(3,4)
proof (induction n arbitrary: thesis)
  case (Suc n)
  show ?case
  proof (cases "is_base (fst (revisions ! n))")
    case True
    then show ?thesis by (intro Suc.prems(1) [of n]) (auto simp: is_base_def split: document_content.splits)
  next
    case False
    with assms(2) Suc.prems(2) have "k < n" by (metis less_SucE)
    then obtain b where b: "base_index revisions n = Some b" "b < n" "is_base (fst (revisions ! b))"
      "\<And>j. b < j \<Longrightarrow> j < n \<Longrightarrow> \<not> is_base (fst (revisions ! j))"
      using Suc.IH Suc.prems(3) by (metis Suc_leD)
    show ?thesis
    proof (rule Suc.prems(1) [of b])
      show "base_index revisions (Suc n) = Some b"
        using b(1) False by (auto simp: is_base_def split: document_content.splits)
      show "\<not> is_base (fst (revisions ! j))" if "b < j" "j < Suc n" for j
        using b(4) [OF that(1)] False that(2) by (cases "j = n") auto
    qed (use b in auto)
  qed
qed simp

lemma version_chain_drop:
  assumes "version_chain v revisions" "k < length revisions" "fst (revisions ! k) = BaseContent w x"
  shows "version_chain w (drop (Suc k) revisions)"
  using assms
proof (induction v revisions arbitrary: k rule: version_chain.induct)
  case (2 v w' y s revisions)
  then show ?case by (cases k) auto
next
  case (3 v w' ops s revisions)
  then show ?case by (cases k) auto
qed simp

lemma immutable_ops_Some:
  "immutable_ops target ops rs = Inr (t, rs') \<Longrightarrow> target \<noteq> None \<Longrightarrow> t \<noteq> None"
  by (induction target ops rs rule: immutable_ops.induct) (auto simp: err_bind_Inr split: prod.splits)

lemma replay_chain:
  assumes "version_chain v revisions" "\<forall>p \<in> set revisions. \<not> is_base (fst p)" "target \<noteq> None"
  shows "(\<exists>e. replay_deltas i v revisions target rs = Inl (ReplayError e)) \<or>
     (\<exists>y. replay_deltas i v revisions target rs = Inr (Some y))"
  using assms
proof (induction i v revisions target rs rule: replay_deltas.induct)
  case (3 i version v ops s revisions target rs)
  show ?case
  proof (cases "immutable_ops target ops rs")
    case (Inr p)
    obtain t rs' where p: "p = (t, rs')" by (cases p)
    have "t \<noteq> None" using immutable_ops_Some Inr p "3.prems"(3) by blast
    with 3 Inr p show ?thesis by auto
  qed (use 3 in simp)
qed (auto simp: is_base_def)

lemma based_materializes:
  assumes "based revisions"
  shows "(\<exists>e. materialize_revisions i r revisions = Inl (ReplayError e)) \<or>
     (\<exists>d. materialize_revisions i r revisions = Inr d)"
proof -
  obtain v x s rest where h: "revisions = (BaseContent v x, s) # rest" "version_chain v rest"
    using assms by (auto simp: based_def split: list.splits prod.splits document_content.splits)
  obtain b where b: "base_index revisions (length revisions) = Some b" "b < length revisions" "is_base (fst (revisions ! b))"
    "\<And>j. b < j \<Longrightarrow> j < length revisions \<Longrightarrow> \<not> is_base (fst (revisions ! j))"
    by (rule base_index_found [of 0 revisions "length revisions"]) (use h(1) in \<open>auto simp: is_base_def\<close>)
  obtain w y where y: "fst (revisions ! b) = BaseContent w y" using b(3) by (auto simp: is_base_def split: document_content.splits)
  have "version_chain v revisions" using h by simp
  then have c: "version_chain w (drop (Suc b) revisions)" using b(2) y by (rule version_chain_drop)
  have "\<forall>p \<in> set (drop (Suc b) revisions). \<not> is_base (fst p)"
  proof
    fix p assume "p \<in> set (drop (Suc b) revisions)"
    then obtain k where "p = revisions ! (Suc b + k)" "Suc b + k < length revisions"
      by (auto simp: in_set_conv_nth)
    then show "\<not> is_base (fst p)" using b(4) [of "Suc b + k"] by simp
  qed
  from replay_chain [OF c this, of "Some y" i "({}, free_address (concat (map revision_values revisions)))"] b(1) y
  show ?thesis by (auto simp: materialize_revisions_def)
qed

lemma version_chain_takeWhile: "version_chain v revisions \<Longrightarrow> version_chain v (takeWhile P revisions)"
  by (induction v revisions rule: version_chain.induct) auto

lemma filter_seq_prefix:
  assumes "sorted_wrt (<) (map snd revisions)"
  shows "filter (\<lambda>(content, seq). seq \<le> s) revisions = takeWhile (\<lambda>p. snd p \<le> (s :: int)) revisions"
  using assms
proof (induction revisions)
  case (Cons p revisions)
  have "\<not> snd p \<le> s \<Longrightarrow> filter (\<lambda>(content, seq). seq \<le> s) revisions = []"
    using Cons.prems by (auto simp: filter_empty_conv)
  with Cons show ?case by (cases p) auto
qed simp

lemma based_revisions_at:
  assumes "document_sound n d" "isAliveAt (stored_record d) pt" "pt = Current \<or> \<not> isCurrentOnly (stored_record d)"
  shows "based (revisions_at d pt)"
proof (cases pt)
  case Current
  with assms(1,2) show ?thesis by (simp add: document_sound_def revisions_at_def)
next
  case (AtSeq s)
  then have o: "\<not> isCurrentOnly (stored_record d)" using assms(3) by simp
  then have b: "based (stored_revisions d)" "snd (hd (stored_revisions d)) \<le> s"
    using assms(1,2) AtSeq by (simp_all add: document_sound_def)
  obtain v x t rest where h: "stored_revisions d = (BaseContent v x, t) # rest" "version_chain v rest"
    using b(1) by (auto simp: based_def split: list.splits prod.splits document_content.splits)
  have "sorted_wrt (<) (map snd (stored_revisions d))" using assms(1) by (simp add: document_sound_def)
  then have "revisions_at d pt = takeWhile (\<lambda>p. snd p \<le> s) (stored_revisions d)"
    using AtSeq by (simp add: revisions_at_def filter_seq_prefix)
  with h b(2) show ?thesis by (simp add: based_def version_chain_takeWhile)
qed

lemma reads_find_base:
  assumes "consistent st" "materializeDocument st i pt = Inl e"
  shows "e = NoHistory i \<and> pt \<noteq> Current \<or> (\<exists>x. e = ReplayError x)"
proof -
  obtain d where d: "documents st i = Some d"
    using assms(2) by (cases "documents st i") (simp_all add: materializeDocument_def)
  have s: "document_sound (nextSeq st) d"
    using assms(1) d by (simp add: consistent_def tables_sound_def documents_kept_def)
  show ?thesis
  proof (cases "pt \<noteq> Current \<and> isCurrentOnly (stored_record d)")
    case True
    with assms(2) d show ?thesis by (simp add: materializeDocument_def)
  next
    case False
    then have a: "isAliveAt (stored_record d) pt"
      using assms(2) d by (auto simp: materializeDocument_def simp del: isAliveAt.simps split: if_splits)
    have "based (revisions_at d pt)" by (rule based_revisions_at [OF s a]) (use False in blast)
    from based_materializes [OF this, of i "stored_record d"] a False assms(2) d show ?thesis
      by (auto simp: materializeDocument_def simp del: isAliveAt.simps)
  qed
qed

subsection \<open>Copies and ids\<close>

text \<open>A committed copy reads as its source did at the copied point.\<close>

lemma copy_reads_source:
  assumes "consistent st" "commit [WCopy r source pt] st = Inr (n, st')"
  shows "\<exists>d. materializeDocument st source pt = Inr (Some d) \<and>
     reads_at st' (doc_id r) Current = Inr (Some (read_version d, read_value d, 0))"
proof -
  let ?w = "WCopy r source pt"
  obtain p where p: "prepareCommit [?w] (nextSeq st) st = Inr p" "applyPreparedCommit p st = Inr st'"
    using assms(2) by (auto simp: commit_def commitAt_def err_bind_Inr)
  obtain live where q: "resolveDocumentCopies st [?w] = Inr (prepared_writes p)"
    "prepareDocumentActions (prepared_writes p) = Inr (prepared_actions p)" "prepared_seq p = nextSeq st"
    by (rule prepared_commit_parts [OF p(1)])
  obtain d where d: "materializeDocument st source pt = Inr (Some d)"
    "prepared_writes p = [WCreate r (read_version d) (read_value d)]"
    using q(1) by (auto simp: resolveDocumentCopies_def resolve_copy_def err_bind_Inr map_sum_def
        split: sum.splits option.splits if_splits)
  let ?a = "\<lparr>action_create = Some r, action_content = Some (BaseContent (read_version d) (read_value d)), action_retire = False\<rparr>"
  have a: "prepared_actions p = [(doc_id r, ?a)]"
    using q(2) by (simp add: d(2) prepareDocumentActions_def action_for_def Let_def)
  obtain st1 where s1: "apply_action (nextSeq st) (doc_id r, ?a) st = Inr st1" and st': "st' = st1\<lparr>nextSeq := nextSeq st + 1\<rparr>"
    using p(2) by (auto simp: applyPreparedCommit_def applyDocumentActions_def d(2) a q(3) err_bind_Inr
        simp del: apply_action.simps)
  have "documents st1 (doc_id r) =
      Some \<lparr>stored_record = stamp_record r (nextSeq st) False,
        stored_revisions = [(BaseContent (read_version d) (read_value d), nextSeq st)]\<rparr>"
    using s1 by (auto simp: create_document_def Let_def err_bind_Inr split: option.splits)
  then have "reads_at st' (doc_id r) Current = Inr (Some (read_version d, read_value d, 0))"
    by (simp add: st' reads_at_def materializeDocument_def materialize_revisions_def revisions_at_def reading_def)
  with d(1) show ?thesis by blast
qed

lemma minted_fresh:
  assumes "consistent st" "mintId st = Inr (i, st')" "later st' st2" "mintId st2 = Inr (j, st3)"
  shows "recordTypes st i = None \<and> isSafeInteger i \<and> i < j"
proof -
  have m: "i = nextId st" "st' = st\<lparr>nextId := nextId st + 1\<rparr>" "isSafeInteger i"
    using assms(2) by (auto simp: mintId_def assertOpen_def err_bind_Inr split: if_splits)
  have "nextId st' \<le> nextId st2" using assms(3) by (simp add: later_def evolved_def)
  moreover have "j = nextId st2" using assms(4) by (auto simp: mintId_def assertOpen_def err_bind_Inr split: if_splits)
  moreover have "recordTypes st i = None"
    using assms(1) m(1) by (cases "recordTypes st i") (auto simp: consistent_def tables_sound_def ids_below_def)
  ultimately show ?thesis using m by simp
qed

end
