(* ===== verification/Context_View.thy ===== *)
theory Context_View
  imports Context_Order Storage_History
begin

text \<open>
  The model context of a conversation, after \<open>packages/gibraltar/src/harness/context.ts\<close>: the newest head
  marker and the newest visible entry bound a range of the transcript; the entries of the range
  contribute their messages, after edits, in an order a provider accepts. A range read before is extended
  by the entries after it. The session runs \<open>captureContextBounds\<close> alone; the scan runs later, so both
  take a state of their own.
\<close>

subsection \<open>Ranges\<close>

record context_bounds =
  bounds_head :: "entry_record option"
  bounds_tail :: int

record context_view =
  view_head :: "entry_record option"
  view_entries :: "entry_record list"
  view_contributions :: "json list list"
  view_messages :: "json list"

record context_range =
  range_bounds :: context_bounds
  range_entries :: "entry_record list"
  range_view :: context_view
  range_edited :: "int set"
  range_settled :: "json list"
  range_open :: "json list"
  range_baseline :: baseline

definition emptyView :: context_view where
  "emptyView = \<lparr>view_head = None, view_entries = [], view_contributions = [], view_messages = []\<rparr>"

fun edit_target :: "context_edit \<Rightarrow> int" where
  "edit_target (OmitEntry target) = target"
| "edit_target (ReplaceEntry target messages) = target"

definition edits_in :: "entry_record list \<Rightarrow> context_edit list" where
  "edits_in es = concat (map (\<lambda>e. case entry_edits e of None \<Rightarrow> [] | Some edits \<Rightarrow> edits) es)"

definition edit_map :: "entry_record list \<Rightarrow> int \<Rightarrow> context_edit option" where
  "edit_map es = fold (\<lambda>edit m. m(edit_target edit \<mapsto> edit)) (edits_in es) Map.empty"

definition selectActive :: "entry_record option \<Rightarrow> entry_record list \<Rightarrow> entry_record list" where
  "selectActive head es =
     (case head of None \<Rightarrow> es | Some h \<Rightarrow> h # filter (\<lambda>e. entry_head e = None) es)"

definition own_messages :: "entry_record \<Rightarrow> json list" where
  "own_messages e = (case entry_model e of None \<Rightarrow> [] | Some messages \<Rightarrow> messages)"

definition EXCLUDED_STOP_REASONS :: "string list" where
  "EXCLUDED_STOP_REASONS = [''aborted'', ''error'', ''deferred'']"

definition excluded :: "json \<Rightarrow> bool" where
  "excluded m \<longleftrightarrow>
     is_assistant m \<and> list_ex (\<lambda>reason. field ''stopReason'' m = Some (JStr reason)) EXCLUDED_STOP_REASONS"

fun contribute :: "entry_record \<Rightarrow> context_edit option \<Rightarrow> json list" where
  "contribute e (Some (OmitEntry target)) = []"
| "contribute e (Some (ReplaceEntry target messages)) = filter (\<lambda>m. \<not> excluded m) messages"
| "contribute e None = filter (\<lambda>m. \<not> excluded m) (own_messages e)"

fun replaces_system :: "context_edit \<Rightarrow> bool" where
  "replaces_system (OmitEntry target) \<longleftrightarrow> False"
| "replaces_system (ReplaceEntry target messages) \<longleftrightarrow> list_ex is_system messages"

definition carriesSystemMessage :: "entry_record \<Rightarrow> bool" where
  "carriesSystemMessage e \<longleftrightarrow>
     list_ex is_system (own_messages e) \<or>
     list_ex replaces_system (case entry_edits e of None \<Rightarrow> [] | Some edits \<Rightarrow> edits)"

definition behind_head :: "entry_record option \<Rightarrow> entry_record \<Rightarrow> bool" where
  "behind_head head e \<longleftrightarrow> (case head of None \<Rightarrow> False | Some h \<Rightarrow> entry_id e \<le> entry_id h)"

fun findBaseline :: "entry_record option \<Rightarrow> entry_record list \<Rightarrow> baseline" where
  "findBaseline head [] = Undecided"
| "findBaseline head (e # es) =
     (if behind_head head e then findBaseline head es
      else if entry_kind e = ''tg.system'' then
        (case find is_system (own_messages e) of None \<Rightarrow> NoBaseline | Some m \<Rightarrow> BaselineMessage m)
      else if head = None \<and> carriesSystemMessage e then NoBaseline
      else findBaseline head es)"

definition view_of ::
  "entry_record option \<Rightarrow> entry_record list \<Rightarrow> json list list \<Rightarrow> json list \<times> json list \<Rightarrow> baseline \<Rightarrow> context_view" where
  "view_of head active contributions parts b =
     \<lparr>view_head = head, view_entries = active, view_contributions = contributions,
      view_messages = leadWithSystem (fst parts @ orderToolResults (snd parts)) b\<rparr>"

definition deriveRange :: "context_bounds \<Rightarrow> entry_record list \<Rightarrow> context_range" where
  "deriveRange b es =
     (let active = selectActive (bounds_head b) es;
          contributions = map (\<lambda>e. contribute e (edit_map es (entry_id e))) active;
          parts = settle [] (concat contributions);
          found = findBaseline (bounds_head b) active in
      \<lparr>range_bounds = b, range_entries = es, range_view = view_of (bounds_head b) active contributions parts found,
       range_edited = set (map edit_target (edits_in es)), range_settled = fst parts, range_open = snd parts,
       range_baseline = found\<rparr>)"

definition changes_earlier :: "context_range \<Rightarrow> entry_record \<Rightarrow> bool" where
  "changes_earlier previous e \<longleftrightarrow>
     entry_edits e \<noteq> None \<or> entry_head e \<noteq> None \<or> entry_id e \<in> range_edited previous"

definition extendRange :: "context_range \<Rightarrow> context_bounds \<Rightarrow> entry_record list \<Rightarrow> context_range" where
  "extendRange previous b added =
     (let es = range_entries previous @ added in
      if list_ex (changes_earlier previous) added then deriveRange b es
      else
        let contributions = map (\<lambda>e. contribute e None) added;
            parts = settle (range_settled previous) (range_open previous @ concat contributions);
            found = (if range_baseline previous \<noteq> Undecided then range_baseline previous
                     else findBaseline (bounds_head b) added) in
        \<lparr>range_bounds = b, range_entries = es,
         range_view = view_of (bounds_head b) (view_entries (range_view previous) @ added)
           (view_contributions (range_view previous) @ contributions) parts found,
         range_edited = range_edited previous, range_settled = fst parts, range_open = snd parts,
         range_baseline = found\<rparr>)"

subsection \<open>Reads\<close>

datatype context_error = FailedRead storage_error | EntryNotVisible int int | UndefinedEntry

definition SCAN_PAGE_SIZE :: nat where "SCAN_PAGE_SIZE = 256"

text \<open>A read that does not return, fails, or gives a value.\<close>

type_synonym 'v reads = "(context_error + 'v) option"

definition then_read :: "(storage_error + 'v) option \<Rightarrow> ('v \<Rightarrow> 'w reads) \<Rightarrow> 'w reads" where
  "then_read r f =
     Option.bind r (\<lambda>found. case found of Inl e \<Rightarrow> Some (Inl (FailedRead e)) | Inr v \<Rightarrow> f v)"

definition newest_entry :: "int \<Rightarrow> entry_query" where
  "newest_entry c = \<lparr>eq_conversation = c, eq_min = None, eq_max = None, eq_order = None\<rparr>"

definition head_bounds :: "int \<Rightarrow> int \<Rightarrow> storage_state \<Rightarrow> context_bounds option reads" where
  "head_bounds c tail st =
     then_read (findLatestHeadMarker c (Some tail) st) (\<lambda>head.
       Some (Inr (Some \<lparr>bounds_head = head, bounds_tail = tail\<rparr>)))"

definition captureContextBounds :: "int \<Rightarrow> int option \<Rightarrow> storage_state \<Rightarrow> context_bounds option reads" where
  "captureContextBounds c at_entry st =
     (case at_entry of
        None \<Rightarrow>
          then_read (scanEntries (newest_entry c) 1 None st) (\<lambda>(items, rest).
            case items of
              Some e # others \<Rightarrow> head_bounds c (entry_id e) st
            | _ \<Rightarrow> Some (Inr None))
      | Some i \<Rightarrow>
          then_read (visibleEntry c i st) (\<lambda>found.
            if found = None then Some (Inl (EntryNotVisible i c)) else head_bounds c i st))"

definition rangeQuery :: "int \<Rightarrow> context_bounds \<Rightarrow> entry_query" where
  "rangeQuery c b =
     \<lparr>eq_conversation = c, eq_min = Option.bind (bounds_head b) entry_head, eq_max = Some (bounds_tail b), eq_order = None\<rparr>"

definition scanRange :: "entry_query \<Rightarrow> storage_state \<Rightarrow> (storage_error + entry_record option list) option" where
  "scanRange q st = map_option (map_sum id rev) (scanAll (\<lambda>cursor. scanEntries q SCAN_PAGE_SIZE cursor st))"

text \<open>Reading a property of an entry that is \<open>undefined\<close> throws.\<close>

definition defined_entries :: "entry_record option list \<Rightarrow> context_error + entry_record list" where
  "defined_entries found = (if None \<in> set found then Inl UndefinedEntry else Inr (map the found))"

definition range_scan :: "entry_query \<Rightarrow> storage_state \<Rightarrow> entry_record list reads" where
  "range_scan q st = then_read (scanRange q st) (\<lambda>found. Some (defined_entries found))"

definition then_range :: "entry_record list reads \<Rightarrow> (entry_record list \<Rightarrow> 'v) \<Rightarrow> 'v reads" where
  "then_range r f = map_option (map_sum id f) r"

definition deriveContext :: "int \<Rightarrow> context_bounds option \<Rightarrow> storage_state \<Rightarrow> context_view reads" where
  "deriveContext c bounds st =
     (case bounds of
        None \<Rightarrow> Some (Inr emptyView)
      | Some b \<Rightarrow> then_range (range_scan (rangeQuery c b) st) (\<lambda>es. range_view (deriveRange b es)))"

definition with_bounds :: "context_bounds option reads \<Rightarrow> (context_bounds option \<Rightarrow> 'v reads) \<Rightarrow> 'v reads" where
  "with_bounds r f =
     Option.bind r (\<lambda>found. case found of Inl e \<Rightarrow> Some (Inl e) | Inr b \<Rightarrow> f b)"

definition readContext :: "int \<Rightarrow> int option \<Rightarrow> storage_state \<Rightarrow> storage_state \<Rightarrow> context_view reads" where
  "readContext c at_entry st scanned =
     with_bounds (captureContextBounds c at_entry st) (\<lambda>bounds. deriveContext c bounds scanned)"

definition added_query :: "int \<Rightarrow> context_bounds \<Rightarrow> context_bounds \<Rightarrow> entry_query" where
  "added_query c before b =
     \<lparr>eq_conversation = c, eq_min = Some (bounds_tail before + 1), eq_max = Some (bounds_tail b), eq_order = None\<rparr>"

definition same_head :: "context_bounds \<Rightarrow> context_bounds \<Rightarrow> bool" where
  "same_head a b \<longleftrightarrow> map_option entry_id (bounds_head a) = map_option entry_id (bounds_head b)"

definition read_range ::
  "int \<Rightarrow> context_bounds \<Rightarrow> context_range option \<Rightarrow> storage_state \<Rightarrow> context_range reads" where
  "read_range c b previous scanned =
     (case previous of
        None \<Rightarrow> then_range (range_scan (rangeQuery c b) scanned) (deriveRange b)
      | Some p \<Rightarrow>
          if \<not> same_head (range_bounds p) b then then_range (range_scan (rangeQuery c b) scanned) (deriveRange b)
          else if bounds_tail b = bounds_tail (range_bounds p) then Some (Inr p)
          else if bounds_tail b < bounds_tail (range_bounds p) then
            Some (Inr (deriveRange b (filter (\<lambda>e. entry_id e \<le> bounds_tail b) (range_entries p))))
          else then_range (range_scan (added_query c (range_bounds p) b) scanned) (extendRange p b))"

definition readContextFrom ::
  "int \<Rightarrow> int option \<Rightarrow> context_range option \<Rightarrow> storage_state \<Rightarrow> storage_state \<Rightarrow>
     (context_view \<times> context_range option) reads" where
  "readContextFrom c at_entry previous st scanned =
     with_bounds (captureContextBounds c at_entry st) (\<lambda>bounds.
       case bounds of
         None \<Rightarrow> Some (Inr (emptyView, None))
       | Some b \<Rightarrow> map_option (map_sum id (\<lambda>r. (range_view r, Some r))) (read_range c b previous scanned))"

definition activeEntries ::
  "int \<Rightarrow> context_bounds option \<Rightarrow> storage_state \<Rightarrow> entry_record option list reads" where
  "activeEntries c bounds scanned =
     (case bounds of
        None \<Rightarrow> Some (Inr [])
      | Some b \<Rightarrow>
          then_read (scanRange (rangeQuery c b) scanned) (\<lambda>found. Some
            (case bounds_head b of
               None \<Rightarrow> Inr found
             | Some h \<Rightarrow> map_sum id (\<lambda>es. map Some (selectActive (Some h) es)) (defined_entries found))))"

end
