(* ===== verification/Context_Extend.thy ===== *)
theory Context_Extend
  imports Context_View
begin

text \<open>
  Why a context may be read piecewise: extending a derived range is deriving the longer range; and what a
  conversation sees up to a visible entry never changes while the store is only appended to, so a range
  read earlier, or scanned later than its bounds, is the range of the moment the bounds were taken.
\<close>

subsection \<open>Extending a range\<close>

lemma edits_in_append: "edits_in (xs @ ys) = edits_in xs @ edits_in ys"
  by (simp add: edits_in_def)

lemma edits_in_none: "\<forall>e \<in> set es. entry_edits e = None \<Longrightarrow> edits_in es = []"
  by (induction es) (simp_all add: edits_in_def)

lemma edit_map_None: "edit_map es i = None \<longleftrightarrow> i \<notin> edit_target ` set (edits_in es)"
proof -
  have "fold (\<lambda>edit m. m(edit_target edit \<mapsto> edit)) edits m i = None \<longleftrightarrow> m i = None \<and> i \<notin> edit_target ` set edits"
    for edits and m :: "int \<Rightarrow> context_edit option"
    by (induction edits arbitrary: m) auto
  then show ?thesis by (simp add: edit_map_def)
qed

lemma selectActive_append:
  "\<forall>e \<in> set ys. entry_head e = None \<Longrightarrow> selectActive head (xs @ ys) = selectActive head xs @ ys"
  by (simp add: selectActive_def filter_id_conv split: option.split)

lemma findBaseline_append:
  "findBaseline head (xs @ ys) = (if findBaseline head xs = Undecided then findBaseline head ys else findBaseline head xs)"
  by (induction xs) (auto split: option.split)

lemma derived_messages:
  "view_messages (range_view (deriveRange b es)) =
     leadWithSystem (orderToolResults (concat (view_contributions (range_view (deriveRange b es)))))
       (range_baseline (deriveRange b es))"
proof -
  let ?ms = "concat (map (\<lambda>e. contribute e (edit_map es (entry_id e))) (selectActive (bounds_head b) es))"
  have "fst (settle [] ?ms) @ orderToolResults (snd (settle [] ?ms)) = orderToolResults ?ms"
    using settle_order [of "[]" ?ms "fst (settle [] ?ms)" "snd (settle [] ?ms)"] by simp
  then show ?thesis by (simp add: deriveRange_def view_of_def Let_def)
qed

lemma extend_derived:
  assumes "bounds_head p = bounds_head b"
  shows "extendRange (deriveRange p es) b added = deriveRange b (es @ added)"
proof (cases "list_ex (changes_earlier (deriveRange p es)) added")
  case True
  then show ?thesis by (simp add: extendRange_def deriveRange_def Let_def)
next
  case False
  then have plain: "\<forall>e \<in> set added. entry_edits e = None" "\<forall>e \<in> set added. entry_head e = None"
    and unedited: "\<forall>e \<in> set added. edit_map es (entry_id e) = None"
    by (auto simp: list_ex_iff changes_earlier_def edit_map_None deriveRange_def Let_def)
  have edits: "edits_in (es @ added) = edits_in es" by (simp add: edits_in_append edits_in_none [OF plain(1)])
  then have map: "edit_map (es @ added) = edit_map es" by (simp add: edit_map_def)
  have active: "selectActive (bounds_head b) (es @ added) = selectActive (bounds_head b) es @ added"
    by (rule selectActive_append [OF plain(2)])
  have new: "map (\<lambda>e. contribute e (edit_map es (entry_id e))) added = map (\<lambda>e. contribute e None) added"
    using unedited by simp
  let ?old = "concat (map (\<lambda>e. contribute e (edit_map es (entry_id e))) (selectActive (bounds_head b) es))"
  let ?new = "concat (map (\<lambda>e. contribute e None) added)"
  have parts: "settle (fst (settle [] ?old)) (snd (settle [] ?old) @ ?new) = settle [] (?old @ ?new)"
    by (rule settle_rounds) simp
  show ?thesis
    unfolding extendRange_def if_not_P [OF False] Let_def
    by (simp add: deriveRange_def Let_def assms edits map active new parts findBaseline_append view_of_def
        del: contribute.simps)
qed

subsection \<open>A store that is only appended to\<close>

definition appends :: "storage_state \<Rightarrow> storage_state \<Rightarrow> bool" where
  "appends st st' \<longleftrightarrow>
     nextId st \<le> nextId st' \<and>
     (\<forall>i < nextId st. conversations st' i = conversations st i \<and> entries st' i = entries st i)"

lemma appends_refl: "appends st st"
  by (simp add: appends_def)

lemma appends_trans: "appends a b \<Longrightarrow> appends b c \<Longrightarrow> appends a c"
  by (auto simp: appends_def)

lemma known_ids:
  assumes "consistent st"
  shows "conversations st c = Some r \<Longrightarrow> c < nextId st" "entries st i = Some e \<Longrightarrow> i < nextId st \<and> entry_id e = i"
proof -
  have t: "typed ConversationTable conv_id (conversations st) (recordTypes st)"
    "typed EntryTable entry_id (entries st) (recordTypes st)" "ids_below st"
    using assms by (simp_all add: consistent_def tables_sound_def conversations_sound_def entries_sound_def)
  have below: "recordTypes st i = Some t \<Longrightarrow> i < nextId st" for i t using t(3) unfolding ids_below_def by blast
  show "conversations st c = Some r \<Longrightarrow> c < nextId st" "entries st i = Some e \<Longrightarrow> i < nextId st \<and> entry_id e = i"
    using t(1,2) below unfolding typed_def by blast+
qed

lemma appends_sees:
  assumes "appends st st'" "consistent st" "ancestral st" "i < nextId st" "c < nextId st"
  shows "sees st' c i \<longleftrightarrow> sees st c i"
proof -
  have up: "parent < nextId st" if "conversations st c = Some r" "conv_parent r = Some (parent, fork)" for c r parent fork
  proof -
    have "parent < c" using assms(3) that by (auto simp: ancestral_def)
    moreover have "c < nextId st" by (rule known_ids(1) [OF assms(2) that(1)])
    ultimately show ?thesis by simp
  qed
  have "sees st' c i \<Longrightarrow> c < nextId st \<Longrightarrow> i < nextId st \<Longrightarrow> sees st c i" for c i
  proof (induction rule: sees.induct)
    case (own i e c)
    then have "entries st i = Some e" using assms(1) by (simp add: appends_def)
    then show ?case using own(2) by (rule sees.own)
  next
    case (inherited c r parent fork i)
    have c: "conversations st c = Some r" using assms(1) inherited(1,6) by (simp add: appends_def)
    have "sees st parent i" by (rule inherited(5) [OF up [OF c inherited(2)] inherited(7)])
    then show ?case by (rule sees.inherited [OF c inherited(2,3)])
  qed
  moreover have "sees st c i \<Longrightarrow> c < nextId st \<Longrightarrow> i < nextId st \<Longrightarrow> sees st' c i" for c i
  proof (induction rule: sees.induct)
    case (own i e c)
    then have "entries st' i = Some e" using assms(1) by (simp add: appends_def)
    then show ?case using own(2) by (rule sees.own)
  next
    case (inherited c r parent fork i)
    have c: "conversations st' c = Some r" using assms(1) inherited(1,6) by (simp add: appends_def)
    have "sees st' parent i" by (rule inherited(5) [OF up [OF inherited(1,2)] inherited(7)])
    then show ?case by (rule sees.inherited [OF c inherited(2,3)])
  qed
  ultimately show ?thesis using assms(4,5) by blast
qed

lemma appends_seen:
  assumes "appends st st'" "consistent st" "ancestral st" "tail < nextId st" "c < nextId st"
  shows "seen st' lower c (Some tail) = seen st lower c (Some tail)"
proof -
  have "i \<le> tail \<Longrightarrow> sees st' c i \<longleftrightarrow> sees st c i" for i
    by (rule appends_sees [OF assms(1-3) _ assms(5)]) (use assms(4) in simp)
  then show ?thesis by (auto simp: seen_def)
qed

subsection \<open>What a read returns\<close>

definition readable :: "storage_state \<Rightarrow> int \<Rightarrow> bool" where
  "readable st c \<longleftrightarrow> scannable st None \<and> ancestral st \<and> conversations st c \<noteq> None"

lemma readable_parts:
  assumes "readable st c"
  shows "consistent st" "ancestral st" "\<not> storage_closed st" "conversations st c \<noteq> None" "c < nextId st"
proof -
  show c: "consistent st" "ancestral st" "\<not> storage_closed st" "conversations st c \<noteq> None"
    using assms by (simp_all add: readable_def scannable_def)
  from c(4) show "c < nextId st" using known_ids(1) [OF c(1)] by blast
qed

lemma readable_query: "readable st (eq_conversation q) \<Longrightarrow> eq_order q = None \<Longrightarrow> transcript_readable st q"
  by (simp add: readable_def transcript_readable_def)

definition visible_range :: "storage_state \<Rightarrow> int option \<Rightarrow> int \<Rightarrow> int \<Rightarrow> entry_record list" where
  "visible_range st lower c tail = map (\<lambda>i. the (entries st i)) (transcript st lower c (Some tail))"

definition bounds_at :: "storage_state \<Rightarrow> int \<Rightarrow> int \<Rightarrow> context_bounds" where
  "bounds_at st c tail =
     \<lparr>bounds_head = Option.bind (newest (sees_head st c (Some tail))) (entries st), bounds_tail = tail\<rparr>"

definition context_at :: "storage_state \<Rightarrow> int \<Rightarrow> int \<Rightarrow> context_range" where
  "context_at st c tail =
     deriveRange (bounds_at st c tail)
       (visible_range st (Option.bind (bounds_head (bounds_at st c tail)) entry_head) c tail)"

text \<open>The entry a read ends at, when there is one.\<close>

definition tail_of :: "storage_state \<Rightarrow> int \<Rightarrow> int option \<Rightarrow> int option" where
  "tail_of st c at_entry =
     (case at_entry of
        Some i \<Rightarrow> if sees st c i then Some i else None
      | None \<Rightarrow> newest (seen st None c None))"

definition no_tail :: "int \<Rightarrow> int option \<Rightarrow> 'v \<Rightarrow> context_error + 'v" where
  "no_tail c at_entry v = (case at_entry of None \<Rightarrow> Inr v | Some i \<Rightarrow> Inl (EntryNotVisible i c))"

lemma seen_finite: "consistent st \<Longrightarrow> ancestral st \<Longrightarrow> finite (seen st lower c upper)"
  using visible_walks(3) [of st lower c upper] by (metis List.finite_set)

lemma newest_in: "finite found \<Longrightarrow> newest found = Some i \<Longrightarrow> i \<in> found"
  using Max_in by (auto simp: newest_def split: if_splits)

lemma newest_head:
  assumes "readable st c" "newest (sees_head st c (Some t)) = Some i"
  shows "i \<le> t \<and> (\<exists>e. entries st i = Some e \<and> entry_head e \<noteq> None)"
  using newest_in [OF sees_head_finite [OF readable_parts(1,2) [OF assms(1)]] assms(2)] by (simp add: sees_head_def)

lemma tail_of_sees:
  assumes "readable st c" "tail_of st c at_entry = Some t"
  shows "sees st c t"
proof (cases at_entry)
  case None
  note r = readable_parts [OF assms(1)]
  have "newest (seen st None c None) = Some t" using assms(2) None by (simp add: tail_of_def)
  from newest_in [OF seen_finite [OF r(1,2)] this] show ?thesis by (simp add: seen_def)
qed (use assms(2) in \<open>simp add: tail_of_def split: if_splits\<close>)

lemma sees_below: "consistent st \<Longrightarrow> sees st c i \<Longrightarrow> i < nextId st"
  using known_ids(2) by (metis seen_entry)

lemma head_bounds_at:
  assumes "readable st c"
  shows "head_bounds c t st = Some (Inr (Some (bounds_at st c t)))"
  using readable_parts [OF assms] by (simp add: head_bounds_def then_read_def head_marker_found bounds_at_def)

lemma capture_at:
  assumes "readable st c"
  shows "captureContextBounds c at_entry st =
     (case tail_of st c at_entry of
        Some t \<Rightarrow> Some (Inr (Some (bounds_at st c t)))
      | None \<Rightarrow> Some (no_tail c at_entry None))"
proof (cases at_entry)
  case (Some i)
  note r = readable_parts [OF assms]
  show ?thesis
  proof (cases "sees st c i")
    case True
    then obtain e where "entries st i = Some e" by (rule seen_entry)
    with True Some show ?thesis
      by (simp add: captureContextBounds_def then_read_def visibleEntry_sees [OF r(1-4)] head_bounds_at [OF assms] tail_of_def)
  qed (use Some in \<open>simp add: captureContextBounds_def then_read_def visibleEntry_sees [OF r(1-4)] tail_of_def no_tail_def\<close>)
next
  case None
  note r = readable_parts [OF assms] and w = visible_walks(3,4) [OF readable_parts(1,2) [OF assms], of None c None]
  let ?ids = "transcript st None c None"
  have q: "transcript_readable st (newest_entry c)" using assms by (intro readable_query) (simp_all add: newest_entry_def)
  have o: "eq_order (newest_entry c) = None" by (simp add: newest_entry_def)
  have rows: "entry_rows st (newest_entry c) Descending = map (entries st) (rev ?ids)"
    by (simp add: entry_rows_def newest_entry_def)
  have page: "scanEntries (newest_entry c) 1 None st =
      Some (Inr (cut 1 (\<lambda>v. nextCursor (the (map_option entry_id v)) Descending) (map (entries st) (rev ?ids))))"
    using entry_scan.front [OF q, of 1] by (simp add: rows wanted_order_def o)
  show ?thesis
  proof (cases "?ids" rule: rev_cases)
    case Nil
    then have "seen st None c None = {}" using w(1) by simp
    with None Nil page show ?thesis
      by (simp add: captureContextBounds_def then_read_def tail_of_def newest_def cut_def no_tail_def)
  next
    case (snoc front t)
    have s: "seen st None c None = insert t (set front)" using w(1) snoc by auto
    moreover have "\<forall>i \<in> set front. i < t" using w(2) snoc by (simp add: sorted_wrt_append)
    ultimately have m: "Max (seen st None c None) = t" by (intro Max_eqI) (auto intro: less_imp_le)
    have "sees st c t" using s by (auto simp: seen_def)
    then obtain e where e: "entries st t = Some e" by (rule seen_entry)
    then have "entry_id e = t" using known_ids(2) [OF r(1)] by blast
    with None snoc page s m e show ?thesis
      by (simp add: captureContextBounds_def then_read_def tail_of_def newest_def cut_def head_bounds_at [OF assms])
  qed
qed

lemma range_scanned:
  assumes "readable st (eq_conversation q)" "eq_order q = None" "eq_max q = Some t"
  shows "range_scan q st = Some (Inr (visible_range st (eq_min q) (eq_conversation q) t))"
proof -
  note r = readable_parts [OF assms(1)] and tr = readable_query [OF assms(1,2)]
  let ?ids = "transcript st (eq_min q) (eq_conversation q) (Some t)"
  have "scanAll (\<lambda>cursor. scanEntries q SCAN_PAGE_SIZE cursor st) = Some (Inr (map (entries st) (rev ?ids)))"
    using entry_scan.scan_returns_all [OF tr, of SCAN_PAGE_SIZE] assms(2,3)
    by (simp add: SCAN_PAGE_SIZE_def entry_rows_def wanted_order_def)
  moreover have "None \<notin> set (map (entries st) ?ids)"
  proof
    assume "None \<in> set (map (entries st) ?ids)"
    then obtain i where "i \<in> seen st (eq_min q) (eq_conversation q) (Some t)" "entries st i = None"
      using visible_walks(3) [OF r(1,2)] by auto
    then show False by (auto simp: seen_def elim: seen_entry)
  qed
  ultimately show ?thesis
    by (simp add: range_scan_def scanRange_def then_read_def defined_entries_def visible_range_def rev_map)
qed

subsection \<open>Reads over an appended store\<close>

text \<open>Heads select context backwards, as the harness writes them.\<close>

definition heads_back :: "storage_state \<Rightarrow> bool" where
  "heads_back st \<longleftrightarrow> (\<forall>i e h. entries st i = Some e \<longrightarrow> entry_head e = Some h \<longrightarrow> h \<le> i)"

lemma appends_range:
  assumes "appends st st'" "readable st c" "t < nextId st"
  shows "visible_range st' lower c t = visible_range st lower c t" "sees_head st' c (Some t) = sees_head st c (Some t)"
    "bounds_at st' c t = bounds_at st c t" "context_at st' c t = context_at st c t"
proof -
  note r = readable_parts [OF assms(2)]
  have seen: "seen st' lower c (Some t) = seen st lower c (Some t)" for lower
    by (rule appends_seen [OF assms(1) r(1,2) assms(3) r(5)])
  have entry: "i \<le> t \<Longrightarrow> entries st' i = entries st i" for i using assms(1,3) by (simp add: appends_def)
  have "i \<in> set (transcript st lower c (Some t)) \<Longrightarrow> i \<le> t" for i lower
    using visible_walks(3) [OF r(1,2)] by (simp add: seen_def)
  then show v: "visible_range st' lower c t = visible_range st lower c t" for lower
    using entry by (simp add: visible_range_def transcript_def seen)
  have "sees_head s c (Some t) = {i \<in> seen s None c (Some t). \<exists>e. entries s i = Some e \<and> entry_head e \<noteq> None}" for s
    by (auto simp: sees_head_def seen_def)
  then show h: "sees_head st' c (Some t) = sees_head st c (Some t)"
    using entry by (auto simp: seen) (auto simp: seen_def)
  have "newest (sees_head st c (Some t)) = Some i \<Longrightarrow> i \<le> t" for i using newest_head [OF assms(2)] by blast
  then show b: "bounds_at st' c t = bounds_at st c t"
    using entry by (cases "newest (sees_head st c (Some t))") (simp_all add: bounds_at_def h)
  show "context_at st' c t = context_at st c t" by (simp add: context_at_def b v)
qed

lemma head_found:
  assumes "readable st c" "bounds_head (bounds_at st c t) = Some h"
  shows "entries st (entry_id h) = Some h" "entry_id h \<le> t"
proof -
  note r = readable_parts [OF assms(1)]
  obtain i where i: "newest (sees_head st c (Some t)) = Some i" "entries st i = Some h"
    using assms(2) by (auto simp: bounds_at_def bind_eq_Some_conv)
  have "entry_id h = i" using known_ids(2) [OF r(1) i(2)] ..
  then show "entries st (entry_id h) = Some h" "entry_id h \<le> t" using newest_head [OF assms(1) i(1)] i(2) by simp_all
qed

lemma context_scanned:
  assumes "appends st st'" "readable st c" "readable st' c" "t < nextId st"
  shows "range_scan (rangeQuery c (bounds_at st c t)) st' =
     Some (Inr (visible_range st (Option.bind (bounds_head (bounds_at st c t)) entry_head) c t))"
proof -
  have "bounds_tail (bounds_at st c t) = t" by (simp add: bounds_at_def)
  then show ?thesis
    using range_scanned [of st' "rangeQuery c (bounds_at st c t)" t] assms(3) appends_range(1) [OF assms(1,2,4)]
    by (simp add: rangeQuery_def)
qed

lemma visible_shorter:
  assumes "readable st c" "t \<le> u"
  shows "filter (\<lambda>e. entry_id e \<le> t) (visible_range st lower c u) = visible_range st lower c t"
proof -
  note r = readable_parts [OF assms(1)] and w = visible_walks(3,4) [OF readable_parts(1,2) [OF assms(1)]]
  have "entry_id (the (entries st i)) = i" if i: "i \<in> set (transcript st lower c (Some u))" for i
  proof -
    have "sees st c i" using i w(1) by (simp add: seen_def)
    then obtain e where "entries st i = Some e" by (rule seen_entry)
    with known_ids(2) [OF r(1) this] show ?thesis by simp
  qed
  then have "filter (\<lambda>e. entry_id e \<le> t) (visible_range st lower c u) =
      map (\<lambda>i. the (entries st i)) (filter (\<lambda>i. i \<le> t) (transcript st lower c (Some u)))"
    by (simp add: visible_range_def filter_map comp_def cong: filter_cong)
  also have "filter (\<lambda>i. i \<le> t) (transcript st lower c (Some u)) = transcript st lower c (Some t)"
    by (rule ascending_unique) (use w assms(2) in \<open>auto simp: seen_def sorted_wrt_filter\<close>)
  finally show ?thesis by (simp add: visible_range_def)
qed

lemma visible_longer:
  assumes "readable st c" "t < u" "\<forall>l. lower = Some l \<longrightarrow> l \<le> t + 1"
  shows "visible_range st lower c t @ visible_range st (Some (t + 1)) c u = visible_range st lower c u"
proof -
  note w = visible_walks(3,4) [OF readable_parts(1,2) [OF assms(1)]]
  have "transcript st lower c (Some t) @ transcript st (Some (t + 1)) c (Some u) = transcript st lower c (Some u)"
  proof (rule ascending_unique)
    show "ascending (transcript st lower c (Some t) @ transcript st (Some (t + 1)) c (Some u))"
      using w by (auto simp: sorted_wrt_append seen_def)
    show "set (transcript st lower c (Some t) @ transcript st (Some (t + 1)) c (Some u)) = set (transcript st lower c (Some u))"
      using w(1) assms(2,3) by (cases lower) (auto simp: seen_def)
  qed (rule w(2))
  then show ?thesis by (simp add: visible_range_def flip: map_append)
qed

subsection \<open>Runs that append\<close>

fun minted_after :: "int \<Rightarrow> storage_write \<Rightarrow> bool" where
  "minted_after n (WConversation r m) \<longleftrightarrow> n \<le> conv_id r"
| "minted_after n (WEntry e) \<longleftrightarrow> n \<le> entry_id e"
| "minted_after n w \<longleftrightarrow> True"

fun appending :: "storage_state \<Rightarrow> storage_call \<Rightarrow> bool" where
  "appending st (CallCommit ws) \<longleftrightarrow> list_all (minted_after (nextId st)) ws"
| "appending st (CallCommitAt ws seq) \<longleftrightarrow> list_all (minted_after (nextId st)) ws"
| "appending st (CallDelete now c) \<longleftrightarrow> False"
| "appending st call \<longleftrightarrow> True"

fun appending_run :: "storage_state \<Rightarrow> storage_call list \<Rightarrow> bool" where
  "appending_run st [] \<longleftrightarrow> True"
| "appending_run st (call # calls) \<longleftrightarrow> appending st call \<and> appending_run (storage_step call st) calls"

definition same_below :: "int \<Rightarrow> storage_state \<Rightarrow> storage_state \<Rightarrow> bool" where
  "same_below n a b \<longleftrightarrow> (\<forall>i < n. conversations b i = conversations a i \<and> entries b i = entries a i)"

lemma apply_write_below:
  assumes "minted_after n w" "apply_write seq w b = Inr c" "same_below n a b"
  shows "same_below n a c"
  using assms
  by (cases "(seq, w, b)" rule: apply_write.cases)
    (auto simp: same_below_def apply_conversation_def apply_entry_def apply_task_def apply_submission_def claim_id_def
      Let_def split: option.splits)

lemma err_bind_kept:
  assumes "err_bind r f = Inr c" "\<And>s. r = Inr s \<Longrightarrow> k s = k0" "\<And>s. f s = Inr c \<Longrightarrow> k c = k s"
  shows "k c = k0"
  using assms by (cases r) auto

lemma apply_action_below:
  assumes "apply_action seq p b = Inr c" "same_below n a b"
  shows "same_below n a c"
proof (cases p)
  case (Pair i act)
  let ?k = "\<lambda>s. (conversations s, entries s)"
  have "?k c = ?k b"
  proof (rule err_bind_kept [where k = ?k, OF assms(1) [unfolded Pair apply_action.simps]])
    fix s
    assume "(case action_create act of
          Some r \<Rightarrow> Inr (create_document i r act seq b)
        | None \<Rightarrow> (case action_content act of
             None \<Rightarrow> Inr b
           | Some content \<Rightarrow> (case documents b i of
               None \<Rightarrow> Inl EngineTypeError
             | Some d \<Rightarrow> Inr (b\<lparr>documents := (documents b)(i \<mapsto> add_revision content seq d)\<rparr>)))) = Inr s"
    then show "?k s = ?k b" by (auto simp: create_document_def claim_id_def Let_def split: option.splits)
  qed (erule err_bind_kept [where k = ?k]; auto split: if_splits option.splits)
  with assms(2) show ?thesis by (simp add: same_below_def)
qed

lemma resolved_minted:
  assumes "resolveDocumentCopies st ws = Inr detached" "list_all (minted_after n) ws"
  shows "list_all (minted_after n) detached"
proof (cases "list_ex is_copy ws")
  case True
  have r: "resolve_write st changed w = Inr w' \<Longrightarrow> minted_after n w \<Longrightarrow> minted_after n w'" for changed w w'
    by (cases "(st, changed, w)" rule: resolve_write.cases)
      (auto simp: resolve_copy_def err_bind_Inr map_sum_def split: sum.splits if_splits option.splits)
  have "map_err (resolve_write st changed) vs = Inr us \<Longrightarrow> list_all (minted_after n) vs \<Longrightarrow> list_all (minted_after n) us"
    for changed vs us
    by (induction vs arbitrary: us) (auto split: sum.splits dest: r)
  with True assms show ?thesis by (simp add: resolveDocumentCopies_def)
qed (use assms in \<open>simp add: resolveDocumentCopies_def\<close>)

lemma commit_appends:
  assumes "consistent st" "commitAt ws seq st = Inr (n, st')" "list_all (minted_after (nextId st)) ws"
  shows "appends st st'"
proof -
  obtain p where p: "prepareCommit ws seq st = Inr p" "applyPreparedCommit p st = Inr st'"
    using assms(2) by (auto simp: commitAt_def err_bind_Inr)
  obtain live where q: "resolveDocumentCopies st ws = Inr (prepared_writes p)" "prepared_seq p = seq"
    by (rule prepared_commit_parts [OF p(1)])
  have m: "list_all (minted_after (nextId st)) (prepared_writes p)" by (rule resolved_minted [OF q(1) assms(3)])
  obtain st1 st2 where a: "fold_err (apply_write seq) (prepared_writes p) st = Inr st1"
    "fold_err (apply_action seq) (prepared_actions p) st1 = Inr st2" "st' = st2\<lparr>nextSeq := seq + 1\<rparr>"
    using p(2) q(2) by (auto simp: applyPreparedCommit_def applyDocumentActions_def err_bind_Inr simp del: apply_action.simps)
  have "same_below (nextId st) st st1"
    by (rule fold_err_invariant [OF a(1)]) (use m in \<open>auto simp: same_below_def [of _ st st] list_all_iff intro: apply_write_below\<close>)
  then have "same_below (nextId st) st st2"
    by (rule fold_err_invariant [OF a(2)]) (rule apply_action_below)
  moreover have "nextId st \<le> nextId st'" using commit_evolved [OF assms(1,2)] by (simp add: evolved_def)
  ultimately show ?thesis using a(3) by (simp add: appends_def same_below_def)
qed

lemma step_appends:
  assumes "consistent st" "appending st call"
  shows "appends st (storage_step call st)"
proof (cases call)
  case (CallCommit ws)
  with assms show ?thesis
    by (auto simp: commit_def appends_refl intro: commit_appends split: sum.split)
next
  case (CallCommitAt ws seq)
  with assms show ?thesis by (auto simp: appends_refl intro: commit_appends split: sum.split)
next
  case CallMint
  then show ?thesis by (auto simp: mintId_def assertOpen_def appends_def split: sum.split)
next
  case (CallUpdateMeta now c u)
  then show ?thesis
    by (auto simp: updateConversationMeta_def err_bind_Inr Let_def appends_def split: sum.split option.splits)
qed (use assms(2) in \<open>simp_all add: closeStorage_def appends_def\<close>)

lemma run_appends:
  "consistent st \<Longrightarrow> appending_run st calls \<Longrightarrow> appends st (storage_run calls st)"
proof (induction calls arbitrary: st)
  case (Cons call calls)
  have c: "consistent (storage_step call st)" by (rule effect_consistent [OF step_effect Cons.prems(1)])
  have "appends (storage_step call st) (storage_run calls (storage_step call st))"
    by (rule Cons.IH [OF c]) (use Cons.prems(2) in simp)
  moreover have "appends st (storage_step call st)" by (rule step_appends [OF Cons.prems(1)]) (use Cons.prems(2) in simp)
  ultimately show ?case by (simp add: storage_run_def appends_trans)
qed (simp add: storage_run_def appends_refl)

end
