(* ===== verification/Storage_Claims.thy ===== *)
theory Storage_Claims
  imports Storage_History
begin

text \<open>
  What the in-memory storage promises, stated over its calls: a sound store after any run, batches that
  apply as validated, complete paged scans, one transcript for both directions of a fork chain, reads of
  the past that later calls do not change, ids that are never reused, and exact deletion. The witnesses
  evaluate a small store: a conversation with two entries, a task and a document, and a fork of it.
\<close>

subsection \<open>A sample store\<close>

definition sample_meta :: conversation_meta where
  "sample_meta = \<lparr>meta_title = ''t'', meta_cwd = ''/w'', meta_lane = ''main'', meta_createdAt = 5, meta_updatedAt = 5,
     meta_archivedAt = None\<rparr>"

definition sample_entry :: "int \<Rightarrow> int \<Rightarrow> int option \<Rightarrow> entry_record" where
  "sample_entry i c h = \<lparr>entry_id = i, entry_conversation = c, entry_kind = ''user'', entry_model = None, entry_data = None,
     entry_head = h, entry_edits = None, entry_byTask = None\<rparr>"

definition sample_task :: task_record where
  "sample_task = \<lparr>task_id = 5, task_conversation = 1, task_kind = ''run'', task_version = 1, task_input = JNull, task_owner = None,
     task_background = False, task_abortRequested = False, task_abortReason = False, task_abandonOnRestart = False,
     task_startedAt = None, task_endedAt = None, task_execution = PendingTask JNull, task_memos = None\<rparr>"

definition sample_doc :: document_create where
  "sample_doc = \<lparr>doc_id = 6, doc_kind = ''notes'', doc_key = None, doc_scope = ConversationScope 1,
     doc_history = Some HistoryRewindable, doc_fork = Some ForkAsOf\<rparr>"

definition sample_calls :: "storage_call list" where
  "sample_calls =
    [CallCommit [WConversation \<lparr>conv_id = 1, conv_parent = None, conv_owner = None\<rparr> sample_meta,
       WEntry (sample_entry 2 1 (Some 2)), WEntry (sample_entry 3 1 None), WTask sample_task,
       WCreate sample_doc 1 (JObj 1 [(''a'', JNull)])],
     CallCommit [WConversation \<lparr>conv_id = 7, conv_parent = Some (1, 2), conv_owner = Some (1, 5)\<rparr> sample_meta,
       WEntry (sample_entry 8 7 None),
       WChange 6 (DeltaContent 1 [JArr 9 [JStr ''s'', JArr 10 [JStr ''a''], JBool True]])]]"

definition sample_store :: storage_state where
  "sample_store = storage_run sample_calls empty_storage"

lemma sample_sound [simp]: "consistent sample_store"
  unfolding sample_store_def by (rule run_consistent)

lemma sample_types:
  "recordTypes sample_store = (recordTypes empty_storage)
     (1 \<mapsto> ConversationTable, 2 \<mapsto> EntryTable, 3 \<mapsto> EntryTable, 5 \<mapsto> TaskTable, 6 \<mapsto> DocumentTable,
      7 \<mapsto> ConversationTable, 8 \<mapsto> EntryTable)"
  by (rule ext) (code_simp; simp?)

lemma sample_conversations:
  "conversations sample_store = (conversations empty_storage)
     (1 \<mapsto> \<lparr>conv_id = 1, conv_parent = None, conv_owner = None\<rparr>,
      7 \<mapsto> \<lparr>conv_id = 7, conv_parent = Some (1, 2), conv_owner = Some (1, 5)\<rparr>)"
  by (rule ext) (code_simp; simp?)

lemma sample_entries:
  "entries sample_store = Map.empty(2 \<mapsto> sample_entry 2 1 (Some 2), 3 \<mapsto> sample_entry 3 1 None, 8 \<mapsto> sample_entry 8 7 None)"
  by (rule ext) (code_simp; simp?)

lemma sample_safe [simp]: "safe_ids sample_store"
  by (auto simp: safe_ids_def sample_types isSafeInteger_def max_safe_integer_def empty_storage_def split: if_splits)

lemma sample_ancestral [simp]: "ancestral sample_store"
  by (auto simp: ancestral_def sample_conversations sample_entries sample_entry_def empty_storage_def split: if_splits)

lemma sample_open [simp]: "\<not> storage_closed sample_store"
  by code_simp

lemma sample_forked [simp]: "conversations sample_store 7 \<noteq> None"
  by (simp add: sample_conversations)

subsection \<open>Commits and runs\<close>


text \<open>
  C12. A batch that \<open>prepareCommit\<close> accepted is applied to its end: no later check fails half way, so the
  storage never holds part of a batch; the result is consistent and has passed the batch's sequence.\<close>

theorem validated_commit_applies:
  assumes "consistent st" "prepareCommit ws seq st = Inr p"
  shows "\<exists>st'. applyPreparedCommit p st = Inr st' \<and> consistent st' \<and> nextSeq st' = seq + 1 \<and> nextSeq st \<le> seq"
proof -
  obtain st1 st2 where "applyPreparedCommit p st = Inr (st2\<lparr>nextSeq := seq + 1\<rparr>)" "consistent (st2\<lparr>nextSeq := seq + 1\<rparr>)"
    by (rule prepared_applies [OF assms])
  moreover obtain live :: "(doc_address \<times> int) list" where "nextSeq st \<le> seq"
    by (rule prepared_commit_parts [OF assms(2)])
  ultimately show ?thesis by simp
qed

definition retire_batch :: "storage_write list" where
  "retire_batch = [WRetire 6, WCreate (sample_doc\<lparr>doc_id := 9\<rparr>) 1 (JObj 1 []), WEntry (sample_entry 10 7 None)]"

lemma retire_batch_accepted: "(case prepareCommit retire_batch 4 sample_store of Inl e \<Rightarrow> False | Inr p \<Rightarrow> True)"
  by code_simp

theorem validated_commit_applies_witness:
  "\<exists>p st'. prepareCommit retire_batch 4 sample_store = Inr p \<and> applyPreparedCommit p sample_store = Inr st' \<and>
     consistent st' \<and> nextSeq st' = 5"
  using retire_batch_accepted validated_commit_applies [OF sample_sound, of retire_batch 4]
  by (fastforce split: sum.splits)



text \<open>
  C28. An id that \<open>mintId\<close> gives out is unused, is a safe integer and is never given out again, whatever
  calls come in between.\<close>

theorem minted_ids_unique:
  assumes "consistent st" "mintId st = Inr (i, st')" "mintId (storage_run calls st') = Inr (j, st2)"
  shows "recordTypes st i = None \<and> isSafeInteger i \<and> i < j"
proof -
  have "st' = st\<lparr>nextId := nextId st + 1\<rparr>"
    using assms(2) by (auto simp: mintId_def assertOpen_def err_bind_Inr split: if_splits)
  then have "consistent st'" using consistent_frame(1) [OF assms(1), of "nextId st + 1"] by simp
  then have "later st' (storage_run calls st')" using history.run_later by blast
  then show ?thesis by (rule minted_fresh [OF assms(1,2) _ assms(3)])
qed

theorem minted_ids_unique_witness:
  "mintId sample_store = Inr (9, sample_store\<lparr>nextId := 10\<rparr>) \<and> recordTypes sample_store 9 = None"
proof -
  have m: "mintId sample_store = Inr (9, sample_store\<lparr>nextId := 10\<rparr>)"
  proof -
    have "nextId sample_store = 9" by code_simp
    then show ?thesis by (simp add: mintId_def assertOpen_def isSafeInteger_def max_safe_integer_def)
  qed
  moreover have "mintId (storage_run [] (sample_store\<lparr>nextId := 10\<rparr>)) = Inr (10, sample_store\<lparr>nextId := 11\<rparr>)"
    by (simp add: storage_run_def mintId_def assertOpen_def isSafeInteger_def max_safe_integer_def)
  ultimately show ?thesis using minted_ids_unique [OF sample_sound] by blast
qed

subsection \<open>Deletion\<close>

text \<open>
  C26. Deleting a conversation other than the root never fails half way. It removes exactly its
  conversation, metadata, entries, tasks, submissions and the documents scoped to it or to one of its
  tasks, keeps every id and sequence spent, and logs a deletion whose counts are the rows removed.\<close>

theorem deletion_exact:
  assumes "consistent st" "\<not> storage_closed st" "c \<noteq> ROOT_CONVERSATION_ID" "conversations st c \<noteq> None"
  shows "\<exists>st'. deleteConversation now c st =
      Inr (Some (deletion_of st c now), st'\<lparr>deletions := deletions st @ [deletion_of st c now]\<rparr>) \<and>
    consistent st' \<and> deletes st c st' \<and>
    deletion_of st c now = \<lparr>deleted_conversation = c, deleted_at = now, deleted_entries = card (entries_of st c),
      deleted_tasks = card (tasks_of st c), deleted_submissions = card (submissions_of st c),
      deleted_documents = card (documents_of st c)\<rparr>"
proof -
  obtain st' where s: "remove_conversation c st = Inr st'" "consistent st'" "deletes st c st'" "deletions st' = deletions st"
    by (rule remove_conversation_spec [OF assms(1)])
  note l = consistent_loose [OF assms(1)]
  have d: "distinct (ids_at (entryIds st) c)" "set (ids_at (entryIds st) c) = entries_of st c"
    using own_ids_spec [OF assms(1), of c] by (auto simp: own_ids_def entries_of_def strict_sorted_iff)
  have "deletion_of st c now = \<lparr>deleted_conversation = c, deleted_at = now, deleted_entries = card (entries_of st c),
      deleted_tasks = card (tasks_of st c), deleted_submissions = card (submissions_of st c),
      deleted_documents = card (documents_of st c)\<rparr>"
    using distinct_card [OF d(1)] d(2) conversation_tasks_set [OF l, of c] conversation_submissions_set [OF l, of c]
      conversation_documents_set [OF assms(1), of c]
    by (simp add: deletion_of_def tasks_of_def submissions_of_def documents_of_def flip: distinct_card)
  with s assms(2-4) show ?thesis
    by (intro exI [of _ st']) (simp add: deleteConversation_def assertOpen_def)
qed

theorem deletion_exact_witness:
  "\<exists>st'. deleteConversation 9 7 sample_store =
     Inr (Some (deletion_of sample_store 7 9), st'\<lparr>deletions := deletions sample_store @ [deletion_of sample_store 7 9]\<rparr>) \<and>
     deletes sample_store 7 st'"
  using deletion_exact [OF sample_sound sample_open _ sample_forked, of 9] by (auto simp: ROOT_CONVERSATION_ID_def)

text \<open>
  A deletion leaves the deleted id in the lists by owner, which no call cleans up: a later scan by
  that owner reads a property of \<open>undefined\<close> and throws.\<close>

lemma deleted_child_breaks_owner_scan:
  "scanConversations \<lparr>cq_ownerConversation = Some 1, cq_ownerTask = None, cq_order = None\<rparr> 10 None
     (storage_run (sample_calls @ [CallDelete 9 7]) empty_storage) = Inl EngineTypeError"
  by code_simp

subsection \<open>Reads\<close>

text \<open>
  C11. Reading the scan of a transcript page by page, with whatever page size and through the cursors the
  storage returns, always ends and gives every entry the conversation sees between the bounds exactly
  once, in the order asked for.\<close>

theorem entry_scan_complete:
  assumes "transcript_readable st q" "0 < limit"
  shows "scanAll (\<lambda>cursor. scanEntries q limit cursor st) = Some (Inr (entry_rows st q (wanted_order (eq_order q) Descending)))"
  by (rule entry_scan.scan_returns_all [OF assms])

definition fork_query :: entry_query where
  "fork_query = \<lparr>eq_conversation = 7, eq_min = None, eq_max = None, eq_order = None\<rparr>"

lemma fork_readable [simp]: "transcript_readable sample_store fork_query"
  by (simp add: transcript_readable_def scannable_def fork_query_def order_wanted_def del: not_None_eq)

theorem entry_scan_complete_witness:
  "scanAll (\<lambda>cursor. scanEntries fork_query 1 cursor sample_store) =
     Some (Inr (entry_rows sample_store fork_query (wanted_order None Descending)))"
  using entry_scan_complete [OF fork_readable, of 1] by (simp add: fork_query_def)

text \<open>
  C13. The newest-first walk that answers most reads and the oldest-first walk that rebuilds the fork chain
  from its root return one transcript: the entries the conversation sees between the bounds, in ascending
  order of id, from the end and from the start, each cut at the number asked for.\<close>

theorem transcript_both_ways:
  assumes "consistent st" "ancestral st"
  shows "\<exists>found. ascending found \<and> set found = {i. sees st c i \<and> \<not> under lower i \<and> up_to upper i} \<and>
    (\<forall>want. visible_asc st lower want c upper = Some (take want found) \<and>
      visible_desc st lower want c upper [] = Some (take want (rev found)))"
  using visible_walks [OF assms]
  by (intro exI [of _ "transcript st lower c upper"]) (simp add: seen_def)

theorem transcript_both_ways_witness:
  "\<exists>found. visible_asc sample_store None 9 7 None = Some (take 9 found) \<and>
     visible_desc sample_store None 9 7 None [] = Some (take 9 (rev found))"
  using transcript_both_ways [OF sample_sound sample_ancestral, of 7 None None] by blast

text \<open>
  C29. The head lookup, which jumps through the head lists of a fork chain, finds the newest entry the
  conversation sees below the bound that sets a head, and none exactly when there is none.\<close>

theorem head_marker_newest:
  assumes "consistent st" "ancestral st" "\<not> storage_closed st" "conversations st c \<noteq> None"
  shows "findLatestHeadMarker c upper st =
    Some (Inr (Option.bind (newest {i. sees st c i \<and> up_to upper i \<and> (\<exists>e. entries st i = Some e \<and> entry_head e \<noteq> None)})
      (entries st)))"
  by (rule head_marker_found [OF assms, unfolded sees_head_def])

theorem head_marker_newest_witness:
  "\<exists>r. findLatestHeadMarker 7 None sample_store = Some (Inr r)"
  using head_marker_newest [OF sample_sound sample_ancestral sample_open sample_forked] by blast

text \<open>
  C10. The past does not change: a document that is still held after any further calls reads, at every
  sequence already passed, exactly what it read before (or fails as it did), whatever was committed,
  retired or deleted since.\<close>

theorem document_time_travel:
  assumes "consistent st" "documents st i = Some d" "documents (storage_run calls st) i = Some d'" "s < nextSeq st"
  shows "reads_at (storage_run calls st) i (AtSeq s) = reads_at st i (AtSeq s)"
  using time_travel [OF _ assms(2-4)] history.run_later [OF assms(1)] by blast

theorem document_time_travel_witness:
  "reads_at (storage_run [CallCommit [WRetire 6]] sample_store) 6 (AtSeq 2) = reads_at sample_store 6 (AtSeq 2)"
proof -
  have "documents sample_store 6 \<noteq> None \<and> documents (storage_run [CallCommit [WRetire 6]] sample_store) 6 \<noteq> None \<and>
      nextSeq sample_store = 3"
    by code_simp
  then show ?thesis using document_time_travel [OF sample_sound, where i = 6 and s = 2] by auto
qed

text \<open>
  C30. Reading a document fails in two ways only: at a point other than the present for a document without
  history, or when replaying its deltas fails. The base revision and the version check always pass.\<close>

theorem reads_fail_only_by_replay:
  assumes "consistent st" "materializeDocument st i pt = Inl e"
  shows "e = NoHistory i \<and> pt \<noteq> Current \<or> (\<exists>x. e = ReplayError x)"
  by (rule reads_find_base [OF assms])

definition plain_doc :: document_create where
  "plain_doc = sample_doc\<lparr>doc_id := 9, doc_kind := ''plain'', doc_history := Some HistoryLatest, doc_fork := None\<rparr>"

definition plain_store :: storage_state where
  "plain_store = storage_run (sample_calls @ [CallCommit [WCreate plain_doc 1 (JObj 1 [])]]) empty_storage"

theorem reads_fail_only_by_replay_witness:
  "\<exists>e. materializeDocument plain_store 9 (AtSeq 3) = Inl e \<and> (e = NoHistory 9 \<or> (\<exists>x. e = ReplayError x))"
proof -
  have "(case materializeDocument plain_store 9 (AtSeq 3) of Inl e \<Rightarrow> True | Inr d \<Rightarrow> False)" by code_simp
  moreover have "consistent plain_store" unfolding plain_store_def by (rule run_consistent)
  ultimately show ?thesis using reads_fail_only_by_replay [of plain_store 9 "AtSeq 3"] by (auto split: sum.splits)
qed


definition copied_doc :: document_create where
  "copied_doc = sample_doc\<lparr>doc_id := 9, doc_scope := ConversationScope 7\<rparr>"


end
