(* ===== verification/Context_Claims.thy ===== *)
theory Context_Claims
  imports Context_Extend Storage_Claims
begin

text \<open>
  What a context read promises: every tool call answered behind its message; a read that reuses an
  earlier range, or scans after its bounds were taken, returns what a whole read at that moment returns;
  and a fork starts with the context of its fork point.
\<close>

subsection \<open>Results of a read\<close>

definition context_read :: "storage_state \<Rightarrow> int \<Rightarrow> int option \<Rightarrow> context_error + context_view" where
  "context_read st c at_entry =
     (case tail_of st c at_entry of
        Some t \<Rightarrow> Inr (range_view (context_at st c t))
      | None \<Rightarrow> no_tail c at_entry emptyView)"

lemma readContext_result:
  assumes "readable st c" "appends st st'" "readable st' c"
  shows "readContext c at_entry st st' = Some (context_read st c at_entry)"
proof (cases "tail_of st c at_entry")
  case (Some t)
  have "t < nextId st"
    by (rule sees_below [OF readable_parts(1) [OF assms(1)] tail_of_sees [OF assms(1) Some]])
  with Some show ?thesis
    by (simp add: readContext_def with_bounds_def capture_at [OF assms(1)] context_read_def deriveContext_def
        context_scanned [OF assms(2,1,3)] then_range_def context_at_def)
next
  case None
  then show ?thesis
    by (cases at_entry) (simp_all add: readContext_def with_bounds_def capture_at [OF assms(1)] context_read_def
        no_tail_def deriveContext_def)
qed

lemma context_parts:
  "range_bounds (context_at st c t) = bounds_at st c t" "bounds_tail (bounds_at st c t) = t"
  "range_entries (context_at st c t) =
     visible_range st (Option.bind (bounds_head (bounds_at st c t)) entry_head) c t"
  by (simp_all add: context_at_def deriveRange_def Let_def bounds_at_def)

lemma same_head_bounds:
  assumes "readable st c" "same_head (bounds_at st c t) (bounds_at st c u)"
  shows "bounds_head (bounds_at st c t) = bounds_head (bounds_at st c u)"
proof (cases "bounds_head (bounds_at st c t)")
  case (Some h)
  then obtain g where g: "bounds_head (bounds_at st c u) = Some g" "entry_id g = entry_id h"
    using assms(2) Some by (cases "bounds_head (bounds_at st c u)") (simp_all add: same_head_def)
  with head_found(1) [OF assms(1) Some] head_found(1) [OF assms(1) g(1)] Some show ?thesis by simp
qed (use assms(2) in \<open>simp add: same_head_def\<close>)

text \<open>A range read before the bounds is continued to the range the bounds ask for.\<close>

lemma read_range_result:
  assumes "readable st c" "heads_back st" "appends st st'" "readable st' c" "t < nextId st"
  shows "read_range c (bounds_at st c t) (Some (context_at st c u)) st' = Some (Inr (context_at st c t))"
proof (cases "same_head (bounds_at st c u) (bounds_at st c t)")
  case False
  then show ?thesis
    by (simp add: read_range_def context_parts context_scanned [OF assms(3,1,4,5)] then_range_def
        context_at_def [of st c t])
next
  case True
  note head = same_head_bounds [OF assms(1) True]
  let ?lower = "Option.bind (bounds_head (bounds_at st c t)) entry_head"
  consider "t = u" | "t < u" | "u < t" by linarith
  then show ?thesis
  proof cases
    case 1
    with True show ?thesis by (simp add: read_range_def context_parts)
  next
    case 2
    then have "filter (\<lambda>e. entry_id e \<le> t) (visible_range st ?lower c u) = visible_range st ?lower c t"
      by (intro visible_shorter [OF assms(1)]) simp
    with True 2 head show ?thesis by (simp add: read_range_def context_parts context_at_def [of st c t])
  next
    case 3
    have lower: "l \<le> u + 1" if l: "?lower = Some l" for l
    proof -
      obtain h where h: "bounds_head (bounds_at st c u) = Some h" "entry_head h = Some l"
        using l head by (auto simp: bind_eq_Some_conv)
      have "l \<le> entry_id h" using assms(2) head_found(1) [OF assms(1) h(1)] h(2) by (auto simp: heads_back_def)
      also have "\<dots> \<le> u" by (rule head_found(2) [OF assms(1) h(1)])
      finally show ?thesis by simp
    qed
    have "visible_range st' (Some (u + 1)) c t = visible_range st (Some (u + 1)) c t"
      by (rule appends_range(1) [OF assms(3,1,5)])
    then have added: "range_scan (added_query c (bounds_at st c u) (bounds_at st c t)) st' =
        Some (Inr (visible_range st (Some (u + 1)) c t))"
      using range_scanned [of st' "added_query c (bounds_at st c u) (bounds_at st c t)" t] assms(4)
      by (simp add: added_query_def context_parts)
    have "extendRange (context_at st c u) (bounds_at st c t) (visible_range st (Some (u + 1)) c t) =
        deriveRange (bounds_at st c t) (visible_range st ?lower c u @ visible_range st (Some (u + 1)) c t)"
      unfolding context_at_def [of st c u] head by (rule extend_derived [OF head])
    also have "\<dots> = context_at st c t"
      using visible_longer [OF assms(1) 3, of ?lower] lower by (simp add: context_at_def)
    finally show ?thesis using True 3 by (simp add: read_range_def context_parts added then_range_def)
  qed
qed

lemma readContextFrom_result:
  assumes "readable st c" "heads_back st" "appends st st'" "readable st' c"
    and "previous = None \<or> (\<exists>u. previous = Some (context_at st c u))"
  shows "readContextFrom c at_entry previous st st' =
     (case tail_of st c at_entry of
        Some t \<Rightarrow> Some (Inr (range_view (context_at st c t), Some (context_at st c t)))
      | None \<Rightarrow> Some (no_tail c at_entry (emptyView, None)))"
proof (cases "tail_of st c at_entry")
  case (Some t)
  have t: "t < nextId st"
    by (rule sees_below [OF readable_parts(1) [OF assms(1)] tail_of_sees [OF assms(1) Some]])
  have "read_range c (bounds_at st c t) previous st' = Some (Inr (context_at st c t))"
    using assms(5) read_range_result [OF assms(1-4) t]
    by (auto simp: read_range_def context_scanned [OF assms(3,1,4) t] then_range_def context_at_def)
  with Some show ?thesis by (simp add: readContextFrom_def with_bounds_def capture_at [OF assms(1)])
next
  case None
  then show ?thesis
    by (cases at_entry) (simp_all add: readContextFrom_def with_bounds_def capture_at [OF assms(1)] no_tail_def)
qed

text \<open>The ranges a reader of one conversation may hold: each came out of a read that was given an earlier one.\<close>

inductive held_range :: "int \<Rightarrow> storage_state \<Rightarrow> context_range option \<Rightarrow> bool" for c where
  start: "held_range c st None"
| grown: "held_range c st0 previous \<Longrightarrow> appends st0 st \<Longrightarrow> readable st c \<Longrightarrow>
    heads_back st \<Longrightarrow> appends st st' \<Longrightarrow> readable st' c \<Longrightarrow>
    readContextFrom c at_entry previous st st' = Some (Inr (v, r)) \<Longrightarrow> held_range c st r"

lemma held_context:
  "held_range c st r \<Longrightarrow> r = None \<or> readable st c \<and> (\<exists>t. t < nextId st \<and> r = Some (context_at st c t))"
proof (induction rule: held_range.induct)
  case (grown st0 previous st st' at_entry v r)
  have "previous = None \<or> (\<exists>u. previous = Some (context_at st c u))"
    using grown.IH appends_range(4) [OF grown.hyps(2)] by metis
  note result = readContextFrom_result [OF grown.hyps(3-6) this, of at_entry]
  show ?case
  proof (cases "tail_of st c at_entry")
    case (Some t)
    then have "t < nextId st"
      using sees_below [OF readable_parts(1) tail_of_sees] grown.hyps(3) by blast
    with Some result grown.hyps(3,7) show ?thesis by auto
  next
    case None
    with result grown.hyps(7) show ?thesis by (auto simp: no_tail_def split: option.splits)
  qed
qed simp

subsection \<open>A sample fork\<close>

lemma sample_readable: "readable sample_store c" if "c = 1 \<or> c = 7"
  using that by (auto simp: readable_def scannable_def order_wanted_def sample_conversations)

lemma sample_heads: "heads_back sample_store"
  by (auto simp: heads_back_def sample_entries sample_entry_def split: if_splits)

lemma sample_sees: "sees sample_store 7 2" "sees sample_store 7 8"
proof -
  have "sees sample_store 1 2" by (rule sees.own [where e = "sample_entry 2 1 (Some 2)"]) (simp_all add: sample_entries sample_entry_def)
  moreover have "conversations sample_store 7 = Some \<lparr>conv_id = 7, conv_parent = Some (1, 2), conv_owner = Some (1, 5)\<rparr>"
    by (simp add: sample_conversations)
  ultimately show "sees sample_store 7 2"
    by (rule sees.inherited [where parent = 1 and fork = 2 and r = "\<lparr>conv_id = 7, conv_parent = Some (1, 2), conv_owner = Some (1, 5)\<rparr>", rotated 3])
      simp_all
  show "sees sample_store 7 8" by (rule sees.own [where e = "sample_entry 8 7 None"]) (simp_all add: sample_entries sample_entry_def)
qed

lemma sample_held: "held_range 7 sample_store (Some (context_at sample_store 7 2))"
proof -
  note r = sample_readable [of 7, simplified]
  show ?thesis
    using readContextFrom_result [OF r sample_heads appends_refl r, of None "Some 2"] sample_sees(1)
    by (intro held_range.grown [OF held_range.start appends_refl r sample_heads appends_refl r, where at_entry = "Some 2"])
      (simp add: tail_of_def)
qed

definition grown_calls :: "storage_call list" where
  "grown_calls =
    [CallCommit [WConversation \<lparr>conv_id = 9, conv_parent = Some (7, 8), conv_owner = None\<rparr> sample_meta,
       WEntry (sample_entry 10 7 None)]]"

definition grown_store :: storage_state where
  "grown_store = storage_run grown_calls sample_store"

lemma grown_types:
  "recordTypes grown_store = (recordTypes sample_store)(9 \<mapsto> ConversationTable, 10 \<mapsto> EntryTable)"
  by (rule ext) (code_simp; simp?)

lemma grown_conversations:
  "conversations grown_store =
     (conversations sample_store)(9 \<mapsto> \<lparr>conv_id = 9, conv_parent = Some (7, 8), conv_owner = None\<rparr>)"
  by (rule ext) (code_simp; simp?)

lemma grown_entries: "entries grown_store = (entries sample_store)(10 \<mapsto> sample_entry 10 7 None)"
  by (rule ext) (code_simp; simp?)

lemma grown_readable: "readable grown_store c" if "c = 7 \<or> c = 9"
proof -
  have run: "grown_store = storage_run (sample_calls @ grown_calls) empty_storage"
    by (simp add: grown_store_def sample_store_def storage_run_def)
  have "consistent grown_store" unfolding run by (rule run_consistent)
  moreover have "safe_ids grown_store"
    using sample_safe by (auto simp: safe_ids_def grown_types isSafeInteger_def max_safe_integer_def)
  moreover have "ancestral grown_store"
    by (auto simp: ancestral_def grown_conversations grown_entries sample_conversations sample_entries sample_entry_def
        empty_storage_def split: if_splits)
  moreover have "\<not> storage_closed grown_store" by code_simp
  ultimately show ?thesis
    using that by (auto simp: readable_def scannable_def order_wanted_def grown_conversations sample_conversations)
qed

lemma grown_appends: "appending_run sample_store grown_calls"
proof -
  have "nextId sample_store = 9" by code_simp
  then show ?thesis by (simp add: grown_calls_def sample_entry_def)
qed

subsection \<open>Messages\<close>

lemma mset_lead: "mset (leadWithSystem ms b) = mset ms"
proof -
  let ?k = "length (takeWhile (\<lambda>m. \<not> is_system m) ms)"
  have "mset (ms ! ?k # take ?k ms @ drop (Suc ?k) ms) = mset ms" if "?k < length ms"
    using arg_cong [OF id_take_nth_drop [OF that], of mset] by simp
  moreover have "?k \<le> length ms" by (rule length_takeWhile_le)
  ultimately show ?thesis unfolding leadWithSystem_def Let_def by (auto simp: le_less)
qed

lemma derived_answered:
  "answered (view_messages (range_view (deriveRange b es)))"
  "mset (filter (\<lambda>m. \<not> is_result m) (view_messages (range_view (deriveRange b es)))) =
     mset (filter (\<lambda>m. \<not> is_result m) (concat (view_contributions (range_view (deriveRange b es)))))"
proof -
  have lead: "mset (filter P (leadWithSystem ms b)) = mset (filter P ms)" for P ms b by (simp add: mset_lead mset_filter)
  show "mset (filter (\<lambda>m. \<not> is_result m) (view_messages (range_view (deriveRange b es)))) =
     mset (filter (\<lambda>m. \<not> is_result m) (concat (view_contributions (range_view (deriveRange b es)))))"
    unfolding derived_messages lead order_keeps ..
qed (simp add: derived_messages answered_lead answered_order)

text \<open>
  C15. The messages of every derived context are what a provider accepts: each assistant message is followed
  at once by one result per tool call, in call order, no result stands anywhere else, and nothing but
  results is dropped or added: all other messages are those the entries contribute.\<close>

theorem tool_calls_answered:
  "answered (view_messages (range_view (deriveRange b es))) \<and>
   mset (filter (\<lambda>m. \<not> is_result m) (view_messages (range_view (deriveRange b es)))) =
     mset (filter (\<lambda>m. \<not> is_result m) (concat (view_contributions (range_view (deriveRange b es)))))"
  using derived_answered by (rule conjI)

subsection \<open>Reads of a growing conversation\<close>

lemma incremental_result:
  assumes "held_range c st0 previous" "appends st0 st" "readable st c" "heads_back st" "appends st st'" "readable st' c"
  shows "readContext c at_entry st st' = Some (context_read st c at_entry)"
    "map_option (map_sum id fst) (readContextFrom c at_entry previous st st') = readContext c at_entry st st'"
proof -
  show r: "readContext c at_entry st st' = Some (context_read st c at_entry)"
    by (rule readContext_result [OF assms(3,5,6)])
  have "previous = None \<or> (\<exists>u. previous = Some (context_at st c u))"
    using held_context [OF assms(1)] appends_range(4) [OF assms(2)] by metis
  note result = readContextFrom_result [OF assms(3-6) this, of at_entry]
  show "map_option (map_sum id fst) (readContextFrom c at_entry previous st st') = readContext c at_entry st st'"
    unfolding r result by (cases at_entry) (simp_all add: context_read_def no_tail_def split: option.split)
qed

text \<open>
  C14. Reusing a range is reading anew, and a read may take its time. Take a range that came out of any
  earlier sequence of incremental reads of a conversation, while the store was only appended to since and
  heads point backwards. Then \<open>readContextFrom\<close>, which scans only the entries after that range, or none,
  and \<open>readContext\<close>, which scans the whole range, both return, and return the view a whole read at the
  moment of the capture returns, even when more is appended between the capture and the scan.\<close>

theorem incremental_context_exact:
  assumes "held_range c st0 previous" "appends st0 st" "readable st c" "heads_back st" "appends st st'" "readable st' c"
  shows "\<exists>r. readContext c at_entry st st = Some r \<and> readContext c at_entry st st' = Some r \<and>
    map_option (map_sum id fst) (readContextFrom c at_entry previous st st') = Some r"
  using incremental_result [OF assms, of at_entry] readContext_result [OF assms(3) appends_refl assms(3), of at_entry]
  by simp

theorem incremental_context_exact_witness:
  "\<exists>r. readContext 7 None sample_store sample_store = Some r \<and>
    map_option (map_sum id fst)
      (readContextFrom 7 None (Some (context_at sample_store 7 2)) sample_store grown_store) = Some r"
proof -
  have "appends sample_store grown_store"
    unfolding grown_store_def by (rule run_appends [OF sample_sound grown_appends])
  then show ?thesis
    using incremental_context_exact [OF sample_held appends_refl _ sample_heads, of grown_store None]
      sample_readable [of 7] grown_readable [of 7]
    by auto
qed

subsection \<open>Forks\<close>

lemma fork_sees:
  assumes "conversations st f = Some r" "conv_parent r = Some (c, fork)"
    and "\<forall>i e. entries st i = Some e \<longrightarrow> entry_conversation e \<noteq> f"
  shows "sees st f i \<longleftrightarrow> i \<le> fork \<and> sees st c i"
proof
  assume "sees st f i"
  then show "i \<le> fork \<and> sees st c i" by cases (use assms in auto)
qed (use assms sees.inherited in blast)

lemma fork_context:
  assumes "readable st c" "sees st c i" "appends st st'" "readable st' f"
    and f: "conversations st' f = Some r" "conv_parent r = Some (c, i)"
      "\<forall>j e. entries st' j = Some e \<longrightarrow> entry_conversation e \<noteq> f"
  shows "context_read st' f None = context_read st c (Some i)"
proof -
  note r = readable_parts [OF assms(1)] and sees = fork_sees [OF f]
  have i: "i < nextId st" by (rule sees_below [OF r(1) assms(2)])
  have "sees st' c i" using appends_sees [OF assms(3) r(1,2) i r(5)] assms(2) by simp
  then have "Max (seen st' None f None) = i \<and> seen st' None f None \<noteq> {}"
    using seen_finite [OF readable_parts(1,2) [OF assms(4)], of None f None]
    by (auto simp: seen_def sees intro!: Max_eqI)
  then have tail: "tail_of st' f None = Some i" by (simp add: tail_of_def newest_def)
  have "sees_head st' f (Some i) = sees_head st' c (Some i)" by (auto simp: sees_head_def sees)
  then have b: "bounds_at st' f i = bounds_at st' c i" by (simp add: bounds_at_def)
  have "seen st' lower f (Some i) = seen st' lower c (Some i)" for lower by (auto simp: seen_def sees)
  then have "visible_range st' lower f i = visible_range st' lower c i" for lower
    by (simp add: visible_range_def transcript_def)
  with b have "context_at st' f i = context_at st' c i" by (simp add: context_at_def)
  also have "\<dots> = context_at st c i" by (rule appends_range(4) [OF assms(3,1) i])
  finally show ?thesis using tail assms(2) by (simp add: context_read_def tail_of_def)
qed

text \<open>
  C16. The context of a conversation at an entry is the view a fork at that entry starts with: once the
  fork is committed, and before it writes anything of its own, reading it returns that very view, whatever
  else was appended to the store since.\<close>

theorem fork_starts_with_context:
  assumes "readable st c" "sees st c i" "appends st st'" "readable st' f"
    and "conversations st' f = Some r" "conv_parent r = Some (c, i)"
    and "\<forall>j e. entries st' j = Some e \<longrightarrow> entry_conversation e \<noteq> f"
  shows "readContext f None st' st' = readContext c (Some i) st st"
  using fork_context [OF assms] readContext_result [OF assms(1) appends_refl assms(1)]
    readContext_result [OF assms(4) appends_refl assms(4)]
  by simp

theorem fork_starts_with_context_witness:
  "readContext 9 None grown_store grown_store = readContext 7 (Some 8) sample_store sample_store"
proof (rule fork_starts_with_context [where r = "\<lparr>conv_id = 9, conv_parent = Some (7, 8), conv_owner = None\<rparr>"])
  show "appends sample_store grown_store"
    unfolding grown_store_def by (rule run_appends [OF sample_sound grown_appends])
qed (simp_all add: sample_readable grown_readable sample_sees grown_conversations grown_entries sample_entries sample_entry_def)

end
