(* ===== verification/Evidence_Hash.thy ===== *)
theory Evidence_Hash
  imports Utf8 "HOL-Library.Word"
begin

unbundle bit_operations_syntax

text \<open>
  The identity of an evidence snapshot (\<open>packages/sec-agent/src/evidence/hashing.ts\<close>): the checks on
  its fields, the text normalizer, and the length-delimited byte encoding whose SHA-256 is the
  snapshot's id. Bytes are 8-bit words, \<open>uint32\<close>, \<open>uint64\<close> and \<open>int64\<close> are written big-endian from
  32- and 64-bit words. Numbers are rationals, the finite numbers of JavaScript; SHA-256 is an
  argument that returns the hex digest.
\<close>

type_synonym byte = "8 word"

text \<open>
  The errors of the evidence store: an argument error carries its message, a number that fails its
  check (a \<open>TypeError\<close> or a \<open>RangeError\<close>) the number.
\<close>

datatype evidence_error =
    EvidenceConflict
  | EvidenceNotFound
  | EvidenceHashMismatch string
  | ArgumentError string
  | NumberError rat
  | BodyError string

subsection \<open>The fields\<close>

record snapshot_fields =
  sn_sourceId :: string
  sn_capturedAt :: rat
  sn_url :: string
  sn_method :: string
  sn_status :: rat
  sn_contentType :: string
  sn_reqHead :: string
  sn_respHead :: string
  sn_reqHash :: string
  sn_respHash :: string
  sn_reqLen :: rat
  sn_respLen :: rat
  sn_flowId :: "string option"

definition hex_lower :: "char \<Rightarrow> bool" where
  "hex_lower c \<longleftrightarrow>
     (let n = of_char c in (48 \<le> n \<and> n \<le> 57) \<or> (97 \<le> n \<and> n \<le> (102 :: nat)))"

definition isEvidenceHash :: "string \<Rightarrow> bool" where
  "isEvidenceHash value \<longleftrightarrow> length value = 64 \<and> list_all hex_lower value"

definition buffer_of :: "string \<Rightarrow> byte list" where
  "buffer_of s = map word_of_nat (utf8_encode s)"

definition tgSecContentHash :: "(byte list \<Rightarrow> string) \<Rightarrow> byte list \<Rightarrow> string" where
  "tgSecContentHash sha256_hex bytes = sha256_hex bytes"

text \<open>\<open>decoded.split("\0").join("")\<close> of the text that went through UTF-8.\<close>

definition normalizeEvidenceText :: "string \<Rightarrow> string" where
  "normalizeEvidenceText value =
     (let decoded = (case utf8_decode (utf8_encode value) of Some s \<Rightarrow> s | None \<Rightarrow> [])
      in join_str [] (split_str [CHR 0x00] decoded))"

definition assertHash :: "string \<Rightarrow> string \<Rightarrow> evidence_error + unit" where
  "assertHash field value =
     (if isEvidenceHash value then Inr ()
      else Inl (ArgumentError (''evidence '' @ field @ '' must be 64 lowercase hex characters, got '' @
        dec_string (length value) @ '' bytes'')))"

definition assertUint32 :: "string \<Rightarrow> rat \<Rightarrow> evidence_error + unit" where
  "assertUint32 field value =
     (if \<not> is_integer value \<or> value < 0 \<or> value > 0xffffffff then Inl (NumberError value) else Inr ())"

definition MAX_SAFE_INTEGER :: rat where "MAX_SAFE_INTEGER = 9007199254740991"

definition assertUint64 :: "string \<Rightarrow> rat \<Rightarrow> evidence_error + unit" where
  "assertUint64 field value =
     (if \<not> is_integer value \<or> value < 0 \<or> value > MAX_SAFE_INTEGER then Inl (NumberError value) else Inr ())"

definition assertInt64 :: "string \<Rightarrow> rat \<Rightarrow> evidence_error + unit" where
  "assertInt64 field value =
     (if \<not> is_integer value \<or> value < - MAX_SAFE_INTEGER \<or> value > MAX_SAFE_INTEGER
      then Inl (NumberError value) else Inr ())"

definition normalizeEvidenceFields :: "snapshot_fields \<Rightarrow> evidence_error + snapshot_fields" where
  "normalizeEvidenceFields f =
     err_bind (assertHash ''reqHash'' (sn_reqHash f)) (\<lambda>_.
     err_bind (assertHash ''respHash'' (sn_respHash f)) (\<lambda>_.
     err_bind (assertUint32 ''status'' (sn_status f)) (\<lambda>_.
     err_bind (assertUint64 ''reqLen'' (sn_reqLen f)) (\<lambda>_.
     err_bind (assertUint64 ''respLen'' (sn_respLen f)) (\<lambda>_.
     err_bind (assertInt64 ''capturedAt'' (sn_capturedAt f)) (\<lambda>_.
       Inr \<lparr>sn_sourceId = normalizeEvidenceText (sn_sourceId f), sn_capturedAt = sn_capturedAt f,
            sn_url = normalizeEvidenceText (sn_url f), sn_method = normalizeEvidenceText (sn_method f),
            sn_status = sn_status f, sn_contentType = normalizeEvidenceText (sn_contentType f),
            sn_reqHead = normalizeEvidenceText (sn_reqHead f),
            sn_respHead = normalizeEvidenceText (sn_respHead f), sn_reqHash = sn_reqHash f,
            sn_respHash = sn_respHash f, sn_reqLen = sn_reqLen f, sn_respLen = sn_respLen f,
            sn_flowId = Some (normalizeEvidenceText (case sn_flowId f of None \<Rightarrow> [] | Some i \<Rightarrow> i))\<rparr>))))))"

subsection \<open>The preimage\<close>

definition be_bytes :: "nat \<Rightarrow> 'a :: len word \<Rightarrow> byte list" where
  "be_bytes n w = map (\<lambda>i. ucast (drop_bit (8 * i) w)) (rev [0..<n])"

definition TAG :: "byte list" where "TAG = buffer_of (''tg.sec.evidence/v1'' @ [CHR 0x00])"
definition FLOW_TAG :: "byte list" where "FLOW_TAG = buffer_of (''tg.sec.evidence/v2'' @ [CHR 0x00])"

text \<open>
  \<open>writeUInt32BE\<close>, \<open>writeBigUInt64BE(BigInt(v))\<close> and \<open>writeBigInt64BE(BigInt(v))\<close>: a value out of range,
  or one that is no integer where a \<open>BigInt\<close> is made of it, throws.
\<close>

definition pushUint32 :: "rat \<Rightarrow> evidence_error + byte list" where
  "pushUint32 value =
     (if 0 \<le> value \<and> value \<le> 0xffffffff then Inr (be_bytes 4 (word_of_int \<lfloor>value\<rfloor> :: 32 word))
      else Inl (NumberError value))"

definition pushUint64 :: "rat \<Rightarrow> evidence_error + byte list" where
  "pushUint64 value =
     (if is_integer value \<and> 0 \<le> value \<and> value < 2 ^ 64
      then Inr (be_bytes 8 (word_of_int \<lfloor>value\<rfloor> :: 64 word))
      else Inl (NumberError value))"

definition pushInt64 :: "rat \<Rightarrow> evidence_error + byte list" where
  "pushInt64 value =
     (if is_integer value \<and> - (2 ^ 63) \<le> value \<and> value < 2 ^ 63
      then Inr (be_bytes 8 (word_of_int \<lfloor>value\<rfloor> :: 64 word))
      else Inl (NumberError value))"

definition pushString :: "string \<Rightarrow> evidence_error + byte list" where
  "pushString value =
     (let bytes = buffer_of value in
      map_sum id (\<lambda>header. header @ bytes) (pushUint32 (of_nat (length bytes))))"

text \<open>\<open>Buffer.from(hash, "hex")\<close>: pairs of hex digits, up to the first that is none.\<close>

definition hex_value :: "char \<Rightarrow> nat option" where
  "hex_value c =
     (let n = of_char c in
      if 48 \<le> n \<and> n \<le> 57 then Some (n - 48)
      else if 97 \<le> n \<and> n \<le> 102 then Some (n - 87)
      else if 65 \<le> n \<and> n \<le> 70 then Some (n - 55) else None)"

fun from_hex :: "string \<Rightarrow> byte list" where
  "from_hex (a # b # s) =
     (case (hex_value a, hex_value b) of
        (Some x, Some y) \<Rightarrow> word_of_nat (16 * x + y) # from_hex s
      | _ \<Rightarrow> [])"
| "from_hex _ = []"

definition pushHash :: "string \<Rightarrow> evidence_error + byte list" where
  "pushHash hash = Inr (from_hex hash)"

definition encodeEvidenceSnapshotPreimage :: "snapshot_fields \<Rightarrow> evidence_error + byte list" where
  "encodeEvidenceSnapshotPreimage f =
     (let flowId = (case sn_flowId f of None \<Rightarrow> [] | Some i \<Rightarrow> i) in
      map_sum id concat
        (map_err id
          ([Inr (if flowId = [] then TAG else FLOW_TAG),
            pushString (sn_sourceId f), pushInt64 (sn_capturedAt f), pushString (sn_url f),
            pushString (sn_method f), pushUint32 (sn_status f), pushString (sn_contentType f),
            pushString (sn_reqHead f), pushString (sn_respHead f), pushHash (sn_reqHash f),
            pushHash (sn_respHash f), pushUint64 (sn_reqLen f), pushUint64 (sn_respLen f)] @
           (if flowId = [] then [] else [pushString flowId]))))"

definition snapshotMetadataId ::
  "(byte list \<Rightarrow> string) \<Rightarrow> snapshot_fields \<Rightarrow> evidence_error + string" where
  "snapshotMetadataId sha256_hex f =
     err_bind (normalizeEvidenceFields f) (\<lambda>n.
       map_sum id sha256_hex (encodeEvidenceSnapshotPreimage n))"

subsection \<open>The normalizer\<close>

lemma join_split_drop: "join_str [] (split_acc [c] acc s) = acc @ filter (\<lambda>x. x \<noteq> c) s"
proof (induction s arbitrary: acc)
  case (Cons x s)
  show ?case
  proof (cases "x = c")
    case True
    then show ?thesis using Cons.IH [of "[]"] by (simp add: join_str_Cons)
  qed (simp add: Cons.IH)
qed simp

lemma normalizeEvidenceText_filter: "normalizeEvidenceText s = filter (\<lambda>c. c \<noteq> CHR 0x00) s"
  by (simp add: normalizeEvidenceText_def utf8_decode_encode split_str_def join_split_drop)

lemma normalizeEvidenceText_idem [simp]:
  "normalizeEvidenceText (normalizeEvidenceText s) = normalizeEvidenceText s"
  by (simp add: normalizeEvidenceText_filter)

text \<open>The facts a normalized record satisfies.\<close>

definition evidence_normal :: "snapshot_fields \<Rightarrow> bool" where
  "evidence_normal f \<longleftrightarrow>
     isEvidenceHash (sn_reqHash f) \<and> isEvidenceHash (sn_respHash f) \<and>
     is_integer (sn_status f) \<and> 0 \<le> sn_status f \<and> sn_status f \<le> 0xffffffff \<and>
     is_integer (sn_reqLen f) \<and> 0 \<le> sn_reqLen f \<and> sn_reqLen f \<le> MAX_SAFE_INTEGER \<and>
     is_integer (sn_respLen f) \<and> 0 \<le> sn_respLen f \<and> sn_respLen f \<le> MAX_SAFE_INTEGER \<and>
     is_integer (sn_capturedAt f) \<and> - MAX_SAFE_INTEGER \<le> sn_capturedAt f \<and>
     sn_capturedAt f \<le> MAX_SAFE_INTEGER \<and>
     list_all (\<lambda>s. CHR 0x00 \<notin> set s)
       [sn_sourceId f, sn_url f, sn_method f, sn_contentType f, sn_reqHead f, sn_respHead f] \<and>
     (\<exists>i. sn_flowId f = Some i \<and> CHR 0x00 \<notin> set i)"

lemma normalizeEvidenceFields_normal:
  "normalizeEvidenceFields f = Inr n \<Longrightarrow> evidence_normal n"
  by (auto simp: normalizeEvidenceFields_def err_bind_Inr assertHash_def assertUint32_def
      assertUint64_def assertInt64_def evidence_normal_def normalizeEvidenceText_filter split: if_splits)

lemma normalizeEvidenceFields_fixed:
  assumes "evidence_normal f"
  shows "normalizeEvidenceFields f = Inr f"
proof -
  have t: "CHR 0x00 \<notin> set s \<Longrightarrow> normalizeEvidenceText s = s" for s
    by (auto simp: normalizeEvidenceText_filter filter_id_conv)
  show ?thesis using assms
    by (auto simp: normalizeEvidenceFields_def err_bind_Inr assertHash_def assertUint32_def
        assertUint64_def assertInt64_def evidence_normal_def t)
qed

subsection \<open>The encoding is prefix-free\<close>

lemma be_bytes_inj:
  fixes v w :: "'a :: len word"
  assumes "be_bytes n v = be_bytes n w" and "LENGTH('a) \<le> 8 * n"
  shows "v = w"
proof (rule bit_word_eqI)
  fix i assume i: "i < LENGTH('a)"
  then have j: "i div 8 < n" using assms(2) by (simp add: less_mult_imp_div_less)
  then have "(ucast (drop_bit (8 * (i div 8)) v) :: byte) = ucast (drop_bit (8 * (i div 8)) w)"
    using assms(1) by (simp add: be_bytes_def)
  then have "bit (ucast (drop_bit (8 * (i div 8)) v) :: byte) (i mod 8) \<longleftrightarrow>
      bit (ucast (drop_bit (8 * (i div 8)) w) :: byte) (i mod 8)" by simp
  then show "bit v i \<longleftrightarrow> bit w i" using i by (simp add: bit_simps)
qed

lemma be_bytes_length [simp]: "length (be_bytes n w) = n"
  by (simp add: be_bytes_def)

lemma framed_word:
  fixes v w :: "'a :: len word"
  assumes "be_bytes n v @ r = be_bytes n w @ r'" and "LENGTH('a) \<le> 8 * n"
  shows "v = w \<and> r = r'"
  using assms be_bytes_inj [of n v w] by (auto simp: append_eq_append_conv)

lemma word_of_int_small:
  fixes a b :: int
  assumes "(word_of_int a :: 'a :: len word) = word_of_int b" "\<bar>a - b\<bar> < 2 ^ LENGTH('a)"
  shows "a = b"
proof -
  have "take_bit LENGTH('a) a = take_bit LENGTH('a) b" using assms(1) by (simp add: word_of_int_eq_iff)
  then have "(2 ^ LENGTH('a) :: int) dvd a - b" by (simp add: take_bit_eq_mod mod_eq_dvd_iff)
  then show ?thesis using assms(2) by (metis abs_dvd_iff dvd_abs_iff dvd_imp_le_int eq_iff_diff_eq_0 linorder_not_less abs_of_nonneg zero_le_power zero_le_numeral)
qed

lemma is_integer_floor: "is_integer r \<Longrightarrow> of_int \<lfloor>r\<rfloor> = r"
  by (cases r) (auto simp: is_integer_def quotient_of_Fract normalize_stable Fract_of_int_eq [symmetric])

lemma integer_eq: "is_integer a \<Longrightarrow> is_integer b \<Longrightarrow> \<lfloor>a\<rfloor> = \<lfloor>b\<rfloor> \<Longrightarrow> a = b"
  by (metis is_integer_floor)

lemma floor_diff:
  assumes "is_integer a" "is_integer b" "\<bar>a - b\<bar> < of_int k"
  shows "\<bar>\<lfloor>a\<rfloor> - \<lfloor>b\<rfloor>\<bar> < k"
proof -
  have "of_int \<bar>\<lfloor>a\<rfloor> - \<lfloor>b\<rfloor>\<bar> = \<bar>a - b\<bar>" by (simp add: is_integer_floor assms(1,2))
  then show ?thesis using assms(3) by (metis of_int_less_iff)
qed

lemma framed_uint32:
  assumes "pushUint32 a = Inr x" "pushUint32 b = Inr y" "is_integer a" "is_integer b" "x @ r = y @ r'"
  shows "a = b \<and> r = r'"
proof -
  have x: "x = be_bytes 4 (word_of_int \<lfloor>a\<rfloor> :: 32 word)" and y: "y = be_bytes 4 (word_of_int \<lfloor>b\<rfloor> :: 32 word)"
    and "\<bar>a - b\<bar> < of_int (2 ^ 32)"
    using assms(1,2) by (auto simp: pushUint32_def split: if_splits)
  with floor_diff [OF assms(3,4)] have d: "\<bar>\<lfloor>a\<rfloor> - \<lfloor>b\<rfloor>\<bar> < 2 ^ 32" by blast
  have "(word_of_int \<lfloor>a\<rfloor> :: 32 word) = word_of_int \<lfloor>b\<rfloor> \<and> r = r'"
    by (rule framed_word [OF assms(5) [unfolded x y]]) simp
  with word_of_int_small [where 'a = 32] d integer_eq [OF assms(3,4)] show ?thesis by simp
qed

lemma framed_uint64:
  assumes "pushUint64 a = Inr x" "pushUint64 b = Inr y" "x @ r = y @ r'"
  shows "a = b \<and> r = r'"
proof -
  have x: "x = be_bytes 8 (word_of_int \<lfloor>a\<rfloor> :: 64 word)" and y: "y = be_bytes 8 (word_of_int \<lfloor>b\<rfloor> :: 64 word)"
    and i: "is_integer a" "is_integer b" and "\<bar>a - b\<bar> < of_int (2 ^ 64)"
    using assms(1,2) by (auto simp: pushUint64_def split: if_splits)
  with floor_diff [OF i] have d: "\<bar>\<lfloor>a\<rfloor> - \<lfloor>b\<rfloor>\<bar> < 2 ^ 64" by blast
  have "(word_of_int \<lfloor>a\<rfloor> :: 64 word) = word_of_int \<lfloor>b\<rfloor> \<and> r = r'"
    by (rule framed_word [OF assms(3) [unfolded x y]]) simp
  with word_of_int_small [where 'a = 64] d integer_eq [OF i] show ?thesis by simp
qed

lemma framed_int64:
  assumes "pushInt64 a = Inr x" "pushInt64 b = Inr y" "x @ r = y @ r'"
  shows "a = b \<and> r = r'"
proof -
  have x: "x = be_bytes 8 (word_of_int \<lfloor>a\<rfloor> :: 64 word)" and y: "y = be_bytes 8 (word_of_int \<lfloor>b\<rfloor> :: 64 word)"
    and i: "is_integer a" "is_integer b" and "\<bar>a - b\<bar> < of_int (2 ^ 64)"
    using assms(1,2) by (auto simp: pushInt64_def split: if_splits)
  with floor_diff [OF i] have d: "\<bar>\<lfloor>a\<rfloor> - \<lfloor>b\<rfloor>\<bar> < 2 ^ 64" by blast
  have "(word_of_int \<lfloor>a\<rfloor> :: 64 word) = word_of_int \<lfloor>b\<rfloor> \<and> r = r'"
    by (rule framed_word [OF assms(3) [unfolded x y]]) simp
  with word_of_int_small [where 'a = 64] d integer_eq [OF i] show ?thesis by simp
qed

lemma buffer_of_inj: "buffer_of s = buffer_of t \<longleftrightarrow> s = t"
proof
  assume eq: "buffer_of s = buffer_of t"
  have "map unat (buffer_of u) = utf8_encode u" for u
    using utf8_bytes_small [of _ u]
    by (auto simp: buffer_of_def unat_of_nat intro!: map_idI)
  with eq show "s = t" by (metis utf8_encode_inj)
qed simp

lemma framed_string:
  assumes "pushString a = Inr x" "pushString b = Inr y" "x @ r = y @ r'"
  shows "a = b \<and> r = r'"
proof -
  let ?n = "\<lambda>s. (of_nat (length (buffer_of s)) :: rat)"
  have i: "is_integer (?n s)" for s by (simp add: is_integer_def)
  obtain u v where u: "pushUint32 (?n a) = Inr u" "x = u @ buffer_of a"
    and v: "pushUint32 (?n b) = Inr v" "y = v @ buffer_of b"
    using assms(1,2) by (cases "pushUint32 (?n a)"; cases "pushUint32 (?n b)") (auto simp: pushString_def)
  from assms(3) have "u @ buffer_of a @ r = v @ buffer_of b @ r'" by (simp add: u v)
  from framed_uint32 [OF u(1) v(1) i i this] have "length (buffer_of a) = length (buffer_of b)"
    "buffer_of a @ r = buffer_of b @ r'" by simp_all
  then show ?thesis by (simp add: buffer_of_inj)
qed

lemma hex_lower_value: "hex_lower c \<Longrightarrow> \<exists>v. hex_value c = Some v \<and> v < 16 \<and> (c = char_of (if v < 10 then v + 48 else v + 87))"
  by (auto simp: hex_lower_def hex_value_def Let_def)

lemma from_hex_inj:
  "list_all hex_lower s \<Longrightarrow> list_all hex_lower t \<Longrightarrow> length s = length t \<Longrightarrow> even (length s) \<Longrightarrow>
     length (from_hex s) = length s div 2 \<and> (from_hex s = from_hex t \<longrightarrow> s = t)"
proof (induction s arbitrary: t rule: induct_list012)
  case (3 a b s)
  from "3.prems"(3) obtain c d t' where t: "t = c # d # t'"
    by (metis length_Suc_conv length_Cons)
  obtain u v where u: "hex_value a = Some u" "u < 16" "a = char_of (if u < 10 then u + 48 else u + 87)"
    and v: "hex_value b = Some v" "v < 16" "b = char_of (if v < 10 then v + 48 else v + 87)"
    using hex_lower_value [of a] hex_lower_value [of b] "3.prems"(1) by auto
  obtain w z where w: "hex_value c = Some w" "w < 16" "c = char_of (if w < 10 then w + 48 else w + 87)"
    and z: "hex_value d = Some z" "z < 16" "d = char_of (if z < 10 then z + 48 else z + 87)"
    using hex_lower_value [of c] hex_lower_value [of d] "3.prems"(2) t by auto
  have ih: "length (from_hex s) = length s div 2 \<and> (from_hex s = from_hex t' \<longrightarrow> s = t')"
    using "3.IH"(1) [of t'] "3.prems" by (simp add: t)
  have "u = w \<and> v = z" if "(word_of_nat (16 * u + v) :: byte) = word_of_nat (16 * w + z)"
  proof -
    have "16 * u + v = 16 * w + z"
    proof -
      have "(16 * u + v) mod 256 = (16 * w + z) mod 256"
        using arg_cong [OF that, of unat] unfolding unat_of_nat by simp
      moreover have "16 * u + v < 256" "16 * w + z < 256" using u(2) v(2) w(2) z(2) by linarith+
      ultimately show ?thesis by (simp only: mod_less)
    qed
    then have "(16 * u + v) div 16 = (16 * w + z) div 16" by (rule arg_cong)
    then have "u = w" using v(2) z(2) by simp
    with \<open>16 * u + v = 16 * w + z\<close> show ?thesis by simp
  qed
  then have digits: "(word_of_nat (16 * u + v) :: byte) = word_of_nat (16 * w + z) \<Longrightarrow> a = c \<and> b = d"
    unfolding u(3) v(3) w(3) z(3) by blast
  have "from_hex (a # b # s) = word_of_nat (16 * u + v) # from_hex s"
    "from_hex t = word_of_nat (16 * w + z) # from_hex t'"
    by (simp_all only: t from_hex.simps u(1) v(1) w(1) z(1) prod.case option.case)
  then show ?case using ih digits by (simp add: t)
next
  case (2 x)
  from "2.prems"(4) show ?case by simp
qed simp

subsection \<open>Equal preimages mean equal facts\<close>

lemma framed_hash:
  assumes "isEvidenceHash a" "isEvidenceHash b" "from_hex a @ r = from_hex b @ r'"
  shows "a = b \<and> r = r'"
proof -
  have h: "list_all hex_lower a" "list_all hex_lower b" "length a = length b" "even (length a)"
    "list_all hex_lower a" "length b = length a" "even (length b)"
    using assms(1,2) by (simp_all add: isEvidenceHash_def)
  have "length (from_hex a) = length (from_hex b)"
    using from_hex_inj [OF h(1,2,3,4)] from_hex_inj [OF h(2,1,6,7)] h(3) by simp
  with assms(3) have "from_hex a = from_hex b" "r = r'" by simp_all
  with from_hex_inj [OF h(1,2,3,4)] show ?thesis by simp
qed

lemma map_err_id_Cons:
  "map_err id (x # xs) = Inr ys \<longleftrightarrow> (\<exists>b bs. x = Inr b \<and> map_err id xs = Inr bs \<and> ys = b # bs)"
  by (auto split: sum.splits)

lemma tag_frame:
  assumes "(if i = [] then TAG else FLOW_TAG) @ r = (if j = [] then TAG else FLOW_TAG) @ r'"
  shows "(i = []) = (j = []) \<and> r = r'"
proof -
  have len: "length TAG = length FLOW_TAG" and ne: "TAG \<noteq> FLOW_TAG"
    by (simp_all add: TAG_def FLOW_TAG_def buffer_of_def utf8_bytes_of_def)
  show ?thesis using assms len ne by (auto split: if_splits)
qed

lemma preimage_frames:
  assumes "encodeEvidenceSnapshotPreimage f = Inr b" and "evidence_normal f"
  obtains i s c u m st ct qh rh ql rl fl where "sn_flowId f = Some i"
    "pushString (sn_sourceId f) = Inr s" "pushInt64 (sn_capturedAt f) = Inr c"
    "pushString (sn_url f) = Inr u" "pushString (sn_method f) = Inr m"
    "pushUint32 (sn_status f) = Inr st" "pushString (sn_contentType f) = Inr ct"
    "pushString (sn_reqHead f) = Inr qh" "pushString (sn_respHead f) = Inr rh"
    "pushUint64 (sn_reqLen f) = Inr ql" "pushUint64 (sn_respLen f) = Inr rl"
    "if i = [] then fl = [] else pushString i = Inr fl"
    "b = (if i = [] then TAG else FLOW_TAG) @ s @ c @ u @ m @ st @ ct @ qh @ rh @
       from_hex (sn_reqHash f) @ from_hex (sn_respHash f) @ ql @ rl @ fl"
proof -
  obtain i where i: "sn_flowId f = Some i" using assms(2) by (auto simp: evidence_normal_def)
  let ?tail = "if i = [] then [] else [pushString i]"
  obtain bs where bs: "map_err id
      ([Inr (if i = [] then TAG else FLOW_TAG), pushString (sn_sourceId f), pushInt64 (sn_capturedAt f),
        pushString (sn_url f), pushString (sn_method f), pushUint32 (sn_status f),
        pushString (sn_contentType f), pushString (sn_reqHead f), pushString (sn_respHead f),
        pushHash (sn_reqHash f), pushHash (sn_respHash f), pushUint64 (sn_reqLen f),
        pushUint64 (sn_respLen f)] @ ?tail) = Inr bs" "b = concat bs"
    using assms(1) by (auto simp: encodeEvidenceSnapshotPreimage_def i Let_def split: sum.splits)

  show thesis
  proof (cases "i = []")
    case True
    with bs show thesis
      by (simp only: simp_thms if_True append_Nil2 map_err_id_Cons map_err.simps(1) pushHash_def sum.inject)
        (elim exE conjE, rule that [OF i, where fl = "[]"], simp_all)
  next
    case False
    with bs show thesis
      by (simp only: simp_thms if_False append_Cons append_Nil map_err_id_Cons map_err.simps(1) pushHash_def sum.inject)
        (elim exE conjE, rule that [OF i], simp_all)
  qed
qed

lemma preimage_determines:
  assumes n: "evidence_normal f" "evidence_normal g"
    and e: "encodeEvidenceSnapshotPreimage f = Inr b" "encodeEvidenceSnapshotPreimage g = Inr b"
  shows "f = g"
proof -
  obtain i s c u m st ct qh rh ql rl fl where F: "sn_flowId f = Some i"
    "pushString (sn_sourceId f) = Inr s" "pushInt64 (sn_capturedAt f) = Inr c"
    "pushString (sn_url f) = Inr u" "pushString (sn_method f) = Inr m"
    "pushUint32 (sn_status f) = Inr st" "pushString (sn_contentType f) = Inr ct"
    "pushString (sn_reqHead f) = Inr qh" "pushString (sn_respHead f) = Inr rh"
    "pushUint64 (sn_reqLen f) = Inr ql" "pushUint64 (sn_respLen f) = Inr rl"
    "if i = [] then fl = [] else pushString i = Inr fl"
    "b = (if i = [] then TAG else FLOW_TAG) @ s @ c @ u @ m @ st @ ct @ qh @ rh @
       from_hex (sn_reqHash f) @ from_hex (sn_respHash f) @ ql @ rl @ fl"
    using preimage_frames [OF e(1) n(1)] by blast
  obtain i' s' c' u' m' st' ct' qh' rh' ql' rl' fl' where G: "sn_flowId g = Some i'"
    "pushString (sn_sourceId g) = Inr s'" "pushInt64 (sn_capturedAt g) = Inr c'"
    "pushString (sn_url g) = Inr u'" "pushString (sn_method g) = Inr m'"
    "pushUint32 (sn_status g) = Inr st'" "pushString (sn_contentType g) = Inr ct'"
    "pushString (sn_reqHead g) = Inr qh'" "pushString (sn_respHead g) = Inr rh'"
    "pushUint64 (sn_reqLen g) = Inr ql'" "pushUint64 (sn_respLen g) = Inr rl'"
    "if i' = [] then fl' = [] else pushString i' = Inr fl'"
    "b = (if i' = [] then TAG else FLOW_TAG) @ s' @ c' @ u' @ m' @ st' @ ct' @ qh' @ rh' @
       from_hex (sn_reqHash g) @ from_hex (sn_respHash g) @ ql' @ rl' @ fl'"
    using preimage_frames [OF e(2) n(2)] by blast
  have h: "isEvidenceHash (sn_reqHash f)" "isEvidenceHash (sn_reqHash g)"
    "isEvidenceHash (sn_respHash f)" "isEvidenceHash (sn_respHash g)"
    "is_integer (sn_status f)" "is_integer (sn_status g)"
    using n by (simp_all add: evidence_normal_def)
  note eq = trans [OF F(13) [symmetric] G(13)]
  note t0 = tag_frame [OF eq]
  note t1 = framed_string [OF F(2) G(2) conjunct2 [OF t0]]
  note t2 = framed_int64 [OF F(3) G(3) conjunct2 [OF t1]]
  note t3 = framed_string [OF F(4) G(4) conjunct2 [OF t2]]
  note t4 = framed_string [OF F(5) G(5) conjunct2 [OF t3]]
  note t5 = framed_uint32 [OF F(6) G(6) h(5,6) conjunct2 [OF t4]]
  note t6 = framed_string [OF F(7) G(7) conjunct2 [OF t5]]
  note t7 = framed_string [OF F(8) G(8) conjunct2 [OF t6]]
  note t8 = framed_string [OF F(9) G(9) conjunct2 [OF t7]]
  note t9 = framed_hash [OF h(1,2) conjunct2 [OF t8]]
  note t10 = framed_hash [OF h(3,4) conjunct2 [OF t9]]
  note t11 = framed_uint64 [OF F(10) G(10) conjunct2 [OF t10]]
  note t12 = framed_uint64 [OF F(11) G(11) conjunct2 [OF t11]]
  have "i = i'"
  proof (cases "i = []")
    case True
    with t0 show ?thesis by simp
  next
    case False
    with t0 F(12) G(12) have "pushString i = Inr fl" "pushString i' = Inr fl'" by simp_all
    with framed_string [OF this, of "[]" "[]"] t12 show ?thesis by simp
  qed
  with t1 t2 t3 t4 t5 t6 t7 t8 t9 t10 t11 t12 F(1) G(1) show ?thesis by simp
qed

end
