(* ===== verification/Findings_Vocabulary.thy ===== *)
theory Findings_Vocabulary
  imports Evidence_Hash
begin

text \<open>
  The vocabulary of findings (\<open>packages/sec-agent/src/finding-vocabulary.ts\<close>): severities, the
  lifecycle and its legal transitions. Severities and statuses reach the store as strings from rows
  and callers and are checked there, so they are strings here.
\<close>

definition TG_SEC_FINDING_SEVERITIES :: "string list" where
  "TG_SEC_FINDING_SEVERITIES = [''critical'', ''high'', ''medium'', ''low'']"

definition TG_SEC_FINDING_STATUSES :: "string list" where
  "TG_SEC_FINDING_STATUSES = [''open'', ''verified'', ''retest-pass'', ''retest-fail'', ''wontfix'']"

definition TG_SEC_RETEST_STATUSES :: "string list" where
  "TG_SEC_RETEST_STATUSES = [''retest-pass'', ''retest-fail'']"

definition FINDING_TRANSITIONS :: "(string \<times> string list) list" where
  "FINDING_TRANSITIONS =
     [(''open'', [''verified'', ''wontfix'']),
      (''verified'', [''retest-pass'', ''retest-fail'', ''wontfix'']),
      (''retest-pass'', [''retest-fail'', ''wontfix'']),
      (''retest-fail'', [''verified'', ''retest-pass'', ''wontfix'']),
      (''wontfix'', [])]"

definition isTgSecFindingSeverity :: "string \<Rightarrow> bool" where
  "isTgSecFindingSeverity value \<longleftrightarrow> value \<in> set TG_SEC_FINDING_SEVERITIES"

definition isTgSecFindingStatus :: "string \<Rightarrow> bool" where
  "isTgSecFindingStatus value \<longleftrightarrow> value \<in> set TG_SEC_FINDING_STATUSES"

definition isTgSecRetestStatus :: "string \<Rightarrow> bool" where
  "isTgSecRetestStatus value \<longleftrightarrow> value \<in> set TG_SEC_RETEST_STATUSES"

definition isTgSecFindingTransitionAllowed :: "string \<Rightarrow> string \<Rightarrow> bool" where
  "isTgSecFindingTransitionAllowed old new =
     (case map_of FINDING_TRANSITIONS old of None \<Rightarrow> False | Some targets \<Rightarrow> new \<in> set targets)"

definition assertTgSecFindingSeverity :: "string \<Rightarrow> evidence_error + unit" where
  "assertTgSecFindingSeverity value =
     (if isTgSecFindingSeverity value then Inr ()
      else Inl (ArgumentError (''finding severity '' @ value @ '' is not one of '' @
        join_str '', '' TG_SEC_FINDING_SEVERITIES)))"

definition assertTgSecFindingStatus :: "string \<Rightarrow> evidence_error + unit" where
  "assertTgSecFindingStatus value =
     (if isTgSecFindingStatus value then Inr ()
      else Inl (ArgumentError (''finding status '' @ value @ '' is not one of '' @
        join_str '', '' TG_SEC_FINDING_STATUSES)))"

lemmas vocabulary_defs =
  TG_SEC_FINDING_SEVERITIES_def TG_SEC_FINDING_STATUSES_def TG_SEC_RETEST_STATUSES_def
  FINDING_TRANSITIONS_def isTgSecFindingSeverity_def isTgSecFindingStatus_def
  isTgSecRetestStatus_def isTgSecFindingTransitionAllowed_def

lemma assert_vocabulary [simp]:
  "assertTgSecFindingSeverity s = Inr u \<longleftrightarrow> isTgSecFindingSeverity s"
  "assertTgSecFindingStatus s = Inr u \<longleftrightarrow> isTgSecFindingStatus s"
  by (simp_all add: assertTgSecFindingSeverity_def assertTgSecFindingStatus_def)

text \<open>Transitions stay inside the vocabulary, and \<open>wontfix\<close> is the only terminal status.\<close>

lemma transition_statuses:
  "isTgSecFindingTransitionAllowed old new \<Longrightarrow>
     isTgSecFindingStatus old \<and> isTgSecFindingStatus new \<and> old \<noteq> new \<and> old \<noteq> ''wontfix''"
  by (auto simp: vocabulary_defs split: if_splits)

end
