(* ===== verification/Evidence_Store.thy ===== *)
theory Evidence_Store
  imports Findings_Vocabulary "HOL-Library.Char_ord" "HOL-Library.List_Lexorder"
begin

text \<open>
  The evidence store (\<open>packages/sec-agent/src/evidence/store.ts\<close>, \<open>blobs.ts\<close>, \<open>schema.ts\<close>): frozen HTTP
  exchanges as content-addressed bodies plus rows that bind them to subjects under an optimistic
  lock, findings with their lifecycle, and garbage collection with a grace period.

  The state is the four tables of the index as lists of rows in insertion order, the two directories
  of body files, and the audit spans. A SQL statement is the list operation it denotes: an insert
  appends, an update maps, a delete filters. A transaction whose body throws leaves the tables as
  they were, which is what \<open>NodeSqliteDatabase.transaction\<close> promises; body files are written outside
  of it and stay. Times are milliseconds, arguments of the operations; SHA-256 is an argument.
\<close>

subsection \<open>Tables and files\<close>

record snapshot_row =
  row_id :: string
  row_fields :: snapshot_fields
  row_created :: int
  row_unreferenced :: "int option"

record binding_row =
  bd_id :: nat
  bd_subject :: string
  bd_snapshot :: string
  bd_role :: string
  bd_note :: string
  bd_position :: nat
  bd_created :: int

record finding_row =
  fd_id :: string
  fd_lane :: string
  fd_title :: string
  fd_severity :: string
  fd_status :: string
  fd_subject :: string
  fd_retest :: string
  fd_created :: int
  fd_updated :: int

record body_file =
  file_name :: string
  file_bytes :: "byte list"
  file_mtime :: int

datatype evidence_op = OpRecord | OpBind | OpList | OpEdit | OpCollect | OpRead

datatype evidence_outcome = OutcomeOk | OutcomeConflict | OutcomeNotFound | OutcomeError

record evidence_span =
  es_op :: evidence_op
  es_subject :: "string option"
  es_outcome :: evidence_outcome
  es_changed :: bool
  es_count :: nat

record evidence_state =
  db_snapshots :: "snapshot_row list"
  db_bindings :: "binding_row list"
  db_versions :: "(string \<times> int) list"
  db_findings :: "finding_row list"
  db_nextBinding :: nat
  fs_blobs :: "body_file list"
  fs_staging :: "body_file list"
  evidence_audit :: "evidence_span list"

definition EVIDENCE_GRACE_MS :: int where "EVIDENCE_GRACE_MS = 24 * 60 * 60 * 1000"

definition EVIDENCE_ROLES :: "string list" where
  "EVIDENCE_ROLES = [''baseline'', ''proof'', ''verification'', ''supporting'']"

definition assertRole :: "string \<Rightarrow> evidence_error + unit" where
  "assertRole role =
     (if role \<in> set EVIDENCE_ROLES then Inr ()
      else Inl (ArgumentError (''evidence role '' @ role @ '' is not one of '' @
        join_str '', '' EVIDENCE_ROLES)))"

subsection \<open>Transactions and the audit\<close>

definition run_transaction ::
  "(evidence_state \<Rightarrow> evidence_error + evidence_state \<times> 'a) \<Rightarrow> evidence_state \<Rightarrow>
   evidence_state \<times> (evidence_error + 'a)" where
  "run_transaction body st =
     (case body st of Inl e \<Rightarrow> (st, Inl e) | Inr (st', x) \<Rightarrow> (st', Inr x))"

fun outcomeOf :: "evidence_error \<Rightarrow> evidence_outcome" where
  "outcomeOf EvidenceConflict = OutcomeConflict"
| "outcomeOf EvidenceNotFound = OutcomeNotFound"
| "outcomeOf _ = OutcomeError"

definition subjectDigest :: "(byte list \<Rightarrow> string) \<Rightarrow> string \<Rightarrow> string" where
  "subjectDigest sha256_hex subject = take 16 (sha256_hex (buffer_of subject))"

text \<open>\<open>run\<close> yields the value, whether the store changed, and a count.\<close>

definition emitEvidence ::
  "(byte list \<Rightarrow> string) \<Rightarrow> evidence_op \<Rightarrow> string option \<Rightarrow>
   (evidence_state \<Rightarrow> evidence_state \<times> (evidence_error + 'a \<times> bool \<times> nat)) \<Rightarrow> evidence_state \<Rightarrow>
   evidence_state \<times> (evidence_error + 'a)" where
  "emitEvidence sha256_hex kind subject run st =
     (let started = \<lparr>es_op = kind, es_subject = map_option (subjectDigest sha256_hex) subject,
                     es_outcome = OutcomeOk, es_changed = False, es_count = 0\<rparr>
      in case run st of
           (st', Inr (x, changed, n)) \<Rightarrow>
             (st'\<lparr>evidence_audit := evidence_audit st' @ [started\<lparr>es_changed := changed, es_count := n\<rparr>]\<rparr>,
              Inr x)
         | (st', Inl e) \<Rightarrow>
             (st'\<lparr>evidence_audit := evidence_audit st' @ [started\<lparr>es_outcome := outcomeOf e\<rparr>]\<rparr>, Inl e))"

subsection \<open>Bodies\<close>

text \<open>The file name under which a body is stored, inside its bucket directory.\<close>

definition blobName :: "string \<Rightarrow> string" where "blobName hash = hash @ ''.bin''"

definition find_file :: "string \<Rightarrow> body_file list \<Rightarrow> body_file option" where
  "find_file name files = find (\<lambda>f. file_name f = name) files"

definition verifyFile :: "(byte list \<Rightarrow> string) \<Rightarrow> body_file \<Rightarrow> string \<Rightarrow> nat \<Rightarrow> evidence_error + unit" where
  "verifyFile sha256_hex f hash len =
     (if length (file_bytes f) \<noteq> len then
        Inl (BodyError (''evidence blob length check failed for '' @ hash))
      else if tgSecContentHash sha256_hex (file_bytes f) \<noteq> hash then
        Inl (BodyError (''evidence blob content check failed for '' @ hash))
      else Inr ())"

text \<open>A body is staged and renamed into place; one that is there is verified and touched.\<close>

definition writeBody ::
  "(byte list \<Rightarrow> string) \<Rightarrow> int \<Rightarrow> byte list \<Rightarrow> nat \<Rightarrow> string \<Rightarrow> body_file list \<Rightarrow>
   evidence_error + body_file list" where
  "writeBody sha256_hex now bytes expectedLength expectedHash files =
     (if length bytes \<noteq> expectedLength then Inl (BodyError ''evidence body incomplete'')
      else
        let hash = tgSecContentHash sha256_hex bytes in
        if expectedHash \<noteq> hash then
          Inl (BodyError ''evidence body hash mismatch: source traffic and captured bytes disagree'')
        else
          case find_file (blobName hash) files of
            Some f \<Rightarrow>
              err_bind (verifyFile sha256_hex f hash expectedLength) (\<lambda>_.
                Inr (map (\<lambda>g. if file_name g = blobName hash then g\<lparr>file_mtime := now\<rparr> else g) files))
          | None \<Rightarrow>
              Inr (files @ [\<lparr>file_name = blobName hash, file_bytes = bytes, file_mtime = now\<rparr>]))"

definition readBlob ::
  "(byte list \<Rightarrow> string) \<Rightarrow> string \<Rightarrow> body_file list \<Rightarrow> evidence_error + byte list" where
  "readBlob sha256_hex hash files =
     (if \<not> isEvidenceHash hash then Inl (BodyError ''an evidence body is addressed by 64 lowercase hex'')
      else
        case find_file (blobName hash) files of
          None \<Rightarrow> Inl (BodyError (''ENOENT '' @ hash))
        | Some f \<Rightarrow>
            if tgSecContentHash sha256_hex (file_bytes f) \<noteq> hash then
              Inl (BodyError (''evidence blob '' @ hash @ '' does not hash to its own address''))
            else Inr (file_bytes f))"

subsection \<open>Recording an exchange\<close>

definition find_snapshot :: "string \<Rightarrow> evidence_state \<Rightarrow> snapshot_row option" where
  "find_snapshot i st = find (\<lambda>r. row_id r = i) (db_snapshots st)"

text \<open>The facts a record is made of: the input with the hashes and lengths of the two bodies.\<close>

definition record_facts ::
  "(byte list \<Rightarrow> string) \<Rightarrow> byte list \<Rightarrow> byte list \<Rightarrow> snapshot_fields \<Rightarrow>
   evidence_error + string \<times> snapshot_fields" where
  "record_facts sha256_hex req resp input =
     err_bind
       (normalizeEvidenceFields
         (input\<lparr>sn_reqHash := tgSecContentHash sha256_hex req,
                sn_respHash := tgSecContentHash sha256_hex resp,
                sn_reqLen := of_nat (length req), sn_respLen := of_nat (length resp)\<rparr>))
       (\<lambda>facts. map_sum id (\<lambda>i. (i, facts)) (snapshotMetadataId sha256_hex facts))"

definition write_bodies ::
  "(byte list \<Rightarrow> string) \<Rightarrow> int \<Rightarrow> byte list \<Rightarrow> byte list \<Rightarrow> body_file list \<Rightarrow>
   body_file list \<times> evidence_error option" where
  "write_bodies sha256_hex now req resp files =
     (case writeBody sha256_hex now req (length req) (tgSecContentHash sha256_hex req) files of
        Inl e \<Rightarrow> (files, Some e)
      | Inr files' \<Rightarrow>
          (case writeBody sha256_hex now resp (length resp) (tgSecContentHash sha256_hex resp) files' of
             Inl e \<Rightarrow> (files', Some e)
           | Inr files'' \<Rightarrow> (files'', None)))"

definition insert_snapshot ::
  "int \<Rightarrow> string \<Rightarrow> snapshot_fields \<Rightarrow> evidence_state \<Rightarrow> evidence_error + evidence_state \<times> bool" where
  "insert_snapshot createdAt i facts st =
     (case find_snapshot i st of
        Some _ \<Rightarrow> Inr (st, False)
      | None \<Rightarrow>
          Inr (st\<lparr>db_snapshots := db_snapshots st @
                 [\<lparr>row_id = i, row_fields = facts, row_created = createdAt, row_unreferenced = None\<rparr>]\<rparr>,
               True))"

definition record_exchange ::
  "(byte list \<Rightarrow> string) \<Rightarrow> int \<Rightarrow> byte list \<Rightarrow> byte list \<Rightarrow> snapshot_fields \<Rightarrow> evidence_state \<Rightarrow>
   evidence_state \<times> (evidence_error + string \<times> snapshot_fields \<times> int)" where
  "record_exchange sha256_hex now req resp input =
     emitEvidence sha256_hex OpRecord None (\<lambda>st.
       case record_facts sha256_hex req resp input of
         Inl e \<Rightarrow> (st, Inl e)
       | Inr (i, facts) \<Rightarrow>
           (case write_bodies sha256_hex now req resp (fs_blobs st) of
              (files, Some e) \<Rightarrow> (st\<lparr>fs_blobs := files\<rparr>, Inl e)
            | (files, None) \<Rightarrow>
                (case run_transaction (insert_snapshot now i facts) (st\<lparr>fs_blobs := files\<rparr>) of
                   (st', Inl e) \<Rightarrow> (st', Inl e)
                 | (st', Inr inserted) \<Rightarrow> (st', Inr ((i, facts, now), inserted, 1)))))"

subsection \<open>Subjects and their sets\<close>

record evidence_ref =
  ref_snapshotId :: string
  ref_role :: "string option"
  ref_note :: "string option"

record evidence_set =
  set_subject :: string
  set_version :: int
  set_bindings :: "binding_row list"

definition readSubjectVersion :: "string \<Rightarrow> evidence_state \<Rightarrow> int" where
  "readSubjectVersion subject st =
     (case map_of (db_versions st) subject of None \<Rightarrow> 0 | Some v \<Rightarrow> v)"

definition bumpSubjectVersion :: "string \<Rightarrow> evidence_state \<Rightarrow> evidence_state" where
  "bumpSubjectVersion subject st =
     st\<lparr>db_versions := map (\<lambda>(s, v). (s, if s = subject then v + 1 else v)) (db_versions st)\<rparr>"

definition lockSubject ::
  "string \<Rightarrow> int option \<Rightarrow> evidence_state \<Rightarrow> evidence_error + evidence_state" where
  "lockSubject subject expectedVersion st =
     (let st' = (if subject \<in> fst ` set (db_versions st) then st
                 else st\<lparr>db_versions := db_versions st @ [(subject, 0)]\<rparr>);
          current = readSubjectVersion subject st'
      in case expectedVersion of
           None \<Rightarrow> Inr st'
         | Some v \<Rightarrow> if v \<noteq> current then Inl EvidenceConflict else Inr st')"

text \<open>\<open>ORDER BY position, binding_id\<close>: a stable sort by id, then one by position.\<close>

definition subject_bindings :: "string \<Rightarrow> evidence_state \<Rightarrow> binding_row list" where
  "subject_bindings subject st = filter (\<lambda>b. bd_subject b = subject) (db_bindings st)"

definition readSet :: "string \<Rightarrow> evidence_state \<Rightarrow> evidence_set" where
  "readSet subject st =
     \<lparr>set_subject = subject, set_version = readSubjectVersion subject st,
      set_bindings = sort_key bd_position (sort_key bd_id (subject_bindings subject st))\<rparr>"

text \<open>The loop of \<open>normalizeRefs\<close>; \<open>seen\<close> holds the snapshot ids so far.\<close>

fun normalize_loop ::
  "string list \<Rightarrow> evidence_ref list \<Rightarrow> evidence_error + (string \<times> string \<times> string) list" where
  "normalize_loop seen [] = Inr []"
| "normalize_loop seen (ref # refs) =
     (let snapshotId = trim (ref_snapshotId ref);
          role = (case ref_role ref of None \<Rightarrow> ''supporting'' | Some r \<Rightarrow> r)
      in if snapshotId = [] then Inl (ArgumentError ''an evidence binding needs a snapshot id'')
         else
           err_bind (assertRole role) (\<lambda>_.
             if snapshotId \<in> set seen then normalize_loop seen refs
             else
               map_sum id
                 (\<lambda>out. (snapshotId, role, case ref_note ref of None \<Rightarrow> [] | Some n \<Rightarrow> n) # out)
                 (normalize_loop (snapshotId # seen) refs)))"

definition normalizeRefs :: "evidence_ref list \<Rightarrow> evidence_error + (string \<times> string \<times> string) list" where
  "normalizeRefs refs = normalize_loop [] refs"

definition is_bound :: "string \<Rightarrow> string \<Rightarrow> evidence_state \<Rightarrow> bool" where
  "is_bound subject snapshotId st \<longleftrightarrow>
     list_ex (\<lambda>b. bd_subject b = subject \<and> bd_snapshot b = snapshotId) (db_bindings st)"

definition clear_mark :: "string \<Rightarrow> evidence_state \<Rightarrow> evidence_state" where
  "clear_mark snapshotId st =
     st\<lparr>db_snapshots :=
          map (\<lambda>r. if row_id r = snapshotId then r\<lparr>row_unreferenced := None\<rparr> else r) (db_snapshots st)\<rparr>"

definition insert_binding ::
  "string \<Rightarrow> string \<times> string \<times> string \<Rightarrow> nat \<Rightarrow> int \<Rightarrow> evidence_state \<Rightarrow> evidence_state" where
  "insert_binding subject ref pos createdAt st =
     (case ref of (snapshotId, role, note) \<Rightarrow>
        st\<lparr>db_bindings := db_bindings st @
             [\<lparr>bd_id = db_nextBinding st, bd_subject = subject, bd_snapshot = snapshotId, bd_role = role,
               bd_note = note, bd_position = pos, bd_created = createdAt\<rparr>],
           db_nextBinding := Suc (db_nextBinding st)\<rparr>)"

text \<open>The loop of \<open>bind\<close>: the next position and whether anything was added.\<close>

fun bind_loop ::
  "string \<Rightarrow> int \<Rightarrow> (string \<times> string \<times> string) list \<Rightarrow> nat \<Rightarrow> bool \<Rightarrow> evidence_state \<Rightarrow>
   evidence_error + evidence_state \<times> bool" where
  "bind_loop subject createdAt [] pos changed st = Inr (st, changed)"
| "bind_loop subject createdAt (ref # refs) pos changed st =
     (if find_snapshot (fst ref) st = None then Inl EvidenceNotFound
      else
        let st' = clear_mark (fst ref) st in
        if is_bound subject (fst ref) st' then bind_loop subject createdAt refs pos changed st'
        else bind_loop subject createdAt refs (Suc pos) True
               (insert_binding subject ref pos createdAt st'))"

text \<open>\<open>COALESCE(MAX(position) + 1, 0)\<close>\<close>

definition next_position :: "string \<Rightarrow> evidence_state \<Rightarrow> nat" where
  "next_position subject st = foldr (\<lambda>b m. max (Suc (bd_position b)) m) (subject_bindings subject st) 0"

definition bind_transaction ::
  "string \<Rightarrow> int option \<Rightarrow> (string \<times> string \<times> string) list \<Rightarrow> int \<Rightarrow> evidence_state \<Rightarrow>
   evidence_error + evidence_state \<times> bool \<times> evidence_set" where
  "bind_transaction subject expectedVersion refs now st =
     err_bind (lockSubject subject expectedVersion st) (\<lambda>st1.
     err_bind (bind_loop subject now refs (next_position subject st1) False st1) (\<lambda>(st2, changed).
       let st3 = (if changed then bumpSubjectVersion subject st2 else st2) in
       Inr (st3, changed, readSet subject st3)))"

definition bind_evidence ::
  "(byte list \<Rightarrow> string) \<Rightarrow> string \<Rightarrow> int option \<Rightarrow> evidence_ref list \<Rightarrow> int \<Rightarrow> evidence_state \<Rightarrow>
   evidence_state \<times> (evidence_error + evidence_set)" where
  "bind_evidence sha256_hex subject expectedVersion refs now =
     emitEvidence sha256_hex OpBind (Some subject) (\<lambda>st.
       case normalizeRefs refs of
         Inl e \<Rightarrow> (st, Inl e)
       | Inr normalized \<Rightarrow>
           (case run_transaction (bind_transaction subject expectedVersion normalized now) st of
              (st', Inl e) \<Rightarrow> (st', Inl e)
            | (st', Inr (changed, es)) \<Rightarrow> (st', Inr (es, changed, length (set_bindings es)))))"

definition list_evidence ::
  "(byte list \<Rightarrow> string) \<Rightarrow> string \<Rightarrow> evidence_state \<Rightarrow> evidence_state \<times> (evidence_error + evidence_set)" where
  "list_evidence sha256_hex subject =
     emitEvidence sha256_hex OpList (Some subject) (\<lambda>st.
       let es = readSet subject st in (st, Inr (es, False, length (set_bindings es))))"

definition listSubjects ::
  "(byte list \<Rightarrow> string) \<Rightarrow> evidence_state \<Rightarrow> evidence_state \<times> (evidence_error + string list)" where
  "listSubjects sha256_hex =
     emitEvidence sha256_hex OpList None (\<lambda>st.
       let subjects = sort (map fst (db_versions st)) in (st, Inr (subjects, False, length subjects)))"

subsection \<open>Editing a set\<close>

datatype evidence_edit =
    Reorder "nat list"
  | EditBinding nat "string option" "string option" bool

definition set_position :: "string \<Rightarrow> nat \<times> nat \<Rightarrow> evidence_state \<Rightarrow> evidence_state" where
  "set_position subject entry st =
     (case entry of (index, i) \<Rightarrow>
        st\<lparr>db_bindings :=
             map (\<lambda>b. if bd_subject b = subject \<and> bd_id b = i then b\<lparr>bd_position := index\<rparr> else b)
               (db_bindings st)\<rparr>)"

definition or_keep :: "string option \<Rightarrow> string \<Rightarrow> string" where
  "or_keep new old = (case new of None \<Rightarrow> old | Some s \<Rightarrow> s)"

definition apply_edit ::
  "string \<Rightarrow> evidence_edit \<Rightarrow> evidence_state \<Rightarrow> evidence_error + evidence_state" where
  "apply_edit subject ed st =
     (let current = set_bindings (readSet subject st) in
      case ed of
        Reorder order \<Rightarrow>
          if length order \<noteq> length current then Inl EvidenceConflict
          else if list_ex (\<lambda>i. i \<notin> bd_id ` set current) order then Inl EvidenceConflict
          else Inr (fold (set_position subject) (List.enumerate 0 order) st)
      | EditBinding i role note removes \<Rightarrow>
          if find (\<lambda>b. bd_id b = i) current = None then Inl EvidenceNotFound
          else if removes then
            Inr (st\<lparr>db_bindings :=
                      filter (\<lambda>b. \<not> (bd_subject b = subject \<and> bd_id b = i)) (db_bindings st)\<rparr>)
          else
            Inr (st\<lparr>db_bindings :=
                      map (\<lambda>b. if bd_subject b = subject \<and> bd_id b = i
                               then b\<lparr>bd_role := or_keep role (bd_role b), bd_note := or_keep note (bd_note b)\<rparr>
                               else b) (db_bindings st)\<rparr>))"

definition edit_transaction ::
  "string \<Rightarrow> int option \<Rightarrow> evidence_edit \<Rightarrow> evidence_state \<Rightarrow> evidence_error + evidence_state \<times> evidence_set" where
  "edit_transaction subject expectedVersion ed st =
     err_bind (lockSubject subject expectedVersion st) (\<lambda>st1.
     err_bind (apply_edit subject ed st1) (\<lambda>st2.
       let st3 = bumpSubjectVersion subject st2 in Inr (st3, readSet subject st3)))"

text \<open>A role outside the vocabulary throws before the span is started.\<close>

definition edit_evidence ::
  "(byte list \<Rightarrow> string) \<Rightarrow> string \<Rightarrow> int option \<Rightarrow> evidence_edit \<Rightarrow> evidence_state \<Rightarrow>
   evidence_state \<times> (evidence_error + evidence_set)" where
  "edit_evidence sha256_hex subject expectedVersion ed st =
     (case (case ed of EditBinding i (Some r) note removes \<Rightarrow> assertRole r | _ \<Rightarrow> Inr ()) of
        Inl e \<Rightarrow> (st, Inl e)
      | Inr _ \<Rightarrow>
          emitEvidence sha256_hex OpEdit (Some subject) (\<lambda>st.
            case run_transaction (edit_transaction subject expectedVersion ed) st of
              (st', Inl e) \<Rightarrow> (st', Inl e)
            | (st', Inr es) \<Rightarrow> (st', Inr (es, True, length (set_bindings es)))) st)"

subsection \<open>Findings\<close>

record finding_input =
  fi_findingId :: string
  fi_expectedVersion :: "int option"
  fi_lane :: "string option"
  fi_title :: "string option"
  fi_severity :: "string option"
  fi_status :: "string option"
  fi_snapshotId :: "string option"

record finding_result =
  fr_finding :: finding_row
  fr_version :: int
  fr_created :: bool
  fr_changed :: bool

text \<open>A row read back is checked against the vocabulary.\<close>

definition findingFromRow :: "finding_row \<Rightarrow> evidence_error + finding_row" where
  "findingFromRow r =
     err_bind (assertTgSecFindingSeverity (fd_severity r)) (\<lambda>_.
     err_bind (assertTgSecFindingStatus (fd_status r)) (\<lambda>_. Inr r))"

definition readFinding :: "string \<Rightarrow> evidence_state \<Rightarrow> evidence_error + finding_row option" where
  "readFinding findingId st =
     (case find (\<lambda>r. fd_id r = findingId) (db_findings st) of
        None \<Rightarrow> Inr None
      | Some r \<Rightarrow> map_sum id Some (findingFromRow r))"

definition readFindings :: "evidence_state \<Rightarrow> evidence_error + finding_row list" where
  "readFindings st = map_err findingFromRow (sort_key fd_id (db_findings st))"

definition invalid :: "string \<Rightarrow> evidence_error + 'a" where "invalid message = Inl (ArgumentError message)"

text \<open>A retest cites a snapshot bound to the subject, other than the one already recorded.\<close>

definition requireRetestSnapshot ::
  "string \<Rightarrow> string option \<Rightarrow> string \<Rightarrow> evidence_state \<Rightarrow> evidence_error + string" where
  "requireRetestSnapshot subject rawSnapshotId previous st =
     (let snapshotId = (case rawSnapshotId of None \<Rightarrow> [] | Some s \<Rightarrow> trim s) in
      if snapshotId = [] then invalid ''a retest needs a new evidence snapshot id''
      else if snapshotId = previous then Inl EvidenceConflict
      else if \<not> is_bound subject snapshotId st then Inl EvidenceNotFound
      else Inr snapshotId)"

definition trimmed :: "string option \<Rightarrow> string" where
  "trimmed s = (case s of None \<Rightarrow> [] | Some t \<Rightarrow> trim t)"

definition create_finding ::
  "string \<Rightarrow> finding_input \<Rightarrow> int \<Rightarrow> evidence_state \<Rightarrow> evidence_error + evidence_state \<times> finding_result" where
  "create_finding findingId input now st =
     (let lane = trimmed (fi_lane input); title = trimmed (fi_title input) in
      if lane = [] then invalid ''creating a finding needs a lane''
      else if title = [] then invalid ''creating a finding needs a title''
      else
        case fi_severity input of
          None \<Rightarrow> invalid ''creating a finding needs a severity''
        | Some severity \<Rightarrow>
            err_bind (assertTgSecFindingSeverity severity) (\<lambda>_.
              if fi_status input \<noteq> None \<and> fi_status input \<noteq> Some ''open'' then
                invalid ''a finding starts open; verify it only once evidence exists''
              else if fi_snapshotId input \<noteq> None then
                invalid ''a finding cannot record a retest before it exists''
              else
                err_bind (lockSubject findingId (fi_expectedVersion input) st) (\<lambda>st1.
                  let row = \<lparr>fd_id = findingId, fd_lane = lane, fd_title = title, fd_severity = severity,
                             fd_status = ''open'', fd_subject = findingId, fd_retest = [],
                             fd_created = now, fd_updated = now\<rparr>;
                      st2 = bumpSubjectVersion findingId (st1\<lparr>db_findings := db_findings st1 @ [row]\<rparr>)
                  in err_bind (readFinding findingId st2) (\<lambda>finding.
                       Inr (st2, \<lparr>fr_finding = the finding, fr_version = readSubjectVersion findingId st2,
                                  fr_created = True, fr_changed = True\<rparr>)))))"

text \<open>The retest snapshot of a patched finding.\<close>

definition patched_retest ::
  "finding_row \<Rightarrow> string \<Rightarrow> string option \<Rightarrow> evidence_state \<Rightarrow> evidence_error + string" where
  "patched_retest existing status snapshotId st =
     (if status \<noteq> fd_status existing then
        if \<not> isTgSecFindingTransitionAllowed (fd_status existing) status then
          invalid (''finding '' @ fd_id existing @ '' cannot move from '' @ fd_status existing @ '' to '' @ status)
        else if isTgSecRetestStatus status then
          requireRetestSnapshot (fd_subject existing) snapshotId (fd_retest existing) st
        else if snapshotId \<noteq> None then
          invalid (''only a retest records a snapshot; '' @ status @ '' does not'')
        else Inr (fd_retest existing)
      else if isTgSecRetestStatus status \<and> snapshotId \<noteq> None then
        requireRetestSnapshot (fd_subject existing) snapshotId (fd_retest existing) st
      else if snapshotId \<noteq> None then
        invalid (''only a retest records a snapshot; '' @ status @ '' does not'')
      else Inr (fd_retest existing))"

definition update_finding ::
  "string \<Rightarrow> string \<Rightarrow> string \<Rightarrow> string \<Rightarrow> string \<Rightarrow> int \<Rightarrow> evidence_state \<Rightarrow> evidence_state" where
  "update_finding findingId title severity status retest now st =
     st\<lparr>db_findings :=
          map (\<lambda>r. if fd_id r = findingId
                   then r\<lparr>fd_title := title, fd_severity := severity, fd_status := status,
                          fd_retest := retest, fd_updated := now\<rparr> else r) (db_findings st)\<rparr>"

definition patch_finding ::
  "finding_row \<Rightarrow> finding_input \<Rightarrow> int \<Rightarrow> evidence_state \<Rightarrow> evidence_error + evidence_state \<times> finding_result" where
  "patch_finding existing input now st =
     err_bind (lockSubject (fd_subject existing) (fi_expectedVersion input) st) (\<lambda>st1.
       let findingId = fd_id existing;
           title = (case fi_title input of None \<Rightarrow> fd_title existing | Some t \<Rightarrow> trim t);
           severity = or_keep (fi_severity input) (fd_severity existing);
           status = or_keep (fi_status input) (fd_status existing)
       in if fi_lane input \<noteq> None \<and> trimmed (fi_lane input) \<noteq> fd_lane existing then
            invalid (''finding '' @ findingId @ [CHR 0x27] @ ''s lane is fixed at creation'')
          else if title = [] then invalid ''a finding needs a title''
          else
            err_bind (assertTgSecFindingSeverity severity) (\<lambda>_.
            err_bind (assertTgSecFindingStatus status) (\<lambda>_.
            err_bind (patched_retest existing status (fi_snapshotId input) st1) (\<lambda>retest.
              let changed = (title \<noteq> fd_title existing \<or> severity \<noteq> fd_severity existing \<or>
                             status \<noteq> fd_status existing \<or> retest \<noteq> fd_retest existing);
                  st2 = (if changed
                         then bumpSubjectVersion (fd_subject existing)
                                (update_finding findingId title severity status retest now st1)
                         else st1)
              in err_bind (readFinding findingId st2) (\<lambda>finding.
                   Inr (st2, \<lparr>fr_finding = the finding,
                              fr_version = readSubjectVersion (fd_subject existing) st2,
                              fr_created = False, fr_changed = changed\<rparr>))))))"

definition write_finding_transaction ::
  "string \<Rightarrow> finding_input \<Rightarrow> int \<Rightarrow> evidence_state \<Rightarrow> evidence_error + evidence_state \<times> finding_result" where
  "write_finding_transaction findingId input now st =
     err_bind (readFinding findingId st) (\<lambda>found.
       case found of
         None \<Rightarrow> create_finding findingId input now st
       | Some existing \<Rightarrow> patch_finding existing input now st)"

definition writeFinding ::
  "(byte list \<Rightarrow> string) \<Rightarrow> finding_input \<Rightarrow> int \<Rightarrow> evidence_state \<Rightarrow>
   evidence_state \<times> (evidence_error + finding_result)" where
  "writeFinding sha256_hex input now st =
     (let findingId = trim (fi_findingId input) in
      if findingId = [] then (st, invalid ''a finding needs an id'')
      else
        emitEvidence sha256_hex OpEdit (Some findingId) (\<lambda>st.
          case run_transaction (write_finding_transaction findingId input now) st of
            (st', Inl e) \<Rightarrow> (st', Inl e)
          | (st', Inr r) \<Rightarrow> (st', Inr (r, fr_changed r \<or> fr_created r, 1))) st)"

definition getFinding ::
  "(byte list \<Rightarrow> string) \<Rightarrow> string \<Rightarrow> evidence_state \<Rightarrow>
   evidence_state \<times> (evidence_error + finding_row option)" where
  "getFinding sha256_hex findingId =
     (let i = trim findingId in
      emitEvidence sha256_hex OpRead (if i = [] then None else Some i) (\<lambda>st.
        (st, map_sum id (\<lambda>f. (f, False, if f = None then 0 else 1)) (readFinding i st))))"

definition listFindings ::
  "(byte list \<Rightarrow> string) \<Rightarrow> evidence_state \<Rightarrow> evidence_state \<times> (evidence_error + finding_row list)" where
  "listFindings sha256_hex =
     emitEvidence sha256_hex OpList None (\<lambda>st.
       (st, map_sum id (\<lambda>fs. (fs, False, length fs)) (readFindings st)))"

subsection \<open>Reading evidence back\<close>

definition assertSnapshotIntegrity ::
  "(byte list \<Rightarrow> string) \<Rightarrow> snapshot_row \<Rightarrow> evidence_error + unit" where
  "assertSnapshotIntegrity sha256_hex r =
     err_bind (snapshotMetadataId sha256_hex (row_fields r)) (\<lambda>i.
       if i \<noteq> row_id r then Inl (EvidenceHashMismatch (row_id r)) else Inr ())"

definition getSnapshot ::
  "(byte list \<Rightarrow> string) \<Rightarrow> string \<Rightarrow> evidence_state \<Rightarrow>
   evidence_state \<times> (evidence_error + snapshot_row option)" where
  "getSnapshot sha256_hex snapshotId =
     emitEvidence sha256_hex OpRead None (\<lambda>st.
       case find_snapshot snapshotId st of
         None \<Rightarrow> (st, Inr (None, False, 0))
       | Some r \<Rightarrow>
           (st, err_bind (assertSnapshotIntegrity sha256_hex r) (\<lambda>_. Inr (Some r, False, 1))))"

datatype body_side = RequestBody | ResponseBody

fun side_hash :: "body_side \<Rightarrow> snapshot_fields \<Rightarrow> string \<times> rat" where
  "side_hash RequestBody f = (sn_reqHash f, sn_reqLen f)"
| "side_hash ResponseBody f = (sn_respHash f, sn_respLen f)"

definition readBody ::
  "(byte list \<Rightarrow> string) \<Rightarrow> string \<Rightarrow> body_side \<Rightarrow> evidence_state \<Rightarrow>
   evidence_state \<times> (evidence_error + byte list)" where
  "readBody sha256_hex snapshotId side =
     emitEvidence sha256_hex OpRead None (\<lambda>st.
       (st,
        case find_snapshot snapshotId st of
          None \<Rightarrow> Inl EvidenceNotFound
        | Some r \<Rightarrow>
            err_bind (assertSnapshotIntegrity sha256_hex r) (\<lambda>_.
              let (hash, len) = side_hash side (row_fields r) in
              err_bind (readBlob sha256_hex hash (fs_blobs st)) (\<lambda>bytes.
                if of_nat (length bytes) \<noteq> len then Inl (BodyError (''evidence body for '' @ snapshotId))
                else Inr (bytes, False, 1)))))"

subsection \<open>Garbage collection\<close>

definition unbound :: "evidence_state \<Rightarrow> snapshot_row \<Rightarrow> bool" where
  "unbound st r \<longleftrightarrow> \<not> list_ex (\<lambda>b. bd_snapshot b = row_id r) (db_bindings st)"

definition mark_row :: "int \<Rightarrow> evidence_state \<Rightarrow> snapshot_row \<Rightarrow> snapshot_row" where
  "mark_row now st r =
     (if row_unreferenced r = None \<and> unbound st r then r\<lparr>row_unreferenced := Some now\<rparr> else r)"

definition mark_unbound :: "int \<Rightarrow> evidence_state \<Rightarrow> evidence_state" where
  "mark_unbound now st =
     st\<lparr>db_snapshots := map (mark_row now st) (db_snapshots st)\<rparr>"

text \<open>\<open>unreferenced_at < cutoff\<close> is not true of \<open>NULL\<close>.\<close>

definition expired :: "int \<Rightarrow> snapshot_row \<Rightarrow> bool" where
  "expired cutoff r \<longleftrightarrow> (case row_unreferenced r of None \<Rightarrow> False | Some t \<Rightarrow> t < cutoff)"

definition delete_expired :: "int \<Rightarrow> evidence_state \<Rightarrow> evidence_state" where
  "delete_expired cutoff st =
     st\<lparr>db_snapshots := filter (\<lambda>r. \<not> (expired cutoff r \<and> unbound st r)) (db_snapshots st)\<rparr>"

definition collect_index :: "int \<Rightarrow> evidence_state \<Rightarrow> evidence_state \<times> string list" where
  "collect_index now st =
     (let st' = delete_expired (now - EVIDENCE_GRACE_MS) (mark_unbound now st) in
      (st', map (\<lambda>r. sn_reqHash (row_fields r)) (db_snapshots st') @
            map (\<lambda>r. sn_respHash (row_fields r)) (db_snapshots st')))"

text \<open>The address a file name stands for: the name without its \<open>.bin\<close>.\<close>

definition file_hash :: "body_file \<Rightarrow> string" where
  "file_hash f =
     (if suffix ''.bin'' (file_name f) then take (length (file_name f) - 4) (file_name f) else file_name f)"

definition reapable :: "string list \<Rightarrow> int \<Rightarrow> body_file \<Rightarrow> bool" where
  "reapable keep now f \<longleftrightarrow> file_hash f \<notin> set keep \<and> \<not> now - file_mtime f < EVIDENCE_GRACE_MS"

definition reapFiles :: "string list \<Rightarrow> int \<Rightarrow> evidence_state \<Rightarrow> evidence_state \<times> nat" where
  "reapFiles keep now st =
     (st\<lparr>fs_blobs := filter (\<lambda>f. \<not> reapable keep now f) (fs_blobs st),
        fs_staging := filter (\<lambda>f. \<not> reapable keep now f) (fs_staging st)\<rparr>,
      length (filter (reapable keep now) (fs_blobs st)) +
      length (filter (reapable keep now) (fs_staging st)))"

definition collect_evidence ::
  "(byte list \<Rightarrow> string) \<Rightarrow> int \<Rightarrow> evidence_state \<Rightarrow> evidence_state \<times> (evidence_error + unit)" where
  "collect_evidence sha256_hex now =
     emitEvidence sha256_hex OpCollect None (\<lambda>st.
       case collect_index now st of (st1, surviving) \<Rightarrow>
         case reapFiles surviving now st1 of (st2, n) \<Rightarrow> (st2, Inr ((), 0 < n, n)))"

text \<open>A new index and an empty tree.\<close>

definition open_evidence_store :: evidence_state where
  "open_evidence_store =
     \<lparr>db_snapshots = [], db_bindings = [], db_versions = [], db_findings = [], db_nextBinding = 1,
      fs_blobs = [], fs_staging = [], evidence_audit = []\<rparr>"

end
