(* ===== verification/Evidence_Sound.thy ===== *)
theory Evidence_Sound
  imports Evidence_Store
begin

text \<open>
  What holds of the evidence store at all times. A run is any sequence of calls from a new store;
  every state it reaches is well-formed: ids are the hashes of the facts they name, every stored
  snapshot has both of its bodies, and no binding dangles. What follows for the reads, the lock, the
  collector and the findings is in \<open>Evidence_Claims\<close>.
\<close>

subsection \<open>Runs of the store\<close>

datatype evidence_call =
    CallRecord int "byte list" "byte list" snapshot_fields
  | CallBind string "int option" "evidence_ref list" int
  | CallList string
  | CallSubjects
  | CallEdit string "int option" evidence_edit
  | CallFinding finding_input int
  | CallGetFinding string
  | CallFindings
  | CallSnapshot string
  | CallBody string body_side
  | CallCollect int
  | CrashedStaging body_file

text \<open>The state after a call; a crash while a body is staged leaves a file behind.\<close>

fun evidence_step :: "(byte list \<Rightarrow> string) \<Rightarrow> evidence_call \<Rightarrow> evidence_state \<Rightarrow> evidence_state" where
  "evidence_step sha (CallRecord now req resp input) st = fst (record_exchange sha now req resp input st)"
| "evidence_step sha (CallBind subject v refs now) st = fst (bind_evidence sha subject v refs now st)"
| "evidence_step sha (CallList subject) st = fst (list_evidence sha subject st)"
| "evidence_step sha CallSubjects st = fst (listSubjects sha st)"
| "evidence_step sha (CallEdit subject v ed) st = fst (edit_evidence sha subject v ed st)"
| "evidence_step sha (CallFinding input now) st = fst (writeFinding sha input now st)"
| "evidence_step sha (CallGetFinding i) st = fst (getFinding sha i st)"
| "evidence_step sha CallFindings st = fst (listFindings sha st)"
| "evidence_step sha (CallSnapshot i) st = fst (getSnapshot sha i st)"
| "evidence_step sha (CallBody i side) st = fst (readBody sha i side st)"
| "evidence_step sha (CallCollect now) st = fst (collect_evidence sha now st)"
| "evidence_step sha (CrashedStaging f) st = st\<lparr>fs_staging := fs_staging st @ [f]\<rparr>"

inductive evidence_run :: "(byte list \<Rightarrow> string) \<Rightarrow> evidence_call list \<Rightarrow> evidence_state \<Rightarrow> bool"
  for sha :: "byte list \<Rightarrow> string" where
  run_open: "evidence_run sha [] open_evidence_store"
| run_call: "evidence_run sha calls st \<Longrightarrow> evidence_run sha (calls @ [call]) (evidence_step sha call st)"

inductive_cases run_snocE: "evidence_run sha (calls @ [call]) st"

subsection \<open>Invariants the audit does not see\<close>

locale store_invariant =
  fixes inv :: "evidence_state \<Rightarrow> bool"
  assumes audit_free [simp]: "inv (st\<lparr>evidence_audit := a\<rparr>) = inv st"
begin

lemma emit_keeps:
  assumes "inv (fst (run st))"
  shows "inv (fst (emitEvidence sha kind subject run st))"
  using assms by (auto simp: emitEvidence_def Let_def split: prod.split sum.split)

lemma emit_read:
  assumes "inv st" and "fst (run st) = st"
  shows "inv (fst (emitEvidence sha kind subject run st))"
  using emit_keeps [of run st] assms by simp

end

text \<open>A property that every call with effects keeps is kept by every sequence of calls.\<close>

locale step_invariant = store_invariant inv for inv :: "evidence_state \<Rightarrow> bool" +
  fixes sha :: "byte list \<Rightarrow> string"
  assumes staging_free [simp]: "inv (st\<lparr>fs_staging := files\<rparr>) = inv st"
    and record_keeps: "inv st \<Longrightarrow> inv (fst (record_exchange sha now req resp input st))"
    and bind_keeps: "inv st \<Longrightarrow> normalizeRefs refs = Inr n \<Longrightarrow>
      bind_transaction subject v n now st = Inr (st', c, es) \<Longrightarrow> inv st'"
    and edit_keeps: "inv st \<Longrightarrow> (\<forall>i r note m. ed = EditBinding i (Some r) note m \<longrightarrow> r \<in> set EVIDENCE_ROLES) \<Longrightarrow>
      edit_transaction subject v ed st = Inr (st', es) \<Longrightarrow> inv st'"
    and finding_keeps: "inv st \<Longrightarrow> findingId \<noteq> [] \<Longrightarrow>
      write_finding_transaction findingId finput now st = Inr (st', fr) \<Longrightarrow> inv st'"
    and collect_keeps: "inv st \<Longrightarrow> inv (fst (collect_evidence sha now st))"
begin

lemma bind_step: "inv st \<Longrightarrow> inv (fst (bind_evidence sha subject v refs now st))"
  unfolding bind_evidence_def
  by (rule emit_keeps) (auto simp: run_transaction_def dest: bind_keeps split: sum.splits)

lemma edit_step:
  assumes "inv st"
  shows "inv (fst (edit_evidence sha subject v ed st))"
proof (cases "case ed of EditBinding i (Some r) note removes \<Rightarrow> assertRole r | _ \<Rightarrow> Inr ()")
  case (Inr u)
  then have r: "\<forall>i r note m. ed = EditBinding i (Some r) note m \<longrightarrow> r \<in> set EVIDENCE_ROLES"
    by (auto simp: assertRole_def split: if_splits)
  show ?thesis unfolding edit_evidence_def Inr sum.case
    by (rule emit_keeps)
      (use assms in \<open>auto simp: run_transaction_def dest: edit_keeps [OF _ r] split: sum.splits\<close>)
qed (use assms in \<open>simp add: edit_evidence_def\<close>)

lemma finding_step:
  assumes "inv st"
  shows "inv (fst (writeFinding sha input now st))"
proof (cases "trim (fi_findingId input) = []")
  case False
  show ?thesis unfolding writeFinding_def Let_def if_not_P [OF False]
    by (rule emit_keeps)
      (use assms in \<open>auto simp: run_transaction_def dest: finding_keeps [OF _ False] split: sum.splits\<close>)
qed (use assms in \<open>simp add: writeFinding_def\<close>)

lemma step_keeps: "inv st \<Longrightarrow> inv (evidence_step sha call st)"
  by (cases call)
    (auto simp: record_keeps bind_step edit_step finding_step collect_keeps list_evidence_def listSubjects_def
      getFinding_def listFindings_def getSnapshot_def readBody_def Let_def
      intro!: emit_read split: option.split)

lemma steps_keep: "inv st \<Longrightarrow> inv (fold (evidence_step sha) calls st)"
  by (induction calls arbitrary: st) (simp_all add: step_keeps)

end

text \<open>If it holds of a new store as well, it holds in every state of every run.\<close>

locale kept_invariant = step_invariant inv sha
  for inv :: "evidence_state \<Rightarrow> bool" and sha :: "byte list \<Rightarrow> string" +
  assumes opened: "inv open_evidence_store"
begin

lemma run_keeps: "evidence_run sha calls st \<Longrightarrow> inv st"
  by (induction rule: evidence_run.induct) (simp_all add: opened step_keeps)

end

definition body_there :: "(byte list \<Rightarrow> string) \<Rightarrow> body_file list \<Rightarrow> string \<Rightarrow> rat \<Rightarrow> bool" where
  "body_there sha files hash len \<longleftrightarrow>
     (\<exists>f. find_file (blobName hash) files = Some f \<and> sha (file_bytes f) = hash \<and>
        of_nat (length (file_bytes f)) = len)"

definition row_sound :: "(byte list \<Rightarrow> string) \<Rightarrow> body_file list \<Rightarrow> snapshot_row \<Rightarrow> bool" where
  "row_sound sha files r \<longleftrightarrow>
     evidence_normal (row_fields r) \<and> snapshotMetadataId sha (row_fields r) = Inr (row_id r) \<and>
     body_there sha files (sn_reqHash (row_fields r)) (sn_reqLen (row_fields r)) \<and>
     body_there sha files (sn_respHash (row_fields r)) (sn_respLen (row_fields r))"

definition snapshots_sound :: "(byte list \<Rightarrow> string) \<Rightarrow> evidence_state \<Rightarrow> bool" where
  "snapshots_sound sha st \<longleftrightarrow>
     distinct (map row_id (db_snapshots st)) \<and> list_all (row_sound sha (fs_blobs st)) (db_snapshots st)"

definition bindings_sound :: "evidence_state \<Rightarrow> bool" where
  "bindings_sound st \<longleftrightarrow>
     distinct (map fst (db_versions st)) \<and>
     distinct (map bd_id (db_bindings st)) \<and>
     distinct (map (\<lambda>b. (bd_subject b, bd_snapshot b)) (db_bindings st)) \<and>
     list_all (\<lambda>b. bd_id b < db_nextBinding st \<and> bd_role b \<in> set EVIDENCE_ROLES \<and>
       bd_subject b \<in> fst ` set (db_versions st) \<and>
       list_ex (\<lambda>r. row_id r = bd_snapshot b \<and> row_unreferenced r = None) (db_snapshots st)) (db_bindings st)"

lemma snapshots_audit: "snapshots_sound sha (st\<lparr>evidence_audit := a\<rparr>) = snapshots_sound sha st"
  by (simp add: snapshots_sound_def)

interpretation audit_snapshots: store_invariant "snapshots_sound sha" for sha
  by unfold_locales (rule snapshots_audit)

subsection \<open>Bodies stay\<close>

lemma find_file_append:
  "find_file n (files @ gs) = (case find_file n files of None \<Rightarrow> find_file n gs | Some f \<Rightarrow> Some f)"
  unfolding find_file_def find_append ..

lemma find_file_single: "find_file n [f] = (if file_name f = n then Some f else None)"
  by (simp add: find_file_def)

lemma find_file_touch:
  "find_file n (map (\<lambda>g. if file_name g = m then g\<lparr>file_mtime := now\<rparr> else g) files) =
     map_option (\<lambda>g. if file_name g = m then g\<lparr>file_mtime := now\<rparr> else g) (find_file n files)"
  by (induction files) (auto simp: find_file_def)

lemma blobName_inj [simp]: "blobName h = blobName k \<longleftrightarrow> h = k"
  by (simp add: blobName_def)

lemma writeBody_keeps:
  assumes "writeBody sha now bytes n h files = Inr files'" and "body_there sha files hash len"
  shows "body_there sha files' hash len"
  using assms
  by (auto simp: writeBody_def body_there_def Let_def err_bind_Inr find_file_append find_file_touch find_file_single
      split: if_splits option.splits)

lemma writeBody_there:
  assumes "writeBody sha now bytes (length bytes) (tgSecContentHash sha bytes) files = Inr files'"
  shows "body_there sha files' (tgSecContentHash sha bytes) (of_nat (length bytes))"
  using assms
  by (auto simp: writeBody_def body_there_def Let_def err_bind_Inr find_file_append find_file_touch
      verifyFile_def tgSecContentHash_def find_file_single split: if_splits option.splits)

lemma row_sound_blobs:
  assumes "\<And>hash len. body_there sha files hash len \<Longrightarrow> body_there sha files' hash len"
  shows "row_sound sha files r \<Longrightarrow> row_sound sha files' r"
  using assms by (simp add: row_sound_def)

lemma write_bodies_keeps:
  assumes "body_there sha files hash len"
  shows "body_there sha (fst (write_bodies sha now req resp files)) hash len"
  using assms writeBody_keeps by (auto simp: write_bodies_def split: sum.split)

subsection \<open>What the steps of a transaction touch\<close>

lemma lock_form:
  assumes "lockSubject subject v st = Inr st'"
  obtains vs where "st' = st\<lparr>db_versions := vs\<rparr>" "fst ` set vs = insert subject (fst ` set (db_versions st))"
    "distinct (map fst (db_versions st)) \<Longrightarrow> distinct (map fst vs)"
    "\<And>s. s \<noteq> subject \<Longrightarrow> map_of vs s = map_of (db_versions st) s"
    "map_of vs subject = Some (readSubjectVersion subject st)"
    "v = None \<or> v = Some (readSubjectVersion subject st)"
proof
  let ?vs = "if subject \<in> fst ` set (db_versions st) then db_versions st else db_versions st @ [(subject, 0)]"
  have r: "readSubjectVersion subject (st\<lparr>db_versions := ?vs\<rparr>) = readSubjectVersion subject st"
    by (cases "map_of (db_versions st) subject")
      (auto simp: readSubjectVersion_def map_add_def map_of_eq_None_iff dest: map_of_SomeD
        split: option.split intro: rev_image_eqI)
  show "st' = st\<lparr>db_versions := ?vs\<rparr>" "v = None \<or> v = Some (readSubjectVersion subject st)"
    using assms r by (auto simp: lockSubject_def Let_def split: if_splits option.splits)
  show "fst ` set ?vs = insert subject (fst ` set (db_versions st))" by auto
  show "distinct (map fst (db_versions st)) \<Longrightarrow> distinct (map fst ?vs)" by auto
  show "map_of ?vs s = map_of (db_versions st) s" if "s \<noteq> subject" for s
    using that by (auto simp: map_add_def split: option.split)
  have "map_of (db_versions st) subject = None \<longleftrightarrow> subject \<notin> fst ` set (db_versions st)"
    by (simp add: map_of_eq_None_iff)
  then show "map_of ?vs subject = Some (readSubjectVersion subject st)"
    by (auto simp: readSubjectVersion_def map_add_def split: option.split)
qed

lemma lock_tables:
  assumes "lockSubject subject v st = Inr st'"
  shows "\<exists>vs. st' = st\<lparr>db_versions := vs\<rparr> \<and> fst ` set vs = insert subject (fst ` set (db_versions st)) \<and>
    (distinct (map fst (db_versions st)) \<longrightarrow> distinct (map fst vs))"
  by (rule lock_form [OF assms]) blast

lemma bump_tables [simp]:
  "db_snapshots (bumpSubjectVersion subject st) = db_snapshots st"
  "db_bindings (bumpSubjectVersion subject st) = db_bindings st"
  "db_findings (bumpSubjectVersion subject st) = db_findings st"
  "db_nextBinding (bumpSubjectVersion subject st) = db_nextBinding st"
  "fs_blobs (bumpSubjectVersion subject st) = fs_blobs st"
  "map fst (db_versions (bumpSubjectVersion subject st)) = map fst (db_versions st)"
  "fst ` set (db_versions (bumpSubjectVersion subject st)) = fst ` set (db_versions st)"
proof -
  have "map fst (map (\<lambda>(s, v). (s, if s = subject then v + 1 else v)) vs) = map fst vs"
    for vs :: "(string \<times> int) list"
    by (induction vs) auto
  then show m: "map fst (db_versions (bumpSubjectVersion subject st)) = map fst (db_versions st)"
    by (simp add: bumpSubjectVersion_def)
  from arg_cong [OF m, of set]
  show "fst ` set (db_versions (bumpSubjectVersion subject st)) = fst ` set (db_versions st)" by simp
qed (simp_all add: bumpSubjectVersion_def)

lemma bump_version:
  "map_of (db_versions st) subject = Some v \<Longrightarrow>
     readSubjectVersion subject (bumpSubjectVersion subject st) = v + 1"
  "s \<noteq> subject \<Longrightarrow> readSubjectVersion s (bumpSubjectVersion subject st) = readSubjectVersion s st"
proof -
  have "map_of (map (\<lambda>(s, v). (s, if s = subject then v + 1 else v)) vs) s =
      map_option (\<lambda>v. if s = subject then v + 1 else v) (map_of vs s)" for vs :: "(string \<times> int) list" and s
    by (induction vs) auto
  then show "map_of (db_versions st) subject = Some v \<Longrightarrow>
      readSubjectVersion subject (bumpSubjectVersion subject st) = v + 1"
    and "s \<noteq> subject \<Longrightarrow> readSubjectVersion s (bumpSubjectVersion subject st) = readSubjectVersion s st"
    by (auto simp: readSubjectVersion_def bumpSubjectVersion_def split: option.split)
qed

text \<open>A snapshot row without its mark.\<close>

definition row_key :: "snapshot_row \<Rightarrow> string \<times> snapshot_fields" where
  "row_key r = (row_id r, row_fields r)"

lemma clear_mark_keys [simp]: "map row_key (db_snapshots (clear_mark i st)) = map row_key (db_snapshots st)"
  by (simp add: clear_mark_def row_key_def)

lemma clear_mark_form:
  "clear_mark i st = st\<lparr>db_snapshots := db_snapshots (clear_mark i st)\<rparr>"
  by (simp add: clear_mark_def)

lemma insert_binding_form:
  "insert_binding subject ref p t st =
     st\<lparr>db_bindings := db_bindings (insert_binding subject ref p t st), db_nextBinding := Suc (db_nextBinding st)\<rparr>"
  by (simp add: insert_binding_def split: prod.split)

lemma bind_loop_form:
  "bind_loop subject t refs p c st = Inr (st', c') \<Longrightarrow>
     map row_key (db_snapshots st') = map row_key (db_snapshots st) \<and> fs_blobs st' = fs_blobs st \<and>
     db_versions st' = db_versions st \<and> db_findings st' = db_findings st \<and>
     evidence_audit st' = evidence_audit st \<and> fs_staging st' = fs_staging st"
proof (induction subject t refs p c st rule: bind_loop.induct)
  case (2 subject t ref refs p c st)
  let ?st = "clear_mark (fst ref) st"
  have i: "db_snapshots (insert_binding subject ref p t ?st) = db_snapshots ?st"
    "fs_blobs (insert_binding subject ref p t ?st) = fs_blobs ?st"
    "db_versions (insert_binding subject ref p t ?st) = db_versions ?st"
    "db_findings (insert_binding subject ref p t ?st) = db_findings ?st"
    "evidence_audit (insert_binding subject ref p t ?st) = evidence_audit ?st"
    "fs_staging (insert_binding subject ref p t ?st) = fs_staging ?st"
    by (simp_all add: insert_binding_def split: prod.split)
  have m: "fs_blobs ?st = fs_blobs st" "db_versions ?st = db_versions st" "db_findings ?st = db_findings st"
    "evidence_audit ?st = evidence_audit st" "fs_staging ?st = fs_staging st"
    by (simp_all add: clear_mark_def)
  show ?case
    using "2.prems" "2.IH" by (auto simp: i m Let_def split: if_splits)
qed simp

lemma fold_position_form:
  "db_snapshots (fold (set_position subject) es st) = db_snapshots st"
  "fs_blobs (fold (set_position subject) es st) = fs_blobs st"
  "db_versions (fold (set_position subject) es st) = db_versions st"
  "db_findings (fold (set_position subject) es st) = db_findings st"
  "db_nextBinding (fold (set_position subject) es st) = db_nextBinding st"
  "map bd_id (db_bindings (fold (set_position subject) es st)) = map bd_id (db_bindings st)"
  "map bd_subject (db_bindings (fold (set_position subject) es st)) = map bd_subject (db_bindings st)"
  "map bd_snapshot (db_bindings (fold (set_position subject) es st)) = map bd_snapshot (db_bindings st)"
  "map bd_role (db_bindings (fold (set_position subject) es st)) = map bd_role (db_bindings st)"
  by (induction es arbitrary: st) (auto simp: set_position_def)

lemma apply_edit_form:
  assumes "apply_edit subject ed st = Inr st'"
  shows "db_snapshots st' = db_snapshots st \<and> fs_blobs st' = fs_blobs st \<and>
    db_versions st' = db_versions st \<and> db_findings st' = db_findings st \<and>
    db_nextBinding st' = db_nextBinding st"
  using assms
  by (cases ed) (auto simp: apply_edit_def Let_def fold_position_form split: if_splits)

subsection \<open>Every stored snapshot has its bodies\<close>

lemma snapshots_sound_keys:
  assumes "map row_key (db_snapshots st') = map row_key (db_snapshots st)"
    and "\<And>h n. body_there sha (fs_blobs st) h n \<Longrightarrow> body_there sha (fs_blobs st') h n"
    and "snapshots_sound sha st"
  shows "snapshots_sound sha st'"
proof -
  have key: "row_id r = fst (row_key r)" "row_fields r = snd (row_key r)" for r
    by (simp_all add: row_key_def)
  have "map row_id rs = map fst (map row_key rs)" for rs by (simp add: row_key_def)
  then have d: "distinct (map row_id (db_snapshots st'))"
    using assms(1,3) by (metis snapshots_sound_def)
  have "row_sound sha (fs_blobs st') r" if r: "r \<in> set (db_snapshots st')" for r
  proof -
    have "row_key r \<in> set (map row_key (db_snapshots st))" using r assms(1) by (metis image_eqI set_map)
    then obtain q where q: "q \<in> set (db_snapshots st)" "row_key q = row_key r" by auto
    then have "row_sound sha (fs_blobs st) q" using assms(3) by (simp add: snapshots_sound_def list_all_iff)
    then show ?thesis using q(2) assms(2) by (simp add: row_sound_def key)
  qed
  with d show ?thesis by (simp add: snapshots_sound_def list_all_iff)
qed

lemma bind_transaction_form:
  assumes "bind_transaction subject v refs now st = Inr (st', c, es)"
  shows "map row_key (db_snapshots st') = map row_key (db_snapshots st) \<and> fs_blobs st' = fs_blobs st \<and>
    db_findings st' = db_findings st \<and>
    fst ` set (db_versions st') = insert subject (fst ` set (db_versions st)) \<and>
    (distinct (map fst (db_versions st)) \<longrightarrow> distinct (map fst (db_versions st')))"
proof -
  obtain st1 st2 where l: "lockSubject subject v st = Inr st1"
    and b: "bind_loop subject now refs (next_position subject st1) False st1 = Inr (st2, c)"
    and s: "st' = (if c then bumpSubjectVersion subject st2 else st2)"
    using assms by (auto simp: bind_transaction_def err_bind_Inr Let_def)
  from lock_tables [OF l] obtain vs where "st1 = st\<lparr>db_versions := vs\<rparr>"
    "fst ` set vs = insert subject (fst ` set (db_versions st))"
    "distinct (map fst (db_versions st)) \<longrightarrow> distinct (map fst vs)" by blast
  then show ?thesis using bind_loop_form [OF b] by (simp add: s)
qed

lemma edit_transaction_form:
  assumes "edit_transaction subject v ed st = Inr (st', es)"
  shows "db_snapshots st' = db_snapshots st \<and> fs_blobs st' = fs_blobs st \<and>
    db_findings st' = db_findings st \<and> db_nextBinding st' = db_nextBinding st \<and>
    fst ` set (db_versions st') = insert subject (fst ` set (db_versions st)) \<and>
    (distinct (map fst (db_versions st)) \<longrightarrow> distinct (map fst (db_versions st')))"
proof -
  obtain st1 st2 where l: "lockSubject subject v st = Inr st1"
    and b: "apply_edit subject ed st1 = Inr st2" and s: "st' = bumpSubjectVersion subject st2"
    using assms by (auto simp: edit_transaction_def err_bind_Inr Let_def)
  from lock_tables [OF l] obtain vs where "st1 = st\<lparr>db_versions := vs\<rparr>"
    "fst ` set vs = insert subject (fst ` set (db_versions st))"
    "distinct (map fst (db_versions st)) \<longrightarrow> distinct (map fst vs)" by blast
  then show ?thesis using apply_edit_form [OF b] by (simp add: s)
qed

lemma patch_finding_cases:
  assumes "patch_finding f input now st = Inr (st', r)"
  obtains st1 title severity status retest where
    "lockSubject (fd_subject f) (fi_expectedVersion input) st = Inr st1"
    "fi_lane input = None \<or> trimmed (fi_lane input) = fd_lane f" "title \<noteq> []"
    "isTgSecFindingSeverity severity" "isTgSecFindingStatus status"
    "status = or_keep (fi_status input) (fd_status f)"
    "patched_retest f status (fi_snapshotId input) st1 = Inr retest"
    "fr_changed r \<longleftrightarrow> title \<noteq> fd_title f \<or> severity \<noteq> fd_severity f \<or> status \<noteq> fd_status f \<or> retest \<noteq> fd_retest f"
    "st' = (if fr_changed r
            then bumpSubjectVersion (fd_subject f) (update_finding (fd_id f) title severity status retest now st1)
            else st1)"
    "fr_version r = readSubjectVersion (fd_subject f) st'" "\<not> fr_created r"
proof -
  let ?title = "case fi_title input of None \<Rightarrow> fd_title f | Some t \<Rightarrow> trim t"
  let ?severity = "or_keep (fi_severity input) (fd_severity f)"
  let ?status = "or_keep (fi_status input) (fd_status f)"
  let ?rest = "\<lambda>st1. err_bind (assertTgSecFindingSeverity ?severity) (\<lambda>_.
            err_bind (assertTgSecFindingStatus ?status) (\<lambda>_.
            err_bind (patched_retest f ?status (fi_snapshotId input) st1) (\<lambda>retest.
              let changed = (?title \<noteq> fd_title f \<or> ?severity \<noteq> fd_severity f \<or>
                             ?status \<noteq> fd_status f \<or> retest \<noteq> fd_retest f);
                  st2 = (if changed
                         then bumpSubjectVersion (fd_subject f)
                                (update_finding (fd_id f) ?title ?severity ?status retest now st1)
                         else st1)
              in err_bind (readFinding (fd_id f) st2) (\<lambda>finding.
                   Inr (st2, \<lparr>fr_finding = the finding,
                              fr_version = readSubjectVersion (fd_subject f) st2,
                              fr_created = False, fr_changed = changed\<rparr>)))))"
  obtain st1 where l: "lockSubject (fd_subject f) (fi_expectedVersion input) st = Inr st1"
    and b: "(if fi_lane input \<noteq> None \<and> trimmed (fi_lane input) \<noteq> fd_lane f then
            invalid (''finding '' @ fd_id f @ [CHR 0x27] @ ''s lane is fixed at creation'')
          else if ?title = [] then invalid ''a finding needs a title'' else ?rest st1) = Inr (st', r)"
    using assms unfolding patch_finding_def Let_def err_bind_Inr by blast
  have g: "\<not> (fi_lane input \<noteq> None \<and> trimmed (fi_lane input) \<noteq> fd_lane f)" "?title \<noteq> []"
    using b by (metis Inl_Inr_False invalid_def)+
  with b have "?rest st1 = Inr (st', r)" by (simp only: if_False simp_thms)
  then obtain retest where v: "isTgSecFindingSeverity ?severity" "isTgSecFindingStatus ?status"
    "patched_retest f ?status (fi_snapshotId input) st1 = Inr retest"
    and e: "err_bind (readFinding (fd_id f) (if (?title \<noteq> fd_title f \<or> ?severity \<noteq> fd_severity f \<or>
              ?status \<noteq> fd_status f \<or> retest \<noteq> fd_retest f)
            then bumpSubjectVersion (fd_subject f)
              (update_finding (fd_id f) ?title ?severity ?status retest now st1) else st1))
       (\<lambda>finding. Inr (if (?title \<noteq> fd_title f \<or> ?severity \<noteq> fd_severity f \<or>
              ?status \<noteq> fd_status f \<or> retest \<noteq> fd_retest f)
            then bumpSubjectVersion (fd_subject f)
              (update_finding (fd_id f) ?title ?severity ?status retest now st1) else st1,
          \<lparr>fr_finding = the finding, fr_version = readSubjectVersion (fd_subject f)
             (if (?title \<noteq> fd_title f \<or> ?severity \<noteq> fd_severity f \<or>
              ?status \<noteq> fd_status f \<or> retest \<noteq> fd_retest f)
            then bumpSubjectVersion (fd_subject f)
              (update_finding (fd_id f) ?title ?severity ?status retest now st1) else st1),
           fr_created = False, fr_changed = (?title \<noteq> fd_title f \<or> ?severity \<noteq> fd_severity f \<or>
              ?status \<noteq> fd_status f \<or> retest \<noteq> fd_retest f)\<rparr>)) = Inr (st', r)"
    unfolding Let_def err_bind_Inr [of "assertTgSecFindingSeverity ?severity"]
      err_bind_Inr [of "assertTgSecFindingStatus ?status"]
      err_bind_Inr [of "patched_retest f ?status (fi_snapshotId input) st1"] assert_vocabulary by blast
  show thesis
    by (rule that [OF l _ g(2) v(1,2) refl v(3)]) (use g(1) e in \<open>auto simp only: err_bind_Inr sum.inject prod.inject finding_result.simps\<close>)
qed

lemma finding_transaction_form:
  assumes "write_finding_transaction i input now st = Inr (st', r)"
  shows "db_snapshots st' = db_snapshots st \<and> fs_blobs st' = fs_blobs st \<and>
    db_bindings st' = db_bindings st \<and> db_nextBinding st' = db_nextBinding st \<and>
    fst ` set (db_versions st) \<subseteq> fst ` set (db_versions st') \<and>
    (distinct (map fst (db_versions st)) \<longrightarrow> distinct (map fst (db_versions st')))"
proof -
  have c: "?thesis" if "create_finding i input now st = Inr (st', r)"
  proof -
    from that obtain st1 row where l: "lockSubject i (fi_expectedVersion input) st = Inr st1"
      and s: "st' = bumpSubjectVersion i (st1\<lparr>db_findings := db_findings st1 @ [row]\<rparr>)"
      by (auto simp: create_finding_def Let_def invalid_def err_bind_Inr split: if_splits option.splits)
    from lock_tables [OF l] obtain vs where "st1 = st\<lparr>db_versions := vs\<rparr>"
      "fst ` set vs = insert i (fst ` set (db_versions st))"
      "distinct (map fst (db_versions st)) \<longrightarrow> distinct (map fst vs)" by blast
    then show ?thesis by (simp add: s subset_insertI)
  qed
  have p: "?thesis" if "patch_finding f input now st = Inr (st', r)" for f
  proof -
    from that obtain st1 t sv su re where l: "lockSubject (fd_subject f) (fi_expectedVersion input) st = Inr st1"
      and s: "st' = st1 \<or> st' = bumpSubjectVersion (fd_subject f) (update_finding (fd_id f) t sv su re now st1)"
      by (rule patch_finding_cases) metis
    from lock_tables [OF l] obtain vs where "st1 = st\<lparr>db_versions := vs\<rparr>"
      "fst ` set vs = insert (fd_subject f) (fst ` set (db_versions st))"
      "distinct (map fst (db_versions st)) \<longrightarrow> distinct (map fst vs)" by blast
    with s show ?thesis by (elim disjE) (simp_all add: update_finding_def subset_insertI)
  qed
  show ?thesis
    using assms c p by (auto simp: write_finding_transaction_def err_bind_Inr split: option.splits)
qed

lemma record_facts_raw:
  assumes "record_facts sha req resp input = Inr (i, facts)"
  shows "snapshotMetadataId sha facts = Inr i \<and>
    normalizeEvidenceFields (input\<lparr>sn_reqHash := tgSecContentHash sha req,
      sn_respHash := tgSecContentHash sha resp, sn_reqLen := of_nat (length req),
      sn_respLen := of_nat (length resp)\<rparr>) = Inr facts"
proof -
  obtain x where x: "normalizeEvidenceFields (input\<lparr>sn_reqHash := tgSecContentHash sha req,
      sn_respHash := tgSecContentHash sha resp, sn_reqLen := of_nat (length req),
      sn_respLen := of_nat (length resp)\<rparr>) = Inr x"
    "map_sum id (\<lambda>i. (i, x)) (snapshotMetadataId sha x) = Inr (i, facts)"
    using assms by (auto simp: record_facts_def err_bind_Inr)
  then show ?thesis by (cases "snapshotMetadataId sha x") auto
qed

lemma record_facts_sound:
  assumes "record_facts sha req resp input = Inr (i, facts)"
  shows "evidence_normal facts \<and> snapshotMetadataId sha facts = Inr i \<and>
    sn_reqHash facts = tgSecContentHash sha req \<and> sn_respHash facts = tgSecContentHash sha resp \<and>
    sn_reqLen facts = of_nat (length req) \<and> sn_respLen facts = of_nat (length resp)"
proof -
  obtain raw where "normalizeEvidenceFields raw = Inr facts" "snapshotMetadataId sha facts = Inr i"
    "sn_reqHash raw = tgSecContentHash sha req" "sn_respHash raw = tgSecContentHash sha resp"
    "sn_reqLen raw = of_nat (length req)" "sn_respLen raw = of_nat (length resp)"
    using record_facts_raw [OF assms] by auto
  then show ?thesis using normalizeEvidenceFields_normal [of raw facts]
    by (auto simp: normalizeEvidenceFields_def err_bind_Inr)
qed

lemma write_bodies_done:
  assumes "write_bodies sha now req resp files = (files', None)"
  shows "body_there sha files' (tgSecContentHash sha req) (of_nat (length req)) \<and>
    body_there sha files' (tgSecContentHash sha resp) (of_nat (length resp))"
  using assms writeBody_there writeBody_keeps
  by (fastforce simp: write_bodies_def split: sum.splits)

lemma snapshots_sound_record:
  assumes "snapshots_sound sha st"
  shows "snapshots_sound sha (fst (record_exchange sha now req resp input st))"
  unfolding record_exchange_def
proof (rule audit_snapshots.emit_keeps)
  let ?run = "case record_facts sha req resp input of
      Inl e \<Rightarrow> (st, Inl e)
    | Inr (i, facts) \<Rightarrow>
        (case write_bodies sha now req resp (fs_blobs st) of
           (files, Some e) \<Rightarrow> (st\<lparr>fs_blobs := files\<rparr>, Inl e)
         | (files, None) \<Rightarrow>
             (case run_transaction (insert_snapshot now i facts) (st\<lparr>fs_blobs := files\<rparr>) of
                (st', Inl e) \<Rightarrow> (st', Inl e)
              | (st', Inr inserted) \<Rightarrow> (st', Inr ((i, facts, now), inserted, 1))))"
  obtain files e where w: "write_bodies sha now req resp (fs_blobs st) = (files, e)" by fastforce
  have blobs: "snapshots_sound sha (st\<lparr>fs_blobs := files\<rparr>)"
    by (rule snapshots_sound_keys [OF _ _ assms])
      (use write_bodies_keeps [of sha "fs_blobs st" _ _ now req resp] w in auto)
  show "snapshots_sound sha (fst ?run)"
  proof (cases "record_facts sha req resp input")
    case (Inr p)
    then obtain i facts where p: "record_facts sha req resp input = Inr (i, facts)" by (cases p) auto
    show ?thesis
    proof (cases e)
      case None
      have "row_sound sha files \<lparr>row_id = i, row_fields = facts, row_created = now, row_unreferenced = None\<rparr>"
        using record_facts_sound [OF p] write_bodies_done [OF w [unfolded None]] by (simp add: row_sound_def)
      then show ?thesis using blobs
        by (auto simp: p w None run_transaction_def insert_snapshot_def snapshots_sound_def find_snapshot_def
            find_None_iff split: option.split)
    qed (use blobs in \<open>simp add: p w\<close>)
  qed (use assms in simp)
qed

lemma find_file_filter:
  assumes "\<And>f. f \<in> set files \<Longrightarrow> file_name f = n \<Longrightarrow> P f"
  shows "find_file n (filter P files) = find_file n files"
  using assms by (induction files) (auto simp: find_file_def)

lemma file_hash_blob [simp]: "file_name f = blobName h \<Longrightarrow> file_hash f = h"
  by (simp add: file_hash_def blobName_def suffix_def)

lemma reap_keeps_bodies:
  assumes "hash \<in> set keep" and "body_there sha (fs_blobs st) hash n"
  shows "body_there sha (fs_blobs (fst (reapFiles keep now st))) hash n"
proof -
  have "find_file (blobName hash) (filter (\<lambda>f. \<not> reapable keep now f) (fs_blobs st)) =
      find_file (blobName hash) (fs_blobs st)"
    by (rule find_file_filter) (use assms(1) in \<open>auto simp: reapable_def\<close>)
  with assms(2) show ?thesis by (simp add: body_there_def reapFiles_def)
qed

lemma unbound_cong:
  "db_bindings st' = db_bindings st \<Longrightarrow> unbound st' = unbound st"
  by (simp add: unbound_def fun_eq_iff)

lemma collect_index_form:
  "fs_blobs (fst (collect_index now st)) = fs_blobs st"
  "db_bindings (fst (collect_index now st)) = db_bindings st"
  "db_versions (fst (collect_index now st)) = db_versions st"
  "db_findings (fst (collect_index now st)) = db_findings st"
  "db_nextBinding (fst (collect_index now st)) = db_nextBinding st"
  by (simp_all add: collect_index_def Let_def delete_expired_def mark_unbound_def)

lemma collect_index_rows:
  "r \<in> set (db_snapshots (fst (collect_index now st))) \<longleftrightarrow>
     (\<exists>q \<in> set (db_snapshots st).
        r = mark_row now st q \<and>
        \<not> (expired (now - EVIDENCE_GRACE_MS) r \<and> unbound st q))"
proof -
  have u: "unbound (mark_unbound now st) = unbound st" by (rule unbound_cong) (simp add: mark_unbound_def)
  have "db_snapshots (fst (collect_index now st)) =
      filter (\<lambda>r. \<not> (expired (now - EVIDENCE_GRACE_MS) r \<and> unbound st r)) (map (mark_row now st) (db_snapshots st))"
    by (simp add: collect_index_def Let_def delete_expired_def u) (simp add: mark_unbound_def)
  moreover have "unbound st (mark_row now st q) = unbound st q" for q by (simp add: unbound_def mark_row_def)
  ultimately show ?thesis by auto
qed

lemma distinct_filter_ids: "distinct (map row_id rs) \<Longrightarrow> distinct (map row_id (filter P rs))"
  by (induction rs) auto

lemma collect_index_keeps:
  assumes "snapshots_sound sha st"
  shows "snapshots_sound sha (fst (collect_index now st))"
proof -
  have "map row_id (db_snapshots (mark_unbound now st)) = map row_id (db_snapshots st)"
    by (simp add: mark_unbound_def mark_row_def)
  then have d: "distinct (map row_id (db_snapshots (fst (collect_index now st))))"
    using assms by (simp add: collect_index_def Let_def delete_expired_def distinct_filter_ids snapshots_sound_def)
  have "row_sound sha (fs_blobs st) r" if "r \<in> set (db_snapshots (fst (collect_index now st)))" for r
    using that assms
    by (auto simp: collect_index_rows snapshots_sound_def list_all_iff row_sound_def mark_row_def split: if_splits)
  with d show ?thesis by (simp add: snapshots_sound_def list_all_iff collect_index_form)
qed

lemma snapshots_sound_reap:
  assumes "snapshots_sound sha st"
    and "set (map (\<lambda>r. sn_reqHash (row_fields r)) (db_snapshots st)) \<subseteq> set keep"
    and "set (map (\<lambda>r. sn_respHash (row_fields r)) (db_snapshots st)) \<subseteq> set keep"
  shows "snapshots_sound sha (fst (reapFiles keep now st))"
proof -
  have "row_sound sha (fs_blobs (fst (reapFiles keep now st))) r" if r: "r \<in> set (db_snapshots st)" for r
  proof -
    have "sn_reqHash (row_fields r) \<in> set keep" "sn_respHash (row_fields r) \<in> set keep"
      using r assms(2,3) by auto
    then show ?thesis using r assms(1) reap_keeps_bodies
      by (auto simp: snapshots_sound_def list_all_iff row_sound_def)
  qed
  moreover have "db_snapshots (fst (reapFiles keep now st)) = db_snapshots st" by (simp add: reapFiles_def)
  ultimately show ?thesis using assms(1) by (simp add: snapshots_sound_def list_all_iff)
qed

lemma snapshots_sound_collect:
  assumes "snapshots_sound sha st"
  shows "snapshots_sound sha (fst (collect_evidence sha now st))"
  unfolding collect_evidence_def
proof (rule audit_snapshots.emit_keeps)
  obtain st1 keep where c: "collect_index now st = (st1, keep)" by fastforce
  have "snapshots_sound sha st1" using collect_index_keeps [OF assms, of now] c by simp
  moreover have "keep = map (\<lambda>r. sn_reqHash (row_fields r)) (db_snapshots st1) @
      map (\<lambda>r. sn_respHash (row_fields r)) (db_snapshots st1)"
    using c by (auto simp: collect_index_def Let_def)
  ultimately have "snapshots_sound sha (fst (reapFiles keep now st1))"
    by (intro snapshots_sound_reap) simp_all
  moreover obtain st2 n where "reapFiles keep now st1 = (st2, n)" by fastforce
  ultimately show "snapshots_sound sha
      (fst (case collect_index now st of (st1, surviving) \<Rightarrow>
         case reapFiles surviving now st1 of (st2, n) \<Rightarrow> (st2, Inr ((), 0 < n, n))))"
    by (simp add: c)
qed

interpretation snapshots: kept_invariant "snapshots_sound sha" sha for sha
proof unfold_locales
  show "snapshots_sound sha open_evidence_store"
    by (simp add: snapshots_sound_def open_evidence_store_def)
  show "snapshots_sound sha (st\<lparr>fs_staging := files\<rparr>) = snapshots_sound sha st" for st files
    by (simp add: snapshots_sound_def)
  fix st st'
  assume s: "snapshots_sound sha st"
  show "snapshots_sound sha (fst (record_exchange sha now req resp input st))" for now req resp input
    by (rule snapshots_sound_record [OF s])
  show "snapshots_sound sha st'" if "bind_transaction subject v n now st = Inr (st', c, es)" for subject v n now c es
    using snapshots_sound_keys [OF _ _ s] bind_transaction_form [OF that] by simp
  show "snapshots_sound sha st'" if "edit_transaction subject v ed st = Inr (st', es)" for subject v ed es
    using snapshots_sound_keys [OF _ _ s] edit_transaction_form [OF that] by simp
  show "snapshots_sound sha st'" if "write_finding_transaction i input now st = Inr (st', r)" for i input now r
    using snapshots_sound_keys [OF _ _ s] finding_transaction_form [OF that] by simp
  show "snapshots_sound sha (fst (collect_evidence sha now st))" for now
    by (rule snapshots_sound_collect [OF s])
qed

subsection \<open>No binding dangles\<close>

lemma record_tables:
  "db_bindings (fst (record_exchange sha now req resp input st)) = db_bindings st"
  "db_versions (fst (record_exchange sha now req resp input st)) = db_versions st"
  "db_findings (fst (record_exchange sha now req resp input st)) = db_findings st"
  "db_nextBinding (fst (record_exchange sha now req resp input st)) = db_nextBinding st"
  "set (db_snapshots st) \<subseteq> set (db_snapshots (fst (record_exchange sha now req resp input st)))"
  by (auto simp: record_exchange_def emitEvidence_def Let_def run_transaction_def insert_snapshot_def
      split: sum.splits prod.splits option.splits)

lemma collect_tables:
  "db_bindings (fst (collect_evidence sha now st)) = db_bindings st"
  "db_versions (fst (collect_evidence sha now st)) = db_versions st"
  "db_findings (fst (collect_evidence sha now st)) = db_findings st"
  "db_nextBinding (fst (collect_evidence sha now st)) = db_nextBinding st"
  "db_snapshots (fst (collect_evidence sha now st)) = db_snapshots (fst (collect_index now st))"
  using collect_index_form [of now st]
  by (auto simp: collect_evidence_def emitEvidence_def Let_def reapFiles_def split: prod.split)

lemma normalize_roles:
  "normalize_loop seen refs = Inr out \<Longrightarrow>
     \<forall>(i, role, note) \<in> set out. i \<noteq> [] \<and> role \<in> set EVIDENCE_ROLES"
  by (induction seen refs arbitrary: out rule: normalize_loop.induct)
    (fastforce simp: Let_def err_bind_Inr assertRole_def map_sum_def split: if_splits sum.splits)+

lemma clear_mark_rows:
  assumes "r \<in> set (db_snapshots st)" "row_unreferenced r = None \<or> row_id r = i"
  shows "\<exists>q \<in> set (db_snapshots (clear_mark i st)). row_id q = row_id r \<and> row_unreferenced q = None"
proof -
  let ?q = "if row_id r = i then r\<lparr>row_unreferenced := None\<rparr> else r"
  have "db_snapshots (clear_mark i st) =
      map (\<lambda>r. if row_id r = i then r\<lparr>row_unreferenced := None\<rparr> else r) (db_snapshots st)"
    by (simp add: clear_mark_def)
  then have "?q \<in> set (db_snapshots (clear_mark i st))"
    using assms(1) by (simp only: set_map) (rule imageI)
  moreover have "row_id ?q = row_id r" "row_unreferenced ?q = None" using assms(2) by auto
  ultimately show ?thesis by blast
qed

lemma clear_mark_bindings:
  assumes "bindings_sound st"
  shows "bindings_sound (clear_mark i st)"
proof -
  have "db_bindings (clear_mark i st) = db_bindings st" "db_versions (clear_mark i st) = db_versions st"
    "db_nextBinding (clear_mark i st) = db_nextBinding st"
    by (simp_all add: clear_mark_def)
  moreover have "\<exists>q \<in> set (db_snapshots (clear_mark i st)). row_id q = bd_snapshot b \<and> row_unreferenced q = None"
    if b: "b \<in> set (db_bindings st)" for b
  proof -
    obtain r where "r \<in> set (db_snapshots st)" "row_id r = bd_snapshot b" "row_unreferenced r = None"
      using assms b by (auto simp: bindings_sound_def list_all_iff list_ex_iff)
    then show ?thesis using clear_mark_rows [of r st i] by simp
  qed
  ultimately show ?thesis using assms by (simp add: bindings_sound_def list_all_iff list_ex_iff)
qed

lemma insert_binding_sound:
  assumes "bindings_sound st" "\<not> is_bound subject i st" "subject \<in> fst ` set (db_versions st)"
    and "role \<in> set EVIDENCE_ROLES"
    and "list_ex (\<lambda>r. row_id r = i \<and> row_unreferenced r = None) (db_snapshots st)"
  shows "bindings_sound (insert_binding subject (i, role, note) p t st)"
proof -
  have "db_nextBinding st \<notin> bd_id ` set (db_bindings st)"
    using assms(1) by (fastforce simp: bindings_sound_def list_all_iff)
  moreover have "(subject, i) \<notin> (\<lambda>b. (bd_subject b, bd_snapshot b)) ` set (db_bindings st)"
    using assms(2) by (auto simp: is_bound_def list_ex_iff)
  ultimately show ?thesis using assms(1,3,4,5)
    by (auto simp: bindings_sound_def insert_binding_def list_all_iff less_Suc_eq)
qed

lemma bind_loop_bindings:
  "bind_loop subject t refs p c st = Inr (st', c') \<Longrightarrow> subject \<in> fst ` set (db_versions st) \<Longrightarrow>
     \<forall>(i, role, note) \<in> set refs. i \<noteq> [] \<and> role \<in> set EVIDENCE_ROLES \<Longrightarrow> bindings_sound st \<Longrightarrow>
     bindings_sound st'"
proof (induction subject t refs p c st rule: bind_loop.induct)
  case (2 subject t ref refs p c st)
  obtain i role memo where ref: "ref = (i, role, memo)" by (cases ref) auto
  let ?st = "clear_mark i st"
  obtain r where r: "find_snapshot i st = Some r"
    using "2.prems"(1) by (auto simp: ref split: if_splits)
  then have "list_ex (\<lambda>r. row_id r = i \<and> row_unreferenced r = None) (db_snapshots ?st)"
    using clear_mark_rows [of r st i] find_Some_in_set [of _ "db_snapshots st" r]
    by (auto simp: find_snapshot_def list_ex_iff)
  moreover have "bindings_sound ?st" by (rule clear_mark_bindings [OF "2.prems"(4)])
  moreover have "db_versions ?st = db_versions st"
    "db_versions (insert_binding subject (i, role, memo) p t ?st) = db_versions st"
    by (simp_all add: clear_mark_def insert_binding_def)
  ultimately show ?case
    using 2 insert_binding_sound [of ?st subject i role memo p t]
    by (auto simp: ref r Let_def split: if_splits)
qed simp

lemma map_update_key:
  "(\<And>x. f (u x) = f x) \<Longrightarrow> map f (map (\<lambda>x. if P x then u x else x) xs) = map f xs"
  by (simp add: comp_def if_distrib cong: if_cong)

lemma update_bindings_sound:
  assumes "bindings_sound st"
    and "\<And>b. bd_id (u b) = bd_id b \<and> bd_subject (u b) = bd_subject b \<and> bd_snapshot (u b) = bd_snapshot b"
    and "\<And>b. bd_role b \<in> set EVIDENCE_ROLES \<Longrightarrow> bd_role (u b) \<in> set EVIDENCE_ROLES"
  shows "bindings_sound (st\<lparr>db_bindings := map (\<lambda>b. if P b then u b else b) (db_bindings st)\<rparr>)"
proof -
  have "map bd_id (map (\<lambda>b. if P b then u b else b) bs) = map bd_id bs"
    "map (\<lambda>b. (bd_subject b, bd_snapshot b)) (map (\<lambda>b. if P b then u b else b) bs) =
       map (\<lambda>b. (bd_subject b, bd_snapshot b)) bs" for bs
    using assms(2) by (simp_all only: map_update_key)
  with assms show ?thesis
    by (auto simp add: bindings_sound_def list_all_iff simp del: map_map)
qed

lemma set_position_sound: "bindings_sound st \<Longrightarrow> bindings_sound (set_position subject e st)"
  by (cases e) (simp add: set_position_def update_bindings_sound)

lemma fold_position_sound: "bindings_sound st \<Longrightarrow> bindings_sound (fold (set_position subject) es st)"
  by (induction es arbitrary: st) (simp_all add: set_position_sound)

lemma distinct_map_filter_key: "distinct (map f xs) \<Longrightarrow> distinct (map f (filter P xs))"
  by (induction xs) auto

lemma apply_edit_sound:
  assumes "apply_edit subject ed st = Inr st'" "bindings_sound st"
    and "\<forall>i r note m. ed = EditBinding i (Some r) note m \<longrightarrow> r \<in> set EVIDENCE_ROLES"
  shows "bindings_sound st'"
proof (cases ed)
  case (Reorder order)
  then show ?thesis using assms fold_position_sound by (auto simp: apply_edit_def Let_def split: if_splits)
next
  case (EditBinding i role memo removes)
  show ?thesis
  proof (cases removes)
    case True
    then show ?thesis using assms(1,2) EditBinding
      by (auto simp: apply_edit_def Let_def bindings_sound_def distinct_map_filter_key list_all_iff
          split: if_splits)
  next
    case False
    have "or_keep role s \<in> set EVIDENCE_ROLES" if "s \<in> set EVIDENCE_ROLES" for s
      using that assms(3) EditBinding by (auto simp: or_keep_def split: option.split)
    with assms(1,2) EditBinding False show ?thesis
      by (auto simp: apply_edit_def Let_def intro!: update_bindings_sound split: if_splits)
  qed
qed

text \<open>The versions may grow and the bindings do not see it.\<close>

lemma bindings_sound_versions:
  assumes "bindings_sound st" "db_bindings st' = db_bindings st" "db_nextBinding st' = db_nextBinding st"
    and "db_snapshots st' = db_snapshots st" "distinct (map fst (db_versions st'))"
    and "fst ` set (db_versions st) \<subseteq> fst ` set (db_versions st')"
  shows "bindings_sound st'"
  using assms by (auto simp: bindings_sound_def list_all_iff)

lemma bindings_audit: "bindings_sound (st\<lparr>evidence_audit := a\<rparr>) = bindings_sound st"
  by (simp add: bindings_sound_def)

interpretation bindings: kept_invariant bindings_sound sha for sha
proof unfold_locales
  show "bindings_sound (st\<lparr>evidence_audit := a\<rparr>) = bindings_sound st" for st a by (rule bindings_audit)
  show "bindings_sound open_evidence_store" by (simp add: bindings_sound_def open_evidence_store_def)
  show "bindings_sound (st\<lparr>fs_staging := files\<rparr>) = bindings_sound st" for st files
    by (simp add: bindings_sound_def)
  fix st st'
  assume s: "bindings_sound st"
  show "bindings_sound (fst (record_exchange sha now req resp input st))" for now req resp input
    using s record_tables [where sha = sha and now = now and req = req and resp = resp and input = input and st = st]
    by (fastforce simp: bindings_sound_def list_all_iff list_ex_iff)
  show "bindings_sound st'" if n: "normalizeRefs refs = Inr n"
    and b: "bind_transaction subject v n now st = Inr (st', c, es)" for subject v n now c es refs
  proof -
    obtain st1 st2 where l: "lockSubject subject v st = Inr st1"
      and lp: "bind_loop subject now n (next_position subject st1) False st1 = Inr (st2, c)"
      and e: "st' = (if c then bumpSubjectVersion subject st2 else st2)"
      using b by (auto simp: bind_transaction_def err_bind_Inr Let_def)
    from lock_tables [OF l] obtain vs where vs: "st1 = st\<lparr>db_versions := vs\<rparr>"
      "fst ` set vs = insert subject (fst ` set (db_versions st))"
      "distinct (map fst (db_versions st)) \<longrightarrow> distinct (map fst vs)" by blast
    have "bindings_sound st1"
      by (rule bindings_sound_versions [OF s]) (use s vs in \<open>auto simp: bindings_sound_def\<close>)
    moreover have "\<forall>(i, role, note) \<in> set n. i \<noteq> [] \<and> role \<in> set EVIDENCE_ROLES"
      using normalize_roles n by (simp add: normalizeRefs_def)
    ultimately have s2: "bindings_sound st2"
      using bind_loop_bindings [OF lp] vs by simp
    then have "distinct (map fst (db_versions st2))" by (simp add: bindings_sound_def)
    then show ?thesis using bindings_sound_versions [OF s2, of st'] s2 by (simp add: e)
  qed
  show "bindings_sound st'"
    if r: "\<forall>i r note m. ed = EditBinding i (Some r) note m \<longrightarrow> r \<in> set EVIDENCE_ROLES"
      and b: "edit_transaction subject v ed st = Inr (st', es)" for subject v ed es
  proof -
    obtain st1 st2 where l: "lockSubject subject v st = Inr st1"
      and ap: "apply_edit subject ed st1 = Inr st2" and e: "st' = bumpSubjectVersion subject st2"
      using b by (auto simp: edit_transaction_def err_bind_Inr Let_def)
    from lock_tables [OF l] obtain vs where vs: "st1 = st\<lparr>db_versions := vs\<rparr>"
      "fst ` set vs = insert subject (fst ` set (db_versions st))"
      "distinct (map fst (db_versions st)) \<longrightarrow> distinct (map fst vs)" by blast
    have "bindings_sound st1"
      by (rule bindings_sound_versions [OF s]) (use s vs in \<open>auto simp: bindings_sound_def\<close>)
    from apply_edit_sound [OF ap this r] have s2: "bindings_sound st2" .
    then have "distinct (map fst (db_versions st2))" by (simp add: bindings_sound_def)
    then show ?thesis using bindings_sound_versions [OF s2, of st'] s2 by (simp add: e)
  qed
  show "bindings_sound st'" if "write_finding_transaction i input now st = Inr (st', r)" for i input now r
    using finding_transaction_form [OF that] s bindings_sound_versions [OF s, of st']
    by (simp add: bindings_sound_def)
  show "bindings_sound (fst (collect_evidence sha now st))" for now
  proof -
    have "\<exists>r \<in> set (db_snapshots (fst (collect_index now st))). row_id r = bd_snapshot b \<and> row_unreferenced r = None"
      if b: "b \<in> set (db_bindings st)" for b
    proof -
      obtain q where q: "q \<in> set (db_snapshots st)" "row_id q = bd_snapshot b" "row_unreferenced q = None"
        using s b by (auto simp: bindings_sound_def list_all_iff list_ex_iff)
      then have "mark_row now st q = q" "\<not> unbound st q"
        using b by (auto simp: mark_row_def unbound_def list_ex_iff)
      with q show ?thesis by (intro bexI [of _ q]) (auto simp: collect_index_rows expired_def intro!: bexI [of _ q])
    qed
    with s show ?thesis
      by (simp add: bindings_sound_def collect_tables list_all_iff list_ex_iff)
  qed
qed

end
