(* ===== verification/Evidence_Laws.thy ===== *)
theory Evidence_Laws
  imports Evidence_Sound
begin

text \<open>
  The laws behind what the evidence store promises: findings stay in their vocabulary, versions only
  grow, an id determines its facts, stored evidence reads back, a stale writer is rejected, a failed
  one changes nothing, findings move along their transitions, and what the collector takes.
\<close>

subsection \<open>Findings stay in their vocabulary\<close>

text \<open>A finding that was retested names the evidence of the retest.\<close>

definition finding_sound :: "string set \<Rightarrow> finding_row \<Rightarrow> bool" where
  "finding_sound subjects r \<longleftrightarrow>
     isTgSecFindingSeverity (fd_severity r) \<and> isTgSecFindingStatus (fd_status r) \<and>
     fd_subject r = fd_id r \<and> fd_title r \<noteq> [] \<and> fd_lane r \<noteq> [] \<and>
     fd_id r \<in> subjects \<and>
     (isTgSecRetestStatus (fd_status r) \<longrightarrow> fd_retest r \<noteq> [])"

definition findings_sound :: "evidence_state \<Rightarrow> bool" where
  "findings_sound st \<longleftrightarrow>
     distinct (map fd_id (db_findings st)) \<and> list_all (finding_sound (fst ` set (db_versions st))) (db_findings st)"

lemma created_finding:
  assumes "create_finding i input now st = Inr (st', r)"
  obtains st1 lane title severity where
    "lockSubject i (fi_expectedVersion input) st = Inr st1" "lane \<noteq> []" "title \<noteq> []"
    "isTgSecFindingSeverity severity" "fi_snapshotId input = None"
    "st' = bumpSubjectVersion i (st1\<lparr>db_findings := db_findings st1 @
       [\<lparr>fd_id = i, fd_lane = lane, fd_title = title, fd_severity = severity, fd_status = ''open'',
         fd_subject = i, fd_retest = [], fd_created = now, fd_updated = now\<rparr>]\<rparr>)"
    "fr_created r" "fr_changed r" "fr_version r = readSubjectVersion i st'"
  using assms
  by (auto simp: create_finding_def Let_def invalid_def err_bind_Inr split: if_splits option.splits)

lemma retest_required:
  "requireRetestSnapshot subject raw previous st = Inr retest \<Longrightarrow>
     retest \<noteq> [] \<and> retest \<noteq> previous \<and> is_bound subject retest st \<and>
     (\<exists>s. raw = Some s \<and> trim s = retest)"
  by (auto simp: requireRetestSnapshot_def Let_def invalid_def split: if_splits option.splits)

lemma patched_retest_cases:
  assumes "patched_retest f status snap st = Inr retest"
  shows "(status = fd_status f \<or> isTgSecFindingTransitionAllowed (fd_status f) status) \<and>
    (if isTgSecRetestStatus status \<and> (status \<noteq> fd_status f \<or> snap \<noteq> None)
     then retest \<noteq> [] \<and> retest \<noteq> fd_retest f \<and> is_bound (fd_subject f) retest st
     else snap = None \<and> retest = fd_retest f)"
  using assms retest_required
  by (auto simp: patched_retest_def invalid_def split: if_splits)

lemma readFinding_Some:
  "readFinding i st = Inr (Some f) \<Longrightarrow> f \<in> set (db_findings st) \<and> fd_id f = i"
  using find_Some_in_set [of _ "db_findings st"]
  by (fastforce simp: readFinding_def findingFromRow_def err_bind_Inr map_sum_def split: option.splits sum.splits)

lemma readFinding_None:
  "readFinding i st = Inr None \<Longrightarrow> i \<notin> fd_id ` set (db_findings st)"
  by (auto simp: readFinding_def find_None_iff map_sum_def split: option.splits sum.splits)

lemma findings_sound_versions:
  assumes "findings_sound st" "db_findings st' = db_findings st"
    and "fst ` set (db_versions st) \<subseteq> fst ` set (db_versions st')"
  shows "findings_sound st'"
  using assms by (auto simp: findings_sound_def list_all_iff finding_sound_def)

lemma write_finding_sound:
  assumes "findings_sound st" "i \<noteq> []" "write_finding_transaction i input now st = Inr (st', r)"
  shows "findings_sound st'"
proof -
  obtain found where f: "readFinding i st = Inr found"
    and t: "case found of None \<Rightarrow> create_finding i input now st = Inr (st', r)
      | Some existing \<Rightarrow> patch_finding existing input now st = Inr (st', r)"
    using assms(3) by (auto simp: write_finding_transaction_def err_bind_Inr split: option.splits)
  show ?thesis
  proof (cases found)
    case None
    with t obtain st1 lane title severity where
      l: "lockSubject i (fi_expectedVersion input) st = Inr st1" and
      c: "lane \<noteq> []" "title \<noteq> []" "isTgSecFindingSeverity severity" and
      e: "st' = bumpSubjectVersion i (st1\<lparr>db_findings := db_findings st1 @
       [\<lparr>fd_id = i, fd_lane = lane, fd_title = title, fd_severity = severity, fd_status = ''open'',
         fd_subject = i, fd_retest = [], fd_created = now, fd_updated = now\<rparr>]\<rparr>)"
      by (auto elim: created_finding)
    from lock_tables [OF l] obtain vs where vs: "st1 = st\<lparr>db_versions := vs\<rparr>"
      "fst ` set vs = insert i (fst ` set (db_versions st))" by blast
    have "findings_sound st1" by (rule findings_sound_versions [OF assms(1)]) (use vs in auto)
    moreover have "i \<notin> fd_id ` set (db_findings st1)" using readFinding_None f None vs by simp
    moreover have "i \<in> fst ` set (db_versions st1)" using vs by simp
    ultimately show ?thesis using c
      by (simp add: e findings_sound_def finding_sound_def vocabulary_defs)
  next
    case (Some existing)
    with t have "patch_finding existing input now st = Inr (st', r)" by simp
    then obtain st1 title severity status retest where
      l: "lockSubject (fd_subject existing) (fi_expectedVersion input) st = Inr st1" and
      c: "title \<noteq> []" "isTgSecFindingSeverity severity" "isTgSecFindingStatus status" and
      p: "patched_retest existing status (fi_snapshotId input) st1 = Inr retest" and
      e: "st' = (if fr_changed r
            then bumpSubjectVersion (fd_subject existing)
                   (update_finding (fd_id existing) title severity status retest now st1)
            else st1)"
      by (rule patch_finding_cases)
    from lock_tables [OF l] obtain vs where vs: "st1 = st\<lparr>db_versions := vs\<rparr>"
      "fst ` set vs = insert (fd_subject existing) (fst ` set (db_versions st))" by blast
    have s1: "findings_sound st1" by (rule findings_sound_versions [OF assms(1)]) (use vs in auto)
    have ex: "existing \<in> set (db_findings st1)" using readFinding_Some f Some vs by simp
    then have "finding_sound (fst ` set (db_versions st1)) existing"
      using s1 by (simp add: findings_sound_def list_all_iff)
    then have re: "isTgSecRetestStatus status \<longrightarrow> retest \<noteq> []"
      using patched_retest_cases [OF p] by (auto simp: finding_sound_def split: if_splits)
    have k: "map fd_id (db_findings (update_finding j title severity status retest now st1)) =
        map fd_id (db_findings st1)" for j
      by (simp add: update_finding_def comp_def if_distrib cong: if_cong)
    have "list_all (finding_sound (fst ` set (db_versions st1)))
        (db_findings (update_finding j title severity status retest now st1))" for j
      using s1 c re by (auto simp: update_finding_def findings_sound_def list_all_iff finding_sound_def)
    then have u: "findings_sound (update_finding j title severity status retest now st1)" for j
      using s1 k [of j] by (simp add: findings_sound_def) (simp add: update_finding_def)
    have "findings_sound (bumpSubjectVersion (fd_subject existing)
        (update_finding (fd_id existing) title severity status retest now st1))"
      by (rule findings_sound_versions [OF u [of "fd_id existing"]]) (simp_all add: update_finding_def)
    with s1 show ?thesis by (simp add: e)
  qed
qed

interpretation findings: kept_invariant findings_sound sha for sha
proof unfold_locales
  show "findings_sound (st\<lparr>evidence_audit := a\<rparr>) = findings_sound st" for st a
    by (simp add: findings_sound_def)
  show "findings_sound open_evidence_store" by (simp add: findings_sound_def open_evidence_store_def)
  show "findings_sound (st\<lparr>fs_staging := files\<rparr>) = findings_sound st" for st files
    by (simp add: findings_sound_def)
  fix st st'
  assume s: "findings_sound st"
  show "findings_sound (fst (record_exchange sha now req resp input st))" for now req resp input
    by (rule findings_sound_versions [OF s]) (simp_all add: record_tables)
  show "findings_sound st'" if "bind_transaction subject v n now st = Inr (st', c, es)" for subject v n now c es
    using bind_transaction_form [OF that] by (intro findings_sound_versions [OF s]) auto
  show "findings_sound st'" if "edit_transaction subject v ed st = Inr (st', es)" for subject v ed es
    using edit_transaction_form [OF that] by (intro findings_sound_versions [OF s]) auto
  show "findings_sound st'" if "i \<noteq> []" "write_finding_transaction i input now st = Inr (st', r)" for i input now r
    by (rule write_finding_sound [OF s that])
  show "findings_sound (fst (collect_evidence sha now st))" for now
    by (rule findings_sound_versions [OF s]) (simp_all add: collect_tables)
qed


subsection \<open>Versions\<close>

lemma lock_reads:
  assumes "lockSubject s v st = Inr st1"
  shows "readSubjectVersion x st1 = readSubjectVersion x st" "map_of (db_versions st1) s = Some (readSubjectVersion s st)"
    "v = None \<or> v = Some (readSubjectVersion s st)"
proof -
  from lock_form [OF assms] obtain vs where vs: "st1 = st\<lparr>db_versions := vs\<rparr>"
    "\<And>x. x \<noteq> s \<Longrightarrow> map_of vs x = map_of (db_versions st) x"
    "map_of vs s = Some (readSubjectVersion s st)" "v = None \<or> v = Some (readSubjectVersion s st)" by metis
  then show "readSubjectVersion x st1 = readSubjectVersion x st" "map_of (db_versions st1) s = Some (readSubjectVersion s st)"
    "v = None \<or> v = Some (readSubjectVersion s st)"
    by (cases "x = s"; simp add: readSubjectVersion_def)+
qed

lemma bump_reads:
  assumes "map_of (db_versions st) s = Some v"
  shows "readSubjectVersion x (bumpSubjectVersion s st) = readSubjectVersion x st + (if x = s then 1 else 0)"
  using bump_version(1) [OF assms] bump_version(2) [of x s st] assms
  by (cases "x = s") (simp_all add: readSubjectVersion_def)

lemma versions_cong:
  "db_versions st' = db_versions st \<Longrightarrow> readSubjectVersion x st' = readSubjectVersion x st"
  by (simp add: readSubjectVersion_def)

lemma bind_versions:
  assumes "bind_transaction s v refs now st = Inr (st', c, es)"
  shows "readSubjectVersion x st' = readSubjectVersion x st + (if c \<and> x = s then 1 else 0)"
    "v = None \<or> v = Some (readSubjectVersion s st)" "es = readSet s st'"
proof -
  obtain st1 st2 where l: "lockSubject s v st = Inr st1"
    and lp: "bind_loop s now refs (next_position s st1) False st1 = Inr (st2, c)"
    and e: "st' = (if c then bumpSubjectVersion s st2 else st2)" "es = readSet s st'"
    using assms by (auto simp: bind_transaction_def err_bind_Inr Let_def)
  have d: "db_versions st2 = db_versions st1" using bind_loop_form [OF lp] by simp
  have "map_of (db_versions st2) s = Some (readSubjectVersion s st)" using lock_reads(2) [OF l] d by simp
  from bump_reads [OF this] show "readSubjectVersion x st' = readSubjectVersion x st + (if c \<and> x = s then 1 else 0)"
    using versions_cong [OF d] lock_reads(1) [OF l] by (simp add: e)
qed (use assms in \<open>auto simp: bind_transaction_def err_bind_Inr Let_def dest: lock_reads(3)\<close>)

lemma edit_versions:
  assumes "edit_transaction s v ed st = Inr (st', es)"
  shows "readSubjectVersion x st' = readSubjectVersion x st + (if x = s then 1 else 0)"
    "v = None \<or> v = Some (readSubjectVersion s st)" "es = readSet s st'"
proof -
  obtain st1 st2 where l: "lockSubject s v st = Inr st1" and a: "apply_edit s ed st1 = Inr st2"
    and e: "st' = bumpSubjectVersion s st2"
    using assms by (auto simp: edit_transaction_def err_bind_Inr Let_def)
  have d: "db_versions st2 = db_versions st1" using apply_edit_form [OF a] by simp
  have "map_of (db_versions st2) s = Some (readSubjectVersion s st)" using lock_reads(2) [OF l] d by simp
  from bump_reads [OF this] show "readSubjectVersion x st' = readSubjectVersion x st + (if x = s then 1 else 0)"
    using versions_cong [OF d] lock_reads(1) [OF l] by (simp add: e)
qed (use assms in \<open>auto simp: edit_transaction_def err_bind_Inr Let_def dest: lock_reads(3)\<close>)

lemma finding_versions:
  assumes "write_finding_transaction i input now st = Inr (st', r)"
  shows "\<exists>s. (s = i \<or> (\<exists>f \<in> set (db_findings st). fd_id f = i \<and> s = fd_subject f)) \<and>
    readSubjectVersion x st' = readSubjectVersion x st + (if fr_changed r \<and> x = s then 1 else 0) \<and>
    (fi_expectedVersion input = None \<or> fi_expectedVersion input = Some (readSubjectVersion s st)) \<and>
    fr_version r = readSubjectVersion s st'"
proof -
  obtain found where f: "readFinding i st = Inr found"
    and t: "case found of None \<Rightarrow> create_finding i input now st = Inr (st', r)
      | Some existing \<Rightarrow> patch_finding existing input now st = Inr (st', r)"
    using assms by (auto simp: write_finding_transaction_def err_bind_Inr split: option.splits)
  show ?thesis
  proof (cases found)
    case None
    with t obtain st1 fs where l: "lockSubject i (fi_expectedVersion input) st = Inr st1"
      and e: "st' = bumpSubjectVersion i (st1\<lparr>db_findings := fs\<rparr>)"
      and r: "fr_changed r" "fr_version r = readSubjectVersion i st'"
      by (auto elim!: created_finding)
    have "map_of (db_versions (st1\<lparr>db_findings := fs\<rparr>)) i = Some (readSubjectVersion i st)"
      using lock_reads(2) [OF l] by simp
    from bump_reads [OF this] have "readSubjectVersion x st' = readSubjectVersion x st + (if x = i then 1 else 0)"
      using versions_cong [of "st1\<lparr>db_findings := fs\<rparr>" st1] lock_reads(1) [OF l] by (simp add: e)
    then show ?thesis using lock_reads(3) [OF l] r by (intro exI [of _ i]) simp
  next
    case (Some existing)
    with t have "patch_finding existing input now st = Inr (st', r)" by simp
    then obtain st1 title severity status retest where
      l: "lockSubject (fd_subject existing) (fi_expectedVersion input) st = Inr st1" and
      e: "st' = (if fr_changed r
            then bumpSubjectVersion (fd_subject existing)
                   (update_finding (fd_id existing) title severity status retest now st1)
            else st1)" and
      r: "fr_version r = readSubjectVersion (fd_subject existing) st'"
      by (rule patch_finding_cases)
    let ?u = "update_finding (fd_id existing) title severity status retest now st1"
    have d: "db_versions ?u = db_versions st1" by (simp add: update_finding_def)
    have "map_of (db_versions ?u) (fd_subject existing) = Some (readSubjectVersion (fd_subject existing) st)"
      using lock_reads(2) [OF l] d by simp
    from bump_reads [OF this]
    have "readSubjectVersion x st' = readSubjectVersion x st + (if fr_changed r \<and> x = fd_subject existing then 1 else 0)"
      using versions_cong [OF d] lock_reads(1) [OF l] by (simp add: e)
    then show ?thesis using lock_reads(3) [OF l] r readFinding_Some f Some
      by (intro exI [of _ "fd_subject existing"]) auto
  qed
qed

text \<open>No call lowers a version.\<close>

interpretation lower_bound: step_invariant "\<lambda>st. n \<le> readSubjectVersion s st" sha for n s sha
proof unfold_locales
  show "(n \<le> readSubjectVersion s (st\<lparr>evidence_audit := a\<rparr>)) = (n \<le> readSubjectVersion s st)" for st a
    by (simp add: readSubjectVersion_def)
  show "(n \<le> readSubjectVersion s (st\<lparr>fs_staging := files\<rparr>)) = (n \<le> readSubjectVersion s st)" for st files
    by (simp add: readSubjectVersion_def)
  fix st st'
  assume s: "n \<le> readSubjectVersion s st"
  show "n \<le> readSubjectVersion s (fst (record_exchange sha now req resp input st))" for now req resp input
    using s by (simp add: readSubjectVersion_def record_tables)
  show "n \<le> readSubjectVersion s st'" if "bind_transaction subject v m now st = Inr (st', c, es)" for subject v m now c es
    using s bind_versions(1) [OF that, of s] by (auto split: if_splits)
  show "n \<le> readSubjectVersion s st'" if "edit_transaction subject v ed st = Inr (st', es)" for subject v ed es
    using s edit_versions(1) [OF that, of s] by (auto split: if_splits)
  show "n \<le> readSubjectVersion s st'" if "write_finding_transaction i input now st = Inr (st', r)" for i input now r
    using s finding_versions [OF that, of s] by auto
  show "n \<le> readSubjectVersion s (fst (collect_evidence sha now st))" for now
    using s by (simp add: readSubjectVersion_def collect_tables)
qed

subsection \<open>Identity\<close>

lemma metadata_id_facts:
  assumes "snapshotMetadataId sha f = Inr i"
  obtains n b where "normalizeEvidenceFields f = Inr n" "encodeEvidenceSnapshotPreimage n = Inr b" "sha b = i"
    "evidence_normal n"
proof -
  obtain n where n: "normalizeEvidenceFields f = Inr n"
    and "map_sum id sha (encodeEvidenceSnapshotPreimage n) = Inr i"
    using assms by (auto simp: snapshotMetadataId_def err_bind_Inr)
  then show thesis using that normalizeEvidenceFields_normal [OF n]
    by (cases "encodeEvidenceSnapshotPreimage n") auto
qed

lemma same_id:
  assumes "snapshotMetadataId sha f = Inr i" "snapshotMetadataId sha g = Inr i"
  shows "\<exists>nf ng b c. normalizeEvidenceFields f = Inr nf \<and> normalizeEvidenceFields g = Inr ng \<and>
    encodeEvidenceSnapshotPreimage nf = Inr b \<and> encodeEvidenceSnapshotPreimage ng = Inr c \<and>
    sha b = i \<and> sha c = i \<and> (b = c \<longleftrightarrow> nf = ng)"
proof -
  obtain nf b where f: "normalizeEvidenceFields f = Inr nf" "encodeEvidenceSnapshotPreimage nf = Inr b" "sha b = i"
    "evidence_normal nf" by (rule metadata_id_facts [OF assms(1)])
  obtain ng c where g: "normalizeEvidenceFields g = Inr ng" "encodeEvidenceSnapshotPreimage ng = Inr c" "sha c = i"
    "evidence_normal ng" by (rule metadata_id_facts [OF assms(2)])
  have "b = c \<longleftrightarrow> nf = ng" using preimage_determines [OF f(4) g(4)] f(2) g(2) by auto
  with f g show ?thesis by blast
qed

subsection \<open>Reads\<close>

lemma map_err_fixed: "(\<And>x. x \<in> set xs \<Longrightarrow> f x = Inr x) \<Longrightarrow> map_err f xs = Inr xs"
  by (induction xs) simp_all

lemma finding_reads:
  assumes "findings_sound st"
  shows "snd (listFindings sha st) = Inr (sort_key fd_id (db_findings st))"
    and "snd (getFinding sha i st) = Inr (find (\<lambda>f. fd_id f = trim i) (db_findings st))"
proof -
  have r: "findingFromRow f = Inr f" if "f \<in> set (db_findings st)" for f
    using that assms by (auto simp: findings_sound_def finding_sound_def list_all_iff findingFromRow_def err_bind_Inr)
  then have "readFindings st = Inr (sort_key fd_id (db_findings st))"
    unfolding readFindings_def by (intro map_err_fixed) simp
  then show "snd (listFindings sha st) = Inr (sort_key fd_id (db_findings st))"
    by (simp add: listFindings_def emitEvidence_def Let_def)
  have "readFinding (trim i) st = Inr (find (\<lambda>f. fd_id f = trim i) (db_findings st))"
    using r find_Some_in_set [of _ "db_findings st"]
    by (fastforce simp: readFinding_def split: option.split)
  then show "snd (getFinding sha i st) = Inr (find (\<lambda>f. fd_id f = trim i) (db_findings st))"
    by (simp add: getFinding_def emitEvidence_def Let_def)
qed

lemma find_snapshot_row:
  assumes "snapshots_sound sha st" "r \<in> set (db_snapshots st)"
  shows "find_snapshot (row_id r) st = Some r"
proof -
  obtain q where q: "find_snapshot (row_id r) st = Some q"
    using assms(2) by (cases "find_snapshot (row_id r) st") (auto simp: find_snapshot_def find_None_iff)
  then have "q \<in> set (db_snapshots st)" "row_id q = row_id r"
    using find_Some_in_set [of _ "db_snapshots st" q] by (auto simp: find_snapshot_def)
  then have "q = r" using assms by (auto simp: snapshots_sound_def distinct_map inj_on_def)
  with q show ?thesis by simp
qed

lemma body_there_reads:
  assumes "body_there sha files hash len" "isEvidenceHash hash"
  shows "\<exists>b. readBlob sha hash files = Inr b \<and> sha b = hash \<and> of_nat (length b) = len"
  using assms by (auto simp: body_there_def readBlob_def tgSecContentHash_def)

lemma stored_reads:
  assumes "snapshots_sound sha st" "r \<in> set (db_snapshots st)"
  shows "snd (getSnapshot sha (row_id r) st) = Inr (Some r)"
    and "\<exists>b. snd (readBody sha (row_id r) side st) = Inr b \<and> (sha b, of_nat (length b)) = side_hash side (row_fields r)"
proof -
  have row: "row_sound sha (fs_blobs st) r" using assms by (simp add: snapshots_sound_def list_all_iff)
  then have ok: "assertSnapshotIntegrity sha r = Inr ()"
    by (simp add: row_sound_def assertSnapshotIntegrity_def)
  from find_snapshot_row [OF assms] ok show "snd (getSnapshot sha (row_id r) st) = Inr (Some r)"
    by (simp add: getSnapshot_def emitEvidence_def Let_def)
  have "body_there sha (fs_blobs st) (fst (side_hash side (row_fields r))) (snd (side_hash side (row_fields r))) \<and>
      isEvidenceHash (fst (side_hash side (row_fields r)))"
    using row by (cases side) (simp_all add: row_sound_def evidence_normal_def)
  then obtain b where b: "readBlob sha (fst (side_hash side (row_fields r))) (fs_blobs st) = Inr b"
    "sha b = fst (side_hash side (row_fields r))" "of_nat (length b) = snd (side_hash side (row_fields r))"
    using body_there_reads by metis
  obtain h n where s: "side_hash side (row_fields r) = (h, n)" by fastforce
  from b s have "snd (readBody sha (row_id r) side st) = Inr b"
    by (simp add: readBody_def emitEvidence_def Let_def find_snapshot_row [OF assms] ok)
  with b s show "\<exists>b. snd (readBody sha (row_id r) side st) = Inr b \<and> (sha b, of_nat (length b)) = side_hash side (row_fields r)"
    by auto
qed

lemma find_snapshot_member: "find_snapshot i st = Some r \<Longrightarrow> r \<in> set (db_snapshots st) \<and> row_id r = i"
  using find_Some_in_set [of "\<lambda>r. row_id r = i" "db_snapshots st" r] by (simp add: find_snapshot_def)

lemma record_stores:
  assumes "record_exchange sha now req resp input st = (st', Inr (i, facts, t))"
  shows "record_facts sha req resp input = Inr (i, facts)" "\<exists>r \<in> set (db_snapshots st'). row_id r = i"
  using assms
  by (auto simp: record_exchange_def emitEvidence_def Let_def run_transaction_def insert_snapshot_def
      dest!: find_snapshot_member split: sum.splits prod.splits option.splits)

lemma record_reads:
  assumes "snapshots_sound sha st" "record_exchange sha now req resp input st = (st', Inr (i, facts, t))"
  shows "\<exists>r b c. snd (getSnapshot sha i st') = Inr (Some r) \<and> encodeEvidenceSnapshotPreimage (row_fields r) = Inr b \<and>
    encodeEvidenceSnapshotPreimage facts = Inr c \<and> sha b = sha c \<and>
    (b = c \<longrightarrow> row_fields r = facts \<and>
      (\<exists>x y. snd (readBody sha i RequestBody st') = Inr x \<and> sha x = sha req \<and> length x = length req \<and>
             snd (readBody sha i ResponseBody st') = Inr y \<and> sha y = sha resp \<and> length y = length resp))"
proof -
  have s: "snapshots_sound sha st'" using snapshots_sound_record [OF assms(1)] assms(2) by (metis fst_conv)
  from record_stores(2) [OF assms(2)] obtain r where r: "r \<in> set (db_snapshots st')" "row_id r = i" by blast
  note g = record_facts_sound [OF record_stores(1) [OF assms(2)]]
  have row: "snapshotMetadataId sha (row_fields r) = Inr i" "evidence_normal (row_fields r)"
    using s r by (auto simp: snapshots_sound_def list_all_iff row_sound_def)
  obtain nf ng b c where n: "normalizeEvidenceFields (row_fields r) = Inr nf" "normalizeEvidenceFields facts = Inr ng"
    "encodeEvidenceSnapshotPreimage nf = Inr b" "encodeEvidenceSnapshotPreimage ng = Inr c" "sha b = i" "sha c = i"
    "b = c \<longleftrightarrow> nf = ng" using same_id [OF row(1) conjunct1 [OF conjunct2 [OF g]]] by blast
  have fixed: "nf = row_fields r" "ng = facts"
    using n(1,2) normalizeEvidenceFields_fixed row(2) g by auto
  obtain x where x: "snd (readBody sha i RequestBody st') = Inr x"
    "(sha x, of_nat (length x)) = side_hash RequestBody (row_fields r)"
    using stored_reads(2) [OF s r(1), of RequestBody] r(2) by blast
  obtain y where y: "snd (readBody sha i ResponseBody st') = Inr y"
    "(sha y, of_nat (length y)) = side_hash ResponseBody (row_fields r)"
    using stored_reads(2) [OF s r(1), of ResponseBody] r(2) by blast
  show ?thesis
    using stored_reads(1) [OF s r(1)] r(2) n fixed x y g
    by (intro exI [of _ r] exI [of _ b] exI [of _ c]) (auto simp: tgSecContentHash_def)
qed

subsection \<open>The lock\<close>

lemma stale_transactions:
  assumes "v \<noteq> readSubjectVersion s st"
  shows "bind_transaction s (Some v) refs now st = Inl EvidenceConflict"
    "edit_transaction s (Some v) ed st = Inl EvidenceConflict"
proof -
  have "lockSubject s (Some v) st = Inl EvidenceConflict"
  proof (cases "lockSubject s (Some v) st")
    case (Inl e)
    then show ?thesis by (auto simp: lockSubject_def Let_def split: if_splits)
  next
    case (Inr st1)
    from lock_reads(3) [OF Inr] assms show ?thesis by simp
  qed
  then show "bind_transaction s (Some v) refs now st = Inl EvidenceConflict"
    "edit_transaction s (Some v) ed st = Inl EvidenceConflict"
    by (simp_all add: bind_transaction_def edit_transaction_def)
qed

lemma stale_finding:
  assumes "findings_sound st" "v \<noteq> readSubjectVersion i st" "fi_expectedVersion input = Some v"
  shows "isl (write_finding_transaction i input now st)"
proof (cases "write_finding_transaction i input now st")
  case (Inr p)
  then obtain st' r where "write_finding_transaction i input now st = Inr (st', r)" by (cases p) auto
  from finding_versions [OF this, of i] obtain s where
    "s = i \<or> (\<exists>f \<in> set (db_findings st). fd_id f = i \<and> s = fd_subject f)"
    "fi_expectedVersion input = None \<or> fi_expectedVersion input = Some (readSubjectVersion s st)" by blast
  then show ?thesis using assms by (auto simp: findings_sound_def list_all_iff finding_sound_def)
qed simp

lemma stale_writes:
  assumes "findings_sound st" "v \<noteq> readSubjectVersion s st"
  shows "isl (snd (bind_evidence sha s (Some v) refs now st))" "isl (snd (edit_evidence sha s (Some v) ed st))"
    "trim (fi_findingId input) = s \<Longrightarrow> fi_expectedVersion input = Some v \<Longrightarrow> isl (snd (writeFinding sha input now st))"
proof -
  show "isl (snd (bind_evidence sha s (Some v) refs now st))"
    by (simp add: bind_evidence_def emitEvidence_def Let_def run_transaction_def stale_transactions [OF assms(2)]
        split: sum.split)
  show "isl (snd (edit_evidence sha s (Some v) ed st))"
    by (simp add: edit_evidence_def emitEvidence_def Let_def run_transaction_def stale_transactions [OF assms(2)]
        split: sum.split)
  assume i: "trim (fi_findingId input) = s" "fi_expectedVersion input = Some v"
  obtain e where "write_finding_transaction s input now st = Inl e"
    using stale_finding [OF assms(1,2) i(2), of now] by (auto simp: isl_def)
  then show "isl (snd (writeFinding sha input now st))"
    by (simp add: writeFinding_def emitEvidence_def Let_def run_transaction_def i invalid_def)
qed

lemma edit_done:
  assumes "edit_evidence sha s (Some v) ed st = (st', Inr es)"
  shows "readSubjectVersion s st = v" "readSubjectVersion s st' = v + 1" "set_version es = v + 1"
proof -
  obtain st1 where t: "edit_transaction s (Some v) ed st = Inr (st1, es)"
    and a: "\<exists>a. st' = st1\<lparr>evidence_audit := a\<rparr>"
    using assms by (auto simp: edit_evidence_def emitEvidence_def Let_def run_transaction_def split: sum.splits prod.splits)
  have "readSubjectVersion s st' = readSubjectVersion s st1" using a by (auto intro: versions_cong)
  then show "readSubjectVersion s st = v" "readSubjectVersion s st' = v + 1" "set_version es = v + 1"
    using edit_versions(1) [OF t, of s] edit_versions(2,3) [OF t] by (simp_all add: readSet_def)
qed

lemma bind_done:
  assumes "bind_evidence sha s (Some v) refs now st = (st', Inr es)"
  shows "readSubjectVersion s st = v" "readSubjectVersion s st' = set_version es" "set_version es = v \<or> set_version es = v + 1"
proof -
  obtain st1 c n where t: "bind_transaction s (Some v) n now st = Inr (st1, c, es)"
    and a: "\<exists>a. st' = st1\<lparr>evidence_audit := a\<rparr>"
    using assms by (auto simp: bind_evidence_def emitEvidence_def Let_def run_transaction_def split: sum.splits prod.splits)
  have "readSubjectVersion s st' = readSubjectVersion s st1" using a by (auto intro: versions_cong)
  then show "readSubjectVersion s st = v" "readSubjectVersion s st' = set_version es" "set_version es = v \<or> set_version es = v + 1"
    using bind_versions(1) [OF t, of s] bind_versions(2,3) [OF t] by (simp_all add: readSet_def)
qed

lemma lost_update:
  assumes "evidence_run sha calls st"
    and "(\<exists>ed. edit_evidence sha s (Some v) ed st = (st1, Inr es)) \<or>
         (\<exists>refs now. bind_evidence sha s (Some v) refs now st = (st1, Inr es) \<and> set_version es \<noteq> v)"
    and "st2 = fold (evidence_step sha) later st1"
    and "trim (fi_findingId input) = s" "fi_expectedVersion input = Some v"
  shows "set_version es = v + 1 \<and> isl (snd (bind_evidence sha s (Some v) refs' now' st2)) \<and>
    isl (snd (edit_evidence sha s (Some v) ed' st2)) \<and> isl (snd (writeFinding sha input now' st2))"
proof -
  have w: "\<exists>call. st1 = evidence_step sha call st \<and> readSubjectVersion s st1 = v + 1 \<and> set_version es = v + 1"
    using assms(2)
  proof
    assume "\<exists>ed. edit_evidence sha s (Some v) ed st = (st1, Inr es)"
    then obtain ed where e: "edit_evidence sha s (Some v) ed st = (st1, Inr es)" by blast
    show ?thesis by (rule exI [of _ "CallEdit s (Some v) ed"]) (use e edit_done [OF e] in simp)
  next
    assume "\<exists>refs now. bind_evidence sha s (Some v) refs now st = (st1, Inr es) \<and> set_version es \<noteq> v"
    then obtain refs now where e: "bind_evidence sha s (Some v) refs now st = (st1, Inr es)" "set_version es \<noteq> v" by blast
    show ?thesis by (rule exI [of _ "CallBind s (Some v) refs now"]) (use e bind_done [OF e(1)] in auto)
  qed
  then have "findings_sound st1" using findings.step_keeps findings.run_keeps [OF assms(1)] by metis
  then have f: "findings_sound st2" using findings.steps_keep assms(3) by metis
  have "v + 1 \<le> readSubjectVersion s st1" using w by auto
  from lower_bound.steps_keep [OF this] have "v \<noteq> readSubjectVersion s st2" using assms(3) by (metis add.commute zle_add1_eq_le less_irrefl)
  note stale = stale_writes [OF f this]
  with w stale assms(4,5) show ?thesis by auto
qed

lemma failed_writes:
  "isl (snd (bind_evidence sha s v refs now st)) \<Longrightarrow> \<exists>a. fst (bind_evidence sha s v refs now st) = st\<lparr>evidence_audit := a\<rparr>"
  "isl (snd (edit_evidence sha s v ed st)) \<Longrightarrow> \<exists>a. fst (edit_evidence sha s v ed st) = st\<lparr>evidence_audit := a\<rparr>"
  "isl (snd (writeFinding sha input now st)) \<Longrightarrow> \<exists>a. fst (writeFinding sha input now st) = st\<lparr>evidence_audit := a\<rparr>"
proof -
  have id: "\<exists>a. st = st\<lparr>evidence_audit := a\<rparr>" by (rule exI [of _ "evidence_audit st"]) simp
  show "isl (snd (bind_evidence sha s v refs now st)) \<Longrightarrow> \<exists>a. fst (bind_evidence sha s v refs now st) = st\<lparr>evidence_audit := a\<rparr>"
    by (auto simp: bind_evidence_def emitEvidence_def Let_def run_transaction_def split: sum.splits prod.splits)
  show "isl (snd (edit_evidence sha s v ed st)) \<Longrightarrow> \<exists>a. fst (edit_evidence sha s v ed st) = st\<lparr>evidence_audit := a\<rparr>"
    using id by (auto simp: edit_evidence_def emitEvidence_def Let_def run_transaction_def split: sum.splits prod.splits)
  show "isl (snd (writeFinding sha input now st)) \<Longrightarrow> \<exists>a. fst (writeFinding sha input now st) = st\<lparr>evidence_audit := a\<rparr>"
    using id by (auto simp: writeFinding_def emitEvidence_def Let_def run_transaction_def invalid_def split: sum.splits prod.splits if_splits)
qed

subsection \<open>The life of a finding\<close>

definition finding_step_ok :: "evidence_state \<Rightarrow> finding_row \<Rightarrow> finding_row \<Rightarrow> bool" where
  "finding_step_ok st f g \<longleftrightarrow>
     fd_id g = fd_id f \<and> fd_lane g = fd_lane f \<and> fd_subject g = fd_subject f \<and> fd_created g = fd_created f \<and>
     (fd_status g = fd_status f \<or> isTgSecFindingTransitionAllowed (fd_status f) (fd_status g)) \<and>
     (if fd_retest g = fd_retest f then isTgSecRetestStatus (fd_status g) \<longrightarrow> fd_status g = fd_status f
      else isTgSecRetestStatus (fd_status g) \<and> is_bound (fd_subject f) (fd_retest g) st)"

lemma finding_step_refl: "finding_step_ok st f f" by (simp add: finding_step_ok_def)

lemma patch_finding_step:
  assumes "findings_sound st" "patch_finding e input now st = Inr (st', r)" "e \<in> set (db_findings st)"
    and "f \<in> set (db_findings st)"
  shows "\<exists>g \<in> set (db_findings st'). finding_step_ok st f g"
proof -
  obtain st1 title severity status retest where
    l: "lockSubject (fd_subject e) (fi_expectedVersion input) st = Inr st1" and
    p: "patched_retest e status (fi_snapshotId input) st1 = Inr retest" and
    s: "st' = (if fr_changed r
            then bumpSubjectVersion (fd_subject e) (update_finding (fd_id e) title severity status retest now st1)
            else st1)"
    using assms(2) by (rule patch_finding_cases)
  from lock_tables [OF l] obtain vs where vs: "st1 = st\<lparr>db_versions := vs\<rparr>" by blast
  have b: "is_bound subject i st1 = is_bound subject i st" for subject i by (simp add: vs is_bound_def)
  have same: "f = e" if "fd_id f = fd_id e"
    using that assms(1,3,4) by (auto simp: findings_sound_def distinct_map inj_on_def)
  let ?g = "e\<lparr>fd_title := title, fd_severity := severity, fd_status := status, fd_retest := retest, fd_updated := now\<rparr>"
  have g: "finding_step_ok st e ?g"
    using patched_retest_cases [OF p] by (auto simp: finding_step_ok_def b split: if_splits)
  show ?thesis
  proof (cases "fr_changed r \<and> fd_id f = fd_id e")
    case True
    then have "?g \<in> set (db_findings st')" using same assms(4) by (force simp: s update_finding_def vs)
    then show ?thesis using g same True by blast
  next
    case False
    then have "f \<in> set (db_findings st')" using assms(4) by (force simp: s update_finding_def vs)
    then show ?thesis using finding_step_refl by blast
  qed
qed

lemma finding_transaction_step:
  assumes "findings_sound st" "write_finding_transaction i input now st = Inr (st', r)" "f \<in> set (db_findings st)"
  shows "\<exists>g \<in> set (db_findings st'). finding_step_ok st f g"
proof -
  obtain found where c: "readFinding i st = Inr found"
    "case found of None \<Rightarrow> create_finding i input now st = Inr (st', r)
      | Some existing \<Rightarrow> patch_finding existing input now st = Inr (st', r)"
    using assms(2) by (auto simp: write_finding_transaction_def err_bind_Inr split: option.splits)
  show ?thesis
  proof (cases found)
    case None
    with c(2) have "set (db_findings st) \<subseteq> set (db_findings st')"
      by (auto elim!: created_finding dest!: lock_tables)
    then show ?thesis using assms(3) finding_step_refl by blast
  next
    case (Some e)
    with c show ?thesis using patch_finding_step [OF assms(1) _ _ assms(3)] readFinding_Some by simp
  qed
qed

lemma other_calls_findings:
  "\<forall>input now. call \<noteq> CallFinding input now \<Longrightarrow> db_findings (evidence_step sha call st) = db_findings st"
proof (cases call)
  case (CallBind s v refs now)
  then show ?thesis using bind_transaction_form
    by (auto simp: bind_evidence_def emitEvidence_def Let_def run_transaction_def split: sum.splits prod.splits)
next
  case (CallEdit s v ed)
  then show ?thesis using edit_transaction_form
    by (auto simp: edit_evidence_def emitEvidence_def Let_def run_transaction_def split: sum.splits prod.splits)
qed (simp_all add: record_tables collect_tables list_evidence_def listSubjects_def getFinding_def listFindings_def
    getSnapshot_def readBody_def emitEvidence_def Let_def split: prod.split sum.split option.split)

lemma finding_call_step:
  assumes "findings_sound st" "f \<in> set (db_findings st)"
  shows "\<exists>g \<in> set (db_findings (evidence_step sha call st)). finding_step_ok st f g"
proof (cases call)
  case (CallFinding input now)
  show ?thesis
  proof (cases "isl (snd (writeFinding sha input now st))")
    case True
    from failed_writes(3) [OF True] have "db_findings (evidence_step sha call st) = db_findings st"
      by (auto simp: CallFinding)
    then show ?thesis using assms(2) finding_step_refl by auto
  next
    case False
    then obtain st' r where "write_finding_transaction (trim (fi_findingId input)) input now st = Inr (st', r)"
      and "db_findings (evidence_step sha call st) = db_findings st'"
      by (auto simp: CallFinding writeFinding_def emitEvidence_def Let_def run_transaction_def invalid_def
          split: sum.splits prod.splits if_splits)
    then show ?thesis using finding_transaction_step [OF assms(1) _ assms(2)] by simp
  qed
qed (use assms(2) finding_step_refl other_calls_findings [of call] in auto)

subsection \<open>The collector\<close>

lemma collect_gone:
  assumes "snapshots_sound sha st" "r \<in> set (db_snapshots st)"
  shows "find_snapshot (row_id r) (fst (collect_evidence sha now st)) = None \<longleftrightarrow>
    unbound st r \<and> (\<exists>t. row_unreferenced r = Some t \<and> t < now - EVIDENCE_GRACE_MS)"
proof -
  let ?rows = "db_snapshots (fst (collect_index now st))"
  have key: "row_id (mark_row now st q) = row_id q" for q by (simp add: mark_row_def)
  have same: "q = r" if "q \<in> set (db_snapshots st)" "row_id q = row_id r" for q
    using that assms by (auto simp: snapshots_sound_def distinct_map inj_on_def)
  have "find_snapshot (row_id r) (fst (collect_evidence sha now st)) = None \<longleftrightarrow>
      (\<forall>q \<in> set ?rows. row_id q \<noteq> row_id r)"
    by (auto simp: find_snapshot_def find_None_iff collect_tables)
  also have "\<dots> \<longleftrightarrow> expired (now - EVIDENCE_GRACE_MS) (mark_row now st r) \<and> unbound st r"
  proof
    assume "\<forall>q \<in> set ?rows. row_id q \<noteq> row_id r"
    then have "mark_row now st r \<notin> set ?rows" using key by blast
    then show "expired (now - EVIDENCE_GRACE_MS) (mark_row now st r) \<and> unbound st r"
      using assms(2) unfolding collect_index_rows by blast
  next
    assume e: "expired (now - EVIDENCE_GRACE_MS) (mark_row now st r) \<and> unbound st r"
    show "\<forall>q \<in> set ?rows. row_id q \<noteq> row_id r"
    proof (intro ballI notI)
      fix q assume "q \<in> set ?rows" "row_id q = row_id r"
      then show False using e same key unfolding collect_index_rows by metis
    qed
  qed
  also have "\<dots> \<longleftrightarrow> unbound st r \<and> (\<exists>t. row_unreferenced r = Some t \<and> t < now - EVIDENCE_GRACE_MS)"
    by (auto simp: expired_def mark_row_def EVIDENCE_GRACE_MS_def split: option.splits)
  finally show ?thesis .
qed

lemma collect_files:
  "set (fs_blobs (fst (collect_evidence sha now st))) =
     {f \<in> set (fs_blobs st). now - file_mtime f < EVIDENCE_GRACE_MS \<or>
       (\<exists>r \<in> set (db_snapshots (fst (collect_evidence sha now st))).
          file_hash f = sn_reqHash (row_fields r) \<or> file_hash f = sn_respHash (row_fields r))}"
proof -
  obtain st1 keep where c: "collect_index now st = (st1, keep)" by fastforce
  have k: "keep = map (\<lambda>r. sn_reqHash (row_fields r)) (db_snapshots st1) @
      map (\<lambda>r. sn_respHash (row_fields r)) (db_snapshots st1)"
    using c by (auto simp: collect_index_def Let_def)
  have b: "fs_blobs st1 = fs_blobs st" using collect_index_form(1) [of now st] c by simp
  have "fs_blobs (fst (collect_evidence sha now st)) = filter (\<lambda>f. \<not> reapable keep now f) (fs_blobs st)"
    by (simp add: collect_evidence_def emitEvidence_def Let_def c reapFiles_def b)
  moreover have "db_snapshots (fst (collect_evidence sha now st)) = db_snapshots st1"
    by (simp add: collect_tables c)
  ultimately show ?thesis unfolding reapable_def k by auto
qed

subsection \<open>What the source does otherwise than it says\<close>

text \<open>A reorder that names one binding twice is accepted, and leaves the other binding where it was.\<close>

lemma reorder_accepts_repeats:
  assumes "subject_bindings s st = [b, c]"
  shows "apply_edit s (Reorder [bd_id b, bd_id b]) st =
    Inr (set_position s (1, bd_id b) (set_position s (0, bd_id b) st))"
proof -
  have "set (set_bindings (readSet s st)) = {b, c}" "length (set_bindings (readSet s st)) = 2"
    by (auto simp: readSet_def assms)
  then show ?thesis by (simp add: apply_edit_def Let_def eval_nat_numeral)
qed

text \<open>
  Recording an exchange that is stored refreshes its bodies and not its mark: a collection at the very
  time of the recording takes the snapshot the caller was just given.
\<close>

lemma rerecorded_collected:
  assumes "snapshots_sound sha st" "r \<in> set (db_snapshots st)" "unbound st r"
    and "row_unreferenced r = Some t" "t < now - EVIDENCE_GRACE_MS"
    and "record_exchange sha now req resp input st = (st', Inr (row_id r, facts, created))"
  shows "find_snapshot (row_id r) (fst (collect_evidence sha now st')) = None"
proof -
  have "snapshots_sound sha st'" using snapshots_sound_record [OF assms(1)] assms(6) by (metis fst_conv)
  moreover have "r \<in> set (db_snapshots st')" "db_bindings st' = db_bindings st"
    using assms(2,6) record_tables [where sha = sha and now = now and req = req and resp = resp and input = input and st = st]
    by auto
  moreover from this(2) have "unbound st' r" using assms(3) unbound_cong [of st' st] by simp
  ultimately show ?thesis using assms(4,5) by (simp add: collect_gone)
qed

end
