(* ===== verification/Evidence_Claims.thy ===== *)
theory Evidence_Claims
  imports Evidence_Laws
begin

text \<open>
  What the evidence store promises its callers, in every state a run reaches, and a store in use that
  shows each promise at work.
\<close>

subsection \<open>A store in use\<close>

text \<open>A digest for the examples: the length of the bytes, written with 64 hex digits.\<close>

definition length_hash :: "byte list \<Rightarrow> string" where
  "length_hash b = replicate 62 (CHR ''0'') @ map char_of [48 + length b div 10 mod 10, 48 + length b mod 10]"

definition login_fields :: snapshot_fields where
  "login_fields = \<lparr>sn_sourceId = ''proxy'', sn_capturedAt = 5, sn_url = ''https://a.test/'', sn_method = ''GET'',
     sn_status = 200, sn_contentType = ''text/html'', sn_reqHead = [], sn_respHead = [], sn_reqHash = [],
     sn_respHash = [], sn_reqLen = 0, sn_respLen = 0, sn_flowId = None\<rparr>"

definition login_facts :: snapshot_fields where
  "login_facts = login_fields\<lparr>sn_reqHash := length_hash [1], sn_respHash := length_hash [2, 3], sn_reqLen := 1,
     sn_respLen := 2, sn_flowId := Some []\<rparr>"

definition login_id :: string where "login_id = length_hash (replicate 67 0)"

lemma login_recorded: "record_facts length_hash [1] [2, 3] login_fields = Inr (login_id, login_facts)"
  by code_simp

text \<open>The store after a recording, and after a binding of the recorded exchange to a finding.\<close>

definition recorded_store :: evidence_state where
  "recorded_store = fst (record_exchange length_hash 7 [1] [2, 3] login_fields open_evidence_store)"

definition bound_store :: evidence_state where
  "bound_store =
     fst (bind_evidence length_hash ''F1'' (Some 0) [\<lparr>ref_snapshotId = login_id, ref_role = None, ref_note = None\<rparr>] 8
       recorded_store)"

definition login_row :: snapshot_row where
  "login_row = \<lparr>row_id = login_id, row_fields = login_facts, row_created = 7, row_unreferenced = None\<rparr>"

lemma login_bodies:
  "write_bodies length_hash 7 [1] [2, 3] [] =
     ([\<lparr>file_name = blobName (length_hash [1]), file_bytes = [1], file_mtime = 7\<rparr>,
       \<lparr>file_name = blobName (length_hash [2, 3]), file_bytes = [2, 3], file_mtime = 7\<rparr>], None)"
  by code_simp

lemma recorded_store:
  "record_exchange length_hash 7 [1] [2, 3] login_fields open_evidence_store =
     (recorded_store, Inr (login_id, login_facts, 7))"
  "db_snapshots recorded_store = [login_row]" "db_bindings recorded_store = []" "db_versions recorded_store = []"
  "db_nextBinding recorded_store = 1"
  by (simp_all add: recorded_store_def record_exchange_def emitEvidence_def Let_def login_recorded open_evidence_store_def
      login_bodies run_transaction_def insert_snapshot_def find_snapshot_def login_row_def)

lemma login_ref:
  "normalizeRefs [\<lparr>ref_snapshotId = login_id, ref_role = None, ref_note = None\<rparr>] = Inr [(login_id, ''supporting'', [])]"
  by code_simp

definition login_binding :: binding_row where
  "login_binding = \<lparr>bd_id = 1, bd_subject = ''F1'', bd_snapshot = login_id, bd_role = ''supporting'', bd_note = [],
     bd_position = 0, bd_created = 8\<rparr>"

lemma bound_store:
  "bind_evidence length_hash ''F1'' (Some 0) [\<lparr>ref_snapshotId = login_id, ref_role = None, ref_note = None\<rparr>] 8 recorded_store =
     (bound_store, Inr \<lparr>set_subject = ''F1'', set_version = 1, set_bindings = [login_binding]\<rparr>)"
  "db_snapshots bound_store = [login_row]" "db_bindings bound_store = [login_binding]"
  "db_versions bound_store = [(''F1'', 1)]"
  by (simp_all add: bound_store_def bind_evidence_def emitEvidence_def Let_def login_ref run_transaction_def
      bind_transaction_def lockSubject_def readSubjectVersion_def recorded_store(2-5) next_position_def
      subject_bindings_def find_snapshot_def login_row_def clear_mark_def is_bound_def insert_binding_def
      bumpSubjectVersion_def readSet_def login_binding_def)

lemma bound_run:
  "evidence_run length_hash
     [CallRecord 7 [1] [2, 3] login_fields,
      CallBind ''F1'' (Some 0) [\<lparr>ref_snapshotId = login_id, ref_role = None, ref_note = None\<rparr>] 8] bound_store"
  "evidence_run length_hash [CallRecord 7 [1] [2, 3] login_fields] recorded_store"
proof -
  from run_call [OF run_open, of length_hash "CallRecord 7 [1] [2, 3] login_fields"]
  show r: "evidence_run length_hash [CallRecord 7 [1] [2, 3] login_fields] recorded_store"
    by (simp add: recorded_store_def)
  from run_call [OF r, of "CallBind ''F1'' (Some 0) [\<lparr>ref_snapshotId = login_id, ref_role = None, ref_note = None\<rparr>] 8"]
  show "evidence_run length_hash
     [CallRecord 7 [1] [2, 3] login_fields,
      CallBind ''F1'' (Some 0) [\<lparr>ref_snapshotId = login_id, ref_role = None, ref_note = None\<rparr>] 8] bound_store"
    by (simp add: bound_store_def)
qed

definition login_finding :: finding_input where
  "login_finding = \<lparr>fi_findingId = ''F1'', fi_expectedVersion = Some 1, fi_lane = Some ''web'', fi_title = Some ''IDOR'',
     fi_severity = Some ''high'', fi_status = None, fi_snapshotId = None\<rparr>"

definition reported_store :: evidence_state where
  "reported_store = fst (writeFinding length_hash login_finding 9 bound_store)"

definition login_finding_row :: finding_row where
  "login_finding_row = \<lparr>fd_id = ''F1'', fd_lane = ''web'', fd_title = ''IDOR'', fd_severity = ''high'', fd_status = ''open'',
     fd_subject = ''F1'', fd_retest = [], fd_created = 9, fd_updated = 9\<rparr>"

lemma login_finding_texts: "trim ''F1'' = ''F1''" "trim ''web'' = ''web''" "trim ''IDOR'' = ''IDOR''"
  by code_simp+

lemma reported_store: "db_findings reported_store = [login_finding_row]"
proof -
  have "db_findings bound_store = []"
    by (simp add: bound_store_def bind_evidence_def emitEvidence_def Let_def login_ref run_transaction_def
      bind_transaction_def lockSubject_def readSubjectVersion_def recorded_store(2-5) next_position_def
      subject_bindings_def find_snapshot_def login_row_def clear_mark_def is_bound_def insert_binding_def
      bumpSubjectVersion_def)
      (simp add: recorded_store_def record_exchange_def emitEvidence_def Let_def login_recorded open_evidence_store_def
      login_bodies run_transaction_def insert_snapshot_def find_snapshot_def)
  then show ?thesis
    by (simp add: reported_store_def writeFinding_def login_finding_def login_finding_texts emitEvidence_def Let_def
      run_transaction_def write_finding_transaction_def readFinding_def create_finding_def trimmed_def invalid_def
      vocabulary_defs assertTgSecFindingSeverity_def assertTgSecFindingStatus_def lockSubject_def
      readSubjectVersion_def bound_store(4) bumpSubjectVersion_def findingFromRow_def login_finding_row_def)
qed

lemma reported_run: "\<exists>calls. evidence_run length_hash calls reported_store"
  using run_call [OF bound_run(1), of "CallFinding login_finding 9"] by (auto simp: reported_store_def)

subsection \<open>The properties\<close>

text \<open>
  C23. Two records that get the same snapshot id normalise to records whose encodings have the same
  SHA-256, and the encodings are equal bytes exactly when all normalised facts are equal: a shared id
  with different facts exhibits a collision of the hash.
\<close>

theorem snapshot_id_binds:
  assumes "snapshotMetadataId sha f = Inr i" "snapshotMetadataId sha g = Inr i"
  shows "\<exists>nf ng b c. normalizeEvidenceFields f = Inr nf \<and> normalizeEvidenceFields g = Inr ng \<and>
    encodeEvidenceSnapshotPreimage nf = Inr b \<and> encodeEvidenceSnapshotPreimage ng = Inr c \<and>
    sha b = i \<and> sha c = i \<and> (b = c \<longleftrightarrow> nf = ng)"
  by (rule same_id [OF assms])

theorem snapshot_id_binds_witness:
  "\<exists>nf ng b c. normalizeEvidenceFields login_facts = Inr nf \<and>
    normalizeEvidenceFields (login_facts\<lparr>sn_flowId := None\<rparr>) = Inr ng \<and>
    encodeEvidenceSnapshotPreimage nf = Inr b \<and> encodeEvidenceSnapshotPreimage ng = Inr c \<and>
    length_hash b = login_id \<and> length_hash c = login_id \<and> (b = c \<longleftrightarrow> nf = ng)"
proof (rule snapshot_id_binds)
  show "snapshotMetadataId length_hash login_facts = Inr login_id" using record_facts_sound [OF login_recorded] by simp
  show "snapshotMetadataId length_hash (login_facts\<lparr>sn_flowId := None\<rparr>) = Inr login_id" by code_simp
qed

text \<open>
  C8. In every state a run of calls reaches, the store is sound: snapshot ids are distinct, each is the
  hash of normalised facts, and both bodies are on disk with the recorded hash and length; binding ids
  and the pairs of subject and snapshot are distinct, every binding has a known role, a versioned
  subject and a stored, unmarked snapshot; every finding is in the vocabulary, has its own id as
  subject, and names a retest when its status is one.
\<close>

theorem evidence_store_sound:
  assumes "evidence_run sha calls st"
  shows "snapshots_sound sha st \<and> bindings_sound st \<and> findings_sound st"
  using snapshots.run_keeps [OF assms] bindings.run_keeps [OF assms] findings.run_keeps [OF assms] by blast

theorem evidence_store_sound_witness:
  "snapshots_sound length_hash bound_store \<and> bindings_sound bound_store \<and> findings_sound bound_store"
  by (rule evidence_store_sound [OF bound_run(1)])

text \<open>
  C38. Rows stay typed: in every state of a run the checks that a read makes on the rows of findings never
  fail, so enumerating the findings yields all of them in id order, and a lookup yields the row.
\<close>

theorem finding_rows_typed:
  assumes "evidence_run sha calls st"
  shows "snd (listFindings sha st) = Inr (sort_key fd_id (db_findings st)) \<and>
    snd (getFinding sha i st) = Inr (find (\<lambda>f. fd_id f = trim i) (db_findings st)) \<and>
    list_all (\<lambda>f. isTgSecFindingSeverity (fd_severity f) \<and> isTgSecFindingStatus (fd_status f)) (db_findings st)"
  using findings.run_keeps [OF assms] finding_reads
  by (auto simp: findings_sound_def finding_sound_def list_all_iff)

theorem finding_rows_typed_witness:
  "\<exists>calls. evidence_run length_hash calls reported_store \<and>
    snd (listFindings length_hash reported_store) = Inr [login_finding_row]"
proof -
  obtain calls where r: "evidence_run length_hash calls reported_store" using reported_run by blast
  from finding_rows_typed [OF this, of "[]"] r show ?thesis by (auto simp: reported_store)
qed

text \<open>
  C32. Bound evidence is never lost: in every state of a run, the snapshot of every binding is there,
  verifies against its id, and both of its bodies read back with the recorded hash and length.
\<close>

theorem bound_evidence_reads:
  assumes "evidence_run sha calls st" "b \<in> set (db_bindings st)"
  shows "\<exists>r req resp. snd (getSnapshot sha (bd_snapshot b) st) = Inr (Some r) \<and> row_id r = bd_snapshot b \<and>
    snd (readBody sha (bd_snapshot b) RequestBody st) = Inr req \<and>
    sha req = sn_reqHash (row_fields r) \<and> of_nat (length req) = sn_reqLen (row_fields r) \<and>
    snd (readBody sha (bd_snapshot b) ResponseBody st) = Inr resp \<and>
    sha resp = sn_respHash (row_fields r) \<and> of_nat (length resp) = sn_respLen (row_fields r)"
proof -
  obtain r where r: "r \<in> set (db_snapshots st)" "row_id r = bd_snapshot b"
    using bindings.run_keeps [OF assms(1)] assms(2) by (auto simp: bindings_sound_def list_all_iff list_ex_iff)
  note s = stored_reads [OF snapshots.run_keeps [OF assms(1)] r(1), unfolded r(2)]
  from s(2) [of RequestBody] s(2) [of ResponseBody] s(1) r(2) show ?thesis by auto
qed

theorem bound_evidence_reads_witness:
  "\<exists>r req. snd (getSnapshot length_hash login_id bound_store) = Inr (Some r) \<and>
    snd (readBody length_hash login_id RequestBody bound_store) = Inr req \<and> length_hash req = sn_reqHash (row_fields r)"
  using bound_evidence_reads [OF bound_run(1), of login_binding] by (auto simp: bound_store(3) login_binding_def)

text \<open>
  What was recorded reads back: after a recording that returned an id, the id names a stored
  snapshot whose encoding has the hash of the encoding of the returned facts; where the two encodings
  are the same bytes, the stored facts are the returned ones and both bodies read back with the hash
  and the length of the recorded bytes.
\<close>

lemma record_read_round_trip:
  assumes "evidence_run sha calls st" "record_exchange sha now req resp input st = (st', Inr (i, facts, t))"
  shows "\<exists>r b c. snd (getSnapshot sha i st') = Inr (Some r) \<and> encodeEvidenceSnapshotPreimage (row_fields r) = Inr b \<and>
    encodeEvidenceSnapshotPreimage facts = Inr c \<and> sha b = sha c \<and>
    (b = c \<longrightarrow> row_fields r = facts \<and>
      (\<exists>x y. snd (readBody sha i RequestBody st') = Inr x \<and> sha x = sha req \<and> length x = length req \<and>
             snd (readBody sha i ResponseBody st') = Inr y \<and> sha y = sha resp \<and> length y = length resp))"
  by (rule record_reads [OF snapshots.run_keeps [OF assms(1)] assms(2)])



text \<open>
  A write that fails changes nothing: whatever error a binding, an edit or a finding write ends
  with, tables and files are as before, and only the audit has grown.
\<close>

lemma failed_write_changes_nothing:
  "(isl (snd (bind_evidence sha s v refs now st)) \<longrightarrow>
      (\<exists>a. fst (bind_evidence sha s v refs now st) = st\<lparr>evidence_audit := a\<rparr>)) \<and>
   (isl (snd (edit_evidence sha s v ed st)) \<longrightarrow> (\<exists>a. fst (edit_evidence sha s v ed st) = st\<lparr>evidence_audit := a\<rparr>)) \<and>
   (isl (snd (writeFinding sha input now st)) \<longrightarrow>
      (\<exists>a. fst (writeFinding sha input now st) = st\<lparr>evidence_audit := a\<rparr>))"
  using failed_writes by blast

text \<open>
  C22. A finding lives by its transitions: whatever call is made in a state of a run, every finding is
  still there, with its lane, subject and creation time; its status is the old one or one the
  transition table allows; its retest changes only into a retest status and names a snapshot bound to
  the finding; a new retest status comes with a retest other than the one recorded before; and
  \<open>wontfix\<close> is final.
\<close>

theorem finding_lifecycle:
  assumes "evidence_run sha calls st" "f \<in> set (db_findings st)"
  shows "\<exists>g \<in> set (db_findings (evidence_step sha call st)).
     fd_id g = fd_id f \<and> fd_lane g = fd_lane f \<and> fd_subject g = fd_subject f \<and> fd_created g = fd_created f \<and>
     (fd_status g = fd_status f \<or> isTgSecFindingTransitionAllowed (fd_status f) (fd_status g)) \<and>
     (fd_retest g \<noteq> fd_retest f \<longrightarrow>
        isTgSecRetestStatus (fd_status g) \<and> is_bound (fd_subject f) (fd_retest g) st) \<and>
     (isTgSecRetestStatus (fd_status g) \<and> fd_status g \<noteq> fd_status f \<longrightarrow> fd_retest g \<noteq> fd_retest f) \<and>
     (fd_status f = ''wontfix'' \<longrightarrow> fd_status g = ''wontfix'')"
proof -
  obtain g where g: "g \<in> set (db_findings (evidence_step sha call st))" "finding_step_ok st f g"
    using finding_call_step [OF findings.run_keeps [OF assms(1)] assms(2)] by blast
  show ?thesis
    by (rule bexI [OF _ g(1)])
      (use g(2) transition_statuses [of "fd_status f" "fd_status g"] in \<open>auto simp: finding_step_ok_def split: if_splits\<close>)
qed

theorem finding_lifecycle_witness:
  "\<exists>g \<in> set (db_findings (evidence_step length_hash
      (CallFinding (login_finding\<lparr>fi_expectedVersion := Some 2, fi_status := Some ''verified''\<rparr>) 10) reported_store)).
     fd_id g = ''F1'' \<and> (fd_status g = ''open'' \<or> isTgSecFindingTransitionAllowed ''open'' (fd_status g))"
proof -
  obtain calls where r: "evidence_run length_hash calls reported_store" using reported_run by blast
  have f: "login_finding_row \<in> set (db_findings reported_store)" by (simp add: reported_store)
  from finding_lifecycle [OF r f,
      of "CallFinding (login_finding\<lparr>fi_expectedVersion := Some 2, fi_status := Some ''verified''\<rparr>) 10"]
  show ?thesis by (auto simp: login_finding_row_def)
qed

text \<open>
  C21. The collector is exact: in a state of a run it deletes a snapshot exactly when no binding cites it
  and it was marked as unreferenced more than 24 hours before, and it keeps exactly the body files
  that a surviving snapshot names or that were touched less than 24 hours before.
\<close>

theorem collector_exact:
  assumes "evidence_run sha calls st" "r \<in> set (db_snapshots st)"
  shows "(find_snapshot (row_id r) (fst (collect_evidence sha now st)) = None \<longleftrightarrow>
      \<not> list_ex (\<lambda>b. bd_snapshot b = row_id r) (db_bindings st) \<and>
      (\<exists>t. row_unreferenced r = Some t \<and> t < now - 86400000)) \<and>
    set (fs_blobs (fst (collect_evidence sha now st))) =
      {f \<in> set (fs_blobs st). now - file_mtime f < 86400000 \<or>
        (\<exists>r \<in> set (db_snapshots (fst (collect_evidence sha now st))).
           file_hash f = sn_reqHash (row_fields r) \<or> file_hash f = sn_respHash (row_fields r))}"
  using collect_gone [OF snapshots.run_keeps [OF assms(1)] assms(2), of now] collect_files [of sha now st]
  by (simp add: unbound_def EVIDENCE_GRACE_MS_def)

theorem collector_exact_witness:
  "find_snapshot login_id (fst (collect_evidence length_hash 999999999 bound_store)) \<noteq> None"
proof -
  have "login_row \<in> set (db_snapshots bound_store)" by (simp add: bound_store(2))
  from collector_exact [OF bound_run(1) this, of 999999999] show ?thesis
    by (simp add: bound_store(3) login_binding_def login_row_def)
qed

end
