(* ===== verification/Spec2Isabelle.thy ===== *)
theory Spec2Isabelle
  imports Prelude Command_Text Regex Hard_Deny Scope_Registry Scope Rule_Table Danger Judge Mode Guard Attest Context_Claims
    Evidence_Claims
begin

text \<open>
  TianGong is an agent for security work. Four of its parts carry logic of their own: what may happen,
  what a client sees, what is kept as evidence, and what the agent remembers. This library models them
  from the TypeScript source.

  The guard, \<open>packages/sec-guard/src\<close>. Every tool call of the agent enters \<open>beforeTool\<close>. The call is
  turned into a request; its string arguments are tokenized as command lines and scanned for
  connection targets; a chain of layers (hard deny, intercept rules, weak self-protection, scope,
  danger set, mode dispatch with grants or a judge) gives a decision; a human may be asked; the call
  passes or is blocked, and one audit span is recorded. Before a host starts work it attests its
  guard with eleven probes.

  \<^item> \<open>Prelude\<close>: strings as JavaScript has them (trim, split, search, replace, numbers in text), the
    JSON values of call arguments, and the generic lemmas.
  \<^item> \<open>Command_Text\<close> (\<open>command-text.ts\<close>): roles of parameters, the tokenizer, command splitting,
    wrappers and nested shells, target extraction.
  \<^item> \<open>Regex\<close>: a backtracking matcher for the regular expressions the sources use.
  \<^item> \<open>Hard_Deny\<close> (\<open>hard-deny.ts\<close>), \<open>Scope_Registry\<close> (\<open>scope-registry.ts\<close>), \<open>Scope\<close> (\<open>scope.ts\<close>),
    \<open>Rule_Table\<close> (\<open>rules.ts\<close>), \<open>Danger\<close> (\<open>danger.ts\<close>), \<open>Judge\<close> (\<open>judge.ts\<close>), \<open>Mode\<close> (\<open>mode.ts\<close>): one
    layer each.
  \<^item> \<open>Guard\<close> (\<open>guard.ts\<close>, \<open>types.ts\<close>): construction, \<open>evaluate\<close>, \<open>decisionFor\<close>, \<open>beforeTool\<close>,
    \<open>switchMode\<close>. A guard is the record \<open>guard_chain\<close> its closure holds and the record \<open>guard_state\<close>
    (cached mode, grants, session port, spans) each operation takes and returns.
  \<^item> \<open>Attest\<close> (\<open>attest.ts\<close>, \<open>attest\<close> of \<open>guard.ts\<close>): the probes, the guards they build, the runner.

  The document deltas, \<open>packages/chord/src/delta\<close>. A server publishes revisions of a JSON document; the
  differ computes operations, an encoder interns repeated paths, a decoder restores them and a
  replica applies them.

  \<^item> \<open>Json\<close>: documents. A container carries its address, so that \<open>===\<close> is a test on values, and an
    object its keys in the order of \<open>Object.keys\<close>; \<open>tree_of\<close> forgets both.
  \<^item> \<open>Delta\<close> (\<open>delta/index.ts\<close>): the operations, the validators of boundary data, \<open>overlap\<close> and \<open>apply\<close>,
    with the specification \<open>tree_ops\<close> on trees.
  \<^item> \<open>Delta_Codec\<close> (\<open>delta/index.ts\<close>): wire operations, encoder and decoder.
  \<^item> \<open>Delta_Diff\<close>, \<open>Delta_Matches\<close>, \<open>Delta_Correct\<close> (\<open>delta/diff.ts\<close>): the differ, its array alignments,
    and its correctness.
  \<^item> \<open>Delta_Replica\<close>: the whole pipeline.
  \<^item> \<open>Delta_Immutable\<close> (\<open>applyImmutable\<close> of \<open>delta/index.ts\<close>): the copy-on-write replay. A \<open>replay\<close> is the set
    of containers it owns (the \<open>WeakSet\<close>) and the next free address.

  The evidence store, \<open>packages/sec-agent/src/evidence\<close>. HTTP exchanges are frozen as content-addressed
  bodies and a row whose id is the hash of its facts; subjects bind snapshots under an optimistic
  lock; findings move through a lifecycle under the same lock; a collector deletes what nobody bound
  for a day.

  \<^item> \<open>Utf8\<close>: UTF-8 and its inverse, for the judge's byte bound and for hashing.
  \<^item> \<open>Evidence_Hash\<close> (\<open>hashing.ts\<close>): the fields of a snapshot, their checks, the byte encoding on 8-, 32-
    and 64-bit words, and that the encoding is injective on normal records.
  \<^item> \<open>Findings_Vocabulary\<close> (\<open>finding-vocabulary.ts\<close>): severities, statuses, transitions.
  \<^item> \<open>Evidence_Store\<close> (\<open>store.ts\<close>, \<open>blobs.ts\<close>, \<open>schema.ts\<close>): the record \<open>evidence_state\<close> of tables, body
    files and audit spans, and one definition per method, with its transaction and its SQL statements
    as list operations.
  \<^item> \<open>Evidence_Sound\<close>: runs of calls as an inductive relation, and the invariants of every run.
  \<^item> \<open>Evidence_Laws\<close>, \<open>Evidence_Claims\<close>: the lock, the reads, findings, the collector; the properties.

  The in-memory storage, \<open>packages/gibraltar/src/storage/memory.ts\<close>. A session commits batches of writes:
  conversations and their forks, transcript entries, tasks, submissions, and documents that keep their
  revisions as bases and delta batches. A batch is validated against the whole store, then applied
  without a failure; reads page through sorted indexes, walk fork chains, and replay documents with
  \<open>applyImmutableBatches\<close> as of an earlier commit.

  \<^item> \<open>Storage_Scan\<close> (\<open>memory.ts\<close>, \<open>scan.ts\<close>, \<open>scanAll\<close> of \<open>harness/util.ts\<close>): sorted id lists, cursors,
    pages, and the client loop that follows the cursors.
  \<^item> \<open>Storage\<close> (\<open>types.ts\<close>, \<open>memory.ts\<close>): the records, the record \<open>storage_state\<close> of the maps and lists of
    \<open>State\<close> with the two counters and the closed flag, and \<open>materializeDocument\<close>. A key that the code
    builds with \<open>JSON.stringify\<close> is the tuple it encodes.
  \<^item> \<open>Storage_Commit\<close>: \<open>prepareCommit\<close> and \<open>apply\<close>, \<open>mintId\<close>, \<open>deleteConversation\<close>,
    \<open>updateConversationMeta\<close>, \<open>close\<close>; every \<open>throw\<close> is a constructor of \<open>storage_error\<close>, and a \<open>!\<close> on
    an absent value is \<open>EngineTypeError\<close>.
  \<^item> \<open>Storage_Tables\<close>, \<open>Storage_Sound\<close>, \<open>Storage_Kept\<close>, \<open>Storage_Life\<close>: the invariant \<open>consistent\<close>, that
    each write and each document action keeps it, that a validated batch applies, and deletion;
    \<open>storage_run\<close> is a run of calls, \<open>storage_effect\<close> what one call may do.
  \<^item> \<open>Storage_Reads\<close>: every read, \<open>exportConversation\<close> included (as the list of rows its lines encode).
  \<^item> \<open>Storage_Rows\<close>, \<open>Storage_Forks\<close>, \<open>Storage_History\<close>: what scans return, what a forked conversation
    \<open>sees\<close>, how a store grows; \<open>Storage_Claims\<close>: the properties.

  The model context, \<open>packages/gibraltar/src/harness/context.ts\<close>: what the next request to a model holds,
  derived from the transcript in the storage.

  \<^item> \<open>Context_Order\<close>: messages, tool results behind the calls they answer, the leading system message.
  \<^item> \<open>Context_View\<close>: bounds, edits, ranges, and reads, full or continuing an earlier range. A read takes the
    state its bounds are captured in and the state it scans in.
  \<^item> \<open>Context_Extend\<close>, \<open>Context_Claims\<close>: extending is deriving anew, stores that are only appended to, what
    reads return; the properties.

  What is shown. For the guard: what each layer decides, on every branch (functional and error
  properties of \<open>Scope_Registry\<close>, \<open>Rule_Table\<close>, \<open>Danger\<close>, \<open>Judge\<close>, \<open>Mode\<close>); what the chain as a whole
  allows, denies and cannot be argued out of (\<open>Guard\<close>); where grants and spans come from over any
  session (\<open>guard_session\<close>, by rule induction); what an attestation proves (\<open>Attest\<close>); and, in this
  theory, what this means for a call on this machine and for an unattended agent. For the deltas:
  \<open>apply\<close> refines the tree semantics, the validators accept exactly the well-formed operations, the
  codec is a round trip that recovers at every base, the differ always ends and is right, and
  replicas converge; the copy-on-write appliers agree with \<open>apply\<close> and change nothing that was published.
  For the storage: in every run the tables, indexes and revision chains fit together and no batch is
  applied in part; paged scans are complete; both walks of a fork chain give one transcript; the past of
  a document does not change; ids are never reused; a deletion is exact. For the model context: every tool
  call is answered once and in place, an incremental read returns what a full read returns, and a fork
  starts with the context of its fork point. For the evidence store: in every state a run of calls reaches the tables are sound
  and all bound evidence reads back; an id binds its facts; stale writers are rejected and failed
  writes change nothing; findings follow their transitions; the collector takes exactly what it says.

  Interfaces as locales: \<open>strict_precedence\<close> (what the winner of a rule table needs of its comparison),
  \<open>scope_registry_contract\<close> (what the resolver needs of a registry), \<open>grant_store\<close>, \<open>stream_codec\<close> and its
  extension \<open>revision_engine\<close>, and for the store \<open>store_invariant\<close>, \<open>step_invariant\<close> and
  \<open>kept_invariant\<close> (what each operation must keep, so that every run does), \<open>paged_scan\<close> (what the
  client loop needs of a scan: six interpretations) and \<open>storage_history\<close> (a relation every effect on the
  storage keeps, so that every run does); each is interpreted on the
  model's own definitions in the theory that provides them.

  Parameters, for code that is not in the sources: \<open>JSON.parse\<close> and \<open>JSON.stringify\<close> of primitives,
  SHA-256, the judge's transport (an outcome with its time), the ask channel, the addresses of the
  machine, the files of the configuration, the session document behind \<open>HookApi\<close>, and the clock of the
  evidence store.

  Bounds. Recursion is structural or has a termination proof, except: the differ takes fuel, and
  \<open>diffRevisions\<close> passes the weight of the old revision, which is proved enough (\<open>diff_total_bounded\<close>);
  the loops over fork chains and over pages are \<open>partial_function\<close>s, \<open>None\<close> when they do not return (a fork
  chain with a cycle is not refused by a commit), and the properties state that they return;
  the walk through a chain of candidates takes the number of candidates as fuel; nested shells in a
  command are followed to the depth the source sets.

  What the model leaves out. Strings are the characters with code units below 256, so the Chinese
  alternatives of the danger patterns are omitted and an em dash in a message is a hyphen; numbers in
  paths are below 10 to the 21; \<open>apply\<close> takes documents as trees, without an object in two places, and
  when it throws the model does not tell what it had changed by then. In \<open>probe 6\<close> the test for an
  \<open>undefined\<close> decision holds by typing. Calls of the evidence store run one after the other: its index is
  serialised by the database, but a file that changes under a collection is not seen by the model; one
  time stands for the store's clock and the file system's. Storage ids and sequences are integers: adding
  one to a safe integer is exact, and \<open>mintId\<close> and \<open>prepareCommit\<close> test for safety as the code does.
  Transcript properties assume ancestry as the session makes it (\<open>ancestral\<close>: a parent is older than its
  fork, and a fork's own entries newer than the fork point), which the storage does not check; cloning and
  freezing are the identity on values. Incremental context reads are exact while nothing is deleted, entries
  carry ids minted after the capture and a head points to an earlier entry (\<open>appends\<close>, \<open>heads_back\<close>); messages
  are taken to have the properties their types declare; the pages of one scan see one state. Not modelled: the tracker of \<open>delta/tracker.ts\<close> (JavaScript
  proxies), \<open>apply-immutable-trusted.ts\<close> (operations and documents that no validator has seen, read
  through prototypes), chord's connections and hosts, the session, its transactions and the SQLite
  storage, the model providers, the terminal interface, the server and the retired agent under
  \<open>scripts/legacy\<close>.
\<close>

section \<open>Properties that span components\<close>


definition bare_options :: guard_options where
  "bare_options =
     \<lparr>o_mode = AStr ''yolo'', o_scopeResolver = Some (\<lambda>_. \<lparr>inScope = True, scope_reason = None\<rparr>),
      o_dangerEvaluator = Some (createTgSecDangerEvaluator Ctf), o_judge = None,
      o_askChannel = Some (\<lambda>_ _. Inr ReplyAlways), o_rules = None, o_hasSession = False,
      o_hostAddresses = [], o_judgeTimeoutMs = None\<rparr>"

lemma bare_options_build: "\<exists>c. createTgSecGuard bare_options = Inr (c, Yolo)"
  using isTgSecMode_text [of Yolo] by (simp add: createTgSecGuard_def bare_options_def)

definition fetch_call :: "string \<Rightarrow> tool_call" where
  "fetch_call u = \<lparr>call_name = ''fetch'', call_arguments = AObj [(''url'', AStr u)]\<rparr>"

lemma fetch_facts:
  "plain_word ''localhost''" "declared_host ''localhost'' = Some ''localhost''"
  by (simp_all add: word_eval declared_host_def to_lower_def URL_HEAD_def BARE_IPV4_def
      split_str_def Let_def is_scheme_char_def)



text \<open>A guard over the empty scope, in \<open>auto\<close> mode, that nobody attends.\<close>

definition unattended_options :: guard_options where
  "unattended_options =
     bare_options\<lparr>o_mode := AStr ''auto'', o_askChannel := None,
       o_scopeResolver := Some (createTgSecScopeResolver (outcome \<lparr>denies = [], allows = []\<rparr>))\<rparr>"

lemma unattended_options_build:
  "\<exists>c. createTgSecGuard unattended_options = Inr (c, Auto) \<and> ruleTable c = [] \<and>
     dangerEvaluator c = createTgSecDangerEvaluator Ctf \<and>
     scopeResolver c = createTgSecScopeResolver (outcome \<lparr>denies = [], allows = []\<rparr>)"
  using isTgSecMode_text [of Auto]
  by (simp add: createTgSecGuard_def unattended_options_def bare_options_def)


end
